(* ===== verification/Xv6_Prelude.thy ===== *)
theory Xv6_Prelude
  imports Main "HOL-Library.Word"
begin

unbundle bit_operations_syntax

section \<open>Prelude: C integer types, outcomes of kernel code, shared lemmas\<close>

text \<open>
  The types of \<^verbatim>\<open>kernel/types.h\<close> as words, the outcome type of every
  kernel routine of the development, the sequencing combinator in which the bodies of the
  routines are written, and the generic lemmas on words and lists the components share.

  A routine of the kernel that can \<^verbatim>\<open>panic\<close>, or that can be put to sleep, returns a
  value of type \<open>exn + 'a\<close>: \<open>Inl (Panic msg)\<close> is the call \<^verbatim>\<open>panic(msg)\<close>,
  \<open>Inl (Sleeping c)\<close> says that the routine reached a \<^verbatim>\<open>sleep\<close> on channel \<open>c\<close>
  whose wake-up condition does not hold in the state it was started in, and
  \<open>Inl (Spinning l)\<close> that it spins on a spin lock another CPU holds. \<open>Inl OutOfFuel\<close>
  ends a recursion or loop that the code does not bound, when the bound the model is given is
  used up; \<open>Inl OutOfBounds\<close> is an access outside an array, and \<open>Inl Hang\<close> an endless loop of the
  code. \<open>Inl Yielded\<close> and \<open>Inl Exited\<close> say that the process gave up the CPU in \<^verbatim>\<open>yield\<close> and in \<^verbatim>\<open>exit\<close>.
  \<open>Inr r\<close> is a normal return.
\<close>

type_synonym uchar = "8 word"
type_synonym ushort = "16 word"
type_synonym uint = "32 word"
type_synonym uint64 = "64 word"

subsection \<open>The objects the kernel locks and sleeps on\<close>

text \<open>
  A spin lock is named by the object it is a field of; a sleep lock is the lock of a buffer
  or of an in-memory inode, given by the index in its table; a sleep channel is the address
  passed to \<^verbatim>\<open>sleep\<close> and \<^verbatim>\<open>wakeup\<close>. A pipe is named by its page.
\<close>

datatype sleep_id = BufLock nat | InodeLock nat

datatype lock_id =
    KmemLock | PidLock | WaitLock | ProcLock nat | BcacheLock | LogLock | ItableLock
  | FtableLock | ConsLock | UartLock | TicksLock | VdiskLock | PrLock
  | PipeLock uint64 | SleepLk sleep_id

datatype chan =
    ChanProc nat | ChanTicks | ChanPipeRead uint64 | ChanPipeWrite uint64 | ChanLog
  | ChanSleeplock sleep_id | ChanBuf nat | ChanDiskFree | ChanConsR | ChanUartR

datatype exn = Panic string | Sleeping chan | Spinning lock_id | OutOfFuel | OutOfBounds | Hang | Yielded | Exited

subsection \<open>Sequencing\<close>

text \<open>\<open>andthen x f\<close>: run \<open>f\<close> on the result of \<open>x\<close> unless \<open>x\<close> did not return.\<close>

fun andthen :: "'e + 'a \<Rightarrow> ('a \<Rightarrow> 'e + 'b) \<Rightarrow> 'e + 'b" where
  "andthen (Inl e) f = Inl e"
| "andthen (Inr a) f = f a"

lemma andthen_cong [fundef_cong]:
  "x = x' \<Longrightarrow> (\<And>a. x' = Inr a \<Longrightarrow> f a = f' a) \<Longrightarrow> andthen x f = andthen x' f'"
  by (cases x') auto

lemma andthen_eq_Inr: "andthen x f = Inr b \<longleftrightarrow> (\<exists>a. x = Inr a \<and> f a = Inr b)"
  by (cases x) auto

lemma andthen_eq_Inl:
  "andthen x f = Inl e \<longleftrightarrow> x = Inl e \<or> (\<exists>a. x = Inr a \<and> f a = Inl e)"
  by (cases x) auto

lemma andthen_assoc: "andthen (andthen x f) g = andthen x (\<lambda>a. andthen (f a) g)"
  by (cases x) auto

lemma andthen_Inr_right [simp]: "andthen x Inr = x"
  by (cases x) auto

text \<open>The outcome satisfies a postcondition: the routine returned and \<open>P\<close> holds.\<close>

fun returns :: "'e + 'a \<Rightarrow> ('a \<Rightarrow> bool) \<Rightarrow> bool" where
  "returns (Inl e) P = False"
| "returns (Inr a) P = P a"

lemma returns_iff: "returns x P \<longleftrightarrow> (\<exists>a. x = Inr a \<and> P a)"
  by (cases x) auto

lemma returns_andthen: "returns (andthen x f) P \<longleftrightarrow> returns x (\<lambda>a. returns (f a) P)"
  by (cases x) auto

lemma returns_mono: "returns x P \<Longrightarrow> (\<And>a. P a \<Longrightarrow> Q a) \<Longrightarrow> returns x Q"
  by (cases x) auto

text \<open>A \<^verbatim>\<open>for\<close> loop over the values of its index.\<close>

fun for_each :: "'i list \<Rightarrow> ('i \<Rightarrow> 's \<Rightarrow> 'e + 's) \<Rightarrow> 's \<Rightarrow> 'e + 's" where
  "for_each [] f s = Inr s"
| "for_each (i # is) f s = andthen (f i s) (for_each is f)"

lemma for_each_append: "for_each (is @ js) f s = andthen (for_each is f s) (for_each js f)"
  by (induction "is" arbitrary: s) (auto simp: andthen_assoc intro: andthen_cong)

text \<open>The Hoare rule of the loop: an invariant on the indices done and the state.\<close>

lemma for_each_returns:
  assumes "I [] s"
    and "\<And>js j ks s. is = js @ j # ks \<Longrightarrow> I js s \<Longrightarrow> returns (f j s) (I (js @ [j]))"
  shows "returns (for_each is f s) (I is)"
proof -
  have "returns (for_each ks f s) (I (js @ ks))" if "is = js @ ks" "I js s" for js ks s
    using that
  proof (induction ks arbitrary: js s)
    case (Cons j ks)
    from assms(2) [OF Cons.prems] obtain t where "f j s = Inr t" "I (js @ [j]) t"
      by (auto simp: returns_iff)
    with Cons.IH [of "js @ [j]" t] Cons.prems(1) show ?case by simp
  qed simp
  from this [of "[]"] assms(1) show ?thesis by simp
qed

lemma for_each_fold:
  assumes "\<And>i s. i \<in> set is \<Longrightarrow> Q s \<Longrightarrow> f i s = Inr (u i s) \<and> Q (u i s)" "Q s"
  shows "for_each is f s = Inr (fold u is s) \<and> Q (fold u is s)"
  using assms by (induction "is" arbitrary: s) auto

text \<open>A loop that rewrites the entries of an array one after the other.\<close>

lemma fold_list_update:
  "n \<le> length xs \<Longrightarrow>
   fold (\<lambda>i xs. xs[i := g i (xs ! i)]) [0..<n] xs = map (\<lambda>i. g i (xs ! i)) [0..<n] @ drop n xs"
proof (induction n)
  case (Suc n)
  then have "drop n xs = xs ! n # drop (Suc n) xs" by (simp add: Cons_nth_drop_Suc)
  with Suc show ?case by (simp add: nth_append list_update_append)
qed simp

subsection \<open>Collections of rewrite rules\<close>

named_theorems page_simps \<open>arithmetic of page addresses\<close>
named_theorems mem_simps \<open>reads over writes of physical memory\<close>
named_theorems lock_simps \<open>locks taken and given back\<close>

subsection \<open>Invariants of step relations\<close>

text \<open>
  The interface of the interleaving models: the initial states, the steps and a predicate the
  initial states satisfy and every step keeps. It then holds in every reachable state.
\<close>

locale step_invariant =
  fixes init :: "'s \<Rightarrow> bool" and step :: "'s \<Rightarrow> 's \<Rightarrow> bool" and inv :: "'s \<Rightarrow> bool"
  assumes init_inv: "init s \<Longrightarrow> inv s"
    and step_inv: "step s t \<Longrightarrow> inv s \<Longrightarrow> inv t"
begin

lemma steps_inv: "step\<^sup>*\<^sup>* s t \<Longrightarrow> inv s \<Longrightarrow> inv t"
  by (induction rule: rtranclp_induct) (auto intro: step_inv)

lemma reachable_inv: "init s \<Longrightarrow> step\<^sup>*\<^sup>* s t \<Longrightarrow> inv t"
  by (blast intro: init_inv steps_inv)

end

subsection \<open>Words as natural numbers\<close>

lemma unat_add_small:
  fixes a b :: "'a::len word"
  assumes "unat a + unat b < 2 ^ LENGTH('a)"
  shows "unat (a + b) = unat a + unat b"
  using assms by (simp add: unat_word_ariths)

lemma unat_sub_small:
  fixes a b :: "'a::len word"
  assumes "b \<le> a"
  shows "unat (a - b) = unat a - unat b"
  using assms by (rule unat_sub)

lemma unat_of_nat_small:
  assumes "n < 2 ^ LENGTH('a)"
  shows "unat (of_nat n :: 'a::len word) = n"
  using assms by (simp add: unat_of_nat)

lemma unat_less_exp64 [simp]: "unat (a :: uint64) < 18446744073709551616"
  using unsigned_less [of a] by simp

lemma unat_less_exp32 [simp]: "unat (a :: uint) < 4294967296"
  using unsigned_less [of a] by simp

lemma unat_less_exp8 [simp]: "unat (a :: uchar) < 256"
  using unsigned_less [of a] by simp

lemma unat_add64: "unat (a + b :: uint64) = (unat a + unat b) mod 18446744073709551616"
  by (simp add: unat_word_ariths)

subsection \<open>Lists\<close>

lemma nth_list_update_if:
  "i < length xs \<Longrightarrow> xs[j := v] ! i = (if i = j then v else xs ! i)"
  by simp

lemma map_upt_shift: "map f [k..<k + n] = map (\<lambda>i. f (k + i)) [0..<n]"
  by (rule nth_equalityI) auto

end
