(* ===== verification/Riscv.thy ===== *)
theory Riscv
  imports Xv6_Prelude
begin

section \<open>The RISC-V macros, the memory layout and the system parameters\<close>

text \<open>
  The constants and macros of \<^verbatim>\<open>kernel/riscv.h\<close> (Sv39 paging),
  \<^verbatim>\<open>kernel/memlayout.h\<close> (physical and virtual layout) and \<^verbatim>\<open>kernel/param.h\<close>,
  with the arithmetic every page-level routine rests on: rounding to page boundaries, the
  packing of physical addresses and permission bits into page-table entries, the split of a
  virtual address into three 9-bit indices, and the placement of the kernel stacks.
\<close>

subsection \<open>Paging constants and macros\<close>

definition PGSIZE :: uint64 where [simp, code_unfold]: "PGSIZE = 4096"

definition PGSHIFT :: nat where [simp, code_unfold]: "PGSHIFT = 12"

definition PGROUNDUP :: "uint64 \<Rightarrow> uint64" where
  "PGROUNDUP sz = (sz + PGSIZE - 1) AND NOT (PGSIZE - 1)"

definition PGROUNDDOWN :: "uint64 \<Rightarrow> uint64" where
  "PGROUNDDOWN a = a AND NOT (PGSIZE - 1)"

definition PTE_V :: uint64 where [simp, code_unfold]: "PTE_V = 1"
definition PTE_R :: uint64 where [simp, code_unfold]: "PTE_R = 2"
definition PTE_W :: uint64 where [simp, code_unfold]: "PTE_W = 4"
definition PTE_X :: uint64 where [simp, code_unfold]: "PTE_X = 8"
definition PTE_U :: uint64 where [simp, code_unfold]: "PTE_U = 16"

definition PA2PTE :: "uint64 \<Rightarrow> uint64" where
  "PA2PTE pa = push_bit 10 (drop_bit 12 pa)"

definition PTE2PA :: "uint64 \<Rightarrow> uint64" where
  "PTE2PA pte = push_bit 12 (drop_bit 10 pte)"

definition PTE_FLAGS :: "uint64 \<Rightarrow> uint64" where
  "PTE_FLAGS pte = pte AND 0x3FF"

definition PXMASK :: uint64 where [simp, code_unfold]: "PXMASK = 0x1FF"

definition PXSHIFT :: "nat \<Rightarrow> nat" where
  "PXSHIFT level = PGSHIFT + 9 * level"

definition PX :: "nat \<Rightarrow> uint64 \<Rightarrow> uint64" where
  "PX level va = drop_bit (PXSHIFT level) va AND PXMASK"

definition MAXVA :: uint64 where [simp, code_unfold]: "MAXVA = 274877906944"

definition SATP_SV39 :: uint64 where [simp, code_unfold]: "SATP_SV39 = push_bit 60 8"

definition MAKE_SATP :: "uint64 \<Rightarrow> uint64" where
  "MAKE_SATP pagetable = SATP_SV39 OR drop_bit 12 pagetable"

subsection \<open>Control and status register bits\<close>

definition SSTATUS_SPP :: uint64 where [simp, code_unfold]: "SSTATUS_SPP = 256"
definition SSTATUS_SPIE :: uint64 where [simp, code_unfold]: "SSTATUS_SPIE = 32"
definition SSTATUS_SIE :: uint64 where [simp, code_unfold]: "SSTATUS_SIE = 2"

subsection \<open>Memory layout\<close>

definition UART0 :: uint64 where [simp, code_unfold]: "UART0 = 0x10000000"
definition VIRTIO0 :: uint64 where [simp, code_unfold]: "VIRTIO0 = 0x10001000"
definition PLIC :: uint64 where [simp, code_unfold]: "PLIC = 0x0c000000"
definition KERNBASE :: uint64 where [simp, code_unfold]: "KERNBASE = 0x80000000"
definition PHYSTOP :: uint64 where [simp, code_unfold]: "PHYSTOP = 0x88000000"
definition TRAMPOLINE :: uint64 where [simp, code_unfold]: "TRAMPOLINE = MAXVA - PGSIZE"

definition KSTACK :: "nat \<Rightarrow> uint64" where
  "KSTACK p = TRAMPOLINE - of_nat (p + 1) * 2 * PGSIZE"

definition TRAPFRAME :: uint64 where [simp, code_unfold]: "TRAPFRAME = TRAMPOLINE - PGSIZE"

subsection \<open>System parameters\<close>

definition NPROC :: nat where [simp, code_unfold]: "NPROC = 64"
definition NCPU :: nat where [simp, code_unfold]: "NCPU = 8"
definition NOFILE :: nat where [simp, code_unfold]: "NOFILE = 16"
definition NFILE :: nat where [simp, code_unfold]: "NFILE = 100"
definition NINODE :: nat where [simp, code_unfold]: "NINODE = 50"
definition NDEV :: nat where [simp, code_unfold]: "NDEV = 10"
definition ROOTDEV :: nat where "ROOTDEV = 1"
definition MAXARG :: nat where [simp, code_unfold]: "MAXARG = 32"
definition MAXOPBLOCKS :: nat where [simp, code_unfold]: "MAXOPBLOCKS = 10"
definition LOGSIZE :: nat where [simp, code_unfold]: "LOGSIZE = MAXOPBLOCKS * 3"
definition NBUF :: nat where [simp, code_unfold]: "NBUF = MAXOPBLOCKS * 3"
definition FSSIZE :: nat where [simp, code_unfold]: "FSSIZE = 2000"
definition MAXPATH :: nat where [simp, code_unfold]: "MAXPATH = 128"

lemma ROOTDEV_neq [simp]: "ROOTDEV \<noteq> 0" "0 \<noteq> ROOTDEV"
  by (simp_all add: ROOTDEV_def)

subsection \<open>Rounding to page boundaries\<close>

lemma unat_drop_bit: "unat (drop_bit n (a :: 'a::len word)) = unat a div 2 ^ n"
  by (simp only: unsigned_drop_bit_eq flip: drop_bit_eq_div) (simp add: take_bit_nat_eq_self)

lemma and_minus_4096: "(a :: uint64) AND - 4096 = push_bit 12 (drop_bit 12 a)"
proof (rule bit_word_eqI)
  fix n :: nat
  assume n: "n < LENGTH(64)"
  have *: "(- 4096 :: uint64) = NOT (mask 12)" by (simp add: mask_eq_exp_minus_1)
  show "bit (a AND - 4096) n \<longleftrightarrow> bit (push_bit 12 (drop_bit 12 a)) n"
    unfolding * using n by (auto simp: bit_simps)
qed

lemma unat_push_drop12: "unat (push_bit 12 (drop_bit 12 (a :: uint64))) = unat a div 4096 * 4096"
proof -
  have "unat (drop_bit 12 a) = unat a div 4096"
    by (subst unat_drop_bit) simp
  moreover have "unat a div 4096 * 4096 < 2 ^ 64"
    using le_less_trans [OF div_times_less_eq_dividend unsigned_less, of a 4096] by simp
  ultimately show ?thesis
    by (simp only: push_bit_eq_mult unat_word_ariths) (simp add: mult.commute)
qed

lemma unat_PGROUNDDOWN: "unat (PGROUNDDOWN a) = unat a div 4096 * 4096"
  using unat_push_drop12 [of a] by (simp only: PGROUNDDOWN_def PGSIZE_def) (simp add: and_minus_4096)

lemma unat_PGROUNDUP:
  assumes "unat a + 4095 < 2 ^ 64"
  shows "unat (PGROUNDUP a) = (unat a + 4095) div 4096 * 4096"
proof -
  have "PGROUNDUP a = push_bit 12 (drop_bit 12 (a + 4095))"
    by (simp add: PGROUNDUP_def and_minus_4096 add.commute)
  moreover have "unat (a + 4095) = unat a + 4095"
    using assms by (simp add: unat_add64)
  ultimately show ?thesis by (simp only: unat_push_drop12)
qed

text \<open>A page address is a multiple of the page size.\<close>

definition page_aligned :: "uint64 \<Rightarrow> bool" where
  "page_aligned a \<longleftrightarrow> unat a mod 4096 = 0"

lemma page_aligned_0 [simp]: "page_aligned 0"
  by (simp add: page_aligned_def)

lemma page_aligned_PGROUNDDOWN [simp]: "page_aligned (PGROUNDDOWN a)"
  by (simp add: page_aligned_def unat_PGROUNDDOWN)

lemma page_aligned_PGROUNDUP [simp]: "page_aligned (PGROUNDUP a)"
  using unat_push_drop12 [of "a + 4095"]
  by (simp add: page_aligned_def PGROUNDUP_def and_minus_4096 add.commute)

lemma page_aligned_mod: "page_aligned a \<longleftrightarrow> a mod 4096 = 0"
  by (simp add: page_aligned_def unat_mod flip: unat_eq_zero)

lemma page_aligned_top: "page_aligned a \<Longrightarrow> unat a + 4096 \<le> 2 ^ 64"
proof -
  assume "page_aligned a"
  then obtain q where q: "unat a = 4096 * q"
    unfolding page_aligned_def by (auto simp: mod_eq_0_iff_dvd)
  then have "q < 2 ^ 52" using unat_less_exp64 [of a] by simp
  with q show ?thesis by simp
qed

text \<open>Within a page, adding an offset does not wrap around.\<close>

lemma unat_page_offset:
  "page_aligned a \<Longrightarrow> k < 4096 \<Longrightarrow> unat (a + of_nat k) = unat a + k"
  using page_aligned_top [of a] by (simp add: unat_add64 unat_of_nat)

lemma PGROUNDDOWN_aligned: "page_aligned a \<Longrightarrow> PGROUNDDOWN a = a"
  by (auto simp: word_unat_eq_iff unat_PGROUNDDOWN page_aligned_def mod_eq_0_iff_dvd)

lemma PGROUNDDOWN_le: "PGROUNDDOWN a \<le> a"
  by (simp add: word_le_nat_alt unat_PGROUNDDOWN)

lemma PGROUNDDOWN_offset: "unat (a - PGROUNDDOWN a) = unat a mod 4096"
  by (simp add: unat_sub PGROUNDDOWN_le unat_PGROUNDDOWN minus_div_mult_eq_mod)

lemma PGROUNDDOWN_page: "page_aligned a \<Longrightarrow> k < 4096 \<Longrightarrow> PGROUNDDOWN (a + of_nat k) = a"
  by (auto simp: word_unat_eq_iff unat_PGROUNDDOWN unat_page_offset page_aligned_def
      mod_eq_0_iff_dvd elim!: dvdE)

lemma PGROUNDUP_ge:
  assumes "unat a + 4095 < 2 ^ 64"
  shows "a \<le> PGROUNDUP a"
proof -
  have "unat a \<le> (unat a + 4095) div 4096 * 4096" by linarith
  then show ?thesis by (simp add: word_le_nat_alt unat_PGROUNDUP [OF assms])
qed

lemma PGROUNDUP_le_aligned:
  assumes "unat a + 4095 < 2 ^ 64" "page_aligned b" "a \<le> b"
  shows "PGROUNDUP a \<le> b"
proof -
  obtain q where q: "unat b = 4096 * q" using assms(2) by (auto simp: page_aligned_def mod_eq_0_iff_dvd)
  with assms(3) have "unat a \<le> 4096 * q" by (simp add: word_le_nat_alt)
  then have "(unat a + 4095) div 4096 \<le> q" by linarith
  then show ?thesis by (simp add: word_le_nat_alt unat_PGROUNDUP [OF assms(1)] q)
qed

subsection \<open>Page-table entries\<close>

lemma aligned_bits: "page_aligned a \<Longrightarrow> n < 12 \<Longrightarrow> \<not> bit a n"
proof -
  assume "page_aligned a" and n: "n < 12"
  then have "take_bit 12 (unat a) = 0"
    by (simp add: page_aligned_def take_bit_eq_mod)
  then have "take_bit 12 a = 0"
    by (simp add: word_unat_eq_iff unsigned_take_bit_eq)
  then have "\<not> bit (take_bit 12 a) n" by simp
  with n show ?thesis by (simp add: bit_take_bit_iff)
qed

lemma less_1024_iff: "(fl :: uint64) < 1024 \<longleftrightarrow> take_bit 10 fl = fl"
  by (simp add: word_unat_eq_iff unsigned_take_bit_eq take_bit_nat_eq_self_iff word_less_nat_alt)

lemma flag_bits: "(fl :: uint64) < 1024 \<Longrightarrow> 10 \<le> n \<Longrightarrow> \<not> bit fl n"
  unfolding less_1024_iff by (metis bit_take_bit_iff not_less)

lemma bit_PA2PTE: "bit (PA2PTE pa) n \<longleftrightarrow> 10 \<le> n \<and> bit pa (n + 2)"
proof -
  have "\<not> bit pa (n + 2)" if "64 \<le> n"
    using that bit_imp_le_length [of pa "n + 2"] by auto
  then show ?thesis
    by (auto simp: PA2PTE_def bit_simps not_less [symmetric])
qed

lemma bit_PTE2PA: "bit (PTE2PA pte) n \<longleftrightarrow> 12 \<le> n \<and> n < 64 \<and> bit pte (n - 2)"
  by (auto simp: PTE2PA_def bit_simps)

lemma PTE2PA_PA2PTE:
  assumes "page_aligned pa" and "fl < 1024"
  shows "PTE2PA (PA2PTE pa OR fl) = pa"
proof (rule bit_word_eqI)
  fix n :: nat
  assume n: "n < LENGTH(64)"
  show "bit (PTE2PA (PA2PTE pa OR fl)) n \<longleftrightarrow> bit pa n"
  proof (cases "n < 12")
    case True
    then show ?thesis using aligned_bits [OF assms(1)] by (simp add: bit_PTE2PA)
  next
    case False
    then have "n = (n - 2) + 2" "10 \<le> n - 2" by auto
    then obtain k where "n = k + 2" "10 \<le> k" by blast
    then show ?thesis using n flag_bits [OF assms(2), of k]
      by (simp add: bit_PTE2PA bit_or_iff bit_PA2PTE)
  qed
qed

lemma PTE_FLAGS_PA2PTE:
  assumes "fl < 1024"
  shows "PTE_FLAGS (PA2PTE pa OR fl) = fl"
proof (rule bit_word_eqI)
  fix n :: nat
  assume n: "n < LENGTH(64)"
  have m: "(0x3FF :: uint64) = mask 10" by (simp add: mask_eq_exp_minus_1)
  show "bit (PTE_FLAGS (PA2PTE pa OR fl)) n \<longleftrightarrow> bit fl n"
    using n flag_bits [OF assms] unfolding PTE_FLAGS_def m
    by (auto simp: bit_simps bit_PA2PTE intro: leI)
qed

lemma page_aligned_PTE2PA [simp]: "page_aligned (PTE2PA pte)"
proof -
  have "take_bit 12 (PTE2PA pte) = 0"
    by (rule bit_word_eqI) (simp add: bit_take_bit_iff bit_PTE2PA)
  then have "take_bit 12 (unat (PTE2PA pte)) = 0"
    by (simp flip: unsigned_take_bit_eq)
  then show ?thesis by (simp add: page_aligned_def take_bit_eq_mod)
qed

subsection \<open>The indices of a virtual address\<close>

lemma unat_PX: "unat (PX l va) = unat va div 2 ^ (12 + 9 * l) mod 512"
proof -
  have m: "(0x1FF :: uint64) = mask 9" by (simp add: mask_eq_exp_minus_1)
  have "PX l va = take_bit 9 (drop_bit (12 + 9 * l) va)"
    unfolding PX_def PXSHIFT_def PXMASK_def PGSHIFT_def m by (simp only: take_bit_eq_mask)
  then show ?thesis
    by (simp only: unsigned_take_bit_eq unat_drop_bit) (simp add: take_bit_eq_mod)
qed

lemma PX_less: "unat (PX l va) < 512"
  by (simp add: unat_PX)

lemma div_div_pages: "(n :: nat) div 2 ^ (12 + 9 * l) = n div 4096 div 512 ^ l"
  by (simp add: power_add power_mult div_mult2_eq)

lemma page_number_split:
  assumes "va < MAXVA"
  shows "unat va div 4096
         = (unat (PX 2 va) * 512 + unat (PX 1 va)) * 512 + unat (PX 0 va)"
proof -
  define q where "q = unat va div 4096"
  have "unat va < 2 ^ 38" using assms by (simp add: word_less_nat_alt)
  then have "q < 512 * 512 * 512" by (simp add: q_def less_mult_imp_div_less)
  then have 2: "unat (PX 2 va) = q div 512 div 512"
    by (simp only: unat_PX div_div_pages q_def [symmetric])
      (simp add: power2_eq_square div_mult2_eq less_mult_imp_div_less)
  have 1: "unat (PX 1 va) = q div 512 mod 512" and 0: "unat (PX 0 va) = q mod 512"
    by (simp_all only: unat_PX div_div_pages q_def [symmetric]) simp_all
  show ?thesis unfolding q_def [symmetric] 0 1 2 by simp
qed

text \<open>Two addresses below \<open>MAXVA\<close> with the same three indices lie in the same page.\<close>

lemma PX_inj:
  assumes "va < MAXVA" "vb < MAXVA" "PX 2 va = PX 2 vb" "PX 1 va = PX 1 vb" "PX 0 va = PX 0 vb"
  shows "PGROUNDDOWN va = PGROUNDDOWN vb"
proof -
  have "unat va div 4096 = unat vb div 4096"
    using page_number_split [OF assms(1)] page_number_split [OF assms(2)] assms(3-5) by simp
  then show ?thesis by (simp add: word_unat_eq_iff unat_PGROUNDDOWN)
qed

lemma PX_PGROUNDDOWN: "PX l (PGROUNDDOWN va) = PX l va"
proof -
  have "unat va div 4096 * 4096 div 2 ^ (12 + 9 * l) = unat va div 2 ^ (12 + 9 * l)"
    by (simp add: div_div_pages)
  then show ?thesis by (simp add: word_unat_eq_iff unat_PX unat_PGROUNDDOWN)
qed

subsection \<open>Properties\<close>

text \<open>
  Rounding up. For every address at which the macro does not overflow, \<open>PGROUNDUP a\<close>
  is the least page-aligned address that is not below \<open>a\<close>.
\<close>

lemma PGROUNDUP_least:
  assumes "unat a + 4095 < 2 ^ 64"
  shows "page_aligned (PGROUNDUP a) \<and> a \<le> PGROUNDUP a \<and>
         (\<forall>b. page_aligned b \<and> a \<le> b \<longrightarrow> PGROUNDUP a \<le> b)"
  using PGROUNDUP_ge [OF assms] PGROUNDUP_le_aligned [OF assms] by simp

text \<open>
  Page-table entries round trip. A page-aligned physical address and ten permission bits
  packed into an entry the way \<^verbatim>\<open>mappages\<close> packs them are what \<open>PTE2PA\<close> and
  \<open>PTE_FLAGS\<close> read back.
\<close>

lemma pte_roundtrip:
  assumes "page_aligned pa" and "perm < 1024"
  shows "PTE2PA (PA2PTE pa OR perm OR PTE_V) = pa \<and>
         PTE_FLAGS (PA2PTE pa OR perm OR PTE_V) = perm OR PTE_V"
proof -
  have "perm OR 1 < 1024"
    using assms(2) by (simp add: less_1024_iff take_bit_or)
  from PTE2PA_PA2PTE [OF assms(1) this] PTE_FLAGS_PA2PTE [OF this]
  show ?thesis by (simp add: or.assoc)
qed

lemma unat_KSTACK: "p < 64 \<Longrightarrow> unat (KSTACK p) = 4096 * (67108861 - 2 * p)"
proof -
  assume p: "p < 64"
  have "unat (of_nat (p + 1) * 2 * 4096 :: uint64) = (p + 1) * 8192"
    using p by (simp add: unat_word_ariths unat_of_nat)
  moreover from this p have "of_nat (p + 1) * 2 * 4096 \<le> (274877902848 :: uint64)"
    by (simp only: word_le_nat_alt) simp
  ultimately show ?thesis unfolding KSTACK_def by (subst unat_sub) simp_all
qed

text \<open>
  Kernel stacks are guarded. Every process slot's kernel stack is a page between the top
  of physical memory and the trampoline; the stacks of two slots, and the guard page
  below each stack, are pairwise different pages, so that an overflow of one kernel stack
  never lands in a mapped page.
\<close>

lemma kstacks_guarded:
  assumes "p < NPROC" and "q < NPROC"
  shows "page_aligned (KSTACK p) \<and> PHYSTOP < KSTACK p \<and> KSTACK p + PGSIZE < TRAMPOLINE \<and>
         KSTACK p - PGSIZE \<noteq> KSTACK q \<and> (p \<noteq> q \<longrightarrow> KSTACK p \<noteq> KSTACK q)"
proof -
  have p: "unat (KSTACK p) = 4096 * (67108861 - 2 * p)" and p64: "p < 64"
    and q: "unat (KSTACK q) = 4096 * (67108861 - 2 * q)" and q64: "q < 64"
    using assms by (simp_all add: unat_KSTACK)
  have up: "unat (KSTACK p + 4096) = unat (KSTACK p) + 4096"
    using p64 by (simp add: unat_add64 p)
  have down: "unat (KSTACK p - 4096) = 4096 * (67108860 - 2 * p)"
    using p64 by (subst unat_sub) (simp_all add: word_le_nat_alt p)
  have "67108860 - 2 * p \<noteq> 67108861 - 2 * q" using p64 q64 by presburger
  then have "KSTACK p - PGSIZE \<noteq> KSTACK q" using down q by auto
  moreover have "p \<noteq> q \<longrightarrow> KSTACK p \<noteq> KSTACK q" using p q p64 q64 by auto
  moreover have "page_aligned (KSTACK p)" by (simp add: page_aligned_def p)
  moreover have "PHYSTOP < KSTACK p" "KSTACK p + PGSIZE < TRAMPOLINE"
    using p64 up by (simp_all add: word_less_nat_alt p)
  ultimately show ?thesis by blast
qed

end
