(* ===== verification/Spinlock.thy ===== *)
theory Spinlock
  imports Riscv
begin

section \<open>Spin locks\<close>

text \<open>
  \<^verbatim>\<open>kernel/spinlock.c\<close> at two levels. The detailed level (suffix \<open>_smp\<close>) has every
  CPU's interrupt-enable bit and \<^verbatim>\<open>struct cpu\<close> bookkeeping and every lock's
  \<^verbatim>\<open>locked\<close> word and owner. The abstract level is what the rest of the kernel relies
  on: the list of the locks the running CPU holds, most recently acquired first, whose length
  is the CPU's \<^verbatim>\<open>noff\<close>. \<open>acquire_refines\<close> and \<open>release_refines\<close> relate the two,
  and an interleaving model at the granularity of the atomic instructions gives mutual
  exclusion.
\<close>

subsection \<open>The detailed level\<close>

text \<open>\<^verbatim>\<open>struct spinlock\<close>, the debugging name left out, and \<^verbatim>\<open>struct cpu\<close>,
  the scheduler's fields left out.\<close>

record spinlock =
  locked :: uint
  lkcpu :: "nat option"

record cpu =
  noff :: int
  intena :: bool

record smp =
  cpus :: "nat \<Rightarrow> cpu"
  sie :: "nat \<Rightarrow> bool"
  locks :: "lock_id \<Rightarrow> spinlock"

definition intr_get :: "nat \<Rightarrow> smp \<Rightarrow> bool" where
  "intr_get c s = sie s c"

definition intr_on :: "nat \<Rightarrow> smp \<Rightarrow> smp" where
  "intr_on c s = s\<lparr>sie := (sie s)(c := True)\<rparr>"

definition intr_off :: "nat \<Rightarrow> smp \<Rightarrow> smp" where
  "intr_off c s = s\<lparr>sie := (sie s)(c := False)\<rparr>"

definition initlock :: "lock_id \<Rightarrow> smp \<Rightarrow> smp" where
  "initlock l s = s\<lparr>locks := (locks s)(l := \<lparr>locked = 0, lkcpu = None\<rparr>)\<rparr>"

definition holding_smp :: "nat \<Rightarrow> lock_id \<Rightarrow> smp \<Rightarrow> bool" where
  "holding_smp c l s \<longleftrightarrow> locked (locks s l) \<noteq> 0 \<and> lkcpu (locks s l) = Some c"

definition push_off :: "nat \<Rightarrow> smp \<Rightarrow> smp" where
  "push_off c s =
     (let old = intr_get c s;
          s = intr_off c s;
          s = (if noff (cpus s c) = 0
               then s\<lparr>cpus := (cpus s)(c := (cpus s c)\<lparr>intena := old\<rparr>)\<rparr> else s)
      in s\<lparr>cpus := (cpus s)(c := (cpus s c)\<lparr>noff := noff (cpus s c) + 1\<rparr>)\<rparr>)"

definition pop_off :: "nat \<Rightarrow> smp \<Rightarrow> exn + smp" where
  "pop_off c s =
     (if intr_get c s then Inl (Panic ''pop_off - interruptible'')
      else if noff (cpus s c) < 1 then Inl (Panic ''pop_off'')
      else let s = s\<lparr>cpus := (cpus s)(c := (cpus s c)\<lparr>noff := noff (cpus s c) - 1\<rparr>)\<rparr>
           in Inr (if noff (cpus s c) = 0 \<and> intena (cpus s c) then intr_on c s else s))"

text \<open>The loop on \<^verbatim>\<open>__sync_lock_test_and_set\<close> leaves only when the swap reads 0.\<close>

definition acquire_smp :: "nat \<Rightarrow> lock_id \<Rightarrow> smp \<Rightarrow> exn + smp" where
  "acquire_smp c l s =
     (let s = push_off c s
      in if holding_smp c l s then Inl (Panic ''acquire'')
         else if locked (locks s l) \<noteq> 0 then Inl (Spinning l)
         else Inr (s\<lparr>locks := (locks s)(l := \<lparr>locked = 1, lkcpu = Some c\<rparr>)\<rparr>))"

definition release_smp :: "nat \<Rightarrow> lock_id \<Rightarrow> smp \<Rightarrow> exn + smp" where
  "release_smp c l s =
     (if \<not> holding_smp c l s then Inl (Panic ''release'')
      else let s = s\<lparr>locks := (locks s)(l := (locks s l)\<lparr>lkcpu := None\<rparr>)\<rparr>;
               s = s\<lparr>locks := (locks s)(l := (locks s l)\<lparr>locked := 0\<rparr>)\<rparr>
           in pop_off c s)"

subsection \<open>The abstract level\<close>

text \<open>
  The part of the state every kernel routine works on: the spin locks held by the CPU that
  runs it. The records of the other components extend this one.
\<close>

record kthread =
  held :: "lock_id list"

definition holding :: "lock_id \<Rightarrow> 'a kthread_scheme \<Rightarrow> bool" where
  "holding l s \<longleftrightarrow> l \<in> set (held s)"

definition acquire :: "lock_id \<Rightarrow> 'a kthread_scheme \<Rightarrow> exn + 'a kthread_scheme" where
  "acquire l s =
     (if holding l s then Inl (Panic ''acquire'') else Inr (s\<lparr>held := l # held s\<rparr>))"

definition release :: "lock_id \<Rightarrow> 'a kthread_scheme \<Rightarrow> exn + 'a kthread_scheme" where
  "release l s =
     (if \<not> holding l s then Inl (Panic ''release'') else Inr (s\<lparr>held := remove1 l (held s)\<rparr>))"

lemma acquire_free [lock_simps]:
  "l \<notin> set (held s) \<Longrightarrow> acquire l s = Inr (s\<lparr>held := l # held s\<rparr>)"
  by (simp add: acquire_def holding_def)

lemma acquire_held [lock_simps]: "l \<in> set (held s) \<Longrightarrow> acquire l s = Inl (Panic ''acquire'')"
  by (simp add: acquire_def holding_def)

lemma release_held [lock_simps]:
  "l \<in> set (held s) \<Longrightarrow> release l s = Inr (s\<lparr>held := remove1 l (held s)\<rparr>)"
  by (simp add: release_def holding_def)

lemma release_top [lock_simps]:
  "held s = l # hs \<Longrightarrow> release l s = Inr (s\<lparr>held := hs\<rparr>)"
  by (simp add: release_def holding_def)

lemma release_free [lock_simps]: "l \<notin> set (held s) \<Longrightarrow> release l s = Inl (Panic ''release'')"
  by (simp add: release_def holding_def)

subsection \<open>Refinement\<close>

text \<open>
  CPU \<open>c\<close> of the detailed state holds exactly the locks of the abstract list, its
  nesting depth is the length of the list, and it runs with interrupts off while it holds any.
\<close>

definition lock_abs :: "nat \<Rightarrow> smp \<Rightarrow> lock_id list \<Rightarrow> bool" where
  "lock_abs c s hs \<longleftrightarrow>
     distinct hs \<and> (\<forall>l. holding_smp c l s \<longleftrightarrow> l \<in> set hs) \<and>
     noff (cpus s c) = int (length hs) \<and> (hs \<noteq> [] \<longrightarrow> \<not> intr_get c s)"

lemma push_off_fields [simp]:
  "locks (push_off c s) = locks s"
  "sie (push_off c s) = (sie s)(c := False)"
  "noff (cpus (push_off c s) c) = noff (cpus s c) + 1"
  "noff (cpus s c) \<noteq> 0 \<Longrightarrow> intena (cpus (push_off c s) c) = intena (cpus s c)"
  "noff (cpus s c) = 0 \<Longrightarrow> intena (cpus (push_off c s) c) = sie s c"
  "d \<noteq> c \<Longrightarrow> cpus (push_off c s) d = cpus s d"
  by (simp_all add: push_off_def Let_def intr_off_def intr_get_def)

lemma holding_push_off [simp]: "holding_smp d l (push_off c s) = holding_smp d l s"
  by (simp add: holding_smp_def)

text \<open>
  C40: \<open>acquire\<close> is implemented. From related states, \<open>acquire_smp\<close> panics exactly
  when the abstract operation does; otherwise it either spins, because another CPU has
  the lock, or returns in a state related to the abstract result.
\<close>

theorem acquire_refines:
  assumes "lock_abs c s (held t)"
  shows "case acquire l t of
           Inl e \<Rightarrow> acquire_smp c l s = Inl e
         | Inr t' \<Rightarrow> (acquire_smp c l s = Inl (Spinning l) \<and> locked (locks s l) \<noteq> 0
                        \<and> lkcpu (locks s l) \<noteq> Some c)
                    \<or> returns (acquire_smp c l s) (\<lambda>s'. lock_abs c s' (held t'))"
proof (cases "holding_smp c l s")
  case True
  with assms show ?thesis
    by (simp add: acquire_def holding_def acquire_smp_def lock_abs_def Let_def)
next
  case False
  with assms show ?thesis
    by (auto simp: acquire_def holding_def acquire_smp_def lock_abs_def Let_def intr_get_def
        holding_smp_def split: if_splits)
qed

theorem acquire_refines_witness:
  "returns (acquire_smp 0 KmemLock
      \<lparr>cpus = (\<lambda>_. \<lparr>noff = 0, intena = False\<rparr>), sie = (\<lambda>_. True),
       locks = (\<lambda>_. \<lparr>locked = 0, lkcpu = None\<rparr>)\<rparr>)
     (\<lambda>s'. lock_abs 0 s' [KmemLock])"
proof -
  let ?s = "\<lparr>cpus = (\<lambda>_. \<lparr>noff = 0, intena = False\<rparr>), sie = (\<lambda>_. True),
       locks = (\<lambda>_. \<lparr>locked = 0, lkcpu = None\<rparr>)\<rparr>"
  have h: "lock_abs 0 ?s (held \<lparr>held = []\<rparr>)"
    by (simp add: lock_abs_def holding_smp_def)
  show ?thesis
    using acquire_refines [OF h, of KmemLock] by (simp add: acquire_def holding_def)
qed

text \<open>
  \<open>release\<close> is implemented. From related states, \<open>release_smp\<close> panics exactly
  when the abstract operation does, and otherwise returns in a state related to the
  abstract result in which the lock is free for every CPU.
\<close>

lemma release_refines:
  assumes "lock_abs c s (held t)"
  shows "case release l t of
           Inl e \<Rightarrow> release_smp c l s = Inl e
         | Inr t' \<Rightarrow> returns (release_smp c l s)
                       (\<lambda>s'. lock_abs c s' (held t') \<and> (\<forall>d. \<not> holding_smp d l s'))"
proof (cases "holding_smp c l s")
  case False
  with assms show ?thesis
    by (simp add: release_def holding_def release_smp_def lock_abs_def)
next
  case True
  with assms have l: "l \<in> set (held t)" and d: "distinct (held t)"
    and off: "\<not> sie s c" and n: "noff (cpus s c) = int (length (held t))"
    and h: "\<And>k. holding_smp c k s \<longleftrightarrow> k \<in> set (held t)"
    by (auto simp: lock_abs_def intr_get_def)
  from l have pos: "0 < length (held t)" by auto
  define s1 where "s1 = s\<lparr>locks := (locks s)(l := \<lparr>locked = 0, lkcpu = None\<rparr>)\<rparr>"
  have s1: "release_smp c l s = pop_off c s1"
    using True by (cases "locks s l") (simp add: release_smp_def s1_def Let_def)
  have "holding_smp c k s1 \<longleftrightarrow> k \<in> set (remove1 l (held t))" for k
    using h [of k] d by (auto simp: s1_def holding_smp_def)
  moreover have "\<not> holding_smp k l s1" for k by (simp add: s1_def holding_smp_def)
  moreover have "int (length (held t)) - 1 = int (length (remove1 l (held t)))"
    using l pos by (simp add: length_remove1 of_nat_diff Suc_le_eq)
  moreover have "remove1 l (held t) \<noteq> [] \<Longrightarrow> int (length (held t)) - 1 \<noteq> 0"
    using l by (cases "held t") (auto split: if_splits)
  ultimately show ?thesis
    using l d off n pos unfolding s1
    by (auto simp: release_def holding_def pop_off_def s1_def lock_abs_def intr_get_def intr_on_def
        holding_smp_def Let_def)
qed

subsection \<open>Nesting of \<open>push_off\<close> and \<open>pop_off\<close>\<close>

fun push_n :: "nat \<Rightarrow> nat \<Rightarrow> smp \<Rightarrow> smp" where
  "push_n 0 c s = s"
| "push_n (Suc n) c s = push_n n c (push_off c s)"

fun pop_n :: "nat \<Rightarrow> nat \<Rightarrow> smp \<Rightarrow> exn + smp" where
  "pop_n 0 c s = Inr s"
| "pop_n (Suc n) c s = andthen (pop_off c s) (pop_n n c)"

lemma push_n_fields:
  "0 < noff (cpus s c) \<Longrightarrow> noff (cpus (push_n n c s) c) = noff (cpus s c) + int n"
  "0 < noff (cpus s c) \<Longrightarrow> intena (cpus (push_n n c s) c) = intena (cpus s c)"
  "0 < noff (cpus s c) \<Longrightarrow> sie s c = False \<Longrightarrow> sie (push_n n c s) c = False"
  by (induction n arbitrary: s) simp_all

lemma pop_n_back:
  assumes "noff (cpus s c) = m + int n" and "0 < m" and "\<not> sie s c"
  shows "returns (pop_n n c s) (\<lambda>t. noff (cpus t c) = m \<and> \<not> sie t c
                                   \<and> intena (cpus t c) = intena (cpus s c))"
  using assms
proof (induction n arbitrary: s)
  case (Suc n)
  let ?s = "s\<lparr>cpus := (cpus s)(c := (cpus s c)\<lparr>noff := noff (cpus s c) - 1\<rparr>)\<rparr>"
  from Suc.prems have "pop_off c s = Inr ?s"
    by (simp add: pop_off_def intr_get_def Let_def)
  with Suc.IH [of ?s] Suc.prems show ?case by simp
qed simp

lemma pop_n_snoc: "pop_n (Suc n) c s = andthen (pop_n n c s) (pop_off c)"
proof (induction n arbitrary: s)
  case 0
  have "pop_n 0 c = Inr" by (rule ext) simp
  then show ?case by simp
next
  case (Suc n)
  have eq: "pop_n (Suc n) c = (\<lambda>s. andthen (pop_n n c s) (pop_off c))"
    by (rule ext) (rule Suc.IH)
  have "pop_n (Suc (Suc n)) c s = andthen (pop_off c s) (pop_n (Suc n) c)" by simp
  also have "\<dots> = andthen (andthen (pop_off c s) (pop_n n c)) (pop_off c)"
    by (simp only: eq andthen_assoc)
  finally show ?case by (simp only: pop_n.simps(2))
qed

text \<open>
  Interrupt disabling nests. A CPU that does not hold any lock and executes
  \<open>push_off\<close> n times and then \<open>pop_off\<close> n times never panics, has interrupts off in
  between, and ends with the interrupt-enable bit and the nesting depth it started with.
\<close>

lemma push_pop_nest:
  assumes "noff (cpus s c) = 0"
  shows "(0 < n \<longrightarrow> \<not> intr_get c (push_n n c s)) \<and>
         returns (pop_n n c (push_n n c s))
           (\<lambda>t. intr_get c t = intr_get c s \<and> noff (cpus t c) = 0)"
proof (cases n)
  case 0
  with assms show ?thesis by simp
next
  case (Suc k)
  let ?p = "push_n k c (push_off c s)"
  have p: "noff (cpus ?p c) = 1 + int k" "intena (cpus ?p c) = sie s c" "\<not> sie ?p c"
    using push_n_fields [of "push_off c s" c k] assms by simp_all
  obtain t where t: "pop_n k c ?p = Inr t"
      "noff (cpus t c) = 1" "\<not> sie t c" "intena (cpus t c) = sie s c"
    using pop_n_back [OF p(1) _ p(3)] p(2) by (auto simp: returns_iff)
  have "returns (pop_off c t) (\<lambda>t'. sie t' c = sie s c \<and> noff (cpus t' c) = 0)"
    using t(2-4) by (simp add: pop_off_def intr_get_def intr_on_def Let_def)
  then show ?thesis
    using p(3) t(1) unfolding Suc pop_n_snoc by (simp add: intr_get_def)
qed

subsection \<open>Mutual exclusion\<close>

text \<open>
  All CPUs at once, at the granularity of the atomic instructions of \<^verbatim>\<open>acquire\<close> and
  \<^verbatim>\<open>release\<close>: the swap of the \<^verbatim>\<open>locked\<close> word, the write of the owner field, its
  reset and the store that frees the lock are separate steps any other CPU can come between.
\<close>

datatype lpc = Running | Swapping lock_id | Swapped lock_id | Unowned lock_id

record lmach =
  sm :: smp
  pc :: "nat \<Rightarrow> lpc"

definition set_locked :: "lock_id \<Rightarrow> uint \<Rightarrow> smp \<Rightarrow> smp" where
  "set_locked l v s = s\<lparr>locks := (locks s)(l := (locks s l)\<lparr>locked := v\<rparr>)\<rparr>"

definition set_owner :: "lock_id \<Rightarrow> nat option \<Rightarrow> smp \<Rightarrow> smp" where
  "set_owner l v s = s\<lparr>locks := (locks s)(l := (locks s l)\<lparr>lkcpu := v\<rparr>)\<rparr>"

inductive lstep :: "lmach \<Rightarrow> lmach \<Rightarrow> bool" where
  enter: "pc m c = Running \<Longrightarrow> \<not> holding_smp c l (push_off c (sm m)) \<Longrightarrow>
     lstep m (m\<lparr>sm := push_off c (sm m), pc := (pc m)(c := Swapping l)\<rparr>)"
| swap_busy: "pc m c = Swapping l \<Longrightarrow> locked (locks (sm m) l) \<noteq> 0 \<Longrightarrow>
     lstep m (m\<lparr>sm := set_locked l 1 (sm m)\<rparr>)"
| swap_free: "pc m c = Swapping l \<Longrightarrow> locked (locks (sm m) l) = 0 \<Longrightarrow>
     lstep m (m\<lparr>sm := set_locked l 1 (sm m), pc := (pc m)(c := Swapped l)\<rparr>)"
| own: "pc m c = Swapped l \<Longrightarrow>
     lstep m (m\<lparr>sm := set_owner l (Some c) (sm m), pc := (pc m)(c := Running)\<rparr>)"
| disown: "pc m c = Running \<Longrightarrow> holding_smp c l (sm m) \<Longrightarrow>
     lstep m (m\<lparr>sm := set_owner l None (sm m), pc := (pc m)(c := Unowned l)\<rparr>)"
| unlock: "pc m c = Unowned l \<Longrightarrow> pop_off c (set_locked l 0 (sm m)) = Inr s' \<Longrightarrow>
     lstep m (m\<lparr>sm := s', pc := (pc m)(c := Running)\<rparr>)"

definition linit :: "lmach \<Rightarrow> bool" where
  "linit m \<longleftrightarrow> (\<forall>c. pc m c = Running) \<and> (\<forall>l. locks (sm m) l = \<lparr>locked = 0, lkcpu = None\<rparr>)"

text \<open>CPU \<open>c\<close> is between the swap that got lock \<open>l\<close> and the store that frees it.\<close>

definition owns :: "nat \<Rightarrow> lock_id \<Rightarrow> lmach \<Rightarrow> bool" where
  "owns c l m \<longleftrightarrow> pc m c = Swapped l \<or> pc m c = Unowned l \<or> holding_smp c l (sm m)"

definition lock_inv :: "lmach \<Rightarrow> bool" where
  "lock_inv m \<longleftrightarrow>
     (\<forall>l. (lkcpu (locks (sm m) l) \<noteq> None \<longrightarrow> locked (locks (sm m) l) \<noteq> 0) \<and>
          (\<forall>c. pc m c = Swapped l \<or> pc m c = Unowned l \<longrightarrow>
               locked (locks (sm m) l) \<noteq> 0 \<and> lkcpu (locks (sm m) l) = None) \<and>
          (\<forall>c d. (pc m c = Swapped l \<or> pc m c = Unowned l) \<and>
                 (pc m d = Swapped l \<or> pc m d = Unowned l) \<longrightarrow> c = d))"

lemma pop_off_locks: "pop_off c s = Inr s' \<Longrightarrow> locks s' = locks s"
  by (auto simp: pop_off_def Let_def intr_on_def split: if_splits)

lemma lstep_inv: "lstep m m' \<Longrightarrow> lock_inv m \<Longrightarrow> lock_inv m'"
proof (induction rule: lstep.induct)
  case (unlock m c l s')
  then show ?case
    by (simp add: lock_inv_def pop_off_locks set_locked_def) (metis lpc.distinct lpc.inject)
next
  case (swap_free m c l)
  then show ?case
    by (simp add: lock_inv_def set_locked_def) (metis option.exhaust)
next
  case (own m c l)
  then show ?case
    by (simp add: lock_inv_def set_owner_def) (metis lpc.distinct lpc.inject)
next
  case (disown m c l)
  then show ?case
    by (simp add: lock_inv_def set_owner_def holding_smp_def) (metis lpc.distinct option.distinct(1))
qed (simp add: lock_inv_def set_locked_def; metis lpc.distinct)+

interpretation spin: step_invariant linit lstep lock_inv
  by unfold_locales (simp add: linit_def lock_inv_def, rule lstep_inv)

text \<open>
  C36: mutual exclusion. In every state the CPUs can reach by executing the instructions of
  \<^verbatim>\<open>acquire\<close> and \<^verbatim>\<open>release\<close> in any interleaving, no lock is owned by two CPUs, and a
  lock some CPU owns has its \<^verbatim>\<open>locked\<close> word set.
\<close>

theorem spinlock_mutex:
  assumes "linit m0" and "lstep\<^sup>*\<^sup>* m0 m" and "owns c l m"
  shows "locked (locks (sm m) l) \<noteq> 0 \<and> (\<forall>d. owns d l m \<longrightarrow> d = c)"
  using spin.reachable_inv [OF assms(1,2)] assms(3)
  unfolding lock_inv_def owns_def holding_smp_def by (metis option.distinct(1) option.inject)

theorem spinlock_mutex_witness:
  "\<exists>m0 m. linit m0 \<and> lstep\<^sup>*\<^sup>* m0 m \<and> owns 0 KmemLock m \<and> (\<forall>d. owns d KmemLock m \<longrightarrow> d = 0)"
proof -
  define m0 where "m0 = \<lparr>sm = \<lparr>cpus = (\<lambda>_. \<lparr>noff = 0, intena = False\<rparr>), sie = (\<lambda>_. True),
       locks = (\<lambda>_. \<lparr>locked = 0, lkcpu = None\<rparr>)\<rparr>, pc = (\<lambda>_. Running)\<rparr>"
  define m1 where "m1 = m0\<lparr>sm := push_off 0 (sm m0), pc := (pc m0)(0 := Swapping KmemLock)\<rparr>"
  define m2 where "m2 = m1\<lparr>sm := set_locked KmemLock 1 (sm m1), pc := (pc m1)(0 := Swapped KmemLock)\<rparr>"
  have i: "linit m0" by (simp add: linit_def m0_def)
  have "lstep m0 m1" unfolding m1_def by (rule lstep.enter) (simp_all add: m0_def holding_smp_def)
  moreover have "lstep m1 m2" unfolding m2_def
    by (rule lstep.swap_free) (simp_all add: m1_def m0_def)
  ultimately have r: "lstep\<^sup>*\<^sup>* m0 m2" by (metis rtranclp.simps)
  have o: "owns 0 KmemLock m2" by (simp add: owns_def m2_def)
  from spinlock_mutex [OF i r o] i r o show ?thesis by blast
qed

end
