(* ===== verification/Kstring.thy ===== *)
theory Kstring
  imports Spinlock
begin

section \<open>Physical memory and \<open>kernel/string.c\<close>\<close>

text \<open>
  Physical memory is a function from 64-bit addresses to bytes. \<^verbatim>\<open>memset\<close>,
  \<^verbatim>\<open>memmove\<close> and \<^verbatim>\<open>memcpy\<close> work on it with the pointer arithmetic of the C
  code, wrap-around included. The string routines work on byte lists: the list of the bytes
  from the pointer to the end of the array it points into; reading at the end of the list
  gives the terminating NUL of a string literal. A 64-bit load or store is little endian.
\<close>

type_synonym memory = "uint64 \<Rightarrow> uchar"

subsection \<open>The machine\<close>

text \<open>
  Memory, and the addresses the linker script assigns: \<^verbatim>\<open>end\<close>, \<^verbatim>\<open>etext\<close>
  and the labels of \<^verbatim>\<open>trampoline.S\<close>.
\<close>

record machine = kthread +
  mem :: memory
  kend :: uint64
  etext :: uint64
  trampoline :: uint64

subsection \<open>Block operations\<close>

fun memset :: "uint64 \<Rightarrow> uchar \<Rightarrow> nat \<Rightarrow> memory \<Rightarrow> memory" where
  "memset dst c 0 m = m"
| "memset dst c (Suc n) m = memset (dst + 1) c n (m(dst := c))"

fun copy_up :: "uint64 \<Rightarrow> uint64 \<Rightarrow> nat \<Rightarrow> memory \<Rightarrow> memory" where
  "copy_up d s 0 m = m"
| "copy_up d s (Suc n) m = copy_up (d + 1) (s + 1) n (m(d := m s))"

fun copy_down :: "uint64 \<Rightarrow> uint64 \<Rightarrow> nat \<Rightarrow> memory \<Rightarrow> memory" where
  "copy_down d s 0 m = m"
| "copy_down d s (Suc n) m = copy_down (d - 1) (s - 1) n (m(d - 1 := m (s - 1)))"

definition memmove :: "uint64 \<Rightarrow> uint64 \<Rightarrow> nat \<Rightarrow> memory \<Rightarrow> memory" where
  "memmove dst src n m =
     (if n = 0 then m
      else if src < dst \<and> src + of_nat n > dst
      then copy_down (dst + of_nat n) (src + of_nat n) n m
      else copy_up dst src n m)"

definition memcpy :: "uint64 \<Rightarrow> uint64 \<Rightarrow> nat \<Rightarrow> memory \<Rightarrow> memory" where
  "memcpy dst src n m = memmove dst src n m"

subsection \<open>Strings\<close>

definition deref :: "uchar list \<Rightarrow> uchar" where
  "deref p = (case p of [] \<Rightarrow> 0 | c # _ \<Rightarrow> c)"

fun memcmp :: "uchar list \<Rightarrow> uchar list \<Rightarrow> nat \<Rightarrow> int" where
  "memcmp s1 s2 0 = 0"
| "memcmp s1 s2 (Suc n) =
     (if deref s1 \<noteq> deref s2 then uint (deref s1) - uint (deref s2)
      else memcmp (tl s1) (tl s2) n)"

fun strncmp :: "uchar list \<Rightarrow> uchar list \<Rightarrow> nat \<Rightarrow> int" where
  "strncmp p q 0 = 0"
| "strncmp p q (Suc n) =
     (if deref p \<noteq> 0 \<and> deref p = deref q then strncmp (tl p) (tl q) n
      else uint (deref p) - uint (deref q))"

text \<open>\<open>strncpy t n\<close>: the \<open>n\<close> bytes stored at the destination.\<close>

fun strncpy :: "uchar list \<Rightarrow> nat \<Rightarrow> uchar list" where
  "strncpy t 0 = []"
| "strncpy t (Suc n) =
     (if deref t \<noteq> 0 then deref t # strncpy (tl t) n else 0 # replicate n 0)"

text \<open>
  \<open>safestrcpy s t n\<close>: the array at the destination, whose contents are \<open>s\<close>, after
  the call. The pointer is already past a copied NUL when the final one is stored.
\<close>

fun safestrcpy :: "uchar list \<Rightarrow> uchar list \<Rightarrow> nat \<Rightarrow> uchar list" where
  "safestrcpy s t 0 = s"
| "safestrcpy s t (Suc n) =
     (if 0 < n
      then deref t # (if deref t \<noteq> 0 then safestrcpy (tl s) (tl t) n else 0 # tl (tl s))
      else 0 # tl s)"

function strlen :: "uchar list \<Rightarrow> nat" where
  "strlen s = (if deref s \<noteq> 0 then Suc (strlen (tl s)) else 0)"
  by pat_completeness auto
termination
  by (relation "measure length") (auto simp: deref_def split: list.splits)

subsection \<open>Little-endian words in memory\<close>

definition load64 :: "memory \<Rightarrow> uint64 \<Rightarrow> uint64" where
  "load64 m a =
     push_bit 56 (ucast (m (a + 7))) OR push_bit 48 (ucast (m (a + 6))) OR
     push_bit 40 (ucast (m (a + 5))) OR push_bit 32 (ucast (m (a + 4))) OR
     push_bit 24 (ucast (m (a + 3))) OR push_bit 16 (ucast (m (a + 2))) OR
     push_bit 8 (ucast (m (a + 1))) OR ucast (m a)"

definition store64 :: "uint64 \<Rightarrow> uint64 \<Rightarrow> memory \<Rightarrow> memory" where
  "store64 a v m =
     m(a := ucast v, a + 1 := ucast (drop_bit 8 v), a + 2 := ucast (drop_bit 16 v),
       a + 3 := ucast (drop_bit 24 v), a + 4 := ucast (drop_bit 32 v),
       a + 5 := ucast (drop_bit 40 v), a + 6 := ucast (drop_bit 48 v),
       a + 7 := ucast (drop_bit 56 v))"

subsection \<open>Block operations: what they do\<close>

lemma unat_diff_Suc:
  fixes a d :: uint64
  assumes "a \<noteq> d"
  shows "unat (a - d) = Suc (unat (a - (d + 1)))"
proof -
  have "a - d \<noteq> 0" using assms by simp
  then have "unat (a - d - 1) = unat (a - d) - 1" by (rule unat_minus_one)
  moreover have "0 < unat (a - d)" using \<open>a - d \<noteq> 0\<close> by (simp add: unat_gt_0)
  ultimately show ?thesis by (simp add: diff_diff_eq)
qed

lemma memset_eq:
  "n \<le> 2 ^ 64 \<Longrightarrow> memset dst c n m = (\<lambda>a. if unat (a - dst) < n then c else m a)"
proof (induction n arbitrary: dst m)
  case (Suc n)
  then have "memset dst c (Suc n) m
             = (\<lambda>a. if unat (a - (dst + 1)) < n then c else (m(dst := c)) a)" by simp
  also have "\<dots> = (\<lambda>a. if unat (a - dst) < Suc n then c else m a)"
    by (rule ext) (auto simp: unat_diff_Suc)
  finally show ?case .
qed simp

lemma copy_up_eq:
  "d = s \<or> n \<le> unat (d - s) \<Longrightarrow>
   copy_up d s n m = (\<lambda>a. if unat (a - d) < n then m (s + (a - d)) else m a)"
proof (induction n arbitrary: d s m)
  case (Suc n)
  let ?m = "m(d := m s)"
  from Suc.prems have "d + 1 = s + 1 \<or> n \<le> unat (d + 1 - (s + 1))" by auto
  from Suc.IH [OF this]
  have "copy_up d s (Suc n) m
        = (\<lambda>a. if unat (a - (d + 1)) < n then ?m (s + 1 + (a - (d + 1))) else ?m a)" by simp
  also have "\<dots> = (\<lambda>a. if unat (a - d) < Suc n then m (s + (a - d)) else m a)"
  proof (rule ext)
    fix a
    show "(if unat (a - (d + 1)) < n then ?m (s + 1 + (a - (d + 1))) else ?m a)
          = (if unat (a - d) < Suc n then m (s + (a - d)) else m a)"
    proof (cases "a = d")
      case True
      then show ?thesis using Suc.prems by auto
    next
      case False
      have "s + (a - d) = d \<Longrightarrow> a - d = d - s" by (simp add: algebra_simps)
      with Suc.prems have "unat (a - d) < Suc n \<Longrightarrow> s + (a - d) \<noteq> d \<or> d = s" by auto
      with unat_diff_Suc [OF False] False show ?thesis by auto
    qed
  qed
  finally show ?case .
qed simp

lemma copy_down_eq:
  "n < 2 ^ 64 \<Longrightarrow> d = s \<or> n \<le> unat (s - d) \<Longrightarrow>
   copy_down (d + of_nat n) (s + of_nat n) n m = (\<lambda>a. if unat (a - d) < n then m (s + (a - d)) else m a)"
proof (induction n arbitrary: m)
  case (Suc n)
  let ?k = "of_nat n :: uint64"
  let ?m = "m(d + ?k := m (s + ?k))"
  have k: "unat ?k = n" using Suc.prems(1) by (simp add: unat_of_nat)
  have "copy_down (d + of_nat (Suc n)) (s + of_nat (Suc n)) (Suc n) m
        = copy_down (d + ?k) (s + ?k) n ?m" by (simp add: algebra_simps)
  also have "\<dots> = (\<lambda>a. if unat (a - d) < n then ?m (s + (a - d)) else ?m a)"
    using Suc.prems by (intro Suc.IH) auto
  also have "\<dots> = (\<lambda>a. if unat (a - d) < Suc n then m (s + (a - d)) else m a)"
  proof (rule ext)
    fix a
    have "s + (a - d) \<noteq> d + ?k" if "unat (a - d) < n"
    proof
      assume "s + (a - d) = d + ?k"
      then have eq: "s - d = ?k - (a - d)" by (simp add: algebra_simps)
      have "unat (?k - (a - d)) = n - unat (a - d)"
        using that k by (subst unat_sub) (simp_all add: word_le_nat_alt)
      then have u: "unat (s - d) = n - unat (a - d)" by (simp only: eq)
      then have "unat (s - d) \<noteq> 0" using that by simp
      then have "s \<noteq> d" by auto
      with Suc.prems(2) u show False by auto
    qed
    moreover have "unat (a - d) = n \<longleftrightarrow> a = d + ?k"
    proof
      assume "unat (a - d) = n"
      then have "a - d = ?k" using k by (simp add: word_unat_eq_iff)
      then show "a = d + ?k" by (simp add: algebra_simps)
    qed (simp add: k)
    ultimately show "(if unat (a - d) < n then ?m (s + (a - d)) else ?m a)
                     = (if unat (a - d) < Suc n then m (s + (a - d)) else m a)"
      by (auto simp: less_Suc_eq)
  qed
  finally show ?case .
qed simp

lemma memmove_eq:
  assumes "unat src + n < 2 ^ 64" and "unat dst + n < 2 ^ 64"
  shows "memmove dst src n m = (\<lambda>a. if unat (a - dst) < n then m (src + (a - dst)) else m a)"
proof -
  have n: "unat (of_nat n :: uint64) = n" "n < 2 ^ 64" using assms(1) by (simp_all add: unat_of_nat)
  have sn: "unat (src + of_nat n) = unat src + n"
    using assms(1) n by (simp add: unat_add64)
  consider (zero) "n = 0" | (down) "src < dst" "dst < src + of_nat n" "n \<noteq> 0"
    | (up) "\<not> (src < dst \<and> dst < src + of_nat n)" "n \<noteq> 0" by blast
  then show ?thesis
  proof cases
    case zero
    then show ?thesis by (simp add: memmove_def)
  next
    case down
    then have "n \<le> unat (src - dst)" using assms(2)
      by (simp add: unat_sub_if_size word_size word_less_nat_alt)
    with down n(2) show ?thesis by (simp add: memmove_def copy_down_eq)
  next
    case up
    have "dst = src \<or> n \<le> unat (dst - src)"
    proof (cases "src < dst")
      case True
      with up sn have "unat src + n \<le> unat dst" by (simp add: word_less_nat_alt not_less)
      then have "n \<le> unat dst - unat src" by simp
      with True show ?thesis by (simp add: unat_sub)
    next
      case False
      show ?thesis
      proof (cases "dst = src")
        case ne: False
        with False have "unat dst < unat src" by (simp add: word_less_nat_alt word_unat_eq_iff)
        then have "n \<le> unat dst + 2 ^ 64 - unat src" using assms(1) by simp
        then show ?thesis using \<open>unat dst < unat src\<close> by (simp add: unat_sub_if_size word_size)
      qed simp
    qed
    with up show ?thesis by (auto simp: memmove_def copy_up_eq)
  qed
qed

subsection \<open>Loads over stores\<close>

lemma load64_store64 [simp, mem_simps]: "load64 (store64 a v m) a = v"
proof (rule bit_word_eqI)
  fix n :: nat
  assume "n < LENGTH(64)"
  then have "n = 8 * (n div 8) + n mod 8" "n div 8 < 8" "n mod 8 < 8" by auto
  then obtain k j where n: "n = 8 * k + j" and k: "k < 8" and j: "j < 8" by blast
  from k have "k \<in> {0, 1, 2, 3, 4, 5, 6, 7}" by auto
  then show "bit (load64 (store64 a v m) a) n \<longleftrightarrow> bit v n"
    unfolding n load64_def store64_def using j by (elim insertE emptyE) (simp_all add: bit_simps)
qed

lemma store64_other: "8 \<le> unat (x - a) \<Longrightarrow> store64 a v m x = m x"
  unfolding store64_def by auto

lemma load64_cong:
  "(\<And>k. k < 8 \<Longrightarrow> m (a + of_nat k) = m' (a + of_nat k)) \<Longrightarrow> load64 m a = load64 m' a"
proof -
  assume eq: "\<And>k. k < 8 \<Longrightarrow> m (a + of_nat k) = m' (a + of_nat k)"
  show ?thesis
    using eq [of 0] eq [of 1] eq [of 2] eq [of 3] eq [of 4] eq [of 5] eq [of 6] eq [of 7]
    by (simp add: load64_def)
qed

subsection \<open>Pages\<close>

text \<open>A page is named by its aligned address; \<open>x\<close> lies in page \<open>p\<close> if it rounds down to it.\<close>

lemma in_page_iff: "page_aligned p \<Longrightarrow> PGROUNDDOWN x = p \<longleftrightarrow> unat (x - p) < 4096"
proof
  assume p: "page_aligned p" and "unat (x - p) < 4096"
  then have "PGROUNDDOWN (p + of_nat (unat (x - p))) = p" by (intro PGROUNDDOWN_page)
  then show "PGROUNDDOWN x = p" by simp
next
  assume "PGROUNDDOWN x = p"
  then show "unat (x - p) < 4096" using PGROUNDDOWN_offset [of x] by simp
qed

lemma memset_page:
  "page_aligned p \<Longrightarrow> memset p c 4096 m = (\<lambda>a. if PGROUNDDOWN a = p then c else m a)"
  by (simp add: memset_eq in_page_iff)

text \<open>The \<open>i\<close>-th 8-byte entry of page \<open>p\<close>.\<close>

definition slot :: "uint64 \<Rightarrow> nat \<Rightarrow> uint64" where
  "slot p i = p + 8 * of_nat i"

lemma slot_byte: "slot p i + of_nat k = p + of_nat (8 * i + k)"
  by (simp add: slot_def)

lemma slot_byte_page:
  "page_aligned p \<Longrightarrow> i < 512 \<Longrightarrow> k < 8 \<Longrightarrow> PGROUNDDOWN (slot p i + of_nat k) = p"
  unfolding slot_byte by (rule PGROUNDDOWN_page) auto

lemma store64_slot_other_page:
  assumes "page_aligned p" "i < 512" "PGROUNDDOWN x \<noteq> p"
  shows "store64 (slot p i) v m x = m x"
proof (rule store64_other, rule ccontr)
  assume "\<not> 8 \<le> unat (x - slot p i)"
  then have "PGROUNDDOWN (slot p i + of_nat (unat (x - slot p i))) = p"
    using assms by (intro slot_byte_page) auto
  with assms(3) show False by simp
qed

lemma store64_slot_same_page:
  assumes "i < 512" "j < 512" "i \<noteq> j" "k < 8"
  shows "store64 (slot p i) v m (slot p j + of_nat k) = m (slot p j + of_nat k)"
proof (rule store64_other)
  have *: "slot p j + of_nat k - slot p i = of_nat (8 * j + k) - of_nat (8 * i)"
    by (simp add: slot_def)
  have "unat (of_nat (8 * j + k) :: uint64) = 8 * j + k" "unat (of_nat (8 * i) :: uint64) = 8 * i"
    using assms by (simp_all only: unat_of_nat) simp_all
  then show "8 \<le> unat (slot p j + of_nat k - slot p i)"
    unfolding * using assms by (simp only: unat_sub_if_size word_size) auto
qed

lemma load64_slot_cong:
  assumes "page_aligned p" "i < 512" "\<And>x. PGROUNDDOWN x = p \<Longrightarrow> m x = m' x"
  shows "load64 m (slot p i) = load64 m' (slot p i)"
  by (rule load64_cong) (simp add: assms slot_byte_page)

lemma load64_slot_store64:
  assumes "page_aligned p" "page_aligned q" "i < 512" "j < 512"
  shows "load64 (store64 (slot p i) v m) (slot q j) = (if p = q \<and> i = j then v else load64 m (slot q j))"
proof (cases "p = q \<and> i = j")
  case False
  have "load64 (store64 (slot p i) v m) (slot q j) = load64 m (slot q j)"
  proof (rule load64_cong)
    fix k :: nat
    assume "k < 8"
    then show "store64 (slot p i) v m (slot q j + of_nat k) = m (slot q j + of_nat k)"
      using False assms store64_slot_same_page [of i j k] store64_slot_other_page [of p i]
        slot_byte_page [of q j k] by (cases "p = q") auto
  qed
  with False show ?thesis by auto
qed simp

lemma load64_slot_memset:
  assumes "page_aligned p" "page_aligned q" "j < 512"
  shows "load64 (memset p 0 4096 m) (slot q j) = (if p = q then 0 else load64 m (slot q j))"
proof (cases "p = q")
  case True
  have "load64 (memset p 0 4096 m) (slot q j) = load64 (\<lambda>_. 0) (slot q j)"
    using True assms by (intro load64_slot_cong) (auto simp: memset_page)
  with True show ?thesis by (simp add: load64_def)
next
  case False
  with assms show ?thesis by (auto simp: memset_page intro!: load64_slot_cong)
qed

subsection \<open>Properties of the block operations\<close>

text \<open>
  \<open>memmove\<close> is right for overlapping areas too. Whenever the two areas do not run
  over the end of the address space, every byte of the destination is the byte the source
  had before the call, and no other byte changes.
\<close>

lemma memmove_correct:
  assumes "unat src + n < 2 ^ 64" and "unat dst + n < 2 ^ 64"
  shows "(\<forall>i < n. memmove dst src n m (dst + of_nat i) = m (src + of_nat i)) \<and>
         (\<forall>a. \<not> (\<exists>i < n. a = dst + of_nat i) \<longrightarrow> memmove dst src n m a = m a)"
proof (intro conjI allI impI)
  fix i
  assume i: "i < n"
  then have "unat (of_nat i :: uint64) = i" using assms(1) by (simp add: unat_of_nat)
  with i show "memmove dst src n m (dst + of_nat i) = m (src + of_nat i)"
    by (simp add: memmove_eq [OF assms])
next
  fix a
  assume other: "\<not> (\<exists>i < n. a = dst + of_nat i)"
  have "a = dst + of_nat (unat (a - dst))" by simp
  with other have "\<not> unat (a - dst) < n" by blast
  then show "memmove dst src n m a = m a"
    by (simp add: memmove_eq [OF assms])
qed

subsection \<open>Properties of the string operations\<close>

text \<open>The C string at a pointer, of which at most \<open>n\<close> bytes are read.\<close>

definition cstr :: "nat \<Rightarrow> uchar list \<Rightarrow> uchar list" where
  "cstr n p = takeWhile (\<lambda>c. c \<noteq> 0) (take n p)"

lemma cstr_0 [simp]: "cstr 0 p = []"
  by (simp add: cstr_def)

lemma cstr_Suc: "cstr (Suc n) p = (if deref p = 0 then [] else deref p # cstr n (tl p))"
  by (cases p) (simp_all add: cstr_def deref_def)

lemma strncmp_eq_0_iff: "strncmp p q n = 0 \<longleftrightarrow> cstr n p = cstr n q"
  by (induction n arbitrary: p q) (auto simp: cstr_Suc simp flip: word_uint_eq_iff uint_0_iff)

lemma length_strncpy [simp]: "length (strncpy t n) = n"
  by (induction n arbitrary: t) auto

lemma cstr_strncpy: "cstr n (strncpy t n) = cstr n t"
  by (induction n arbitrary: t) (auto simp: cstr_Suc deref_def)

lemma strlen_eq: "strlen s = length (takeWhile (\<lambda>c. c \<noteq> 0) s)"
  by (induction s rule: strlen.induct) (subst strlen.simps, simp add: deref_def split: list.splits)

declare strlen.simps [simp del]

text \<open>
  Names are compared and stored consistently. \<open>strncmp\<close> with bound \<open>n\<close> is 0
  exactly for strings that agree up to their end or up to \<open>n\<close> bytes, and the \<open>n\<close>
  bytes \<open>strncpy\<close> stores compare equal to the string they were copied from, so that
  \<^verbatim>\<open>dirlookup\<close> finds the name \<^verbatim>\<open>dirlink\<close> wrote.
\<close>

lemma strncmp_strncpy:
  "(strncmp p q n = 0 \<longleftrightarrow> cstr n p = cstr n q) \<and>
   strncmp (strncpy t n) t n = 0 \<and> length (strncpy t n) = n"
  by (simp add: strncmp_eq_0_iff cstr_strncpy)

lemma safestrcpy_str:
  "0 < n \<Longrightarrow> n \<le> length s \<Longrightarrow>
   length (safestrcpy s t n) = length s \<and>
   takeWhile (\<lambda>c. c \<noteq> 0) (safestrcpy s t n) = cstr (n - 1) t \<and>
   0 \<in> set (take n (safestrcpy s t n))"
proof (induction s t n rule: safestrcpy.induct)
  case (2 s t n)
  show ?case
  proof (cases "0 < n")
    case False
    with "2.prems" show ?thesis by (cases s) auto
  next
    case True
    then obtain k where k: "n = Suc k" by (cases n) auto
    from "2.prems" True obtain a b s' where s: "s = a # b # s'"
      by (cases s; cases "tl s") auto
    show ?thesis
    proof (cases "deref t = 0")
      case True
      with k s show ?thesis by (simp add: cstr_Suc)
    next
      case False
      with "2.IH" True "2.prems" k s show ?thesis by (simp add: cstr_Suc del: safestrcpy.simps(2)) simp
    qed
  qed
qed simp

end
