(* ===== verification/Kalloc.thy ===== *)
theory Kalloc
  imports Kstring
begin

section \<open>The physical page allocator\<close>

text \<open>
  \<^verbatim>\<open>kernel/kalloc.c\<close>: the free list is threaded through the free pages themselves,
  the first eight bytes of a free page holding the address of the next one. The model keeps
  that representation in memory; \<open>free_list\<close> is the invariant that ties it to a list of
  distinct pages. The locale \<open>page_allocator\<close> is the contract the rest of the kernel
  uses, and its interpretation shows that \<open>kalloc\<close> and \<open>kfree\<close> satisfy it.
\<close>

subsection \<open>The routines\<close>

record kmem = machine +
  freelist :: uint64

definition kfree :: "uint64 \<Rightarrow> 'a kmem_scheme \<Rightarrow> exn + 'a kmem_scheme" where
  "kfree pa s =
     (if pa mod PGSIZE \<noteq> 0 \<or> pa < kend s \<or> pa \<ge> PHYSTOP then Inl (Panic ''kfree'')
      else let s = s\<lparr>mem := memset pa 1 4096 (mem s)\<rparr> in
        andthen (acquire KmemLock s) (\<lambda>s.
        let s = s\<lparr>mem := store64 pa (freelist s) (mem s)\<rparr>;
            s = s\<lparr>freelist := pa\<rparr>
        in release KmemLock s))"

definition kalloc :: "'a kmem_scheme \<Rightarrow> exn + (uint64 \<times> 'a kmem_scheme)" where
  "kalloc s =
     andthen (acquire KmemLock s) (\<lambda>s.
     let r = freelist s;
         s = (if r \<noteq> 0 then s\<lparr>freelist := load64 (mem s) r\<rparr> else s)
     in andthen (release KmemLock s) (\<lambda>s.
        Inr (r, if r \<noteq> 0 then s\<lparr>mem := memset r 5 4096 (mem s)\<rparr> else s)))"

lemma kfree_Inr: "kfree pa s = Inr s' \<Longrightarrow> pa < PHYSTOP"
  by (auto simp: kfree_def split: if_splits)

function freerange_loop :: "uint64 \<Rightarrow> uint64 \<Rightarrow> 'a kmem_scheme \<Rightarrow> exn + 'a kmem_scheme" where
  "freerange_loop p pa_end s =
     (if p + PGSIZE \<le> pa_end
      then andthen (kfree p s) (\<lambda>s. freerange_loop (p + PGSIZE) pa_end s) else Inr s)"
  by pat_completeness auto
termination
proof (relation "measure (\<lambda>(p, e, s). unat PHYSTOP - unat p)")
  fix p pa_end :: uint64 and s s' :: "'a kmem_scheme"
  assume "kfree p s = Inr s'"
  then have "unat p < unat PHYSTOP" by (auto dest: kfree_Inr simp: word_less_nat_alt)
  moreover from this have "unat (p + PGSIZE) = unat p + 4096" by (simp add: unat_add64)
  ultimately show "((p + PGSIZE, pa_end, s'), (p, pa_end, s)) \<in> measure (\<lambda>(p, e, s). unat PHYSTOP - unat p)"
    by simp
qed simp

declare freerange_loop.simps [simp del]

definition freerange :: "uint64 \<Rightarrow> uint64 \<Rightarrow> 'a kmem_scheme \<Rightarrow> exn + 'a kmem_scheme" where
  "freerange pa_start pa_end s = freerange_loop (PGROUNDUP pa_start) pa_end s"

definition kinit :: "'a kmem_scheme \<Rightarrow> exn + 'a kmem_scheme" where
  "kinit s = freerange (kend s) PHYSTOP s"

subsection \<open>The free list\<close>

fun free_path :: "memory \<Rightarrow> uint64 \<Rightarrow> uint64 list \<Rightarrow> bool" where
  "free_path m p [] \<longleftrightarrow> p = 0"
| "free_path m p (q # qs) \<longleftrightarrow> p = q \<and> p \<noteq> 0 \<and> free_path m (load64 m p) qs"

definition ram_page :: "'a kmem_scheme \<Rightarrow> uint64 \<Rightarrow> bool" where
  "ram_page s p \<longleftrightarrow> page_aligned p \<and> kend s \<le> p \<and> p < PHYSTOP"

definition free_list :: "'a kmem_scheme \<Rightarrow> uint64 list \<Rightarrow> bool" where
  "free_list s ps \<longleftrightarrow>
     0 < kend s \<and> free_path (mem s) (freelist s) ps \<and> distinct ps \<and> (\<forall>p \<in> set ps. ram_page s p)"

lemma ram_page_nonzero: "ram_page s p \<Longrightarrow> 0 < kend s \<Longrightarrow> p \<noteq> 0"
  by (auto simp: ram_page_def)

lemma load64_page_cong:
  "page_aligned p \<Longrightarrow> (\<And>x. PGROUNDDOWN x = p \<Longrightarrow> m x = m' x) \<Longrightarrow> load64 m p = load64 m' p"
  using load64_slot_cong [of p 0 m m'] by (simp add: slot_def)

lemma free_path_cong:
  assumes "\<forall>p \<in> set ps. page_aligned p" and "\<And>x. PGROUNDDOWN x \<in> set ps \<Longrightarrow> m x = m' x"
  shows "free_path m p ps \<longleftrightarrow> free_path m' p ps"
  using assms
proof (induction ps arbitrary: p)
  case (Cons q qs)
  have "load64 m q = load64 m' q"
    using Cons.prems by (intro load64_page_cong) auto
  moreover have "free_path m r qs = free_path m' r qs" for r
  proof (rule Cons.IH)
    show "\<forall>p \<in> set qs. page_aligned p" using Cons.prems(1) by simp
    show "m x = m' x" if "PGROUNDDOWN x \<in> set qs" for x using Cons.prems(2) that by simp
  qed
  ultimately show ?case by (simp cong: conj_cong)
qed simp

lemma free_path_unique: "free_path m p ps \<Longrightarrow> free_path m p qs \<Longrightarrow> ps = qs"
proof (induction ps arbitrary: p qs)
  case (Cons a ps)
  then show ?case by (cases qs) auto
qed (case_tac qs; simp)

text \<open>A write outside the free pages keeps the list.\<close>

lemma free_list_cong:
  assumes "free_list s ps" "\<And>x. PGROUNDDOWN x \<in> set ps \<Longrightarrow> mem t x = mem s x"
    "freelist t = freelist s" "kend t = kend s"
  shows "free_list t ps"
proof -
  have "free_path (mem t) (freelist s) ps = free_path (mem s) (freelist s) ps"
    using assms(1,2) by (intro free_path_cong) (auto simp: free_list_def ram_page_def)
  with assms show ?thesis by (simp add: free_list_def ram_page_def)
qed

subsection \<open>What the routines do\<close>

lemma kalloc_empty:
  "free_list s [] \<Longrightarrow> KmemLock \<notin> set (held s) \<Longrightarrow> kalloc s = Inr (0, s)"
  by (simp add: kalloc_def lock_simps free_list_def Let_def)

lemma kalloc_page:
  assumes "free_list s (p # ps)" "KmemLock \<notin> set (held s)"
  shows "kalloc s = Inr (p, s\<lparr>freelist := load64 (mem s) p, mem := memset p 5 4096 (mem s)\<rparr>)"
  using assms by (auto simp: kalloc_def lock_simps free_list_def Let_def)

lemma free_list_kalloc:
  assumes "free_list s (p # ps)"
  shows "free_list (s\<lparr>freelist := load64 (mem s) p, mem := memset p c 4096 (mem s)\<rparr>) ps"
proof -
  have p: "page_aligned p" using assms by (simp add: free_list_def ram_page_def)
  have "free_path (memset p c 4096 (mem s)) (load64 (mem s) p) ps = free_path (mem s) (load64 (mem s) p) ps"
    using assms p by (intro free_path_cong) (auto simp: free_list_def ram_page_def memset_page)
  with assms show ?thesis by (auto simp: free_list_def ram_page_def)
qed

lemma kfree_page:
  assumes "ram_page s p" "KmemLock \<notin> set (held s)"
  shows "kfree p s = Inr (s\<lparr>mem := store64 p (freelist s) (memset p 1 4096 (mem s)), freelist := p\<rparr>)"
  using assms by (auto simp: kfree_def lock_simps ram_page_def page_aligned_mod Let_def not_less not_le)

lemma store64_page_other:
  "page_aligned p \<Longrightarrow> PGROUNDDOWN x \<noteq> p \<Longrightarrow> store64 p v m x = m x"
  using store64_slot_other_page [of p 0 x v m] by (simp add: slot_def)

lemma free_list_kfree:
  assumes "free_list s ps" "ram_page s p" "p \<notin> set ps"
  shows "free_list (s\<lparr>mem := store64 p (freelist s) (memset p c 4096 (mem s)), freelist := p\<rparr>) (p # ps)"
proof -
  let ?m = "store64 p (freelist s) (memset p c 4096 (mem s))"
  have p: "page_aligned p" "p \<noteq> 0"
    using assms(1,2) ram_page_nonzero by (auto simp: ram_page_def free_list_def)
  have "?m x = mem s x" if "PGROUNDDOWN x \<in> set ps" for x
  proof -
    from that assms(3) have "PGROUNDDOWN x \<noteq> p" by auto
    then show ?thesis using p(1) by (simp add: store64_page_other memset_page)
  qed
  then have "free_path ?m (freelist s) ps = free_path (mem s) (freelist s) ps"
    using assms by (intro free_path_cong) (auto simp: free_list_def ram_page_def)
  with assms p show ?thesis by (auto simp: free_list_def ram_page_def)
qed

subsection \<open>The contract of a page allocator\<close>

text \<open>Take \<open>n\<close> pages one after the other, stopping at the first failed allocation.\<close>

fun take_pages :: "('s \<Rightarrow> exn + (uint64 \<times> 's)) \<Rightarrow> nat \<Rightarrow> 's \<Rightarrow> exn + (uint64 list \<times> 's)" where
  "take_pages alloc 0 s = Inr ([], s)"
| "take_pages alloc (Suc n) s =
     andthen (alloc s) (\<lambda>(p, s). if p = 0 then Inr ([], s)
       else andthen (take_pages alloc n s) (\<lambda>(ps, s). Inr (p # ps, s)))"

fun give_pages :: "(uint64 \<Rightarrow> 's \<Rightarrow> exn + 's) \<Rightarrow> uint64 list \<Rightarrow> 's \<Rightarrow> exn + 's" where
  "give_pages free [] s = Inr s"
| "give_pages free (p # ps) s = andthen (free p s) (give_pages free ps)"

text \<open>
  The operations, the set of free pages of a state, the pages that may be freed and the
  invariant of the states. Allocation takes some free page, or returns the null
  page and changes nothing when there is none; freeing gives a page back.
\<close>

locale page_allocator =
  fixes alloc :: "'s \<Rightarrow> exn + (uint64 \<times> 's)" and free :: "uint64 \<Rightarrow> 's \<Rightarrow> exn + 's"
    and avail :: "'s \<Rightarrow> uint64 set" and managed :: "'s \<Rightarrow> uint64 set" and ok :: "'s \<Rightarrow> bool"
  assumes avail_managed: "ok s \<Longrightarrow> finite (avail s) \<and> avail s \<subseteq> managed s \<and> 0 \<notin> managed s"
    and alloc_some: "ok s \<Longrightarrow> avail s \<noteq> {} \<Longrightarrow>
      returns (alloc s) (\<lambda>(p, t). p \<in> avail s \<and> ok t \<and> avail t = avail s - {p} \<and> managed t = managed s)"
    and alloc_none: "ok s \<Longrightarrow> avail s = {} \<Longrightarrow> alloc s = Inr (0, s)"
    and free_page: "ok s \<Longrightarrow> p \<in> managed s \<Longrightarrow> p \<notin> avail s \<Longrightarrow>
      returns (free p s) (\<lambda>t. ok t \<and> avail t = insert p (avail s) \<and> managed t = managed s)"
begin

lemma take_pages_spec:
  "ok s \<Longrightarrow> returns (take_pages alloc n s) (\<lambda>(ps, t). ok t \<and> distinct ps \<and> set ps \<subseteq> avail s \<and>
     avail t = avail s - set ps \<and> managed t = managed s \<and> length ps = min n (card (avail s)))"
proof (induction n arbitrary: s)
  case (Suc n)
  show ?case
  proof (cases "avail s = {}")
    case True
    with alloc_none [OF Suc.prems] Suc.prems show ?thesis by simp
  next
    case False
    then obtain p t where p: "alloc s = Inr (p, t)" "p \<in> avail s" "ok t" "avail t = avail s - {p}"
        "managed t = managed s"
      using alloc_some [OF Suc.prems] by (auto simp: returns_iff)
    have "p \<noteq> 0" and "finite (avail s)" using avail_managed [OF Suc.prems] p(2) by auto
    obtain ps u where u: "take_pages alloc n t = Inr (ps, u)" "ok u" "distinct ps" "set ps \<subseteq> avail t"
        "avail u = avail t - set ps" "managed u = managed t" "length ps = min n (card (avail t))"
      using Suc.IH [OF p(3)] by (auto simp: returns_iff)
    have "Suc (card (avail t)) = card (avail s)"
      using p(2,4) \<open>finite (avail s)\<close> by (metis card_Suc_Diff1)
    with p u \<open>p \<noteq> 0\<close> show ?thesis by auto
  qed
qed simp

lemma give_pages_spec:
  "ok s \<Longrightarrow> distinct ps \<Longrightarrow> set ps \<subseteq> managed s \<Longrightarrow> set ps \<inter> avail s = {} \<Longrightarrow>
   returns (give_pages free ps s) (\<lambda>t. ok t \<and> avail t = set ps \<union> avail s \<and> managed t = managed s)"
proof (induction ps arbitrary: s)
  case (Cons p ps)
  obtain t where "free p s = Inr t" "ok t" "avail t = insert p (avail s)" "managed t = managed s"
    using free_page [OF Cons.prems(1), of p] Cons.prems by (auto simp: returns_iff)
  moreover have "returns (give_pages free ps t) (\<lambda>u. ok u \<and> avail u = set ps \<union> avail t \<and> managed u = managed t)"
    using calculation Cons.prems by (intro Cons.IH) auto
  ultimately show ?case by (auto elim!: returns_mono)
qed simp

lemma take_give:
  assumes "ok s"
  shows "returns (andthen (take_pages alloc n s) (\<lambda>(ps, t). give_pages free ps t))
           (\<lambda>t. ok t \<and> avail t = avail s)"
proof -
  obtain ps t where t: "take_pages alloc n s = Inr (ps, t)" "ok t" "distinct ps" "set ps \<subseteq> avail s"
      "avail t = avail s - set ps" "managed t = managed s"
    using take_pages_spec [OF assms, of n] by (auto simp: returns_iff)
  have "returns (give_pages free ps t) (\<lambda>u. ok u \<and> avail u = set ps \<union> avail t \<and> managed u = managed t)"
    using t avail_managed [OF assms] by (intro give_pages_spec) auto
  with t show ?thesis by (auto elim!: returns_mono)
qed

end

subsection \<open>The allocator satisfies the contract\<close>

definition kmem_ok :: "'a kmem_scheme \<Rightarrow> bool" where
  "kmem_ok s \<longleftrightarrow> KmemLock \<notin> set (held s) \<and> (\<exists>ps. free_list s ps)"

definition free_pages :: "'a kmem_scheme \<Rightarrow> uint64 set" where
  "free_pages s = {p. \<exists>ps. free_list s ps \<and> p \<in> set ps}"

lemma free_list_unique: "free_list s ps \<Longrightarrow> free_list s qs \<Longrightarrow> ps = qs"
  by (auto simp: free_list_def intro: free_path_unique)

lemma free_pages_eq: "free_list s ps \<Longrightarrow> free_pages s = set ps"
  by (auto simp: free_pages_def dest: free_list_unique)

interpretation km: page_allocator kalloc kfree free_pages "\<lambda>s. {p. ram_page s p}" kmem_ok
proof unfold_locales
  fix s :: "'a kmem_scheme"
  assume ok: "kmem_ok s"
  then obtain ps where ps: "free_list s ps" and l: "KmemLock \<notin> set (held s)"
    by (auto simp: kmem_ok_def)
  note fp = free_pages_eq [OF ps]
  show "finite (free_pages s) \<and> free_pages s \<subseteq> {p. ram_page s p} \<and> 0 \<notin> {p. ram_page s p}"
    using ps by (auto simp: fp free_list_def dest: ram_page_nonzero)
  show "kalloc s = Inr (0, s)" if "free_pages s = {}"
    using ps l that by (simp add: fp kalloc_empty)
  show "returns (kalloc s) (\<lambda>(p, t). p \<in> free_pages s \<and> kmem_ok t \<and> free_pages t = free_pages s - {p}
           \<and> {p. ram_page t p} = {p. ram_page s p})" if ne: "free_pages s \<noteq> {}"
  proof -
    from ne obtain p qs where c: "ps = p # qs" by (cases ps) (auto simp: fp)
    let ?t = "s\<lparr>freelist := load64 (mem s) p, mem := memset p 5 4096 (mem s)\<rparr>"
    have t: "free_list ?t qs" using ps unfolding c by (rule free_list_kalloc)
    have "set qs = set ps - {p}" using ps by (auto simp: c free_list_def)
    moreover have "kmem_ok ?t" using t l by (auto simp: kmem_ok_def)
    moreover have "kalloc s = Inr (p, ?t)" using ps l unfolding c by (rule kalloc_page)
    ultimately show ?thesis
      by (simp add: c fp free_pages_eq [OF t] ram_page_def)
  qed
  fix p
  assume p: "p \<in> {p. ram_page s p}" and np: "p \<notin> free_pages s"
  let ?t = "s\<lparr>mem := store64 p (freelist s) (memset p 1 4096 (mem s)), freelist := p\<rparr>"
  have t: "free_list ?t (p # ps)" using ps p np by (intro free_list_kfree) (auto simp: fp)
  have "kmem_ok ?t" using t l by (auto simp: kmem_ok_def)
  moreover have "kfree p s = Inr ?t" using p l by (simp add: kfree_page)
  ultimately show "returns (kfree p s) (\<lambda>t. kmem_ok t \<and> free_pages t = insert p (free_pages s)
         \<and> {p. ram_page t p} = {p. ram_page s p})"
    by (simp add: fp free_pages_eq [OF t] ram_page_def)
qed

subsection \<open>Initialisation\<close>

lemma page_succ:
  assumes "page_aligned p" "p < PHYSTOP"
  shows "page_aligned (p + PGSIZE) \<and> unat (p + PGSIZE) = unat p + 4096 \<and> p + PGSIZE \<le> PHYSTOP"
proof -
  obtain q where q: "unat p = 4096 * q" using assms(1) by (auto simp: page_aligned_def mod_eq_0_iff_dvd)
  have "q < 557056" using assms(2) q by (simp add: word_less_nat_alt)
  moreover from this have "unat (p + 4096) = unat p + 4096" by (simp add: unat_add64 q)
  ultimately show ?thesis by (simp add: page_aligned_def word_le_nat_alt q)
qed

lemma page_less_succ:
  assumes "page_aligned p" "page_aligned q" "p < PHYSTOP"
  shows "p \<le> q \<longleftrightarrow> q = p \<or> p + PGSIZE \<le> q"
proof -
  obtain a where a: "unat p = 4096 * a" using assms(1) by (auto simp: page_aligned_def mod_eq_0_iff_dvd)
  obtain b where b: "unat q = 4096 * b" using assms(2) by (auto simp: page_aligned_def mod_eq_0_iff_dvd)
  have "unat (p + PGSIZE) = unat p + 4096" using page_succ [OF assms(1,3)] by simp
  then show ?thesis by (auto simp: word_le_nat_alt word_unat_eq_iff a b)
qed

lemma freerange_loop_spec:
  assumes "free_list s ps" "KmemLock \<notin> set (held s)" "page_aligned p" "kend s \<le> p" "p \<le> PHYSTOP"
    "\<forall>q \<in> set ps. q < p"
  shows "returns (freerange_loop p PHYSTOP s) (\<lambda>t. held t = held s \<and> kend t = kend s \<and>
           (\<exists>qs. free_list t qs \<and> set qs = set ps \<union> {q. page_aligned q \<and> p \<le> q \<and> q < PHYSTOP}))"
  using assms
proof (induction "unat PHYSTOP - unat p" arbitrary: p s ps rule: less_induct)
  case less
  show ?case
  proof (cases "p < PHYSTOP")
    case False
    with less.prems have p: "p = PHYSTOP" by simp
    then show ?thesis using less.prems by (subst freerange_loop.simps) (auto simp: not_le)
  next
    case True
    note succ = page_succ [OF less.prems(3) True]
    let ?s = "s\<lparr>mem := store64 p (freelist s) (memset p 1 4096 (mem s)), freelist := p\<rparr>"
    have p: "ram_page s p" "p \<notin> set ps" using less.prems True by (auto simp: ram_page_def)
    have fl: "free_list ?s (p # ps)" using less.prems(1) p by (rule free_list_kfree)
    have "p < p + PGSIZE" using succ by (simp add: word_less_nat_alt)
    then have lt: "\<forall>q \<in> set (p # ps). q < p + PGSIZE" using less.prems(6) by (auto intro: less_trans)
    have "unat PHYSTOP - unat (p + PGSIZE) < unat PHYSTOP - unat p"
      using succ True by (simp add: word_less_nat_alt)
    then have IH: "returns (freerange_loop (p + PGSIZE) PHYSTOP ?s) (\<lambda>t. held t = held ?s \<and> kend t = kend ?s \<and>
        (\<exists>qs. free_list t qs \<and> set qs = set (p # ps) \<union> {q. page_aligned q \<and> p + PGSIZE \<le> q \<and> q < PHYSTOP}))"
      using fl lt succ less.prems \<open>p < p + PGSIZE\<close> by (intro less.hyps) auto
    have "set (p # ps) \<union> {q. page_aligned q \<and> p + PGSIZE \<le> q \<and> q < PHYSTOP}
          = set ps \<union> {q. page_aligned q \<and> p \<le> q \<and> q < PHYSTOP}"
      using page_less_succ [OF less.prems(3) _ True] less.prems(3) True by auto
    with IH have "returns (freerange_loop (p + PGSIZE) PHYSTOP ?s) (\<lambda>t. held t = held s \<and> kend t = kend s \<and>
        (\<exists>qs. free_list t qs \<and> set qs = set ps \<union> {q. page_aligned q \<and> p \<le> q \<and> q < PHYSTOP}))"
      by simp
    then show ?thesis
      using succ kfree_page [OF p(1) less.prems(2)] by (subst freerange_loop.simps) simp
  qed
qed

text \<open>
  C37: start-up. \<open>kinit\<close>, called with an empty free list on a kernel image that ends
  inside RAM, returns with the free list holding exactly the pages of RAM above the kernel
  image, each once.
\<close>

theorem kinit_frees_all_ram:
  assumes "freelist s = 0" "0 < kend s" "kend s \<le> PHYSTOP" "KmemLock \<notin> set (held s)"
  shows "returns (kinit s) (\<lambda>t. kmem_ok t \<and> free_pages t = {p. ram_page s p})"
proof -
  have k: "unat (kend s) + 4095 < 2 ^ 64" using assms(3) by (simp add: word_le_nat_alt)
  have "PGROUNDUP (kend s) \<le> PHYSTOP"
    using k assms(3) by (intro PGROUNDUP_le_aligned) (auto simp: page_aligned_def)
  moreover have ge: "kend s \<le> PGROUNDUP (kend s)" using k by (rule PGROUNDUP_ge)
  moreover have "free_list s []" using assms by (simp add: free_list_def)
  ultimately have "returns (kinit s) (\<lambda>t. held t = held s \<and> kend t = kend s \<and>
      (\<exists>qs. free_list t qs \<and> set qs = {q. page_aligned q \<and> PGROUNDUP (kend s) \<le> q \<and> q < PHYSTOP}))"
    using freerange_loop_spec [of s "[]" "PGROUNDUP (kend s)"] assms(4)
    by (simp add: kinit_def freerange_def)
  moreover have "{q. page_aligned q \<and> PGROUNDUP (kend s) \<le> q \<and> q < PHYSTOP} = {p. ram_page s p}"
    using ge PGROUNDUP_le_aligned [OF k] by (auto simp: ram_page_def intro: order_trans)
  ultimately show ?thesis
    using assms(4) by (auto simp: kmem_ok_def elim!: returns_mono dest: free_pages_eq)
qed

theorem kinit_frees_all_ram_witness:
  "returns (kinit \<lparr>held = [], mem = (\<lambda>_. 0), kend = 0x87fff001, etext = 0, trampoline = 0, freelist = 0\<rparr>)
     (\<lambda>t. kmem_ok t \<and> free_pages t = {})"
proof -
  let ?s = "\<lparr>held = [], mem = (\<lambda>_. 0), kend = 0x87fff001, etext = 0, trampoline = 0, freelist = 0\<rparr>"
  have "\<not> ram_page ?s p" for p
  proof
    assume p: "ram_page ?s p"
    then have "page_aligned p" "p < PHYSTOP" by (simp_all add: ram_page_def)
    from page_succ [OF this] have "unat p + 4096 \<le> unat PHYSTOP" by (simp add: word_le_nat_alt)
    with p show False by (simp add: ram_page_def word_le_nat_alt)
  qed
  then show ?thesis
    using kinit_frees_all_ram [of ?s] by simp
qed

subsection \<open>Properties\<close>

text \<open>
  C38: allocation. With the allocator's invariant and the lock free, \<open>kalloc\<close> returns:
  the null pointer, changing nothing, when no page is free, and otherwise a page of RAM that
  was free and no longer is, filled with the junk byte, leaving every byte outside the page
  and the other free pages alone.
\<close>

theorem kalloc_correct:
  assumes "free_list s ps" "KmemLock \<notin> set (held s)"
  shows "case ps of
           [] \<Rightarrow> kalloc s = Inr (0, s)
         | p # qs \<Rightarrow> returns (kalloc s) (\<lambda>(r, t). r = p \<and> r \<noteq> 0 \<and> ram_page s r \<and> free_list t qs \<and>
                       (\<forall>x. mem t x = (if PGROUNDDOWN x = r then 5 else mem s x)) \<and> held t = held s)"
proof (cases ps)
  case Nil
  with assms show ?thesis by (simp add: kalloc_empty)
next
  case (Cons p qs)
  then have p: "page_aligned p" "p \<noteq> 0" "ram_page s p"
    using assms(1) ram_page_nonzero by (auto simp: free_list_def ram_page_def)
  moreover have "free_list (s\<lparr>freelist := load64 (mem s) p, mem := memset p 5 4096 (mem s)\<rparr>) qs"
    using assms(1) unfolding Cons by (rule free_list_kalloc)
  ultimately show ?thesis
    using kalloc_page [of s p qs] assms Cons by (simp add: memset_page)
qed

theorem kalloc_correct_witness:
  "returns (kalloc \<lparr>held = [], mem = (\<lambda>_. 0), kend = 0x80001000, etext = 0, trampoline = 0, freelist = 0x80002000\<rparr>)
     (\<lambda>(r, t). r = 0x80002000 \<and> free_list t [])"
proof -
  let ?s = "\<lparr>held = [], mem = (\<lambda>_. 0), kend = 0x80001000, etext = 0, trampoline = 0, freelist = 0x80002000\<rparr>"
  have h: "free_list ?s [0x80002000]"
    by (simp add: free_list_def ram_page_def page_aligned_def load64_def)
  show ?thesis using kalloc_correct [OF h] by (auto elim!: returns_mono)
qed

text \<open>
  C39: freeing. \<open>kfree\<close> panics for an address that is not page-aligned, below the end of the
  kernel or not below \<open>PHYSTOP\<close>; for a page of RAM that is not free it returns, and the
  page is then the first of the free list, in front of the pages that were free before.
\<close>

theorem kfree_correct:
  assumes "free_list s ps" "KmemLock \<notin> set (held s)" "p \<notin> set ps"
  shows "if ram_page s p
         then returns (kfree p s) (\<lambda>t. free_list t (p # ps) \<and> held t = held s \<and>
                (\<forall>x. PGROUNDDOWN x \<noteq> p \<longrightarrow> mem t x = mem s x))
         else kfree p s = Inl (Panic ''kfree'')"
proof (cases "ram_page s p")
  case True
  then have "page_aligned p" by (simp add: ram_page_def)
  then show ?thesis
    using True kfree_page [OF True assms(2)] free_list_kfree [OF assms(1) True assms(3), of 1]
    by (simp add: store64_page_other memset_page)
next
  case False
  then show ?thesis by (auto simp: ram_page_def kfree_def page_aligned_mod not_less not_le)
qed

theorem kfree_correct_witness:
  "returns (kfree 0x80003000 \<lparr>held = [], mem = (\<lambda>_. 0), kend = 0x80001000, etext = 0, trampoline = 0, freelist = 0\<rparr>)
     (\<lambda>t. free_list t [0x80003000])"
proof -
  let ?s = "\<lparr>held = [], mem = (\<lambda>_. 0), kend = 0x80001000, etext = 0, trampoline = 0, freelist = 0\<rparr>"
  have "free_list ?s []" "ram_page ?s 0x80003000"
    by (simp_all add: free_list_def ram_page_def page_aligned_def)
  then show ?thesis using kfree_correct [of ?s "[]" "0x80003000"] by (auto elim!: returns_mono)
qed

text \<open>
  No page is handed out twice. A run of \<open>n\<close> allocations returns
  distinct pages that were free, as many as there are up to \<open>n\<close>; giving them all
  back restores the set of free pages.
\<close>

lemma kalloc_run_distinct:
  assumes "kmem_ok s"
  shows "returns (take_pages kalloc n s) (\<lambda>(ps, t). distinct ps \<and> set ps \<subseteq> free_pages s \<and>
           free_pages t = free_pages s - set ps \<and> length ps = min n (card (free_pages s))) \<and>
         returns (andthen (take_pages kalloc n s) (\<lambda>(ps, t). give_pages kfree ps t))
           (\<lambda>t. free_pages t = free_pages s)"
  using km.take_pages_spec [OF assms, of n] km.take_give [OF assms, of n]
  by (auto elim!: returns_mono)

end
