(* ===== verification/Vm.thy ===== *)
theory Vm
  imports Kalloc
begin

section \<open>Virtual memory\<close>

text \<open>
  \<^verbatim>\<open>kernel/vm.c\<close>: three-level Sv39 page tables that live in physical memory. A page
  table is the address of its root page; a PTE is named by its physical address. Every
  routine is translated with its panics and its out-of-memory returns. The lemmas relate the
  tables in memory to the map from virtual addresses to leaf entries they stand for.
\<close>

subsection \<open>The routines\<close>

record kvm = kmem +
  kernel_pagetable :: uint64
  satp :: uint64

text \<open>
  Kernel objects that are not in the page pool (locals, tables) are byte lists; these are the
  copies of \<^verbatim>\<open>memmove\<close> between such an object and physical memory.
\<close>

definition load_bytes :: "memory \<Rightarrow> uint64 \<Rightarrow> nat \<Rightarrow> uchar list" where
  "load_bytes m a n = map (\<lambda>i. m (a + of_nat i)) [0..<n]"

fun store_bytes :: "uint64 \<Rightarrow> uchar list \<Rightarrow> memory \<Rightarrow> memory" where
  "store_bytes a [] m = m"
| "store_bytes a (b # bs) m = store_bytes (a + 1) bs (m(a := b))"

text \<open>\<open>walk\<close>: the loop over the levels is a recursion on the level.\<close>

fun walk_level :: "nat \<Rightarrow> uint64 \<Rightarrow> uint64 \<Rightarrow> bool \<Rightarrow> 'a kmem_scheme \<Rightarrow> exn + (uint64 \<times> 'a kmem_scheme)" where
  "walk_level 0 pagetable va alloc s = Inr (slot pagetable (unat (PX 0 va)), s)"
| "walk_level (Suc l) pagetable va alloc s =
     (let pte = slot pagetable (unat (PX (Suc l) va)) in
      if load64 (mem s) pte AND PTE_V \<noteq> 0
      then walk_level l (PTE2PA (load64 (mem s) pte)) va alloc s
      else if \<not> alloc then Inr (0, s)
      else andthen (kalloc s) (\<lambda>(pagetable, s).
        if pagetable = 0 then Inr (0, s)
        else let s = s\<lparr>mem := memset pagetable 0 4096 (mem s)\<rparr>;
                 s = s\<lparr>mem := store64 pte (PA2PTE pagetable OR PTE_V) (mem s)\<rparr>
             in walk_level l pagetable va alloc s))"

definition walk :: "uint64 \<Rightarrow> uint64 \<Rightarrow> bool \<Rightarrow> 'a kmem_scheme \<Rightarrow> exn + (uint64 \<times> 'a kmem_scheme)" where
  "walk pagetable va alloc s =
     (if va \<ge> MAXVA then Inl (Panic ''walk'') else walk_level 2 pagetable va alloc s)"

definition walkaddr :: "uint64 \<Rightarrow> uint64 \<Rightarrow> 'a kmem_scheme \<Rightarrow> exn + (uint64 \<times> 'a kmem_scheme)" where
  "walkaddr pagetable va s =
     (if va \<ge> MAXVA then Inr (0, s)
      else andthen (walk pagetable va False s) (\<lambda>(pte, s).
        if pte = 0 then Inr (0, s)
        else if load64 (mem s) pte AND PTE_V = 0 then Inr (0, s)
        else if load64 (mem s) pte AND PTE_U = 0 then Inr (0, s)
        else Inr (PTE2PA (load64 (mem s) pte), s)))"

lemma walk_Inr: "walk pt va b s = Inr r \<Longrightarrow> va < MAXVA"
  by (auto simp: walk_def split: if_splits)

lemma next_page_measure:
  assumes "a < MAXVA"
  shows "unat MAXVA - unat (a + PGSIZE) < unat MAXVA - unat a"
proof -
  have "unat a < unat MAXVA" using assms by (simp add: word_less_nat_alt)
  moreover from this have "unat (a + PGSIZE) = unat a + 4096" by (simp add: unat_add64)
  ultimately show ?thesis by simp
qed

function mappages_loop ::
  "uint64 \<Rightarrow> uint64 \<Rightarrow> uint64 \<Rightarrow> uint64 \<Rightarrow> uint64 \<Rightarrow> 'a kmem_scheme \<Rightarrow> exn + (int \<times> 'a kmem_scheme)" where
  "mappages_loop pagetable a last_a pa perm s =
     andthen (walk pagetable a True s) (\<lambda>(pte, s).
       if pte = 0 then Inr (- 1, s)
       else if load64 (mem s) pte AND PTE_V \<noteq> 0 then Inl (Panic ''mappages: remap'')
       else let s = s\<lparr>mem := store64 pte (PA2PTE pa OR perm OR PTE_V) (mem s)\<rparr> in
         if a = last_a then Inr (0, s)
         else mappages_loop pagetable (a + PGSIZE) last_a (pa + PGSIZE) perm s)"
  by pat_completeness auto
termination
  by (relation "measure (\<lambda>(pt, a, r). unat MAXVA - unat a)")
    (auto dest!: walk_Inr simp del: PGSIZE_def MAXVA_def intro: next_page_measure)

declare mappages_loop.simps [simp del]

definition mappages ::
  "uint64 \<Rightarrow> uint64 \<Rightarrow> uint64 \<Rightarrow> uint64 \<Rightarrow> uint64 \<Rightarrow> 'a kmem_scheme \<Rightarrow> exn + (int \<times> 'a kmem_scheme)" where
  "mappages pagetable va sz pa perm s =
     (if sz = 0 then Inl (Panic ''mappages: size'')
      else mappages_loop pagetable (PGROUNDDOWN va) (PGROUNDDOWN (va + sz - 1)) pa perm s)"

definition kvmmap ::
  "uint64 \<Rightarrow> uint64 \<Rightarrow> uint64 \<Rightarrow> uint64 \<Rightarrow> uint64 \<Rightarrow> 'a kmem_scheme \<Rightarrow> exn + 'a kmem_scheme" where
  "kvmmap kpgtbl va pa sz perm s =
     andthen (mappages kpgtbl va sz pa perm s) (\<lambda>(r, s).
       if r \<noteq> 0 then Inl (Panic ''kvmmap'') else Inr s)"

text \<open>\<open>proc_mapstacks\<close> is in \<^verbatim>\<open>kernel/proc.c\<close>; it is only called from \<open>kvmmake\<close>.\<close>

definition proc_mapstacks :: "uint64 \<Rightarrow> 'a kmem_scheme \<Rightarrow> exn + 'a kmem_scheme" where
  "proc_mapstacks kpgtbl =
     for_each [0..<NPROC] (\<lambda>i s.
       andthen (kalloc s) (\<lambda>(pa, s).
         if pa = 0 then Inl (Panic ''kalloc'')
         else kvmmap kpgtbl (KSTACK i) pa PGSIZE (PTE_R OR PTE_W) s))"

definition kvmmake :: "'a kmem_scheme \<Rightarrow> exn + (uint64 \<times> 'a kmem_scheme)" where
  "kvmmake s =
     andthen (kalloc s) (\<lambda>(kpgtbl, s).
     let s = s\<lparr>mem := memset kpgtbl 0 4096 (mem s)\<rparr> in
     andthen (kvmmap kpgtbl UART0 UART0 PGSIZE (PTE_R OR PTE_W) s) (\<lambda>s.
     andthen (kvmmap kpgtbl VIRTIO0 VIRTIO0 PGSIZE (PTE_R OR PTE_W) s) (\<lambda>s.
     andthen (kvmmap kpgtbl PLIC PLIC 0x400000 (PTE_R OR PTE_W) s) (\<lambda>s.
     andthen (kvmmap kpgtbl KERNBASE KERNBASE (etext s - KERNBASE) (PTE_R OR PTE_X) s) (\<lambda>s.
     andthen (kvmmap kpgtbl (etext s) (etext s) (PHYSTOP - etext s) (PTE_R OR PTE_W) s) (\<lambda>s.
     andthen (kvmmap kpgtbl TRAMPOLINE (trampoline s) PGSIZE (PTE_R OR PTE_X) s) (\<lambda>s.
     andthen (proc_mapstacks kpgtbl s) (\<lambda>s.
     Inr (kpgtbl, s)))))))))"

definition kvminit :: "'a kvm_scheme \<Rightarrow> exn + 'a kvm_scheme" where
  "kvminit s = andthen (kvmmake s) (\<lambda>(pt, s). Inr (s\<lparr>kernel_pagetable := pt\<rparr>))"

definition kvminithart :: "'a kvm_scheme \<Rightarrow> 'a kvm_scheme" where
  "kvminithart s = s\<lparr>satp := MAKE_SATP (kernel_pagetable s)\<rparr>"

function uvmunmap_loop ::
  "uint64 \<Rightarrow> uint64 \<Rightarrow> uint64 \<Rightarrow> bool \<Rightarrow> 'a kmem_scheme \<Rightarrow> exn + 'a kmem_scheme" where
  "uvmunmap_loop pagetable a lim do_free s =
     (if a < lim then
        andthen (walk pagetable a False s) (\<lambda>(pte, s).
          if pte = 0 then Inl (Panic ''uvmunmap: walk'')
          else if load64 (mem s) pte AND PTE_V = 0 then Inl (Panic ''uvmunmap: not mapped'')
          else if PTE_FLAGS (load64 (mem s) pte) = PTE_V then Inl (Panic ''uvmunmap: not a leaf'')
          else andthen (if do_free then kfree (PTE2PA (load64 (mem s) pte)) s else Inr s) (\<lambda>s.
            uvmunmap_loop pagetable (a + PGSIZE) lim do_free (s\<lparr>mem := store64 pte 0 (mem s)\<rparr>)))
      else Inr s)"
  by pat_completeness auto
termination
  by (relation "measure (\<lambda>(pt, a, r). unat MAXVA - unat a)")
    (auto dest!: walk_Inr simp del: PGSIZE_def MAXVA_def intro: next_page_measure)

declare uvmunmap_loop.simps [simp del]

definition uvmunmap ::
  "uint64 \<Rightarrow> uint64 \<Rightarrow> uint64 \<Rightarrow> bool \<Rightarrow> 'a kmem_scheme \<Rightarrow> exn + 'a kmem_scheme" where
  "uvmunmap pagetable va npages do_free s =
     (if va mod PGSIZE \<noteq> 0 then Inl (Panic ''uvmunmap: not aligned'')
      else uvmunmap_loop pagetable va (va + npages * PGSIZE) do_free s)"

definition uvmcreate :: "'a kmem_scheme \<Rightarrow> exn + (uint64 \<times> 'a kmem_scheme)" where
  "uvmcreate s =
     andthen (kalloc s) (\<lambda>(pagetable, s).
       if pagetable = 0 then Inr (0, s)
       else Inr (pagetable, s\<lparr>mem := memset pagetable 0 4096 (mem s)\<rparr>))"

definition uvmfirst :: "uint64 \<Rightarrow> uchar list \<Rightarrow> 'a kmem_scheme \<Rightarrow> exn + 'a kmem_scheme" where
  "uvmfirst pagetable src s =
     (if length src \<ge> 4096 then Inl (Panic ''uvmfirst: more than a page'')
      else andthen (kalloc s) (\<lambda>(p, s).
        let s = s\<lparr>mem := memset p 0 4096 (mem s)\<rparr> in
        andthen (mappages pagetable 0 PGSIZE p (PTE_W OR PTE_R OR PTE_X OR PTE_U) s) (\<lambda>(r, s).
          Inr (s\<lparr>mem := store_bytes p src (mem s)\<rparr>))))"

text \<open>The page count of \<open>uvmdealloc\<close> is an \<^verbatim>\<open>int\<close>.\<close>

definition uvmdealloc :: "uint64 \<Rightarrow> uint64 \<Rightarrow> uint64 \<Rightarrow> 'a kmem_scheme \<Rightarrow> exn + (uint64 \<times> 'a kmem_scheme)" where
  "uvmdealloc pagetable oldsz newsz s =
     (if newsz \<ge> oldsz then Inr (oldsz, s)
      else andthen
        (if PGROUNDUP newsz < PGROUNDUP oldsz
         then let npages = (ucast ((PGROUNDUP oldsz - PGROUNDUP newsz) div PGSIZE) :: 32 word)
              in uvmunmap pagetable (PGROUNDUP newsz) (scast npages) True s
         else Inr s)
        (\<lambda>s. Inr (newsz, s)))"

lemma mappages_Inr: "mappages pt va sz pa perm s = Inr r \<Longrightarrow> va < MAXVA"
proof -
  assume "mappages pt va sz pa perm s = Inr r"
  then obtain q where "walk pt (PGROUNDDOWN va) True s = Inr q"
    unfolding mappages_def mappages_loop.simps [of pt "PGROUNDDOWN va"]
    by (auto simp: andthen_eq_Inr split: if_splits)
  then have "PGROUNDDOWN va < MAXVA" by (rule walk_Inr)
  then have "unat va div 4096 * 4096 < 4096 * 67108864"
    by (simp add: word_less_nat_alt unat_PGROUNDDOWN)
  then have "unat va div 4096 < 67108864" by simp
  then have "unat va < 274877906944" by linarith
  then show ?thesis by (simp add: word_less_nat_alt)
qed

function uvmalloc_loop ::
  "uint64 \<Rightarrow> uint64 \<Rightarrow> uint64 \<Rightarrow> uint64 \<Rightarrow> uint64 \<Rightarrow> 'a kmem_scheme \<Rightarrow> exn + (uint64 \<times> 'a kmem_scheme)" where
  "uvmalloc_loop pagetable a oldsz newsz xperm s =
     (if a < newsz then
        andthen (kalloc s) (\<lambda>(p, s).
          if p = 0 then andthen (uvmdealloc pagetable a oldsz s) (\<lambda>(_, s). Inr (0, s))
          else let s = s\<lparr>mem := memset p 0 4096 (mem s)\<rparr> in
            andthen (mappages pagetable a PGSIZE p (PTE_R OR PTE_U OR xperm) s) (\<lambda>(r, s).
              if r \<noteq> 0
              then andthen (kfree p s) (\<lambda>s.
                   andthen (uvmdealloc pagetable a oldsz s) (\<lambda>(_, s). Inr (0, s)))
              else uvmalloc_loop pagetable (a + PGSIZE) oldsz newsz xperm s))
      else Inr (newsz, s))"
  by pat_completeness auto
termination
  by (relation "measure (\<lambda>(pt, a, r). unat MAXVA - unat a)")
    (auto dest!: mappages_Inr simp del: PGSIZE_def MAXVA_def intro: next_page_measure)

declare uvmalloc_loop.simps [simp del]

definition uvmalloc ::
  "uint64 \<Rightarrow> uint64 \<Rightarrow> uint64 \<Rightarrow> uint64 \<Rightarrow> 'a kmem_scheme \<Rightarrow> exn + (uint64 \<times> 'a kmem_scheme)" where
  "uvmalloc pagetable oldsz newsz xperm s =
     (if newsz < oldsz then Inr (oldsz, s)
      else uvmalloc_loop pagetable (PGROUNDUP oldsz) (PGROUNDUP oldsz) newsz xperm s)"

text \<open>
  \<open>freewalk\<close> recurses through the tables in memory; the first argument bounds the depth
  of the recursion.
\<close>

primrec freewalk :: "nat \<Rightarrow> uint64 \<Rightarrow> 'a kmem_scheme \<Rightarrow> exn + 'a kmem_scheme" where
  "freewalk 0 pagetable s = Inl OutOfFuel"
| "freewalk (Suc n) pagetable s =
     andthen
       (for_each [0..<512] (\<lambda>i s.
          let pte = load64 (mem s) (slot pagetable i) in
          if pte AND PTE_V \<noteq> 0 \<and> pte AND (PTE_R OR PTE_W OR PTE_X) = 0
          then andthen (freewalk n (PTE2PA pte) s) (\<lambda>s.
               Inr (s\<lparr>mem := store64 (slot pagetable i) 0 (mem s)\<rparr>))
          else if pte AND PTE_V \<noteq> 0 then Inl (Panic ''freewalk: leaf'')
          else Inr s) s)
       (\<lambda>s. kfree pagetable s)"

definition uvmfree :: "uint64 \<Rightarrow> uint64 \<Rightarrow> 'a kmem_scheme \<Rightarrow> exn + 'a kmem_scheme" where
  "uvmfree pagetable sz s =
     andthen (if sz > 0 then uvmunmap pagetable 0 (PGROUNDUP sz div PGSIZE) True s else Inr s) (\<lambda>s.
       freewalk 3 pagetable s)"

function uvmcopy_loop ::
  "uint64 \<Rightarrow> uint64 \<Rightarrow> uint64 \<Rightarrow> uint64 \<Rightarrow> 'a kmem_scheme \<Rightarrow> exn + (int \<times> 'a kmem_scheme)" where
  "uvmcopy_loop old new i sz s =
     (if i < sz then
        andthen (walk old i False s) (\<lambda>(pte, s).
          if pte = 0 then Inl (Panic ''uvmcopy: pte should exist'')
          else if load64 (mem s) pte AND PTE_V = 0 then Inl (Panic ''uvmcopy: page not present'')
          else let pa = PTE2PA (load64 (mem s) pte);
                   flags = PTE_FLAGS (load64 (mem s) pte)
            in andthen (kalloc s) (\<lambda>(p, s).
              if p = 0 then andthen (uvmunmap new 0 (i div PGSIZE) True s) (\<lambda>s. Inr (- 1, s))
              else let s = s\<lparr>mem := memmove p pa 4096 (mem s)\<rparr> in
                andthen (mappages new i PGSIZE p flags s) (\<lambda>(r, s).
                  if r \<noteq> 0
                  then andthen (kfree p s) (\<lambda>s.
                       andthen (uvmunmap new 0 (i div PGSIZE) True s) (\<lambda>s. Inr (- 1, s)))
                  else uvmcopy_loop old new (i + PGSIZE) sz s)))
      else Inr (0, s))"
  by pat_completeness auto
termination
  by (relation "measure (\<lambda>(pt, q, a, r). unat MAXVA - unat a)")
    (auto dest!: walk_Inr simp del: PGSIZE_def MAXVA_def intro: next_page_measure)

declare uvmcopy_loop.simps [simp del]

definition uvmcopy :: "uint64 \<Rightarrow> uint64 \<Rightarrow> uint64 \<Rightarrow> 'a kmem_scheme \<Rightarrow> exn + (int \<times> 'a kmem_scheme)" where
  "uvmcopy old new sz s = uvmcopy_loop old new 0 sz s"

definition uvmclear :: "uint64 \<Rightarrow> uint64 \<Rightarrow> 'a kmem_scheme \<Rightarrow> exn + 'a kmem_scheme" where
  "uvmclear pagetable va s =
     andthen (walk pagetable va False s) (\<lambda>(pte, s).
       if pte = 0 then Inl (Panic ''uvmclear'')
       else Inr (s\<lparr>mem := store64 pte (load64 (mem s) pte AND NOT PTE_U) (mem s)\<rparr>))"

text \<open>The number of bytes from \<open>va\<close> to the end of its page, at most \<open>len\<close>.\<close>

definition chunk :: "uint64 \<Rightarrow> nat \<Rightarrow> nat" where
  "chunk va len = min (unat (PGSIZE - (va - PGROUNDDOWN va))) len"

lemma chunk_eq: "chunk va len = min (4096 - unat va mod 4096) len"
proof -
  have o: "unat (va - PGROUNDDOWN va) = unat va mod 4096" by (rule PGROUNDDOWN_offset)
  have "va - PGROUNDDOWN va \<le> 4096" using o by (simp add: word_le_nat_alt less_imp_le)
  then have "unat (4096 - (va - PGROUNDDOWN va)) = 4096 - unat va mod 4096"
    by (simp add: unat_sub o)
  then show ?thesis by (simp add: chunk_def)
qed

lemma chunk_pos: "0 < len \<Longrightarrow> 0 < chunk va len"
  by (simp add: chunk_eq)

lemma chunk_le: "chunk va len \<le> len"
  by (simp add: chunk_eq)

text \<open>\<open>copyout\<close>: \<open>src\<close> is the bytes to be copied, \<^verbatim>\<open>len\<close> their number.\<close>

function copyout :: "uint64 \<Rightarrow> uint64 \<Rightarrow> uchar list \<Rightarrow> 'a kmem_scheme \<Rightarrow> exn + (int \<times> 'a kmem_scheme)" where
  "copyout pagetable dstva src s =
     (if src = [] then Inr (0, s)
      else let va0 = PGROUNDDOWN dstva in
        andthen (walkaddr pagetable va0 s) (\<lambda>(pa0, s).
          if pa0 = 0 then Inr (- 1, s)
          else let n = chunk dstva (length src);
                   s = s\<lparr>mem := store_bytes (pa0 + (dstva - va0)) (take n src) (mem s)\<rparr>
               in copyout pagetable (va0 + PGSIZE) (drop n src) s))"
  by pat_completeness auto
termination
  by (relation "measure (\<lambda>(pt, va, src, s). length src)") (auto simp: chunk_pos)

text \<open>\<open>copyin\<close> and \<open>copyinstr\<close> also give the bytes stored at \<^verbatim>\<open>dst\<close>.\<close>

function copyin ::
  "uint64 \<Rightarrow> uint64 \<Rightarrow> nat \<Rightarrow> 'a kmem_scheme \<Rightarrow> exn + (int \<times> uchar list \<times> 'a kmem_scheme)" where
  "copyin pagetable srcva len s =
     (if len = 0 then Inr (0, [], s)
      else let va0 = PGROUNDDOWN srcva in
        andthen (walkaddr pagetable va0 s) (\<lambda>(pa0, s).
          if pa0 = 0 then Inr (- 1, [], s)
          else let n = chunk srcva len;
                   bs = load_bytes (mem s) (pa0 + (srcva - va0)) n
               in andthen (copyin pagetable (va0 + PGSIZE) (len - n) s) (\<lambda>(r, bs', s).
                  Inr (r, bs @ bs', s))))"
  by pat_completeness auto
termination
  by (relation "measure (\<lambda>(pt, va, len, s). len)") (auto simp: chunk_pos)

text \<open>The inner loop of \<open>copyinstr\<close>: the bytes stored and whether a NUL was met.\<close>

fun copy_until_nul :: "uchar list \<Rightarrow> uchar list \<times> bool" where
  "copy_until_nul [] = ([], False)"
| "copy_until_nul (b # bs) =
     (if b = 0 then ([0], True) else (let (r, g) = copy_until_nul bs in (b # r, g)))"

function copyinstr ::
  "uint64 \<Rightarrow> uint64 \<Rightarrow> nat \<Rightarrow> 'a kmem_scheme \<Rightarrow> exn + (int \<times> uchar list \<times> 'a kmem_scheme)" where
  "copyinstr pagetable srcva mx s =
     (if mx = 0 then Inr (- 1, [], s)
      else let va0 = PGROUNDDOWN srcva in
        andthen (walkaddr pagetable va0 s) (\<lambda>(pa0, s).
          if pa0 = 0 then Inr (- 1, [], s)
          else let n = chunk srcva mx;
                   (bs, got_null) = copy_until_nul (load_bytes (mem s) (pa0 + (srcva - va0)) n)
               in if got_null then Inr (0, bs, s)
                  else andthen (copyinstr pagetable (va0 + PGSIZE) (mx - n) s) (\<lambda>(r, bs', s).
                    Inr (r, bs @ bs', s))))"
  by pat_completeness auto
termination
  by (relation "measure (\<lambda>(pt, va, len, s). len)") (auto simp: chunk_pos)

declare copyout.simps [simp del] copyin.simps [simp del] copyinstr.simps [simp del]

end
