(* ===== verification/Pagetable.thy ===== *)
theory Pagetable
  imports Vm
begin

section \<open>What page tables mean\<close>

text \<open>
  The abstraction of the page tables of \<open>Vm\<close>: the set of the pages a table is made of
  (\<open>pt_pages\<close>), its well-formedness (\<open>pt_wf\<close>: a tree of distinct aligned pages whose
  inner entries carry no permission bits) and the leaf entry of a virtual address
  (\<open>leaf\<close>, 0 where there is none). The lemmas show what each routine of
  \<^verbatim>\<open>kernel/vm.c\<close> does to the three.
\<close>

declare PTE_V_def [simp del] PTE_R_def [simp del] PTE_W_def [simp del] PTE_X_def [simp del]
  PTE_U_def [simp del]

subsection \<open>Entries\<close>

definition pte_valid :: "uint64 \<Rightarrow> bool" where
  "pte_valid e \<longleftrightarrow> e AND PTE_V \<noteq> 0"

definition entry :: "memory \<Rightarrow> uint64 \<Rightarrow> nat \<Rightarrow> uint64" where
  "entry m pt i = load64 m (slot pt i)"

definition pte_inner :: "uint64 \<Rightarrow> bool" where
  "pte_inner e \<longleftrightarrow> e AND (PTE_R OR PTE_W OR PTE_X) = 0"

lemma PTE_V_less: "PTE_V < 1024"
  by (simp add: PTE_V_def)

lemma pte_valid_0 [simp]: "\<not> pte_valid 0"
  by (simp add: pte_valid_def)

lemma or_and_absorb: "(x OR y) AND y = (y :: uint64)"
  by (rule bit_word_eqI) (auto simp: bit_simps)

lemma pte_valid_or [simp]: "pte_valid (x OR PTE_V)"
  unfolding pte_valid_def or_and_absorb by (simp add: PTE_V_def)

lemma PA2PTE_and_flags: "fl < 1024 \<Longrightarrow> PA2PTE p AND fl = 0"
  by (rule bit_word_eqI) (auto simp: bit_and_iff bit_PA2PTE dest: flag_bits)

lemma pte_inner_link: "pte_inner (PA2PTE p OR PTE_V)"
proof -
  have "PA2PTE p AND 14 = 0" by (rule PA2PTE_and_flags) simp
  then show ?thesis
    by (simp add: pte_inner_def PTE_V_def PTE_R_def PTE_W_def PTE_X_def bit.conj_disj_distrib2)
qed

lemma PTE2PA_link [simp]: "page_aligned p \<Longrightarrow> PTE2PA (PA2PTE p OR PTE_V) = p"
  by (rule PTE2PA_PA2PTE) (simp_all add: PTE_V_less)

lemma slot_nonzero: "page_aligned p \<Longrightarrow> p \<noteq> 0 \<Longrightarrow> i < 512 \<Longrightarrow> slot p i \<noteq> 0"
  using slot_byte_page [of p i 0] PGROUNDDOWN_aligned [of 0] by auto

lemma entry_cong:
  "page_aligned pt \<Longrightarrow> i < 512 \<Longrightarrow> (\<And>x. PGROUNDDOWN x = pt \<Longrightarrow> m' x = m x) \<Longrightarrow> entry m' pt i = entry m pt i"
  unfolding entry_def by (rule load64_slot_cong)

lemma entry_store:
  "page_aligned p \<Longrightarrow> page_aligned q \<Longrightarrow> i < 512 \<Longrightarrow> j < 512 \<Longrightarrow>
   entry (store64 (slot p i) v m) q j = (if p = q \<and> i = j then v else entry m q j)"
  unfolding entry_def by (rule load64_slot_store64)

subsection \<open>The tree\<close>

fun pt_pages :: "nat \<Rightarrow> memory \<Rightarrow> uint64 \<Rightarrow> uint64 set" where
  "pt_pages 0 m pt = {pt}"
| "pt_pages (Suc l) m pt =
     insert pt (\<Union>i \<in> {i. i < 512 \<and> pte_valid (entry m pt i)}. pt_pages l m (PTE2PA (entry m pt i)))"

fun pt_wf :: "nat \<Rightarrow> memory \<Rightarrow> uint64 \<Rightarrow> bool" where
  "pt_wf 0 m pt \<longleftrightarrow> page_aligned pt"
| "pt_wf (Suc l) m pt \<longleftrightarrow> page_aligned pt \<and>
     (\<forall>i < 512. pte_valid (entry m pt i) \<longrightarrow> pte_inner (entry m pt i) \<and>
        pt_wf l m (PTE2PA (entry m pt i)) \<and> pt \<notin> pt_pages l m (PTE2PA (entry m pt i))) \<and>
     (\<forall>i < 512. \<forall>j < 512. i \<noteq> j \<longrightarrow> pte_valid (entry m pt i) \<longrightarrow> pte_valid (entry m pt j) \<longrightarrow>
        pt_pages l m (PTE2PA (entry m pt i)) \<inter> pt_pages l m (PTE2PA (entry m pt j)) = {})"

fun leaf :: "nat \<Rightarrow> memory \<Rightarrow> uint64 \<Rightarrow> uint64 \<Rightarrow> uint64" where
  "leaf 0 m pt va = entry m pt (unat (PX 0 va))"
| "leaf (Suc l) m pt va =
     (let e = entry m pt (unat (PX (Suc l) va))
      in if pte_valid e then leaf l m (PTE2PA e) va else 0)"

text \<open>The address of the leaf entry, where all the inner entries are there.\<close>

fun leaf_addr :: "nat \<Rightarrow> memory \<Rightarrow> uint64 \<Rightarrow> uint64 \<Rightarrow> uint64 option" where
  "leaf_addr 0 m pt va = Some (slot pt (unat (PX 0 va)))"
| "leaf_addr (Suc l) m pt va =
     (let e = entry m pt (unat (PX (Suc l) va))
      in if pte_valid e then leaf_addr l m (PTE2PA e) va else None)"

declare pt_wf.simps(2) [simp del] pt_pages.simps(2) [simp del] leaf.simps(2) [simp del] leaf_addr.simps(2) [simp del]

lemma pt_root [simp]: "pt \<in> pt_pages l m pt"
  by (cases l) (simp_all add: pt_pages.simps)

lemma pt_wf_aligned: "pt_wf l m pt \<Longrightarrow> page_aligned pt"
  by (cases l) (simp_all add: pt_wf.simps)

lemma pt_child:
  assumes "pt_wf (Suc l) m pt" "i < 512" "pte_valid (entry m pt i)"
  shows "pte_inner (entry m pt i)" "pt_wf l m (PTE2PA (entry m pt i))"
    "pt \<notin> pt_pages l m (PTE2PA (entry m pt i))"
    "pt_pages l m (PTE2PA (entry m pt i)) \<subseteq> pt_pages (Suc l) m pt"
  using assms by (simp_all add: pt_wf.simps pt_pages.simps) blast

lemma pt_siblings:
  assumes "pt_wf (Suc l) m pt" "i < 512" "j < 512" "i \<noteq> j" "pte_valid (entry m pt i)" "pte_valid (entry m pt j)"
  shows "pt_pages l m (PTE2PA (entry m pt i)) \<inter> pt_pages l m (PTE2PA (entry m pt j)) = {}"
  using assms by (simp add: pt_wf.simps)

lemma pt_wf_SucI:
  assumes "page_aligned pt"
    "\<And>i. i < 512 \<Longrightarrow> pte_valid (entry m pt i) \<Longrightarrow> pte_inner (entry m pt i) \<and>
       pt_wf l m (PTE2PA (entry m pt i)) \<and> pt \<notin> pt_pages l m (PTE2PA (entry m pt i))"
    "\<And>i j. i < 512 \<Longrightarrow> j < 512 \<Longrightarrow> i \<noteq> j \<Longrightarrow> pte_valid (entry m pt i) \<Longrightarrow> pte_valid (entry m pt j) \<Longrightarrow>
       pt_pages l m (PTE2PA (entry m pt i)) \<inter> pt_pages l m (PTE2PA (entry m pt j)) = {}"
  shows "pt_wf (Suc l) m pt"
  using assms unfolding pt_wf.simps by blast

lemma pt_pages_aligned: "pt_wf l m pt \<Longrightarrow> p \<in> pt_pages l m pt \<Longrightarrow> page_aligned p"
proof (induction l arbitrary: pt)
  case (Suc l)
  then show ?case using pt_wf_aligned [of "Suc l" m pt] pt_child(2) by (fastforce simp: pt_pages.simps)
qed simp

lemma leaf_Suc:
  "leaf (Suc l) m pt va = (if pte_valid (entry m pt (unat (PX (Suc l) va)))
     then leaf l m (PTE2PA (entry m pt (unat (PX (Suc l) va)))) va else 0)"
  by (simp add: leaf.simps Let_def)

lemma leaf_addr_Suc:
  "leaf_addr (Suc l) m pt va = (if pte_valid (entry m pt (unat (PX (Suc l) va)))
     then leaf_addr l m (PTE2PA (entry m pt (unat (PX (Suc l) va)))) va else None)"
  by (simp add: leaf_addr.simps Let_def)

lemma leaf_addr_leaf:
  "leaf l m pt va = (case leaf_addr l m pt va of None \<Rightarrow> 0 | Some a \<Rightarrow> load64 m a)"
  by (induction l arbitrary: pt) (simp_all add: leaf_Suc leaf_addr_Suc entry_def)

lemma leaf_addr_slot:
  "pt_wf l m pt \<Longrightarrow> leaf_addr l m pt va = Some a \<Longrightarrow>
   \<exists>p \<in> pt_pages l m pt. a = slot p (unat (PX 0 va))"
proof (induction l arbitrary: pt)
  case (Suc l)
  let ?e = "entry m pt (unat (PX (Suc l) va))"
  have e: "pte_valid ?e" "leaf_addr l m (PTE2PA ?e) va = Some a"
    using Suc.prems(2) by (simp_all add: leaf_addr_Suc split: if_splits)
  note c = pt_child [OF Suc.prems(1) PX_less e(1)]
  from Suc.IH [OF c(2) e(2)] c(4) show ?case by blast
qed simp

text \<open>A table does not depend on memory outside its pages.\<close>

lemma pt_entries_eq:
  assumes "pt_wf (Suc l) m pt" "\<And>i. i < 512 \<Longrightarrow> entry m' pt i = entry m pt i"
    "\<And>i. i < 512 \<Longrightarrow> pte_valid (entry m pt i) \<Longrightarrow>
       pt_pages l m' (PTE2PA (entry m pt i)) = pt_pages l m (PTE2PA (entry m pt i)) \<and>
       pt_wf l m' (PTE2PA (entry m pt i))"
  shows "pt_pages (Suc l) m' pt = pt_pages (Suc l) m pt \<and> pt_wf (Suc l) m' pt"
proof
  show "pt_pages (Suc l) m' pt = pt_pages (Suc l) m pt"
    unfolding pt_pages.simps using assms(2,3) by (intro arg_cong2 [where f = insert] SUP_cong refl) auto
  show "pt_wf (Suc l) m' pt"
  proof (rule pt_wf_SucI)
    show "page_aligned pt" using assms(1) by (rule pt_wf_aligned)
  next
    fix i :: nat
    assume i: "i < 512" "pte_valid (entry m' pt i)"
    then show "pte_inner (entry m' pt i) \<and> pt_wf l m' (PTE2PA (entry m' pt i)) \<and>
               pt \<notin> pt_pages l m' (PTE2PA (entry m' pt i))"
      using pt_child [OF assms(1), of i] assms(2,3) [of i] by simp
  next
    fix i j :: nat
    assume "i < 512" "j < 512" "i \<noteq> j" "pte_valid (entry m' pt i)" "pte_valid (entry m' pt j)"
    then show "pt_pages l m' (PTE2PA (entry m' pt i)) \<inter> pt_pages l m' (PTE2PA (entry m' pt j)) = {}"
      using pt_siblings [OF assms(1), of i j] assms(2,3) [of i] assms(2,3) [of j] by simp
  qed
qed

lemma pt_cong:
  assumes "pt_wf l m pt" "\<And>x. PGROUNDDOWN x \<in> pt_pages l m pt \<Longrightarrow> m' x = m x"
  shows "pt_pages l m' pt = pt_pages l m pt \<and> pt_wf l m' pt \<and> leaf l m' pt va = leaf l m pt va \<and>
         leaf_addr l m' pt va = leaf_addr l m pt va"
  using assms
proof (induction l arbitrary: pt)
  case 0
  then have "entry m' pt (unat (PX 0 va)) = entry m pt (unat (PX 0 va))"
    by (intro entry_cong PX_less) simp_all
  with 0 show ?case by simp
next
  case (Suc l)
  have e: "entry m' pt i = entry m pt i" if "i < 512" for i
    using pt_wf_aligned [OF Suc.prems(1)] that
  proof (rule entry_cong)
    show "m' x = m x" if "PGROUNDDOWN x = pt" for x using Suc.prems(2) [of x] that by simp
  qed
  have c: "pt_pages l m' (PTE2PA (entry m pt i)) = pt_pages l m (PTE2PA (entry m pt i)) \<and>
           pt_wf l m' (PTE2PA (entry m pt i)) \<and>
           leaf l m' (PTE2PA (entry m pt i)) va = leaf l m (PTE2PA (entry m pt i)) va \<and>
           leaf_addr l m' (PTE2PA (entry m pt i)) va = leaf_addr l m (PTE2PA (entry m pt i)) va"
    if i: "i < 512" "pte_valid (entry m pt i)" for i
  proof (rule Suc.IH)
    note c = pt_child [OF Suc.prems(1) i]
    show "pt_wf l m (PTE2PA (entry m pt i))" by (rule c)
    show "m' x = m x" if "PGROUNDDOWN x \<in> pt_pages l m (PTE2PA (entry m pt i))" for x
      using Suc.prems(2) [of x] that c(4) by blast
  qed
  have "pt_pages (Suc l) m' pt = pt_pages (Suc l) m pt \<and> pt_wf (Suc l) m' pt"
    using Suc.prems(1) e c by (intro pt_entries_eq) simp_all
  moreover have "leaf (Suc l) m' pt va = leaf (Suc l) m pt va"
    "leaf_addr (Suc l) m' pt va = leaf_addr (Suc l) m pt va"
    using e [OF PX_less] c [OF PX_less] by (simp_all add: leaf_Suc leaf_addr_Suc)
  ultimately show ?case by simp
qed

lemmas pt_pages_cong = pt_cong [THEN conjunct1]
lemmas pt_wf_cong = pt_cong [THEN conjunct2, THEN conjunct1]
lemmas leaf_cong = pt_cong [THEN conjunct2, THEN conjunct2, THEN conjunct1]
lemmas leaf_addr_cong = pt_cong [THEN conjunct2, THEN conjunct2, THEN conjunct2]

text \<open>A zeroed page is an empty table.\<close>

lemma pt_zero:
  assumes "page_aligned p" "\<And>x. PGROUNDDOWN x = p \<Longrightarrow> m x = 0"
  shows "pt_wf l m p" "pt_pages l m p = {p}" "leaf l m p va = 0"
proof -
  have e: "entry m p i = 0" if "i < 512" for i
  proof -
    have "entry m p i = entry (\<lambda>_. 0) p i" using assms that by (intro entry_cong) auto
    then show ?thesis by (simp add: entry_def load64_def)
  qed
  show "pt_wf l m p" "pt_pages l m p = {p}" "leaf l m p va = 0"
    using assms(1) e e [OF PX_less] by (cases l; simp add: pt_wf.simps pt_pages.simps leaf_Suc)+
qed

subsection \<open>Changing a table\<close>

text \<open>A change inside the subtree of one entry that may add new pages \<open>T\<close> to it.\<close>

lemma pt_subtree:
  assumes wf: "pt_wf (Suc l) m pt" and i: "i < 512" "pte_valid (entry m pt i)"
    and c: "c = PTE2PA (entry m pt i)"
    and frame: "\<forall>x. PGROUNDDOWN x \<notin> pt_pages l m c \<union> T \<longrightarrow> m' x = m x"
    and T: "T \<inter> pt_pages (Suc l) m pt = {}"
    and new: "pt_wf l m' c" "pt_pages l m' c = pt_pages l m c \<union> T"
  shows "pt_wf (Suc l) m' pt" "pt_pages (Suc l) m' pt = pt_pages (Suc l) m pt \<union> T"
    "j < 512 \<Longrightarrow> entry m' pt j = entry m pt j"
    "leaf (Suc l) m' pt va = (if unat (PX (Suc l) va) = i then leaf l m' c va else leaf (Suc l) m pt va)"
proof -
  note ci = pt_child [OF wf i, folded c]
  have e: "entry m' pt j = entry m pt j" if "j < 512" for j
    using pt_wf_aligned [OF wf] that
  proof (rule entry_cong)
    show "m' x = m x" if "PGROUNDDOWN x = pt" for x
      using spec [OF frame, of x] that ci(3) T pt_root [of pt "Suc l" m] by blast
  qed
  have o: "m' x = m x"
    if "j < 512" "j \<noteq> i" "pte_valid (entry m pt j)" "PGROUNDDOWN x \<in> pt_pages l m (PTE2PA (entry m pt j))" for j x
    using spec [OF frame, of x] pt_siblings [OF wf i(1) that(1) not_sym [OF that(2)] i(2) that(3)]
      pt_child(4) [OF wf that(1,3)] T that(4) unfolding c by blast
  have cc: "pt_pages l m' (PTE2PA (entry m pt j)) = pt_pages l m (PTE2PA (entry m pt j))"
    "pt_wf l m' (PTE2PA (entry m pt j))" "leaf l m' (PTE2PA (entry m pt j)) v = leaf l m (PTE2PA (entry m pt j)) v"
    if "j < 512" "j \<noteq> i" "pte_valid (entry m pt j)" for j v
    using pt_cong [OF pt_child(2) [OF wf that(1,3)], of m' v] o [OF that] by blast+
  have pages: "pt_pages l m' (PTE2PA (entry m pt j)) =
      (if j = i then pt_pages l m c \<union> T else pt_pages l m (PTE2PA (entry m pt j)))"
    if "j < 512" "pte_valid (entry m pt j)" for j
    using cc(1) that new(2) c by simp
  show "j < 512 \<Longrightarrow> entry m' pt j = entry m pt j" by (rule e)
  show "pt_pages (Suc l) m' pt = pt_pages (Suc l) m pt \<union> T"
  proof -
    have "pt_pages (Suc l) m' pt = insert pt (\<Union>j \<in> {j. j < 512 \<and> pte_valid (entry m pt j)}.
        if j = i then pt_pages l m c \<union> T else pt_pages l m (PTE2PA (entry m pt j)))"
      unfolding pt_pages.simps using e pages
      by (intro arg_cong2 [where f = insert] SUP_cong refl) auto
    also have "\<dots> = pt_pages (Suc l) m pt \<union> T"
      using i c by (auto simp: pt_pages.simps split: if_splits)
    finally show ?thesis .
  qed
  show "pt_wf (Suc l) m' pt"
  proof (rule pt_wf_SucI)
    show "page_aligned pt" using wf by (rule pt_wf_aligned)
  next
    fix j :: nat
    assume j: "j < 512" "pte_valid (entry m' pt j)"
    then have j': "pte_valid (entry m pt j)" by (simp add: e)
    have "pt_wf l m' (PTE2PA (entry m pt j))" using cc(2) j(1) j' new(1) c by (cases "j = i") auto
    moreover have "pt \<notin> T" using T pt_root [of pt "Suc l" m] by blast
    ultimately show "pte_inner (entry m' pt j) \<and> pt_wf l m' (PTE2PA (entry m' pt j)) \<and>
        pt \<notin> pt_pages l m' (PTE2PA (entry m' pt j))"
      using pt_child(1,3) [OF wf j(1) j'] ci(3) pages [OF j(1) j'] e [OF j(1)] by simp
  next
    fix j k :: nat
    assume jk: "j < 512" "k < 512" "j \<noteq> k" "pte_valid (entry m' pt j)" "pte_valid (entry m' pt k)"
    then have v: "pte_valid (entry m pt j)" "pte_valid (entry m pt k)" by (simp_all add: e)
    have "pt_pages l m (PTE2PA (entry m pt j)) \<inter> pt_pages l m (PTE2PA (entry m pt k)) = {}"
      using pt_siblings [OF wf jk(1-3) v] .
    moreover have "T \<inter> pt_pages l m (PTE2PA (entry m pt j)) = {}" "T \<inter> pt_pages l m (PTE2PA (entry m pt k)) = {}"
      using T pt_child(4) [OF wf jk(1) v(1)] pt_child(4) [OF wf jk(2) v(2)] by blast+
    ultimately show "pt_pages l m' (PTE2PA (entry m' pt j)) \<inter> pt_pages l m' (PTE2PA (entry m' pt k)) = {}"
      using pages [OF jk(1) v(1)] pages [OF jk(2) v(2)] e jk c by auto
  qed
  show "leaf (Suc l) m' pt va = (if unat (PX (Suc l) va) = i then leaf l m' c va else leaf (Suc l) m pt va)"
    using e [OF PX_less, of "Suc l" va] e [OF i(1)] i(2) c cc(3) [OF PX_less, of "Suc l" va va] by (simp add: leaf_Suc)
qed

text \<open>Linking a zeroed page into an invalid entry, as \<open>walk\<close> does.\<close>

lemma pt_link:
  assumes wf: "pt_wf (Suc l) m pt" and i: "i < 512" "\<not> pte_valid (entry m pt i)"
    and p: "page_aligned p" "p \<notin> pt_pages (Suc l) m pt"
    and m1: "\<forall>x. m1 x = (if PGROUNDDOWN x = p then 0 else m x)"
    and m': "m' = store64 (slot pt i) (PA2PTE p OR PTE_V) m1"
  shows "pt_wf (Suc l) m' pt" "pt_pages (Suc l) m' pt = insert p (pt_pages (Suc l) m pt)"
    "leaf (Suc l) m' pt va = leaf (Suc l) m pt va" "entry m' pt i = PA2PTE p OR PTE_V"
proof -
  have zero: "m1 x = 0" if "PGROUNDDOWN x = p" for x using m1 that by simp
  have frame: "m1 x = m x" if "PGROUNDDOWN x \<noteq> p" for x using m1 that by simp
  have al: "page_aligned pt" using wf by (rule pt_wf_aligned)
  have ne: "p \<noteq> pt" using p(2) by auto
  have out: "m' x = m1 x" if "PGROUNDDOWN x \<noteq> pt" for x
    unfolding m' using al i(1) that by (rule store64_slot_other_page)
  have e: "entry m' pt j = (if j = i then PA2PTE p OR PTE_V else entry m pt j)" if "j < 512" for j
  proof -
    have "entry m1 pt j = entry m pt j" using al that frame ne by (intro entry_cong) auto
    then show ?thesis unfolding m' using al i(1) that by (simp add: entry_store)
  qed
  have o: "m' x = m x"
    if "j < 512" "pte_valid (entry m pt j)" "PGROUNDDOWN x \<in> pt_pages l m (PTE2PA (entry m pt j))" for j x
    using pt_child(3,4) [OF wf that(1,2)] that(3) p(2) out [of x] frame [of x] by (metis subsetD)
  have cc: "pt_pages l m' (PTE2PA (entry m pt j)) = pt_pages l m (PTE2PA (entry m pt j))"
    "pt_wf l m' (PTE2PA (entry m pt j))" "leaf l m' (PTE2PA (entry m pt j)) v = leaf l m (PTE2PA (entry m pt j)) v"
    if "j < 512" "pte_valid (entry m pt j)" for j v
    using pt_cong [OF pt_child(2) [OF wf that], of m' v] o [OF that] by blast+
  have z: "m' x = 0" if "PGROUNDDOWN x = p" for x using out [of x] zero [of x] that ne by simp
  note zp = pt_zero [OF p(1) z]
  have pages: "pt_pages l m' (PTE2PA (entry m' pt j)) =
      (if j = i then {p} else pt_pages l m (PTE2PA (entry m pt j)))"
    if "j < 512" "j = i \<or> pte_valid (entry m pt j)" for j
    using that cc(1) zp(2) e [OF that(1)] p(1) by auto
  have valid: "pte_valid (entry m' pt j) \<longleftrightarrow> j = i \<or> pte_valid (entry m pt j)" if "j < 512" for j
    using e [OF that] by simp
  show "entry m' pt i = PA2PTE p OR PTE_V" using e [OF i(1)] by simp
  show "pt_pages (Suc l) m' pt = insert p (pt_pages (Suc l) m pt)"
  proof -
    have "pt_pages (Suc l) m' pt = insert pt (\<Union>j \<in> {j. j < 512 \<and> (j = i \<or> pte_valid (entry m pt j))}.
        if j = i then {p} else pt_pages l m (PTE2PA (entry m pt j)))"
      unfolding pt_pages.simps using valid pages
      by (intro arg_cong2 [where f = insert] SUP_cong refl) auto
    also have "\<dots> = insert p (pt_pages (Suc l) m pt)"
      using i by (auto simp: pt_pages.simps split: if_splits)
    finally show ?thesis .
  qed
  show "pt_wf (Suc l) m' pt"
  proof (rule pt_wf_SucI)
    show "page_aligned pt" by (rule al)
  next
    fix j :: nat
    assume j: "j < 512" "pte_valid (entry m' pt j)"
    then show "pte_inner (entry m' pt j) \<and> pt_wf l m' (PTE2PA (entry m' pt j)) \<and>
        pt \<notin> pt_pages l m' (PTE2PA (entry m' pt j))"
      using pages [OF j(1)] valid [OF j(1)] e [OF j(1)] ne p(1) zp(1) cc(2) [OF j(1)]
        pt_child(1,3) [OF wf j(1)] pte_inner_link by (cases "j = i") auto
  next
    fix j k :: nat
    assume jk: "j < 512" "k < 512" "j \<noteq> k" "pte_valid (entry m' pt j)" "pte_valid (entry m' pt k)"
    then have v: "j = i \<or> pte_valid (entry m pt j)" "k = i \<or> pte_valid (entry m pt k)"
      by (simp_all add: valid)
    have "pt_pages l m (PTE2PA (entry m pt j)) \<inter> pt_pages l m (PTE2PA (entry m pt k)) = {}"
      if "j \<noteq> i" "k \<noteq> i" using pt_siblings [OF wf jk(1-3)] v that by simp
    moreover have "p \<notin> pt_pages l m (PTE2PA (entry m pt n))" if "n < 512" "pte_valid (entry m pt n)" for n
      using pt_child(4) [OF wf that] p(2) by blast
    ultimately show "pt_pages l m' (PTE2PA (entry m' pt j)) \<inter> pt_pages l m' (PTE2PA (entry m' pt k)) = {}"
      using pages [OF jk(1) v(1)] pages [OF jk(2) v(2)] jk v by auto
  qed
  show "leaf (Suc l) m' pt va = leaf (Suc l) m pt va"
  proof (cases "unat (PX (Suc l) va) = i")
    case True
    then show ?thesis using e [OF i(1)] i p(1) zp(3) by (simp add: leaf_Suc)
  next
    case False
    then show ?thesis using e [OF PX_less, of "Suc l" va] cc(3) [OF PX_less, of "Suc l" va va] by (simp add: leaf_Suc)
  qed
qed

subsection \<open>\<open>walk\<close>\<close>

text \<open>Only memory and the head of the free list differ.\<close>

definition mem_only :: "'a kmem_scheme \<Rightarrow> 'a kmem_scheme \<Rightarrow> bool" where
  "mem_only s t \<longleftrightarrow> t = s\<lparr>mem := mem t, freelist := freelist t\<rparr>"

lemma mem_only_refl [simp]: "mem_only s s"
  by (simp add: mem_only_def)

lemma mem_only_trans: "mem_only s t \<Longrightarrow> mem_only t u \<Longrightarrow> mem_only s u"
  by (cases s; cases t; cases u) (simp add: mem_only_def)

lemma mem_only_update [simp]:
  "mem_only s (t\<lparr>mem := m\<rparr>) = mem_only s t" "mem_only s (t\<lparr>freelist := f\<rparr>) = mem_only s t"
  by (cases s; cases t; simp add: mem_only_def)+

lemma mem_only_fields:
  assumes "mem_only s t"
  shows "held t = held s" "kend t = kend s" "ram_page t = ram_page s"
proof -
  obtain m f where t: "t = s\<lparr>mem := m, freelist := f\<rparr>" using assms by (auto simp: mem_only_def)
  show "held t = held s" "kend t = kend s" "ram_page t = ram_page s"
    unfolding t by (simp_all add: ram_page_def fun_eq_iff)
qed

text \<open>A table and the free list next to it: distinct pages of RAM.\<close>

definition pt_ok :: "nat \<Rightarrow> 'a kmem_scheme \<Rightarrow> uint64 \<Rightarrow> uint64 list \<Rightarrow> bool" where
  "pt_ok l s pt ps \<longleftrightarrow> pt_wf l (mem s) pt \<and> free_list s ps \<and>
     (\<forall>p \<in> pt_pages l (mem s) pt. ram_page s p \<and> p \<notin> set ps)"

text \<open>
  From \<open>s\<close> to \<open>t\<close> the table took the pages \<open>ts\<close> from the free list, which is now \<open>qs\<close>; it
  still has the same leaf entries, and memory changed in its pages only.
\<close>

definition pt_grown :: "nat \<Rightarrow> uint64 \<Rightarrow> 'a kmem_scheme \<Rightarrow> uint64 list \<Rightarrow> 'a kmem_scheme \<Rightarrow> uint64 list \<Rightarrow> bool" where
  "pt_grown l pt s ts t qs \<longleftrightarrow> pt_ok l t pt qs \<and> mem_only s t \<and>
     pt_pages l (mem t) pt = pt_pages l (mem s) pt \<union> set ts \<and>
     (\<forall>x. PGROUNDDOWN x \<notin> pt_pages l (mem t) pt \<longrightarrow> mem t x = mem s x) \<and>
     (\<forall>vb. leaf l (mem t) pt vb = leaf l (mem s) pt vb)"

lemma pt_grown_refl: "pt_ok l s pt ps \<Longrightarrow> pt_grown l pt s [] s ps"
  by (simp add: pt_grown_def)

lemma pt_grown_trans:
  assumes "pt_grown l pt s ts t ps" "pt_grown l pt t us u qs"
  shows "pt_grown l pt s (ts @ us) u qs"
  using assms mem_only_trans [of s t u] unfolding pt_grown_def by auto

lemma free_list_distinct: "free_list s (ts @ qs) \<Longrightarrow> set ts \<inter> set qs = {} \<and> (\<forall>p \<in> set ts. ram_page s p)"
  by (auto simp: free_list_def)

lemma pt_grown_lift:
  assumes ok: "pt_ok (Suc l) s pt (ts @ qs)" and i: "i < 512" "pte_valid (entry (mem s) pt i)"
    and c: "c = PTE2PA (entry (mem s) pt i)" and g: "pt_grown l c s ts t qs"
  shows "pt_grown (Suc l) pt s ts t qs" "entry (mem t) pt i = entry (mem s) pt i"
proof -
  have wf: "pt_wf (Suc l) (mem s) pt" and fl: "free_list s (ts @ qs)"
    and rp: "\<And>p. p \<in> pt_pages (Suc l) (mem s) pt \<Longrightarrow> ram_page s p \<and> p \<notin> set (ts @ qs)"
    using ok by (auto simp: pt_ok_def)
  have g': "pt_wf l (mem t) c" "free_list t qs" "mem_only s t"
      "pt_pages l (mem t) c = pt_pages l (mem s) c \<union> set ts"
      "\<forall>x. PGROUNDDOWN x \<notin> pt_pages l (mem s) c \<union> set ts \<longrightarrow> mem t x = mem s x"
      "\<And>vb. leaf l (mem t) c vb = leaf l (mem s) c vb"
    using g by (auto simp: pt_grown_def pt_ok_def)
  have T: "set ts \<inter> pt_pages (Suc l) (mem s) pt = {}" using rp by fastforce
  note st = pt_subtree [OF wf i c g'(5) T g'(1,4)]
  show "entry (mem t) pt i = entry (mem s) pt i" using st(3) i(1) .
  have "leaf (Suc l) (mem t) pt vb = leaf (Suc l) (mem s) pt vb" for vb
    using st(4) [of vb] g'(6) [of vb] i(2) c by (simp add: leaf_Suc)
  moreover have "pt_ok (Suc l) t pt qs"
    using st(1,2) g'(2) rp free_list_distinct [OF fl] mem_only_fields(3) [OF g'(3)] by (auto simp: pt_ok_def)
  moreover have "PGROUNDDOWN x \<notin> pt_pages (Suc l) (mem t) pt \<Longrightarrow> mem t x = mem s x" for x
    using st(2) spec [OF g'(5), of x] pt_child(4) [OF wf i] c by auto
  ultimately show "pt_grown (Suc l) pt s ts t qs"
    using st(2) g'(3) by (simp add: pt_grown_def)
qed

text \<open>The page \<open>walk\<close> allocates for a missing table, zeroed and linked.\<close>

definition link_state :: "uint64 \<Rightarrow> uint64 \<Rightarrow> 'a kmem_scheme \<Rightarrow> 'a kmem_scheme" where
  "link_state pte p s = s\<lparr>freelist := load64 (mem s) p,
     mem := store64 pte (PA2PTE p OR PTE_V) (memset p 0 4096 (memset p 5 4096 (mem s)))\<rparr>"

lemma free_list_memset:
  assumes "free_list s ps" "page_aligned p" "p \<notin> set ps"
  shows "free_list (s\<lparr>mem := memset p c 4096 (mem s)\<rparr>) ps"
  using assms by (elim free_list_cong) (auto simp: memset_page)

lemma free_list_store:
  assumes "free_list s ps" "page_aligned p" "p \<notin> set ps" "i < 512"
  shows "free_list (s\<lparr>mem := store64 (slot p i) v (mem s)\<rparr>) ps"
  using assms by (elim free_list_cong) (auto intro!: store64_slot_other_page)

lemma pt_grown_link:
  assumes ok: "pt_ok (Suc l) s pt (p # ps)" and i: "i < 512" "\<not> pte_valid (entry (mem s) pt i)"
    and t: "t = link_state (slot pt i) p s"
  shows "pt_grown (Suc l) pt s [p] t ps" "entry (mem t) pt i = PA2PTE p OR PTE_V"
proof -
  have wf: "pt_wf (Suc l) (mem s) pt" and fl: "free_list s (p # ps)"
    and rp: "\<And>q. q \<in> pt_pages (Suc l) (mem s) pt \<Longrightarrow> ram_page s q \<and> q \<notin> set (p # ps)"
    using ok by (auto simp: pt_ok_def)
  have p: "page_aligned p" "p \<notin> pt_pages (Suc l) (mem s) pt" "ram_page s p" "p \<notin> set ps"
    using fl rp by (auto simp: free_list_def ram_page_def)
  have al: "page_aligned pt" using wf by (rule pt_wf_aligned)
  define m1 where "m1 = memset p 0 4096 (memset p 5 4096 (mem s))"
  have m1: "\<forall>x. m1 x = (if PGROUNDDOWN x = p then 0 else mem s x)"
    using p(1) by (simp add: m1_def memset_page)
  have mt: "mem t = store64 (slot pt i) (PA2PTE p OR PTE_V) m1"
    by (simp add: t link_state_def m1_def)
  note lk = pt_link [OF wf i p(1,2) m1 mt]
  show "entry (mem t) pt i = PA2PTE p OR PTE_V" by (rule lk(4))
  have m: "mem_only s t" by (simp add: t link_state_def)
  have "free_list t ps"
  proof -
    have 1: "free_list (s\<lparr>freelist := load64 (mem s) p, mem := memset p 5 4096 (mem s)\<rparr>) ps"
      using fl by (rule free_list_kalloc)
    have "pt \<notin> set ps" using rp [OF pt_root] by simp
    from free_list_store [OF free_list_memset [OF 1 p(1,4)] al this i(1), of "PA2PTE p OR PTE_V"]
    show ?thesis by (simp add: t link_state_def)
  qed
  moreover have "mem t x = mem s x" if "PGROUNDDOWN x \<notin> pt_pages (Suc l) (mem t) pt" for x
  proof -
    have "PGROUNDDOWN x \<noteq> pt" "PGROUNDDOWN x \<noteq> p" using that unfolding lk(2) by auto
    then show ?thesis using store64_slot_other_page [OF al i(1), of x] m1 by (simp add: mt)
  qed
  ultimately show "pt_grown (Suc l) pt s [p] t ps"
    using lk(1-3) m rp p(3,4) mem_only_fields(3) [OF m] by (auto simp: pt_grown_def pt_ok_def)
qed

lemma walk_level_Suc:
  "walk_level (Suc l) pt va alloc s =
     (let i = unat (PX (Suc l) va); pte = slot pt i in
      if pte_valid (entry (mem s) pt i) then walk_level l (PTE2PA (entry (mem s) pt i)) va alloc s
      else if \<not> alloc then Inr (0, s)
      else andthen (kalloc s) (\<lambda>(p, s).
        if p = 0 then Inr (0, s)
        else let s = s\<lparr>mem := memset p 0 4096 (mem s)\<rparr>;
                 s = s\<lparr>mem := store64 pte (PA2PTE p OR PTE_V) (mem s)\<rparr>
             in walk_level l p va alloc s))"
  by (simp only: walk_level.simps pte_valid_def entry_def Let_def)

declare walk_level.simps(2) [simp del]

lemma walk_level_link:
  assumes "free_list s (p # ps)" "KmemLock \<notin> set (held s)" "\<not> pte_valid (entry (mem s) pt (unat (PX (Suc l) va)))"
  shows "walk_level (Suc l) pt va True s = walk_level l p va True (link_state (slot pt (unat (PX (Suc l) va))) p s)"
proof -
  have "p \<noteq> 0" using assms(1) ram_page_nonzero by (auto simp: free_list_def)
  then show ?thesis
    using assms(3) kalloc_page [OF assms(1,2)] by (simp add: walk_level_Suc Let_def link_state_def)
qed

text \<open>
  The result of \<open>walk\<close> with allocation, as a postcondition: it takes at most \<open>n\<close> pages, and
  fails only when it used up the free list without having taken that many.
\<close>

definition walk_post :: "nat \<Rightarrow> nat \<Rightarrow> uint64 \<Rightarrow> uint64 \<Rightarrow> 'a kmem_scheme \<Rightarrow> uint64 list \<Rightarrow> uint64 \<times> 'a kmem_scheme \<Rightarrow> bool" where
  "walk_post n l pt va s ps = (\<lambda>(a, t). \<exists>ts qs. ps = ts @ qs \<and> pt_grown l pt s ts t qs \<and> length ts \<le> n \<and>
     (a = 0 \<longrightarrow> qs = [] \<and> length ts < n) \<and> (a \<noteq> 0 \<longrightarrow> leaf_addr l (mem t) pt va = Some a))"

lemma walk_post_grown:
  assumes "pt_grown l pt s us t qs" "walk_post n l pt va t qs r"
  shows "walk_post (length us + n) l pt va s (us @ qs) r"
proof -
  obtain a u ts rs where r: "r = (a, u)" "qs = ts @ rs" "pt_grown l pt t ts u rs" "length ts \<le> n"
      "a = 0 \<longrightarrow> rs = [] \<and> length ts < n" "a \<noteq> 0 \<longrightarrow> leaf_addr l (mem u) pt va = Some a"
    using assms(2) by (auto simp: walk_post_def)
  have "us @ qs = (us @ ts) @ rs" using r(2) by simp
  moreover have "pt_grown l pt s (us @ ts) u rs" using assms(1) r(3) by (rule pt_grown_trans)
  ultimately show ?thesis
    unfolding walk_post_def r(1) prod.case using r(4-6) by (intro exI [of _ "us @ ts"] exI [of _ rs]) simp
qed

lemma walk_level_step:
  assumes ok: "pt_ok (Suc l) s pt ps" and v: "pte_valid (entry (mem s) pt (unat (PX (Suc l) va)))"
    and IH: "returns x (walk_post n l (PTE2PA (entry (mem s) pt (unat (PX (Suc l) va)))) va s ps)"
  shows "returns x (walk_post n (Suc l) pt va s ps)"
proof (rule returns_mono [OF IH])
  fix r
  assume "walk_post n l (PTE2PA (entry (mem s) pt (unat (PX (Suc l) va)))) va s ps r"
  then obtain a t ts qs where r: "r = (a, t)" "ps = ts @ qs"
      "pt_grown l (PTE2PA (entry (mem s) pt (unat (PX (Suc l) va)))) s ts t qs" "length ts \<le> n"
      "a = 0 \<longrightarrow> qs = [] \<and> length ts < n"
      "a \<noteq> 0 \<longrightarrow> leaf_addr l (mem t) (PTE2PA (entry (mem s) pt (unat (PX (Suc l) va)))) va = Some a"
    by (auto simp: walk_post_def)
  from pt_grown_lift [OF ok [unfolded r(2)] PX_less v refl r(3)] r v
  show "walk_post n (Suc l) pt va s ps r"
    unfolding walk_post_def r(1) prod.case by (intro exI [of _ ts] exI [of _ qs]) (simp add: leaf_addr_Suc)
qed

lemma walk_post_Suc: "walk_post n l pt va s ps r \<Longrightarrow> walk_post (Suc n) l pt va s ps r"
  unfolding walk_post_def split_beta by (elim exE, rule exI, rule exI) (erule conj_forward | simp add: less_SucI)+

lemma walk_level_spec:
  assumes "pt_ok l s pt ps" "KmemLock \<notin> set (held s)"
  shows "returns (walk_level l pt va True s) (walk_post l l pt va s ps)"
  using assms
proof (induction l arbitrary: s pt ps)
  case 0
  then have "pt \<noteq> 0" "page_aligned pt" by (auto simp: pt_ok_def free_list_def ram_page_def)
  then have "slot pt (unat (PX 0 va)) \<noteq> 0" by (intro slot_nonzero PX_less)
  with 0 show ?case by (auto simp: walk_post_def intro!: pt_grown_refl)
next
  case (Suc l)
  let ?i = "unat (PX (Suc l) va)"
  have valid: "returns (walk_level l (PTE2PA (entry (mem s) pt ?i)) va True s) (walk_post l (Suc l) pt va s ps)"
    if "pt_ok (Suc l) s pt ps" "KmemLock \<notin> set (held s)" "pte_valid (entry (mem s) pt ?i)" for s :: "'a kmem_scheme" and ps
  proof (rule walk_level_step [OF that(1,3)], rule Suc.IH)
    have wf: "pt_wf (Suc l) (mem s) pt" using that(1) by (simp add: pt_ok_def)
    show "pt_ok l s (PTE2PA (entry (mem s) pt ?i)) ps"
      using that(1) pt_child(2,4) [OF wf PX_less that(3)] by (auto simp: pt_ok_def)
  qed (rule that(2))
  show ?case
  proof (cases "pte_valid (entry (mem s) pt ?i)")
    case True
    then show ?thesis
      using returns_mono [OF valid [OF Suc.prems True] walk_post_Suc] by (simp add: walk_level_Suc)
  next
    case False
    have fl: "free_list s ps" using Suc.prems(1) by (simp add: pt_ok_def)
    show ?thesis
    proof (cases ps)
      case Nil
      then show ?thesis
        using False Suc.prems fl pt_grown_refl [OF Suc.prems(1)]
        by (simp add: walk_level_Suc kalloc_empty walk_post_def Let_def)
    next
      case (Cons p qs)
      let ?t = "link_state (slot pt ?i) p s"
      note g = pt_grown_link [OF Suc.prems(1) [unfolded Cons] PX_less False refl]
      have ok: "pt_ok (Suc l) ?t pt qs" and m: "mem_only s ?t" using g(1) by (simp_all add: pt_grown_def)
      have p: "page_aligned p" using fl Cons by (simp add: free_list_def ram_page_def)
      have "KmemLock \<notin> set (held ?t)" using Suc.prems(2) mem_only_fields(1) [OF m] by simp
      from valid [OF ok this] g(2) p have "returns (walk_level l p va True ?t) (walk_post l (Suc l) pt va ?t qs)"
        by simp
      then have "returns (walk_level l p va True ?t) (walk_post (Suc l) (Suc l) pt va s (p # qs))"
        by (rule returns_mono) (drule walk_post_grown [OF g(1)], simp)
      then show ?thesis
        using walk_level_link [OF fl [unfolded Cons] Suc.prems(2) False] Cons by simp
    qed
  qed
qed

lemma walk_alloc:
  assumes "va < MAXVA" "pt_ok 2 s pt ps" "KmemLock \<notin> set (held s)"
  shows "returns (walk pt va True s) (walk_post 2 2 pt va s ps)"
  using walk_level_spec [OF assms(2,3)] assms(1) by (simp add: walk_def)

lemma walk_level_noalloc:
  "walk_level l pt va False s = Inr (case leaf_addr l (mem s) pt va of None \<Rightarrow> 0 | Some a \<Rightarrow> a, s)"
  by (induction l arbitrary: pt) (simp_all add: walk_level_Suc leaf_addr_Suc Let_def)

lemma walk_noalloc:
  "va < MAXVA \<Longrightarrow> walk pt va False s = Inr (case leaf_addr 2 (mem s) pt va of None \<Rightarrow> 0 | Some a \<Rightarrow> a, s)"
  by (simp add: walk_def walk_level_noalloc)

subsection \<open>Writing a leaf entry\<close>

fun same_path :: "nat \<Rightarrow> uint64 \<Rightarrow> uint64 \<Rightarrow> bool" where
  "same_path 0 va vb \<longleftrightarrow> PX 0 va = PX 0 vb"
| "same_path (Suc l) va vb \<longleftrightarrow> PX (Suc l) va = PX (Suc l) vb \<and> same_path l va vb"

lemma same_path_page:
  assumes "va < MAXVA" "vb < MAXVA"
  shows "same_path 2 va vb \<longleftrightarrow> PGROUNDDOWN va = PGROUNDDOWN vb"
  using PX_inj [OF assms] PX_PGROUNDDOWN [of _ va] PX_PGROUNDDOWN [of _ vb]
  by (auto simp: numeral_2_eq_2)

lemma PX_eq [simp]: "unat (PX k va) = unat (PX k vb) \<longleftrightarrow> PX k va = PX k vb"
  by (simp add: word_unat_eq_iff)

lemma leaf_store:
  assumes "pt_wf l m pt" "leaf_addr l m pt va = Some a" "m' = store64 a v m"
  shows "pt_wf l m' pt \<and> pt_pages l m' pt = pt_pages l m pt \<and>
         (\<forall>x. PGROUNDDOWN x \<notin> pt_pages l m pt \<longrightarrow> m' x = m x) \<and>
         leaf l m' pt vb = (if same_path l va vb then v else leaf l m pt vb)"
  using assms(1,2)
proof (induction l arbitrary: pt)
  case 0
  then have "a = slot pt (unat (PX 0 va))" "page_aligned pt" by simp_all
  then show ?case
    using assms(3) store64_slot_other_page [of pt "unat (PX 0 va)"]
    by (simp add: entry_store PX_less)
next
  case (Suc l)
  let ?i = "unat (PX (Suc l) va)" and ?c = "PTE2PA (entry m pt (unat (PX (Suc l) va)))"
  have v: "pte_valid (entry m pt ?i)" and a: "leaf_addr l m ?c va = Some a"
    using Suc.prems(2) by (simp_all add: leaf_addr_Suc split: if_splits)
  note c = pt_child [OF Suc.prems(1) PX_less v]
  note IH = Suc.IH [OF c(2) a]
  have "\<forall>x. PGROUNDDOWN x \<notin> pt_pages l m ?c \<union> {} \<longrightarrow> m' x = m x" "{} \<inter> pt_pages (Suc l) m pt = {}"
    "pt_wf l m' ?c" "pt_pages l m' ?c = pt_pages l m ?c \<union> {}" using IH by simp_all
  note st = pt_subtree [OF Suc.prems(1) PX_less v refl this]
  have "leaf (Suc l) m' pt vb = (if same_path (Suc l) va vb then v else leaf (Suc l) m pt vb)"
    unfolding st(4) using IH v by (auto simp: leaf_Suc)
  moreover have "m' x = m x" if "PGROUNDDOWN x \<notin> pt_pages (Suc l) m pt" for x
    using IH c(4) that by blast
  ultimately show ?case using st(1,2) by simp
qed

text \<open>
  The outcome of a routine that changes leaf entries: the table took the pages \<open>ts\<close>, the
  free list is \<open>qs\<close>, and the leaf entries are now \<open>f\<close>.
\<close>

definition pt_upd :: "uint64 \<Rightarrow> 'a kmem_scheme \<Rightarrow> uint64 list \<Rightarrow> 'a kmem_scheme \<Rightarrow> uint64 list \<Rightarrow> (uint64 \<Rightarrow> uint64) \<Rightarrow> bool" where
  "pt_upd pt s ts t qs f \<longleftrightarrow> pt_ok 2 t pt qs \<and> mem_only s t \<and>
     pt_pages 2 (mem t) pt = pt_pages 2 (mem s) pt \<union> set ts \<and>
     (\<forall>x. PGROUNDDOWN x \<notin> pt_pages 2 (mem t) pt \<longrightarrow> mem t x = mem s x) \<and>
     (\<forall>vb < MAXVA. leaf 2 (mem t) pt vb = f vb)"

lemma pt_grown_upd: "pt_grown 2 pt s ts t qs \<Longrightarrow> pt_upd pt s ts t qs (leaf 2 (mem s) pt)"
  by (simp add: pt_grown_def pt_upd_def)

lemma pt_upd_trans:
  assumes "pt_upd pt s ts t ps f" "pt_upd pt t us u qs g"
  shows "pt_upd pt s (ts @ us) u qs g"
  using assms mem_only_trans [of s t u] unfolding pt_upd_def by auto

lemma pt_upd_store:
  assumes "pt_ok 2 s pt ps" "leaf_addr 2 (mem s) pt va = Some a" "va < MAXVA"
  shows "pt_upd pt s [] (s\<lparr>mem := store64 a v (mem s)\<rparr>) ps
           (\<lambda>vb. if PGROUNDDOWN vb = PGROUNDDOWN va then v else leaf 2 (mem s) pt vb)"
proof -
  have wf: "pt_wf 2 (mem s) pt" and fl: "free_list s ps"
    and rp: "\<And>p. p \<in> pt_pages 2 (mem s) pt \<Longrightarrow> ram_page s p \<and> p \<notin> set ps"
    using assms(1) by (auto simp: pt_ok_def)
  note ls = leaf_store [OF wf assms(2) refl, of v]
  obtain p where p: "p \<in> pt_pages 2 (mem s) pt" "a = slot p (unat (PX 0 va))"
    using leaf_addr_slot [OF wf assms(2)] by blast
  have "free_list (s\<lparr>mem := store64 a v (mem s)\<rparr>) ps"
    unfolding p(2) using fl pt_pages_aligned [OF wf p(1)] rp [OF p(1)] PX_less by (intro free_list_store) auto
  moreover have "leaf 2 (store64 a v (mem s)) pt vb =
      (if PGROUNDDOWN vb = PGROUNDDOWN va then v else leaf 2 (mem s) pt vb)" if "vb < MAXVA" for vb
    using ls [of vb] same_path_page [OF assms(3) that] by auto
  ultimately show ?thesis
    using ls rp by (auto simp: pt_upd_def pt_ok_def ram_page_def)
qed

subsection \<open>\<open>mappages\<close>\<close>

text \<open>The leaf entries after \<open>n\<close> pages were mapped from \<open>a\<close> to \<open>pa\<close>.\<close>

definition map_range :: "uint64 \<Rightarrow> nat \<Rightarrow> uint64 \<Rightarrow> uint64 \<Rightarrow> (uint64 \<Rightarrow> uint64) \<Rightarrow> uint64 \<Rightarrow> uint64" where
  "map_range a n pa perm f vb =
     (if unat a \<le> unat vb \<and> unat vb < unat a + 4096 * n
      then PA2PTE (pa + (PGROUNDDOWN vb - a)) OR perm OR PTE_V else f vb)"

lemma in_page_unat:
  assumes "page_aligned a"
  shows "PGROUNDDOWN vb = a \<longleftrightarrow> unat a \<le> unat vb \<and> unat vb < unat a + 4096"
proof -
  obtain q where q: "unat a = 4096 * q" using assms by (auto simp: page_aligned_def mod_eq_0_iff_dvd)
  have "unat vb div 4096 = q \<longleftrightarrow> 4096 * q \<le> unat vb \<and> unat vb < 4096 * q + 4096"
    by (auto simp: div_nat_eqI)
  then show ?thesis by (auto simp: word_unat_eq_iff unat_PGROUNDDOWN q)
qed

lemma map_range_0 [simp]: "map_range a 0 pa perm f = f"
  by (rule ext) (auto simp: map_range_def)

lemma map_range_one:
  "page_aligned a \<Longrightarrow> map_range a 1 pa perm f vb = (if PGROUNDDOWN vb = a then PA2PTE pa OR perm OR PTE_V else f vb)"
  using in_page_unat [of a vb] by (cases "PGROUNDDOWN vb = a") (auto simp: map_range_def)

lemma map_range_Suc:
  assumes "page_aligned a" "unat (a + 4096) = unat a + 4096"
  shows "map_range (a + 4096) k (pa + 4096) perm (map_range a 1 pa perm f) vb = map_range a (Suc k) pa perm f vb"
proof -
  have "pa + 4096 + (PGROUNDDOWN vb - (a + 4096)) = pa + (PGROUNDDOWN vb - a)" by simp
  then show ?thesis
    unfolding map_range_one [OF assms(1)]
    using in_page_unat [OF assms(1), of vb] by (auto simp: map_range_def assms(2))
qed

definition mappages_post ::
  "uint64 \<Rightarrow> uint64 \<Rightarrow> nat \<Rightarrow> uint64 \<Rightarrow> uint64 \<Rightarrow> 'a kmem_scheme \<Rightarrow> uint64 list \<Rightarrow> int \<times> 'a kmem_scheme \<Rightarrow> bool" where
  "mappages_post pt a n pa perm s ps = (\<lambda>(r, t). \<exists>ts qs k. ps = ts @ qs \<and>
     pt_upd pt s ts t qs (map_range a k pa perm (leaf 2 (mem s) pt)) \<and> length ts \<le> 2 * n \<and>
     (r = 0 \<and> k = n \<or> r = - 1 \<and> k < n \<and> qs = [] \<and> length ts < 2 * n))"

lemma pt_upd_cong: "(\<And>vb. vb < MAXVA \<Longrightarrow> f vb = g vb) \<Longrightarrow> pt_upd pt s ts t qs f = pt_upd pt s ts t qs g"
  by (auto simp: pt_upd_def)

lemma mappages_first:
  assumes "pt_ok 2 s pt ps" "KmemLock \<notin> set (held s)" "page_aligned a" "a < MAXVA"
    "\<not> pte_valid (leaf 2 (mem s) pt a)"
  obtains (fail) t where "mappages_loop pt a b pa perm s = Inr (- 1, t)" "pt_upd pt s ps t [] (leaf 2 (mem s) pt)" "length ps < 2"
    | (mapped) ts qs t where "ps = ts @ qs" "pt_upd pt s ts t qs (map_range a 1 pa perm (leaf 2 (mem s) pt))" "length ts \<le> 2"
        "a = b \<Longrightarrow> mappages_loop pt a b pa perm s = Inr (0, t)"
        "a \<noteq> b \<Longrightarrow> mappages_loop pt a b pa perm s = mappages_loop pt (a + 4096) b (pa + 4096) perm t"
proof -
  obtain pte t ts qs where w: "walk pt a True s = Inr (pte, t)" "ps = ts @ qs" "pt_grown 2 pt s ts t qs"
      "pte = 0 \<longrightarrow> qs = [] \<and> length ts < 2" "length ts \<le> 2" "pte \<noteq> 0 \<longrightarrow> leaf_addr 2 (mem t) pt a = Some pte"
    using walk_alloc [OF assms(4,1,2)] by (auto simp: returns_iff walk_post_def)
  note u = pt_grown_upd [OF w(3)]
  show thesis
  proof (cases "pte = 0")
    case True
    then show thesis
      using w u by (intro fail [of t]) (simp_all add: mappages_loop.simps [of pt a])
  next
    case False
    let ?t = "t\<lparr>mem := store64 pte (PA2PTE pa OR perm OR PTE_V) (mem t)\<rparr>"
    have la: "leaf_addr 2 (mem t) pt a = Some pte" and ok: "pt_ok 2 t pt qs"
      using w False by (simp_all add: pt_grown_def)
    have lf: "leaf 2 (mem t) pt = leaf 2 (mem s) pt" using w(3) by (auto simp: pt_grown_def)
    have "load64 (mem t) pte = leaf 2 (mem s) pt a"
      using leaf_addr_leaf [of 2 "mem t" pt a] la w(3) by (simp add: pt_grown_def)
    then have nv: "load64 (mem t) pte AND PTE_V = 0" using assms(5) by (simp add: pte_valid_def)
    have "pt_upd pt t [] ?t qs (map_range a 1 pa perm (leaf 2 (mem s) pt))"
      unfolding map_range_one [OF assms(3), abs_def]
      using pt_upd_store [OF ok la assms(4), of "PA2PTE pa OR perm OR PTE_V"] assms(3)
      unfolding lf by (simp add: PGROUNDDOWN_aligned)
    from pt_upd_trans [OF u this] have "pt_upd pt s ts ?t qs (map_range a 1 pa perm (leaf 2 (mem s) pt))"
      by simp
    moreover have "mappages_loop pt a b pa perm s =
        (if a = b then Inr (0, ?t) else mappages_loop pt (a + 4096) b (pa + 4096) perm ?t)"
      using False w(1) nv by (simp add: mappages_loop.simps [of pt a b])
    ultimately show thesis using w(2,5) by (intro mapped [of ts qs ?t]) simp_all
  qed
qed

lemma add_neq_self: "unat (b :: uint64) \<noteq> 0 \<Longrightarrow> a \<noteq> a + b"
  by auto

lemma unat_pages:
  assumes "4096 * n < 2 ^ 64"
  shows "unat (4096 * of_nat n :: uint64) = 4096 * n"
proof -
  have n: "4096 * n < 2 ^ LENGTH(64)" using assms by simp
  have "(4096 * of_nat n :: uint64) = of_nat (4096 * n)" by (simp only: of_nat_mult of_nat_numeral)
  then show ?thesis using unat_of_nat_small [OF n] by (simp only:)
qed

lemma page_add_neq:
  fixes a :: uint64
  assumes "unat a + 4096 * Suc (Suc n) \<le> unat MAXVA"
  shows "a \<noteq> a + 4096 * of_nat (Suc n)"
proof (rule add_neq_self)
  have "4096 * Suc n < 2 ^ 64" using assms by simp
  from unat_pages [OF this] show "unat (4096 * of_nat (Suc n) :: uint64) \<noteq> 0" by (simp only:) simp
qed

lemma mappages_post_step:
  assumes "ps = ts @ qs" "length ts \<le> 2" and u: "pt_upd pt s ts t qs (map_range a 1 pa perm (leaf 2 (mem s) pt))"
    and a: "page_aligned a" "unat (a + 4096) = unat a + 4096"
    and post: "mappages_post pt (a + 4096) n (pa + 4096) perm t qs r"
  shows "mappages_post pt a (Suc n) pa perm s ps r"
proof -
  obtain c w us rs k where w: "r = (c, w)" "qs = us @ rs"
      "pt_upd pt t us w rs (map_range (a + 4096) k (pa + 4096) perm (leaf 2 (mem t) pt))"
      "length us \<le> 2 * n" "c = 0 \<and> k = n \<or> c = - 1 \<and> k < n \<and> rs = [] \<and> length us < 2 * n"
    using post by (auto simp: mappages_post_def)
  have "map_range (a + 4096) k (pa + 4096) perm (leaf 2 (mem t) pt) vb
        = map_range a (Suc k) pa perm (leaf 2 (mem s) pt) vb" if "vb < MAXVA" for vb
  proof -
    have "leaf 2 (mem t) pt vb = map_range a 1 pa perm (leaf 2 (mem s) pt) vb"
      using u that by (simp add: pt_upd_def)
    then have "map_range (a + 4096) k (pa + 4096) perm (leaf 2 (mem t) pt) vb
        = map_range (a + 4096) k (pa + 4096) perm (map_range a 1 pa perm (leaf 2 (mem s) pt)) vb"
      by (simp only: map_range_def)
    then show ?thesis unfolding map_range_Suc [OF a] .
  qed
  then have "pt_upd pt s (ts @ us) w rs (map_range a (Suc k) pa perm (leaf 2 (mem s) pt))"
    by (rule iffD1 [OF pt_upd_cong pt_upd_trans [OF u w(3)]])
  moreover have "ps = (ts @ us) @ rs" using assms(1) w(2) by simp
  ultimately show ?thesis
    unfolding mappages_post_def w(1) prod.case
    using w(4,5) assms(2) by (intro exI [of _ "ts @ us"] exI [of _ rs] exI [of _ "Suc k"]) auto
qed

lemma page_aligned_add:
  assumes "page_aligned a" "unat (a + 4096) = unat a + 4096"
  shows "page_aligned (a + 4096)"
  using assms by (simp add: page_aligned_def)

lemma mappages_loop_spec:
  assumes "pt_ok 2 s pt ps" "KmemLock \<notin> set (held s)" "page_aligned a" "unat a + 4096 * Suc n \<le> unat MAXVA"
    "\<forall>vb. unat a \<le> unat vb \<and> unat vb < unat a + 4096 * Suc n \<longrightarrow> \<not> pte_valid (leaf 2 (mem s) pt vb)"
  shows "returns (mappages_loop pt a (a + 4096 * of_nat n) pa perm s) (mappages_post pt a (Suc n) pa perm s ps)"
  using assms
proof (induction n arbitrary: s a pa ps)
  case (0 s a pa ps)
  have a: "a < MAXVA" using 0(4) by (simp add: word_less_nat_alt)
  have nv: "\<not> pte_valid (leaf 2 (mem s) pt a)" using 0(5) by simp
  show ?case
  proof (cases rule: mappages_first [OF 0(1-3) a nv, of a pa perm, case_names fail mapped])
    case (fail t)
    have "mappages_post pt a (Suc 0) pa perm s ps (- 1, t)"
      unfolding mappages_post_def prod.case using fail(2,3) by (intro exI [of _ ps] exI [of _ "[]"] exI [of _ 0]) simp
    then show ?thesis using fail(1) by simp
  next
    case (mapped ts qs t)
    have "mappages_post pt a (Suc 0) pa perm s ps (0, t)"
      unfolding mappages_post_def prod.case using mapped(1-3) by (intro exI [of _ ts] exI [of _ qs] exI [of _ "Suc 0"]) simp
    then show ?thesis using mapped(4) by simp
  qed
next
  case (Suc n s a pa ps)
  have a: "a < MAXVA" using Suc.prems(4) by (simp add: word_less_nat_alt)
  have a4: "unat (a + 4096) = unat a + 4096" using Suc.prems(4) by (simp add: unat_add64)
  have nv: "\<not> pte_valid (leaf 2 (mem s) pt a)" using Suc.prems(5) by simp
  let ?b = "a + 4096 * of_nat (Suc n)"
  show ?case
  proof (cases rule: mappages_first [OF Suc.prems(1-3) a nv, of ?b pa perm, case_names fail mapped])
    case (fail t)
    have "mappages_post pt a (Suc (Suc n)) pa perm s ps (- 1, t)"
      unfolding mappages_post_def prod.case using fail(2,3) by (intro exI [of _ ps] exI [of _ "[]"] exI [of _ 0]) simp
    then show ?thesis using fail(1) by simp
  next
    case (mapped ts qs t)
    note a4' = page_aligned_add [OF Suc.prems(3) a4]
    have ok: "pt_ok 2 t pt qs" and l: "KmemLock \<notin> set (held t)"
      using mapped(2) Suc.prems(2) mem_only_fields(1) [of s t] by (simp_all add: pt_upd_def)
    have "\<not> pte_valid (leaf 2 (mem t) pt vb)"
      if vb: "unat (a + 4096) \<le> unat vb" "unat vb < unat (a + 4096) + 4096 * Suc n" for vb
    proof -
      have "vb < MAXVA" using vb a4 Suc.prems(4) by (simp add: word_less_nat_alt)
      then have "leaf 2 (mem t) pt vb = leaf 2 (mem s) pt vb"
        using mapped(2) vb(1) a4 by (simp add: pt_upd_def map_range_def)
      then show ?thesis using Suc.prems(5) vb a4 by simp
    qed
    then have "returns (mappages_loop pt (a + 4096) (a + 4096 + 4096 * of_nat n) (pa + 4096) perm t)
        (mappages_post pt (a + 4096) (Suc n) (pa + 4096) perm t qs)"
      using a4 a4' Suc.prems(4) by (intro Suc.IH [OF ok l]) auto
    moreover have "a + 4096 + 4096 * of_nat n = ?b" by (simp add: algebra_simps)
    ultimately have "returns (mappages_loop pt a ?b pa perm s) (mappages_post pt (a + 4096) (Suc n) (pa + 4096) perm t qs)"
      unfolding mapped(5) [OF page_add_neq [OF Suc.prems(4)]] by (simp only:)
    then show ?thesis
      by (rule returns_mono) (rule mappages_post_step [OF mapped(1,3,2) Suc.prems(3) a4])
  qed
qed

text \<open>The number of pages that hold a byte of the range.\<close>

definition npages_of :: "uint64 \<Rightarrow> uint64 \<Rightarrow> nat" where
  "npages_of va sz = (unat va + unat sz - 1) div 4096 - unat va div 4096 + 1"

lemma mappages_spec:
  assumes "pt_ok 2 s pt ps" "KmemLock \<notin> set (held s)" "0 < sz" "unat va + unat sz \<le> unat MAXVA"
    "\<forall>vb. unat va div 4096 \<le> unat vb div 4096 \<and> unat vb div 4096 < unat va div 4096 + npages_of va sz \<longrightarrow>
       \<not> pte_valid (leaf 2 (mem s) pt vb)"
  shows "returns (mappages pt va sz pa perm s) (mappages_post pt (PGROUNDDOWN va) (npages_of va sz) pa perm s ps)"
proof -
  define n where "n = (unat va + unat sz - 1) div 4096 - unat va div 4096"
  have sz: "0 < unat sz" using assms(3) by (simp add: word_less_nat_alt)
  have le: "unat va div 4096 \<le> (unat va + unat sz - 1) div 4096" using sz by (intro div_le_mono) simp
  have top: "(unat va + unat sz - 1) div 4096 < 67108864"
    using assms(4) sz by (intro less_mult_imp_div_less) simp
  have ua: "unat (PGROUNDDOWN va) = 4096 * (unat va div 4096)" by (simp add: unat_PGROUNDDOWN)
  have "unat (va + sz - 1) = unat va + unat sz - 1"
  proof -
    have 1: "unat (va + sz) = unat va + unat sz" using assms(4) by (intro unat_add_small) simp
    then have "va + sz \<noteq> 0" using sz by auto
    then show ?thesis using 1 by (simp add: unat_minus_one)
  qed
  then have last_a: "unat (PGROUNDDOWN (va + sz - 1)) = 4096 * (unat va div 4096) + 4096 * n"
    using le by (simp add: unat_PGROUNDDOWN n_def algebra_simps)
  have qn: "unat va div 4096 + n < 67108864" using top le by (simp add: n_def)
  then have n: "4096 * n < 2 ^ 64" by simp
  have "unat (PGROUNDDOWN va + 4096 * of_nat n) = unat (PGROUNDDOWN va) + unat (4096 * of_nat n :: uint64)"
  proof (rule unat_add_small)
    have "4096 * (unat va div 4096) + 4096 * n < 2 ^ LENGTH(64)" using qn by simp
    then show "unat (PGROUNDDOWN va) + unat (4096 * of_nat n :: uint64) < 2 ^ LENGTH(64)"
      by (simp only: ua unat_pages [OF n])
  qed
  then have b: "PGROUNDDOWN (va + sz - 1) = PGROUNDDOWN va + 4096 * of_nat n"
    by (simp only: word_unat_eq_iff last_a ua unat_pages [OF n])
  have "returns (mappages_loop pt (PGROUNDDOWN va) (PGROUNDDOWN va + 4096 * of_nat n) pa perm s)
     (mappages_post pt (PGROUNDDOWN va) (Suc n) pa perm s ps)"
  proof (rule mappages_loop_spec [OF assms(1,2)])
    show "unat (PGROUNDDOWN va) + 4096 * Suc n \<le> unat MAXVA" using qn by (simp add: ua)
    show "\<forall>vb. unat (PGROUNDDOWN va) \<le> unat vb \<and> unat vb < unat (PGROUNDDOWN va) + 4096 * Suc n \<longrightarrow>
        \<not> pte_valid (leaf 2 (mem s) pt vb)"
    proof (intro allI impI)
      fix vb :: uint64
      assume "unat (PGROUNDDOWN va) \<le> unat vb \<and> unat vb < unat (PGROUNDDOWN va) + 4096 * Suc n"
      then have "4096 * (unat va div 4096) \<le> unat vb" "unat vb < 4096 * (unat va div 4096 + Suc n)"
        by (simp_all add: ua)
      then have "unat va div 4096 \<le> unat vb div 4096" "unat vb div 4096 < unat va div 4096 + Suc n"
        by (simp_all add: less_eq_div_iff_mult_less_eq div_less_iff_less_mult mult.commute)
      then show "\<not> pte_valid (leaf 2 (mem s) pt vb)" using assms(5) by (simp add: npages_of_def n_def)
    qed
  qed simp
  then show ?thesis using assms(3) by (simp add: mappages_def b npages_of_def n_def)
qed

end
