(* ===== verification/Usercopy.thy ===== *)
theory Usercopy
  imports Pagetable
begin

section \<open>Copying between the kernel and user space\<close>

text \<open>
  What \<open>copyin\<close>, \<open>copyinstr\<close> and \<open>copyout\<close> do in terms of the user memory a page table
  describes: a partial function from virtual addresses to bytes (\<open>umem\<close>). The routines work
  page by page; the lemmas show that they behave like the byte-by-byte copies of a
  specification, up to the first address that is not mapped for the user.
\<close>

subsection \<open>Translation\<close>

definition xlate :: "memory \<Rightarrow> uint64 \<Rightarrow> uint64 \<Rightarrow> uint64" where
  "xlate m pt va =
     (if va \<ge> MAXVA then 0
      else let e = leaf 2 m pt va in if pte_valid e \<and> e AND PTE_U \<noteq> 0 then PTE2PA e else 0)"

definition umem :: "memory \<Rightarrow> uint64 \<Rightarrow> uint64 \<Rightarrow> uchar option" where
  "umem m pt va =
     (let p = xlate m pt (PGROUNDDOWN va)
      in if p = 0 then None else Some (m (p + (va - PGROUNDDOWN va))))"

definition ubytes :: "memory \<Rightarrow> uint64 \<Rightarrow> uint64 \<Rightarrow> nat \<Rightarrow> uchar option list" where
  "ubytes m pt va n = map (\<lambda>i. umem m pt (va + of_nat i)) [0..<n]"

text \<open>The table is a tree of pages of memory, none of them at address 0.\<close>

definition pt_good :: "memory \<Rightarrow> uint64 \<Rightarrow> bool" where
  "pt_good m pt \<longleftrightarrow> pt_wf 2 m pt \<and> 0 \<notin> pt_pages 2 m pt"

lemma pt_ok_good: "pt_ok 2 s pt ps \<Longrightarrow> pt_good (mem s) pt"
  using ram_page_nonzero by (fastforce simp: pt_good_def pt_ok_def free_list_def)

lemma page_aligned_xlate [simp]: "page_aligned (xlate m pt va)"
  by (simp add: xlate_def Let_def)

lemma walkaddr_eq:
  assumes "pt_good (mem s) pt"
  shows "walkaddr pt va s = Inr (xlate (mem s) pt va, s)"
proof (cases "va < MAXVA")
  case True
  have "a \<noteq> 0" if la: "leaf_addr 2 (mem s) pt va = Some a" for a
  proof -
    obtain p where p: "p \<in> pt_pages 2 (mem s) pt" "a = slot p (unat (PX 0 va))"
      using leaf_addr_slot [OF _ la] assms by (auto simp: pt_good_def)
    have "page_aligned p" "p \<noteq> 0" using p(1) assms pt_pages_aligned by (auto simp: pt_good_def)
    then show ?thesis unfolding p(2) by (intro slot_nonzero PX_less)
  qed
  then show ?thesis
    using True leaf_addr_leaf [of 2 "mem s" pt va]
    by (auto simp: walkaddr_def walk_noalloc xlate_def Let_def pte_valid_def split: option.splits)
next
  case False
  then show ?thesis by (simp add: walkaddr_def xlate_def not_less)
qed

lemma xlate_cong:
  assumes "pt_good m pt" "\<And>x. PGROUNDDOWN x \<in> pt_pages 2 m pt \<Longrightarrow> m' x = m x"
  shows "xlate m' pt va = xlate m pt va" "pt_good m' pt" "pt_pages 2 m' pt = pt_pages 2 m pt"
  using pt_cong [of 2 m pt m' va] assms by (simp_all add: xlate_def pt_good_def)

subsection \<open>Pages and chunks\<close>

lemma page_off: "of_nat (unat va mod 4096) = va - PGROUNDDOWN va"
  unfolding PGROUNDDOWN_offset [symmetric] by simp

lemma page_split: "va = PGROUNDDOWN va + of_nat (unat va mod 4096)"
  by (simp add: page_off)

lemma chunk_in_page:
  assumes "i < chunk va n"
  shows "PGROUNDDOWN (va + of_nat i) = PGROUNDDOWN va"
proof -
  have "PGROUNDDOWN (PGROUNDDOWN va + of_nat (unat va mod 4096 + i)) = PGROUNDDOWN va"
    using assms by (intro PGROUNDDOWN_page) (auto simp: chunk_eq)
  moreover have "PGROUNDDOWN va + of_nat (unat va mod 4096 + i) = va + of_nat i"
    unfolding of_nat_add add.assoc [symmetric] page_split [symmetric] ..
  ultimately show ?thesis by (simp only:)
qed

lemma chunk_next:
  assumes "chunk va n < n"
  shows "PGROUNDDOWN va + PGSIZE = va + of_nat (chunk va n)"
proof -
  have c: "chunk va n = 4096 - unat va mod 4096" using assms by (simp add: chunk_eq)
  have "PGROUNDDOWN va + of_nat (unat va mod 4096) + of_nat (4096 - unat va mod 4096) = PGROUNDDOWN va + 4096"
    by (simp add: of_nat_diff less_imp_le)
  then show ?thesis unfolding c using page_split [of va] by simp
qed

lemma length_load_bytes [simp]: "length (load_bytes m a n) = n"
  by (simp add: load_bytes_def)

lemma length_ubytes [simp]: "length (ubytes m pt va n) = n"
  by (simp add: ubytes_def)

lemma ubytes_split:
  "k \<le> n \<Longrightarrow> ubytes m pt va n = ubytes m pt va k @ ubytes m pt (va + of_nat k) (n - k)"
  by (rule nth_equalityI) (auto simp: ubytes_def nth_append of_nat_diff)

lemma ubytes_next:
  "ubytes m pt (PGROUNDDOWN va + PGSIZE) (n - chunk va n) = ubytes m pt (va + of_nat (chunk va n)) (n - chunk va n)"
proof (cases "chunk va n < n")
  case True
  then show ?thesis by (simp only: chunk_next)
next
  case False
  then show ?thesis by (simp add: ubytes_def)
qed

lemma ubytes_chunk:
  "ubytes m pt va (chunk va n) =
     (if xlate m pt (PGROUNDDOWN va) = 0 then replicate (chunk va n) None
      else map Some (load_bytes m (xlate m pt (PGROUNDDOWN va) + (va - PGROUNDDOWN va)) (chunk va n)))"
  by (rule nth_equalityI)
    (auto simp: ubytes_def load_bytes_def umem_def Let_def chunk_in_page algebra_simps)

subsection \<open>\<open>copyin\<close>\<close>

text \<open>The mapped bytes in front of the first address that is not mapped.\<close>

definition mapped_prefix :: "uchar option list \<Rightarrow> uchar list" where
  "mapped_prefix us = map the (takeWhile (\<lambda>u. u \<noteq> None) us)"

lemma mapped_prefix_append [simp]:
  "mapped_prefix (map Some bs @ us) = bs @ mapped_prefix us"
  by (induction bs) (auto simp: mapped_prefix_def)

lemma mapped_prefix_None [simp]: "mapped_prefix (None # us) = []" "mapped_prefix [] = []"
  by (simp_all add: mapped_prefix_def)

lemma copyin_spec:
  assumes "pt_good (mem s) pt"
  shows "copyin pt va n s = Inr (if None \<in> set (ubytes (mem s) pt va n) then - 1 else 0,
           mapped_prefix (ubytes (mem s) pt va n), s)"
proof (induction n arbitrary: va rule: less_induct)
  case (less n)
  let ?c = "chunk va n" and ?p = "xlate (mem s) pt (PGROUNDDOWN va)"
  have sp: "ubytes (mem s) pt va n
      = ubytes (mem s) pt va ?c @ ubytes (mem s) pt (PGROUNDDOWN va + PGSIZE) (n - ?c)"
    unfolding ubytes_next using chunk_le by (rule ubytes_split)
  show ?case
  proof (cases "n = 0")
    case True
    then show ?thesis by (simp add: copyin.simps [of pt va] ubytes_def)
  next
    case False
    then have c: "0 < ?c" by (simp add: chunk_pos)
    show ?thesis
    proof (cases "?p = 0")
      case True
      have "replicate ?c None = None # replicate (?c - 1) (None :: uchar option)"
        using c by (cases ?c) auto
      then have "\<exists>us. ubytes (mem s) pt va n = None # us"
        unfolding sp ubytes_chunk using True by simp
      then show ?thesis
        using True False assms by (auto simp: copyin.simps [of pt va] walkaddr_eq Let_def)
    next
      case p: False
      have IH: "copyin pt (PGROUNDDOWN va + PGSIZE) (n - ?c) s =
          Inr (if None \<in> set (ubytes (mem s) pt (PGROUNDDOWN va + PGSIZE) (n - ?c)) then - 1 else 0,
            mapped_prefix (ubytes (mem s) pt (PGROUNDDOWN va + PGSIZE) (n - ?c)), s)"
        using False c by (intro less.IH) simp
      show ?thesis
        unfolding sp ubytes_chunk using p False assms IH
        by (auto simp: copyin.simps [of pt va] walkaddr_eq Let_def)
    qed
  qed
qed

subsection \<open>\<open>copyinstr\<close>\<close>

definition cstring_in :: "uchar list \<Rightarrow> int \<times> uchar list" where
  "cstring_in bs = (if 0 \<in> set bs then (0, takeWhile (\<lambda>b. b \<noteq> 0) bs @ [0]) else (- 1, bs))"

lemma copy_until_nul_eq:
  "copy_until_nul bs = (if 0 \<in> set bs then (takeWhile (\<lambda>b. b \<noteq> 0) bs @ [0], True) else (bs, False))"
  by (induction bs) (auto simp: Let_def split: prod.splits if_splits)

lemma cstring_in_append:
  "cstring_in (bs @ cs) = (if 0 \<in> set bs then cstring_in bs else (case cstring_in cs of (r, ds) \<Rightarrow> (r, bs @ ds)))"
  by (induction bs) (auto simp: cstring_in_def split: if_splits)

lemma cstring_in_nul: "0 \<in> set bs \<Longrightarrow> cstring_in bs = (0, takeWhile (\<lambda>b. b \<noteq> 0) bs @ [0])"
  by (simp add: cstring_in_def)

lemma copyinstr_spec:
  assumes "pt_good (mem s) pt"
  shows "copyinstr pt va n s = Inr (case cstring_in (mapped_prefix (ubytes (mem s) pt va n)) of (r, bs) \<Rightarrow> (r, bs, s))"
proof (induction n arbitrary: va rule: less_induct)
  case (less n)
  let ?c = "chunk va n" and ?p = "xlate (mem s) pt (PGROUNDDOWN va)"
  have sp: "ubytes (mem s) pt va n
      = ubytes (mem s) pt va ?c @ ubytes (mem s) pt (PGROUNDDOWN va + PGSIZE) (n - ?c)"
    unfolding ubytes_next using chunk_le by (rule ubytes_split)
  show ?case
  proof (cases "n = 0")
    case True
    then show ?thesis by (simp add: copyinstr.simps [of pt va] ubytes_def cstring_in_def)
  next
    case False
    then have c: "0 < ?c" by (simp add: chunk_pos)
    show ?thesis
    proof (cases "?p = 0")
      case True
      have "replicate ?c None = None # replicate (?c - 1) (None :: uchar option)"
        using c by (cases ?c) auto
      then have "mapped_prefix (ubytes (mem s) pt va n) = []"
        unfolding sp ubytes_chunk using True by simp
      then show ?thesis
        using True False assms by (simp add: copyinstr.simps [of pt va] walkaddr_eq Let_def cstring_in_def)
    next
      case p: False
      have IH: "copyinstr pt (PGROUNDDOWN va + PGSIZE) (n - ?c) s =
          Inr (case cstring_in (mapped_prefix (ubytes (mem s) pt (PGROUNDDOWN va + PGSIZE) (n - ?c))) of
            (r, bs) \<Rightarrow> (r, bs, s))"
        using False c by (intro less.IH) simp
      show ?thesis
        unfolding sp ubytes_chunk using p False assms IH
        by (simp add: copyinstr.simps [of pt va] walkaddr_eq Let_def copy_until_nul_eq cstring_in_append
            cstring_in_nul split: prod.splits)
    qed
  qed
qed

subsection \<open>\<open>copyout\<close>\<close>

lemma store_bytes_eq:
  "length bs \<le> 2 ^ 64 \<Longrightarrow>
   store_bytes a bs m = (\<lambda>x. if unat (x - a) < length bs then bs ! unat (x - a) else m x)"
proof (induction bs arbitrary: a m)
  case (Cons b bs)
  show ?case
  proof
    fix x
    have IH: "store_bytes a (b # bs) m x =
        (if unat (x - (a + 1)) < length bs then bs ! unat (x - (a + 1)) else (m(a := b)) x)"
      using Cons by simp
    show "store_bytes a (b # bs) m x =
        (if unat (x - a) < length (b # bs) then (b # bs) ! unat (x - a) else m x)"
    proof (cases "x = a")
      case True
      have "unat (- 1 :: uint64) = 2 ^ 64 - 1" by (simp add: unsigned_minus_1_eq_mask mask_eq_exp_minus_1)
      with True show ?thesis using IH Cons.prems by simp
    next
      case False
      then show ?thesis using IH unat_diff_Suc [OF False] by simp
    qed
  qed
qed simp

definition upd_bytes :: "(uint64 \<Rightarrow> uchar option) \<Rightarrow> uint64 \<Rightarrow> uchar list \<Rightarrow> uint64 \<Rightarrow> uchar option" where
  "upd_bytes f va bs vb = (if unat (vb - va) < length bs then Some (bs ! unat (vb - va)) else f vb)"

lemma upd_bytes_Nil [simp]: "upd_bytes f va [] = f"
  by (rule ext) (simp add: upd_bytes_def)

lemma upd_bytes_append:
  assumes "length bs + length cs \<le> 2 ^ 64" "n = length bs"
  shows "upd_bytes (upd_bytes f va bs) (va + of_nat n) cs = upd_bytes f va (bs @ cs)"
proof
  fix vb
  show "upd_bytes (upd_bytes f va bs) (va + of_nat n) cs vb = upd_bytes f va (bs @ cs) vb"
  proof (cases "cs = []")
    case False
    then have n: "n < 2 ^ 64" using assms by (cases cs) auto
    have d: "vb - (va + of_nat n) = (vb - va) - of_nat n" by simp
    have u: "unat (of_nat n :: uint64) = n" using n by (simp add: unat_of_nat)
    show ?thesis
    proof (cases "unat (vb - va) < n")
      case True
      then have "unat (vb - (va + of_nat n)) = unat (vb - va) + 2 ^ 64 - n"
        unfolding d by (simp only: unat_sub_if_size word_size u) auto
      then have "\<not> unat (vb - (va + of_nat n)) < length cs" using assms True by simp
      then show ?thesis using True assms by (simp add: upd_bytes_def nth_append)
    next
      case False
      then have "unat (vb - (va + of_nat n)) = unat (vb - va) - n"
        unfolding d by (simp only: unat_sub_if_size word_size u) auto
      then show ?thesis using False assms by (auto simp: upd_bytes_def nth_append)
    qed
  qed simp
qed

text \<open>
  The user pages of a table are not pages of the table, and no two virtual pages share a
  physical one.
\<close>

definition user_inj :: "memory \<Rightarrow> uint64 \<Rightarrow> bool" where
  "user_inj m pt \<longleftrightarrow>
     (\<forall>a. xlate m pt a \<noteq> 0 \<longrightarrow> xlate m pt a \<notin> pt_pages 2 m pt) \<and>
     (\<forall>a b. xlate m pt a \<noteq> 0 \<longrightarrow> xlate m pt a = xlate m pt b \<longrightarrow> PGROUNDDOWN a = PGROUNDDOWN b)"

definition user_pages :: "memory \<Rightarrow> uint64 \<Rightarrow> uint64 set" where
  "user_pages m pt = {xlate m pt a | a. xlate m pt a \<noteq> 0}"

lemma user_inj_pages:
  assumes "user_inj m pt" "p \<in> pt_pages 2 m pt"
  shows "p \<notin> user_pages m pt"
  using conjunct1 [OF assms(1) [unfolded user_inj_def]] assms(2) by (auto simp: user_pages_def)

lemma user_cong:
  assumes "pt_good m pt" "user_inj m pt" "\<forall>x. PGROUNDDOWN x \<notin> user_pages m pt \<longrightarrow> m' x = m x"
  shows "xlate m' pt = xlate m pt" "pt_good m' pt" "user_inj m' pt" "user_pages m' pt = user_pages m pt"
    "pt_pages 2 m' pt = pt_pages 2 m pt"
proof -
  have *: "m' x = m x" if "PGROUNDDOWN x \<in> pt_pages 2 m pt" for x
  proof (rule assms(3) [rule_format])
    show "PGROUNDDOWN x \<notin> user_pages m pt" using assms(2) that by (rule user_inj_pages)
  qed
  note c = xlate_cong [OF assms(1) *]
  show 1: "xlate m' pt = xlate m pt" by (rule ext) (rule c)
  show 2: "pt_good m' pt" by (rule c)
  show 3: "pt_pages 2 m' pt = pt_pages 2 m pt" by (rule c)
  show "user_inj m' pt" using assms(2) unfolding user_inj_def 1 3 .
  show "user_pages m' pt = user_pages m pt" unfolding user_pages_def 1 ..
qed

text \<open>One chunk.\<close>

lemma copyout_chunk:
  assumes good: "pt_good m pt" and inj: "user_inj m pt" and p: "p = xlate m pt (PGROUNDDOWN va)" "p \<noteq> 0"
    and n: "n = chunk va (length src)" and m': "m' = store_bytes (p + (va - PGROUNDDOWN va)) (take n src) m"
  shows "PGROUNDDOWN x \<noteq> p \<Longrightarrow> m' x = m x" "umem m' pt = upd_bytes (umem m pt) va (take n src)"
proof -
  let ?a = "p + (va - PGROUNDDOWN va)"
  have al: "page_aligned p" using p(1) by simp
  have n4: "unat va mod 4096 + n \<le> 4096" by (simp add: n chunk_eq)
  have len: "length (take n src) = n" by (simp add: n chunk_le)
  have le: "length (take n src) \<le> 2 ^ 64" using n4 len by simp
  have mx: "m' x = (if unat (x - ?a) < n then take n src ! unat (x - ?a) else m x)" for x
    unfolding m' store_bytes_eq [OF le] len ..
  have off: "PGROUNDDOWN x = p" if "unat (x - ?a) < n" for x
  proof -
    have "p + of_nat (unat va mod 4096 + unat (x - ?a)) = x"
      unfolding of_nat_add page_off by simp
    with PGROUNDDOWN_page [OF al, of "unat va mod 4096 + unat (x - ?a)"] that n4 show ?thesis
      by (simp only:)
  qed
  show *: "m' x = m x" if "PGROUNDDOWN x \<noteq> p" for x using off [of x] mx [of x] that by auto
  have up: "p \<in> user_pages m pt" using p by (auto simp: user_pages_def)
  have xl: "xlate m' pt = xlate m pt" using good inj
    by (rule user_cong) (use up in \<open>auto intro: *\<close>)
  show "umem m' pt = upd_bytes (umem m pt) va (take n src)"
  proof
    fix vb
    let ?q = "xlate m pt (PGROUNDDOWN vb)" and ?x = "xlate m pt (PGROUNDDOWN vb) + (vb - PGROUNDDOWN vb)"
    show "umem m' pt vb = upd_bytes (umem m pt) va (take n src) vb"
    proof (cases "PGROUNDDOWN vb = PGROUNDDOWN va")
      case True
      then have "?x - ?a = vb - va" using p(1) by simp
      then show ?thesis
        using mx [of ?x] len True p by (simp add: umem_def xl upd_bytes_def)
    next
      case False
      have "\<not> unat (vb - va) < n" using chunk_in_page [of "unat (vb - va)" va "length src"] False by (auto simp: n)
      moreover have "m' ?x = m ?x" if "?q \<noteq> 0"
      proof (rule *)
        have "?q \<noteq> p" using inj that False PGROUNDDOWN_aligned [OF page_aligned_PGROUNDDOWN]
          unfolding p(1) user_inj_def by metis
        moreover have "PGROUNDDOWN ?x = ?q"
          using PGROUNDDOWN_page [of ?q "unat vb mod 4096"] by (simp add: page_off)
        ultimately show "PGROUNDDOWN ?x \<noteq> p" by simp
      qed
      ultimately show ?thesis using len by (simp add: umem_def xl upd_bytes_def Let_def)
    qed
  qed
qed

lemma None_ubytes: "None \<in> set (ubytes m pt va n) \<longleftrightarrow> (\<exists>i < n. umem m pt (va + of_nat i) = None)"
proof -
  have "None \<in> set (ubytes m pt va n) \<longleftrightarrow> (\<exists>i < n. ubytes m pt va n ! i = None)"
    by (simp only: in_set_conv_nth length_ubytes)
  also have "\<dots> \<longleftrightarrow> (\<exists>i < n. umem m pt (va + of_nat i) = None)"
    by (simp add: ubytes_def cong: conj_cong)
  finally show ?thesis .
qed

lemma length_mapped_prefix: "None \<notin> set (ubytes m pt va n) \<Longrightarrow> length (mapped_prefix (ubytes m pt va n)) = n"
proof -
  assume "None \<notin> set (ubytes m pt va n)"
  then have "\<forall>u \<in> set (ubytes m pt va n). u \<noteq> None" by metis
  then have "takeWhile (\<lambda>u. u \<noteq> None) (ubytes m pt va n) = ubytes m pt va n"
    by (simp only: takeWhile_eq_all_conv)
  then show ?thesis by (simp only: mapped_prefix_def length_map length_ubytes)
qed

lemma ubytes_shape:
  assumes "xlate m' pt = xlate m pt"
  shows "None \<in> set (ubytes m' pt va n) \<longleftrightarrow> None \<in> set (ubytes m pt va n)"
    "length (mapped_prefix (ubytes m' pt va n)) = length (mapped_prefix (ubytes m pt va n))"
proof -
  have u: "umem m' pt a = None \<longleftrightarrow> umem m pt a = None" for a by (simp add: umem_def assms Let_def)
  show "None \<in> set (ubytes m' pt va n) \<longleftrightarrow> None \<in> set (ubytes m pt va n)"
    by (simp add: None_ubytes u)
  have "length (takeWhile (\<lambda>u. u \<noteq> None) (map (\<lambda>i. umem m' pt (va + of_nat i)) is))
        = length (takeWhile (\<lambda>u. u \<noteq> None) (map (\<lambda>i. umem m pt (va + of_nat i)) is))" for "is" :: "nat list"
    by (induction "is") (simp_all add: u del: not_None_eq)
  then show "length (mapped_prefix (ubytes m' pt va n)) = length (mapped_prefix (ubytes m pt va n))"
    by (simp add: mapped_prefix_def ubytes_def)
qed

lemma upd_bytes_next:
  assumes "length src < 2 ^ 64"
  shows "upd_bytes (upd_bytes f va (take (chunk va (length src)) src)) (PGROUNDDOWN va + PGSIZE)
           (take k (drop (chunk va (length src)) src))
         = upd_bytes f va (take (chunk va (length src)) src @ take k (drop (chunk va (length src)) src))"
proof (cases "chunk va (length src) < length src")
  case True
  show ?thesis
    unfolding chunk_next [OF True] using assms True by (intro upd_bytes_append) auto
qed simp

lemma copyout_spec:
  assumes "pt_good (mem s) pt" "user_inj (mem s) pt" "length src < 2 ^ 64"
  shows "\<exists>m. copyout pt va src s = Inr (if None \<in> set (ubytes (mem s) pt va (length src)) then - 1 else 0, s\<lparr>mem := m\<rparr>) \<and>
     (\<forall>x. PGROUNDDOWN x \<notin> user_pages (mem s) pt \<longrightarrow> m x = mem s x) \<and>
     umem m pt = upd_bytes (umem (mem s) pt) va
       (take (length (mapped_prefix (ubytes (mem s) pt va (length src)))) src)"
  using assms
proof (induction "length src" arbitrary: src va s rule: less_induct)
  case (less src va s)
  let ?n = "length src" and ?p = "xlate (mem s) pt (PGROUNDDOWN va)" and ?va = "PGROUNDDOWN va + PGSIZE"
  let ?c = "chunk va (length src)"
  have sp: "ubytes (mem s) pt va ?n = ubytes (mem s) pt va ?c @ ubytes (mem s) pt ?va (?n - ?c)"
    unfolding ubytes_next using chunk_le by (rule ubytes_split)
  show ?case
  proof (cases "src = []")
    case True
    then show ?thesis
      by (intro exI [of _ "mem s"]) (simp add: copyout.simps [of pt va] ubytes_def)
  next
    case ne: False
    then have c: "0 < ?c" by (simp add: chunk_pos)
    show ?thesis
    proof (cases "?p = 0")
      case True
      have "replicate ?c None = None # replicate (?c - 1) (None :: uchar option)"
        using c by (cases ?c) auto
      then obtain us where us: "ubytes (mem s) pt va ?n = None # us"
        unfolding sp ubytes_chunk using True by simp
      show ?thesis
        unfolding us using True ne less.prems(1)
        by (intro exI [of _ "mem s"]) (simp add: copyout.simps [of pt va] walkaddr_eq Let_def)
    next
      case p: False
      define m1 where "m1 = store_bytes (?p + (va - PGROUNDDOWN va)) (take ?c src) (mem s)"
      note ch = copyout_chunk [OF less.prems(1,2) refl p refl m1_def]
      have up: "?p \<in> user_pages (mem s) pt" using p by (auto simp: user_pages_def)
      then have fr: "\<forall>x. PGROUNDDOWN x \<notin> user_pages (mem s) pt \<longrightarrow> m1 x = mem s x" using ch(1) by metis
      note uc = user_cong [OF less.prems(1,2) fr]
      let ?s = "s\<lparr>mem := m1\<rparr>" and ?k = "length (mapped_prefix (ubytes (mem s) pt ?va (?n - ?c)))"
      have "pt_good (mem ?s) pt" "user_inj (mem ?s) pt" "length (drop ?c src) < ?n" "length (drop ?c src) < 2 ^ 64"
        using uc less.prems(3) c ne by simp_all
      from less.hyps [OF this(3,1,2,4), of ?va] obtain m where
        m: "copyout pt ?va (drop ?c src) ?s = Inr (if None \<in> set (ubytes m1 pt ?va (?n - ?c)) then - 1 else 0, s\<lparr>mem := m\<rparr>)"
          "\<forall>x. PGROUNDDOWN x \<notin> user_pages (mem s) pt \<longrightarrow> m x = m1 x"
          "umem m pt = upd_bytes (umem m1 pt) ?va (take (length (mapped_prefix (ubytes m1 pt ?va (?n - ?c)))) (drop ?c src))"
        using uc(4) by auto
      note same = ubytes_shape [OF uc(1), of ?va "?n - ?c"]
      have um: "umem m pt = upd_bytes (umem (mem s) pt) va (take ?c src @ take ?k (drop ?c src))"
        unfolding m(3) ch(2) same(2) by (rule upd_bytes_next) (use less.prems(3) in simp)
      have "length (mapped_prefix (ubytes (mem s) pt va ?n)) = ?c + ?k"
        unfolding sp ubytes_chunk using p by simp
      moreover have "None \<in> set (ubytes (mem s) pt va ?n) \<longleftrightarrow> None \<in> set (ubytes (mem s) pt ?va (?n - ?c))"
        unfolding sp ubytes_chunk using p by auto
      moreover have "copyout pt va src s = copyout pt ?va (drop ?c src) ?s"
        using ne p less.prems(1) by (simp add: copyout.simps [of pt va] walkaddr_eq Let_def m1_def)
      ultimately show ?thesis
        using m(1,2) um fr same(1) by (intro exI [of _ m]) (simp add: take_add)
    qed
  qed
qed

subsection \<open>A table with one user page\<close>

text \<open>Virtual page 0 is the physical page \<open>0x80004000\<close>, readable and writable by the user.\<close>

definition demo_mem :: memory where
  "demo_mem =
     store64 (slot 0x80003000 0) (PA2PTE 0x80004000 OR 0x17)
       (store64 (slot 0x80002000 0) (PA2PTE 0x80003000 OR PTE_V)
         (store64 (slot 0x80001000 0) (PA2PTE 0x80002000 OR PTE_V) (\<lambda>_. 0)))"

lemma demo_entry:
  assumes "page_aligned p" "i < 512"
  shows "entry demo_mem p i =
     (if i \<noteq> 0 then 0 else if p = 0x80003000 then PA2PTE 0x80004000 OR 0x17
      else if p = 0x80002000 then PA2PTE 0x80003000 OR PTE_V
      else if p = 0x80001000 then PA2PTE 0x80002000 OR PTE_V else 0)"
proof -
  have al: "page_aligned 0x80003000" "page_aligned 0x80002000" "page_aligned 0x80001000"
    by (simp_all add: page_aligned_def)
  have "entry (\<lambda>_. 0) p i = 0" by (simp add: entry_def load64_def)
  then show ?thesis
    unfolding demo_mem_def using assms al by (auto simp: entry_store)
qed

lemma demo_child:
  "page_aligned 0x80003000" "page_aligned 0x80002000" "page_aligned 0x80001000"
  "PTE2PA (PA2PTE 0x80003000 OR PTE_V) = 0x80003000" "PTE2PA (PA2PTE 0x80002000 OR PTE_V) = 0x80002000"
  by (simp_all add: page_aligned_def)

lemma demo_pages:
  "pt_pages 0 demo_mem 0x80003000 = {0x80003000}" "pt_pages (Suc 0) demo_mem 0x80002000 = {0x80002000, 0x80003000}"
  "pt_pages 2 demo_mem 0x80001000 = {0x80001000, 0x80002000, 0x80003000}"
proof -
  have one: "{i. i < 512 \<and> pte_valid (entry demo_mem 0x80002000 i)} = {0}"
    "{i. i < 512 \<and> pte_valid (entry demo_mem 0x80001000 i)} = {0}"
    using demo_child(2,3) by (auto simp: demo_entry split: if_splits)
  show "pt_pages 0 demo_mem 0x80003000 = {0x80003000}" by simp
  show 1: "pt_pages (Suc 0) demo_mem 0x80002000 = {0x80002000, 0x80003000}"
    unfolding pt_pages.simps one using demo_child by (simp add: demo_entry)
  show "pt_pages 2 demo_mem 0x80001000 = {0x80001000, 0x80002000, 0x80003000}"
    unfolding numeral_2_eq_2 pt_pages.simps(2) [of "Suc 0"] one using demo_child 1 by (simp add: demo_entry)
qed

lemma demo_good: "pt_good demo_mem 0x80001000"
proof -
  have 1: "pt_wf (Suc 0) demo_mem 0x80002000"
  proof (rule pt_wf_SucI)
    fix i :: nat
    assume i: "i < 512" "pte_valid (entry demo_mem 0x80002000 i)"
    then have "i = 0" using demo_child(2) by (auto simp: demo_entry split: if_splits)
    then show "pte_inner (entry demo_mem 0x80002000 i) \<and> pt_wf 0 demo_mem (PTE2PA (entry demo_mem 0x80002000 i)) \<and>
        0x80002000 \<notin> pt_pages 0 demo_mem (PTE2PA (entry demo_mem 0x80002000 i))"
      using demo_child pte_inner_link by (simp add: demo_entry)
  qed (use demo_child(2) in \<open>auto simp: demo_entry split: if_splits\<close>)
  have "pt_wf (Suc (Suc 0)) demo_mem 0x80001000"
  proof (rule pt_wf_SucI)
    fix i :: nat
    assume i: "i < 512" "pte_valid (entry demo_mem 0x80001000 i)"
    then have "i = 0" using demo_child(3) by (auto simp: demo_entry split: if_splits)
    then show "pte_inner (entry demo_mem 0x80001000 i) \<and> pt_wf (Suc 0) demo_mem (PTE2PA (entry demo_mem 0x80001000 i)) \<and>
        0x80001000 \<notin> pt_pages (Suc 0) demo_mem (PTE2PA (entry demo_mem 0x80001000 i))"
      using demo_child pte_inner_link demo_pages(2) 1 by (simp add: demo_entry)
  qed (use demo_child(3) in \<open>auto simp: demo_entry split: if_splits\<close>)
  then have "pt_wf 2 demo_mem 0x80001000" by (simp only: numeral_2_eq_2)
  then show ?thesis by (simp add: pt_good_def demo_pages(3))
qed

lemma leaf_two:
  "leaf 2 m pt va =
     (if pte_valid (entry m pt (unat (PX 2 va)))
      then if pte_valid (entry m (PTE2PA (entry m pt (unat (PX 2 va)))) (unat (PX 1 va)))
           then entry m (PTE2PA (entry m (PTE2PA (entry m pt (unat (PX 2 va)))) (unat (PX 1 va)))) (unat (PX 0 va))
           else 0
      else 0)"
  by (simp only: numeral_2_eq_2 One_nat_def leaf_Suc leaf.simps(1))

lemma demo_xlate: "xlate demo_mem 0x80001000 va = (if unat va < 4096 then 0x80004000 else 0)"
proof (cases "va < MAXVA")
  case True
  have z: "unat (PX k 0) = 0" for k by (simp add: unat_PX)
  have flags: "pte_valid (PA2PTE 0x80004000 OR 0x17)" "(PA2PTE 0x80004000 OR 0x17) AND PTE_U \<noteq> 0"
    "PTE2PA (PA2PTE 0x80004000 OR 0x17) = 0x80004000"
    by (simp_all add: pte_valid_def PTE_V_def PTE_U_def PA2PTE_def PTE2PA_def)
  have "leaf 2 demo_mem 0x80001000 va =
      (if \<forall>k \<in> {0, 1, 2}. unat (PX k va) = 0 then PA2PTE 0x80004000 OR 0x17 else 0)"
    using demo_child PX_less [of 2 va] PX_less [of 1 va] PX_less [of 0 va]
    by (simp add: leaf_two demo_entry)
  moreover have "(\<forall>k \<in> {0, 1, 2}. unat (PX k va) = 0) \<longleftrightarrow> unat va < 4096"
  proof
    assume "\<forall>k \<in> {0, 1, 2}. unat (PX k va) = 0"
    then have "PGROUNDDOWN va = PGROUNDDOWN 0"
      using PX_inj [OF True, of 0] z by (simp add: word_unat_eq_iff)
    then have "unat va div 4096 = 0" by (simp add: word_unat_eq_iff unat_PGROUNDDOWN)
    then show "unat va < 4096" by simp
  qed (simp add: unat_PX)
  ultimately show ?thesis using True flags by (simp add: xlate_def leD)
next
  case False
  then show ?thesis by (simp add: xlate_def not_less word_le_nat_alt)
qed

lemma all_less_two: "(\<forall>i < (2 :: nat). P i) \<longleftrightarrow> P 0 \<and> P 1"
  by (auto simp: less_2_cases_iff)

lemma demo_umem: "umem demo_mem 0x80001000 va = (if unat va < 4096 then Some (demo_mem (0x80004000 + va)) else None)"
proof -
  have "unat (PGROUNDDOWN va) < 4096 \<longleftrightarrow> unat va < 4096" by (simp add: unat_PGROUNDDOWN div_eq_0_iff)
  moreover have "unat va < 4096 \<Longrightarrow> PGROUNDDOWN va = 0" by (simp add: word_unat_eq_iff unat_PGROUNDDOWN)
  ultimately show ?thesis by (simp add: umem_def demo_xlate Let_def)
qed

lemma demo_byte:
  assumes "unat va < 4096"
  shows "demo_mem (0x80004000 + va) = 0"
proof -
  have "PGROUNDDOWN (0x80004000 + va) = 0x80004000"
    using PGROUNDDOWN_page [of "0x80004000" "unat va"] assms by (simp add: page_aligned_def)
  then show ?thesis using demo_child(1-3) by (simp add: demo_mem_def store64_slot_other_page)
qed

lemma demo_inj: "user_inj demo_mem 0x80001000"
proof -
  have "unat a < 4096 \<Longrightarrow> PGROUNDDOWN a = 0" for a by (simp add: word_unat_eq_iff unat_PGROUNDDOWN)
  then show ?thesis by (simp add: user_inj_def demo_xlate demo_pages(3))
qed

subsection \<open>Properties\<close>

text \<open>
  C17: mapping. On a well-formed table whose range is not mapped yet, \<open>mappages\<close> returns 0
  after adding exactly the entries of the pages of the range, each pointing to its physical
  page with the given permissions, or \<open>-1\<close> after adding a proper prefix of them, and then
  only because the allocator has run out of pages. In both cases the table stays well formed,
  the pages it took came from the free list, and no other memory changed.
\<close>

theorem mappages_correct:
  assumes "pt_ok 2 s pt ps" "KmemLock \<notin> set (held s)" "0 < sz" "unat va + unat sz \<le> unat MAXVA"
    "\<forall>vb. unat va div 4096 \<le> unat vb div 4096 \<and> unat vb div 4096 < unat va div 4096 + npages_of va sz \<longrightarrow>
       \<not> pte_valid (leaf 2 (mem s) pt vb)"
  shows "returns (mappages pt va sz pa perm s) (\<lambda>(r, t). \<exists>ts qs k. ps = ts @ qs \<and>
     pt_ok 2 t pt qs \<and> pt_pages 2 (mem t) pt = pt_pages 2 (mem s) pt \<union> set ts \<and>
     (\<forall>x. PGROUNDDOWN x \<notin> pt_pages 2 (mem t) pt \<longrightarrow> mem t x = mem s x) \<and>
     (\<forall>vb < MAXVA. leaf 2 (mem t) pt vb = map_range (PGROUNDDOWN va) k pa perm (leaf 2 (mem s) pt) vb) \<and>
     (r = 0 \<and> k = npages_of va sz \<or> r = - 1 \<and> k < npages_of va sz \<and> qs = []))"
  using mappages_spec [OF assms, of pa perm]
  by (rule returns_mono) (auto simp: mappages_post_def pt_upd_def)

theorem mappages_correct_witness:
  "returns (mappages 0x80001000 0x1000 0x1000 0x80006000 0x16
      \<lparr>held = [], mem = demo_mem, kend = 0x80001000, etext = 0, trampoline = 0, freelist = 0\<rparr>)
     (\<lambda>(r, t). r = 0 \<and> leaf 2 (mem t) 0x80001000 0x1000 = PA2PTE 0x80006000 OR 0x16 OR PTE_V \<or> r = - 1)"
proof -
  let ?s = "\<lparr>held = [], mem = demo_mem, kend = 0x80001000, etext = 0, trampoline = 0, freelist = 0\<rparr>"
  have ok: "pt_ok 2 ?s 0x80001000 []"
    using demo_good demo_child(1-3) by (simp add: pt_ok_def pt_good_def demo_pages(3) free_list_def ram_page_def)
  have n: "npages_of 0x1000 0x1000 = 1" by (simp add: npages_of_def)
  have "\<not> pte_valid (leaf 2 demo_mem 0x80001000 vb)" if "unat vb div 4096 = 1" for vb
  proof -
    have "unat (PX 0 vb) \<noteq> 0" using that by (simp add: unat_PX)
    then show ?thesis using demo_child PX_less by (simp add: leaf_two demo_entry)
  qed
  moreover have "a = 1" if "1 \<le> a \<and> a < 1 + (1 :: nat)" for a using that by simp
  ultimately have nv: "\<forall>vb. unat (0x1000 :: uint64) div 4096 \<le> unat vb div 4096 \<and>
      unat vb div 4096 < unat (0x1000 :: uint64) div 4096 + npages_of 0x1000 0x1000 \<longrightarrow>
      \<not> pte_valid (leaf 2 (mem ?s) 0x80001000 vb)" by (simp add: n)
  have "map_range (PGROUNDDOWN 0x1000) 1 pa perm f 0x1000 = PA2PTE pa OR perm OR PTE_V" for pa perm f
    by (simp add: map_range_def PGROUNDDOWN_aligned page_aligned_def)
  then show ?thesis
    using mappages_correct [OF ok _ _ _ nv, of "0x80006000" "0x16"]
    by (auto simp: n elim!: returns_mono)
qed

text \<open>
  C19: reading user memory. \<open>copyin\<close> returns 0 exactly when every address of the range is
  mapped for the user, and then delivers the bytes of the range; otherwise it returns
  \<open>-1\<close> after the bytes in front of the first address that is not mapped. It changes nothing.
\<close>

theorem copyin_correct:
  assumes "pt_good (mem s) pt"
  shows "copyin pt va n s =
     Inr (if \<forall>i < n. umem (mem s) pt (va + of_nat i) \<noteq> None then 0 else - 1,
          mapped_prefix (map (\<lambda>i. umem (mem s) pt (va + of_nat i)) [0..<n]), s)"
proof -
  have "None \<in> set (ubytes (mem s) pt va n) \<longleftrightarrow> \<not> (\<forall>i < n. umem (mem s) pt (va + of_nat i) \<noteq> None)"
    by (simp add: None_ubytes del: not_None_eq)
  then show ?thesis using copyin_spec [OF assms, of va n] by (simp add: ubytes_def)
qed

theorem copyin_correct_witness:
  "copyin 0x80001000 0xffe 2
     \<lparr>held = [], mem = demo_mem, kend = 0x80001000, etext = 0, trampoline = 0, freelist = 0\<rparr> =
   Inr (0, [0, 0], \<lparr>held = [], mem = demo_mem, kend = 0x80001000, etext = 0, trampoline = 0, freelist = 0\<rparr>) \<and>
   copyin 0x80001000 0xfff 2
     \<lparr>held = [], mem = demo_mem, kend = 0x80001000, etext = 0, trampoline = 0, freelist = 0\<rparr> =
   Inr (- 1, [0], \<lparr>held = [], mem = demo_mem, kend = 0x80001000, etext = 0, trampoline = 0, freelist = 0\<rparr>)"
proof -
  let ?s = "\<lparr>held = [], mem = demo_mem, kend = 0x80001000, etext = 0, trampoline = 0, freelist = 0\<rparr>"
  have g: "pt_good (mem ?s) 0x80001000" using demo_good by simp
  have b: "demo_mem 0x80004ffe = 0" "demo_mem 0x80004fff = 0"
    using demo_byte [of "0xffe"] demo_byte [of "0xfff"] by simp_all
  show ?thesis
    using copyin_correct [OF g, of "0xffe" 2] copyin_correct [OF g, of "0xfff" 2]
    by (simp add: demo_umem upt_rec b mapped_prefix_def all_less_two)
qed

text \<open>
  C20: reading a user string. \<open>copyinstr\<close> returns 0 with the bytes up to and including the
  first NUL if there is one within \<open>n\<close> mapped bytes, and \<open>-1\<close> otherwise.
\<close>

theorem copyinstr_correct:
  assumes "pt_good (mem s) pt"
  shows "copyinstr pt va n s =
     (let bs = mapped_prefix (map (\<lambda>i. umem (mem s) pt (va + of_nat i)) [0..<n])
      in if 0 \<in> set bs then Inr (0, takeWhile (\<lambda>b. b \<noteq> 0) bs @ [0], s) else Inr (- 1, bs, s))"
  using copyinstr_spec [OF assms, of va n]
  by (simp add: ubytes_def cstring_in_def Let_def)

theorem copyinstr_correct_witness:
  "copyinstr 0x80001000 0xffe 5
     \<lparr>held = [], mem = demo_mem, kend = 0x80001000, etext = 0, trampoline = 0, freelist = 0\<rparr> =
   Inr (0, [0], \<lparr>held = [], mem = demo_mem, kend = 0x80001000, etext = 0, trampoline = 0, freelist = 0\<rparr>)"
proof -
  let ?s = "\<lparr>held = [], mem = demo_mem, kend = 0x80001000, etext = 0, trampoline = 0, freelist = 0\<rparr>"
  have g: "pt_good (mem ?s) 0x80001000" using demo_good by simp
  have b: "demo_mem 0x80004ffe = 0" "demo_mem 0x80004fff = 0"
    using demo_byte [of "0xffe"] demo_byte [of "0xfff"] by simp_all
  show ?thesis
    using copyinstr_correct [OF g, of "0xffe" 5] by (simp add: demo_umem upt_rec b mapped_prefix_def)
qed

text \<open>
  C18: writing user memory. On a table whose user pages are not shared, \<open>copyout\<close> returns 0
  exactly when the whole range is mapped for the user; user memory then is as before with the
  bytes of the range replaced. Otherwise it returns \<open>-1\<close> and has replaced the mapped bytes in
  front of the first hole. Nothing outside the table's user pages changes.
\<close>

theorem copyout_correct:
  assumes "pt_good (mem s) pt" "user_inj (mem s) pt" "length src < 2 ^ 64"
  shows "returns (copyout pt va src s) (\<lambda>(r, t). t = s\<lparr>mem := mem t\<rparr> \<and>
     r = (if \<forall>i < length src. umem (mem s) pt (va + of_nat i) \<noteq> None then 0 else - 1) \<and>
     (\<forall>x. PGROUNDDOWN x \<notin> user_pages (mem s) pt \<longrightarrow> mem t x = mem s x) \<and>
     (r = 0 \<longrightarrow> umem (mem t) pt = upd_bytes (umem (mem s) pt) va src) \<and>
     umem (mem t) pt = upd_bytes (umem (mem s) pt) va
       (take (length (takeWhile (\<lambda>i. umem (mem s) pt (va + of_nat i) \<noteq> None) [0..<length src])) src))"
proof -
  let ?us = "ubytes (mem s) pt va (length src)"
  obtain m where m: "copyout pt va src s = Inr (if None \<in> set ?us then - 1 else 0, s\<lparr>mem := m\<rparr>)"
      "\<forall>x. PGROUNDDOWN x \<notin> user_pages (mem s) pt \<longrightarrow> m x = mem s x"
      "umem m pt = upd_bytes (umem (mem s) pt) va (take (length (mapped_prefix ?us)) src)"
    using copyout_spec [OF assms(1) assms(2,3), of va] by blast
  have n: "None \<in> set ?us \<longleftrightarrow> \<not> (\<forall>i < length src. umem (mem s) pt (va + of_nat i) \<noteq> None)"
    by (simp add: None_ubytes del: not_None_eq)
  have all: "None \<notin> set ?us \<Longrightarrow> length (mapped_prefix ?us) = length src"
    by (rule length_mapped_prefix)
  have "length (mapped_prefix ?us) =
      length (takeWhile (\<lambda>i. umem (mem s) pt (va + of_nat i) \<noteq> None) [0..<length src])"
    by (simp add: mapped_prefix_def ubytes_def takeWhile_map comp_def)
  then show ?thesis using m n all by auto
qed

theorem copyout_correct_witness:
  "returns (copyout 0x80001000 0x10 [7, 8]
      \<lparr>held = [], mem = demo_mem, kend = 0x80001000, etext = 0, trampoline = 0, freelist = 0\<rparr>)
     (\<lambda>(r, t). r = 0 \<and> umem (mem t) 0x80001000 0x11 = Some 8 \<and> umem (mem t) 0x80001000 0x12 = Some 0)"
proof -
  let ?s = "\<lparr>held = [], mem = demo_mem, kend = 0x80001000, etext = 0, trampoline = 0, freelist = 0\<rparr>"
  have g: "pt_good (mem ?s) 0x80001000" "user_inj (mem ?s) 0x80001000" using demo_good demo_inj by simp_all
  have b: "demo_mem 0x80004012 = 0" using demo_byte [of "0x12"] by simp
  have all: "\<forall>i < length [7, 8 :: uchar]. umem (mem ?s) 0x80001000 (0x10 + of_nat i) \<noteq> None"
    by (simp add: demo_umem less_Suc_eq)
  have len: "length [7, 8 :: uchar] < 2 ^ 64" by simp
  obtain t where "copyout 0x80001000 0x10 [7, 8] ?s = Inr (0, t)"
      "umem (mem t) 0x80001000 = upd_bytes (umem (mem ?s) 0x80001000) 0x10 [7, 8]"
    using copyout_correct [OF g len, of "0x10", unfolded if_P [OF all] returns_iff] by blast
  then show ?thesis by (simp add: upd_bytes_def demo_umem b)
qed

text \<open>
  C11: isolation. Whatever \<open>copyout\<close> is asked to write through one page table, the memory
  another table gives its user stays the same, as long as the two tables have no
  user page in common and no user page of the first is a page of the second table.
\<close>

theorem copyout_isolated:
  assumes "pt_good (mem s) pt" "user_inj (mem s) pt" "pt_good (mem s) pt'" "length src < 2 ^ 64"
    "user_pages (mem s) pt \<inter> (user_pages (mem s) pt' \<union> pt_pages 2 (mem s) pt') = {}"
  shows "returns (copyout pt va src s) (\<lambda>(r, t). umem (mem t) pt' = umem (mem s) pt')"
proof -
  obtain m r where m: "copyout pt va src s = Inr (r, s\<lparr>mem := m\<rparr>)"
      "\<forall>x. PGROUNDDOWN x \<notin> user_pages (mem s) pt \<longrightarrow> m x = mem s x"
    using copyout_spec [OF assms(1) assms(2,4), of va] by blast
  have "m x = mem s x" if "PGROUNDDOWN x \<in> pt_pages 2 (mem s) pt'" for x
    using m(2) assms(5) that by blast
  then have xl: "xlate m pt' a = xlate (mem s) pt' a" for a
    by (rule xlate_cong(1) [OF assms(3)])
  have "umem m pt' a = umem (mem s) pt' a" for a
  proof (cases "xlate (mem s) pt' (PGROUNDDOWN a) = 0")
    case False
    let ?q = "xlate (mem s) pt' (PGROUNDDOWN a)"
    have "PGROUNDDOWN (?q + (a - PGROUNDDOWN a)) = ?q"
      using PGROUNDDOWN_page [of ?q "unat a mod 4096"] by (simp add: page_off)
    moreover have "?q \<in> user_pages (mem s) pt'" using False by (auto simp: user_pages_def)
    ultimately have "m (?q + (a - PGROUNDDOWN a)) = mem s (?q + (a - PGROUNDDOWN a))"
      using m(2) assms(5) by (metis IntI UnI1 empty_iff)
    then show ?thesis by (simp add: umem_def xl Let_def)
  qed (simp add: umem_def xl)
  then show ?thesis using m(1) by (simp add: fun_eq_iff)
qed

theorem copyout_isolated_witness:
  "returns (copyout 0x80001000 0x10 [7, 8]
      \<lparr>held = [], mem = demo_mem, kend = 0x80001000, etext = 0, trampoline = 0, freelist = 0\<rparr>)
     (\<lambda>(r, t). umem (mem t) 0x80005000 = umem demo_mem 0x80005000)"
proof -
  let ?s = "\<lparr>held = [], mem = demo_mem, kend = 0x80001000, etext = 0, trampoline = 0, freelist = 0\<rparr>"
  have g: "pt_good (mem ?s) 0x80001000" "user_inj (mem ?s) 0x80001000" using demo_good demo_inj by simp_all
  have al: "page_aligned 0x80005000" by (simp add: page_aligned_def)
  have z: "demo_mem x = 0" if "PGROUNDDOWN x = 0x80005000" for x
    using that demo_child(1-3) by (simp add: demo_mem_def store64_slot_other_page)
  have p: "pt_pages 2 demo_mem 0x80005000 = {0x80005000}" using al z by (rule pt_zero)
  have "pt_wf 2 demo_mem 0x80005000" using al z by (rule pt_zero)
  then have g': "pt_good (mem ?s) 0x80005000" by (simp add: pt_good_def p)
  have l: "leaf 2 demo_mem 0x80005000 va = 0" for va using al z by (rule pt_zero)
  have "xlate demo_mem 0x80005000 va = 0" for va by (simp add: xlate_def l)
  then have "user_pages demo_mem 0x80005000 = {}" by (simp add: user_pages_def)
  moreover have "user_pages demo_mem 0x80001000 \<subseteq> {0x80004000}" by (auto simp: user_pages_def demo_xlate)
  ultimately have d: "user_pages (mem ?s) 0x80001000 \<inter>
      (user_pages (mem ?s) 0x80005000 \<union> pt_pages 2 (mem ?s) 0x80005000) = {}"
    by (auto simp: p)
  show ?thesis using copyout_isolated [OF g g' _ d, of "[7, 8]" "0x10"] by simp
qed

end
