(* ===== verification/Vmframe.thy ===== *)
theory Vmframe
  imports Pagetable
begin

section \<open>What the memory routines leave alone\<close>

text \<open>
  The routines of \<^verbatim>\<open>kalloc.c\<close> and \<^verbatim>\<open>vm.c\<close> touch memory and the free list only:
  whenever one of them returns, every other component of the kernel's state is as it was
  (\<open>mem_only\<close>). The other components rest on these facts for their own state.
\<close>

named_theorems mem_frame \<open>the routine changes memory and the free list only\<close>

lemma mem_only_left [simp]:
  "mem_only (s\<lparr>mem := m\<rparr>) t = mem_only s t" "mem_only (s\<lparr>freelist := f\<rparr>) t = mem_only s t"
  by (cases s; cases t; simp add: mem_only_def)+

lemma kfree_frame [mem_frame]: "kfree p s = Inr t \<Longrightarrow> mem_only s t"
  by (cases s) (auto simp: kfree_def acquire_def release_def holding_def andthen_eq_Inr Let_def mem_only_def
      split: if_splits)

lemma kalloc_frame [mem_frame]: "kalloc s = Inr (p, t) \<Longrightarrow> mem_only s t"
  by (cases s) (auto simp: kalloc_def acquire_def release_def holding_def andthen_eq_Inr Let_def mem_only_def
      split: if_splits)

lemma walk_level_frame: "walk_level l pt va alloc s = Inr (a, t) \<Longrightarrow> mem_only s t"
proof (induction l arbitrary: pt s alloc)
  case (Suc l)
  from Suc.prems show ?case
    by (auto simp: walk_level_Suc Let_def andthen_eq_Inr split: if_splits dest!: kalloc_frame Suc.IH
        intro: mem_only_trans)
qed simp

lemma walk_frame [mem_frame]: "walk pt va alloc s = Inr (a, t) \<Longrightarrow> mem_only s t"
  by (auto simp: walk_def split: if_splits dest: walk_level_frame)

lemma mappages_loop_frame: "mappages_loop pt a b pa perm s = Inr (r, t) \<Longrightarrow> mem_only s t"
proof (induction pt a b pa perm s rule: mappages_loop.induct)
  case (1 pt a b pa perm s)
  from "1.prems" obtain pte u where u: "walk pt a True s = Inr (pte, u)"
    by (subst (asm) mappages_loop.simps) (auto simp: andthen_eq_Inr)
  note su = walk_frame [OF u]
  let ?u = "u\<lparr>mem := store64 pte (PA2PTE pa OR perm OR PTE_V) (mem u)\<rparr>"
  consider "t = u" | "t = ?u" | "mappages_loop pt (a + PGSIZE) b (pa + PGSIZE) perm ?u = Inr (r, t)"
      "a \<noteq> b" "pte \<noteq> 0" "load64 (mem u) pte AND PTE_V = 0"
    using "1.prems" u by (subst (asm) mappages_loop.simps) (auto simp: Let_def split: if_splits)
  then show ?case
  proof cases
    case 3
    then have "mem_only ?u t" using "1.IH" [OF u refl] by simp
    then show ?thesis using su by (auto intro: mem_only_trans)
  qed (use su in simp_all)
qed

lemma mappages_frame [mem_frame]: "mappages pt va sz pa perm s = Inr (r, t) \<Longrightarrow> mem_only s t"
  by (auto simp: mappages_def split: if_splits dest: mappages_loop_frame)

lemma uvmunmap_loop_frame: "uvmunmap_loop pt a lim fr s = Inr t \<Longrightarrow> mem_only s t"
proof (induction pt a lim fr s rule: uvmunmap_loop.induct)
  case (1 pt a lim fr s)
  show ?case
  proof (cases "a < lim")
    case True
    with "1.prems" obtain pte u v where u: "walk pt a False s = Inr (pte, u)" "pte \<noteq> 0"
        "load64 (mem u) pte AND PTE_V \<noteq> 0" "PTE_FLAGS (load64 (mem u) pte) \<noteq> PTE_V"
        "(if fr then kfree (PTE2PA (load64 (mem u) pte)) u else Inr u) = Inr v"
        "uvmunmap_loop pt (a + PGSIZE) lim fr (v\<lparr>mem := store64 pte 0 (mem v)\<rparr>) = Inr t"
      by (subst (asm) uvmunmap_loop.simps) (auto simp: andthen_eq_Inr split: if_splits)
    have "mem_only s u" using u(1) by (rule walk_frame)
    moreover have "mem_only u v" using u(5) by (auto split: if_splits dest: kfree_frame)
    moreover have "mem_only v t" using "1.IH" [OF True u(1) refl u(2) _ u(4) u(5) u(6)] u(3) by simp
    ultimately show ?thesis by (blast intro: mem_only_trans)
  next
    case False
    with "1.prems" show ?thesis by (simp add: uvmunmap_loop.simps [of pt a lim])
  qed
qed

lemma uvmunmap_frame [mem_frame]: "uvmunmap pt va n fr s = Inr t \<Longrightarrow> mem_only s t"
  by (auto simp: uvmunmap_def split: if_splits dest: uvmunmap_loop_frame)

lemma uvmcreate_frame [mem_frame]: "uvmcreate s = Inr (pt, t) \<Longrightarrow> mem_only s t"
  by (auto simp: uvmcreate_def andthen_eq_Inr split: if_splits dest!: kalloc_frame)

lemma for_each_frame:
  assumes "\<And>i s t. i \<in> set is \<Longrightarrow> f i s = Inr t \<Longrightarrow> mem_only s t" "for_each is f s = Inr t"
  shows "mem_only s t"
  using assms
proof (induction "is" arbitrary: s)
  case (Cons i "is")
  from Cons.prems(2) obtain u where u: "f i s = Inr u" "for_each is f u = Inr t" by (auto simp: andthen_eq_Inr)
  have "mem_only s u" using Cons.prems(1) [of i s u] u(1) by simp
  moreover have "mem_only u t"
  proof (rule Cons.IH)
    show "mem_only s t" if "j \<in> set is" "f j s = Inr t" for j s t
      using that(1) by (intro Cons.prems(1) [OF _ that(2)]) simp
  qed (rule u(2))
  ultimately show ?case by (rule mem_only_trans)
qed simp

lemma freewalk_frame [mem_frame]: "freewalk n pt s = Inr t \<Longrightarrow> mem_only s t"
proof (induction n arbitrary: pt s t)
  case (Suc n)
  then obtain u where u: "for_each [0..<512] (\<lambda>i s.
        let pte = load64 (mem s) (slot pt i) in
        if pte AND PTE_V \<noteq> 0 \<and> pte AND (PTE_R OR PTE_W OR PTE_X) = 0
        then andthen (freewalk n (PTE2PA pte) s) (\<lambda>s. Inr (s\<lparr>mem := store64 (slot pt i) 0 (mem s)\<rparr>))
        else if pte AND PTE_V \<noteq> 0 then Inl (Panic ''freewalk: leaf'') else Inr s) s = Inr u" "kfree pt u = Inr t"
    by (auto simp: andthen_eq_Inr)
  have "mem_only s u"
    by (rule for_each_frame [OF _ u(1)]) (auto simp: Let_def andthen_eq_Inr split: if_splits dest!: Suc.IH)
  then show ?case using kfree_frame [OF u(2)] by (rule mem_only_trans)
qed simp

lemma uvmfree_frame [mem_frame]: "uvmfree pt sz s = Inr t \<Longrightarrow> mem_only s t"
  by (auto simp: uvmfree_def andthen_eq_Inr simp del: freewalk.simps split: if_splits
      dest!: uvmunmap_frame freewalk_frame intro: mem_only_trans)

lemma uvmdealloc_frame [mem_frame]: "uvmdealloc pt a b s = Inr (r, t) \<Longrightarrow> mem_only s t"
  by (auto simp: uvmdealloc_def andthen_eq_Inr Let_def split: if_splits dest!: uvmunmap_frame)

lemma uvmalloc_loop_frame: "uvmalloc_loop pt a b c x s = Inr (r, t) \<Longrightarrow> mem_only s t"
proof (induction pt a b c x s rule: uvmalloc_loop.induct)
  case (1 pt a b c x s)
  show ?case
  proof (cases "a < c")
    case True
    with "1.prems" obtain p u where u: "kalloc s = Inr (p, u)"
      by (subst (asm) uvmalloc_loop.simps) (auto simp: andthen_eq_Inr)
    note su = kalloc_frame [OF u]
    let ?u = "u\<lparr>mem := memset p 0 4096 (mem u)\<rparr>"
    show ?thesis
    proof (cases "p = 0")
      case True
      with "1.prems" \<open>a < c\<close> u show ?thesis
        by (subst (asm) uvmalloc_loop.simps)
          (auto simp: andthen_eq_Inr dest!: uvmdealloc_frame intro: mem_only_trans [OF su])
    next
      case p: False
      with "1.prems" \<open>a < c\<close> u obtain q v where v: "mappages pt a PGSIZE p (PTE_R OR PTE_U OR x) ?u = Inr (q, v)"
        by (subst (asm) uvmalloc_loop.simps) (auto simp: andthen_eq_Inr)
      have sv: "mem_only s v" using mappages_frame [OF v] su by (auto intro: mem_only_trans)
      show ?thesis
      proof (cases "q = 0")
        case True
        with "1.prems" \<open>a < c\<close> u p v have "uvmalloc_loop pt (a + PGSIZE) b c x v = Inr (r, t)"
          by (subst (asm) uvmalloc_loop.simps) simp
        then have "mem_only v t" using "1.IH" [OF \<open>a < c\<close> u refl p refl v refl] True by simp
        then show ?thesis using sv by (blast intro: mem_only_trans)
      next
        case False
        with "1.prems" \<open>a < c\<close> u p v show ?thesis
          by (subst (asm) uvmalloc_loop.simps)
            (auto simp: andthen_eq_Inr dest!: uvmdealloc_frame kfree_frame intro: mem_only_trans [OF sv] mem_only_trans)
      qed
    qed
  next
    case False
    with "1.prems" show ?thesis by (simp add: uvmalloc_loop.simps [of pt a b c])
  qed
qed

lemma uvmalloc_frame [mem_frame]: "uvmalloc pt a b x s = Inr (r, t) \<Longrightarrow> mem_only s t"
  by (auto simp: uvmalloc_def split: if_splits dest: uvmalloc_loop_frame)

lemma copyout_frame [mem_frame]: "copyout pt va src s = Inr (r, t) \<Longrightarrow> mem_only s t"
proof (induction pt va src s rule: copyout.induct)
  case (1 pt va src s)
  show ?case
  proof (cases "src = []")
    case False
    with "1.prems" obtain p u where u: "walkaddr pt (PGROUNDDOWN va) s = Inr (p, u)"
      by (subst (asm) copyout.simps) (auto simp: andthen_eq_Inr Let_def)
    have su: "mem_only s u"
      using u by (auto simp: walkaddr_def andthen_eq_Inr split: if_splits dest: walk_frame)
    show ?thesis
    proof (cases "p = 0")
      case False
      let ?n = "chunk va (length src)"
      let ?u = "u\<lparr>mem := store_bytes (p + (va - PGROUNDDOWN va)) (take ?n src) (mem u)\<rparr>"
      have "copyout pt (PGROUNDDOWN va + PGSIZE) (drop ?n src) ?u = Inr (r, t)"
        using "1.prems" \<open>src \<noteq> []\<close> u False by (subst (asm) copyout.simps) (simp add: Let_def)
      then have "mem_only ?u t" using "1.IH" [OF \<open>src \<noteq> []\<close> refl u refl False refl refl] by simp
      then show ?thesis using su by (auto intro: mem_only_trans)
    qed (use "1.prems" \<open>src \<noteq> []\<close> u su in \<open>subst (asm) copyout.simps, simp add: Let_def\<close>)
  qed (use "1.prems" in \<open>simp add: copyout.simps [of pt va]\<close>)
qed

end
