(* ===== verification/Proc.thy ===== *)
theory Proc
  imports Usercopy Vmframe
begin

section \<open>Processes: the table, sleeping and waking\<close>

text \<open>
  The part of \<^verbatim>\<open>kernel/proc.c\<close> below the file system: the process table,
  allocation and release of its entries, \<^verbatim>\<open>sleep\<close> and \<^verbatim>\<open>wakeup\<close>,
  \<^verbatim>\<open>kill\<close>, the steps of the scheduler and the copies to and from the current process.
  A process is its index in \<^verbatim>\<open>proc[]\<close>.

  A kernel thread leaves the CPU in \<^verbatim>\<open>swtch\<close>. The routines that call it are split there:
  \<open>sched\<close> is the part of \<^verbatim>\<open>sched\<close> in front of \<^verbatim>\<open>swtch\<close>, \<open>sleep_enter\<close> and
  \<open>sleep_return\<close> are the two halves of \<^verbatim>\<open>sleep\<close>. In a routine that is
  followed up to the point where it would have to wait, \<open>sleep\<close> stands for the first half and
  ends the routine with \<open>Sleeping\<close>.
\<close>

subsection \<open>Data\<close>

datatype procstate = UNUSED | USED | SLEEPING | RUNNABLE | RUNNING | ZOMBIE

text \<open>\<^verbatim>\<open>struct context\<close>: \<open>cs\<close> are the callee-saved registers.\<close>

record kcontext =
  c_ra :: uint64
  c_sp :: uint64
  c_s :: "uint64 list"

record proc =
  p_state :: procstate
  p_chan :: "chan option"
  p_killed :: int
  p_xstate :: int
  p_pid :: int
  p_parent :: "nat option"
  p_kstack :: uint64
  p_sz :: uint64
  p_pagetable :: uint64
  p_trapframe :: uint64
  p_context :: kcontext
  p_ofile :: "nat option list"
  p_cwd :: "nat option"
  p_name :: "uchar list"

text \<open>
  \<open>curproc\<close> is the process of the running CPU; \<open>sym\<close> gives the addresses the
  linker assigns to code labels.
\<close>

record procs = kvm +
  ptable :: "proc list"
  curproc :: "nat option"
  initproc :: "nat option"
  nextpid :: int
  sym :: "string \<Rightarrow> uint64"

definition pr :: "'a procs_scheme \<Rightarrow> nat \<Rightarrow> proc" where
  "pr s i = ptable s ! i"

definition upd_proc :: "nat \<Rightarrow> (proc \<Rightarrow> proc) \<Rightarrow> 'a procs_scheme \<Rightarrow> 'a procs_scheme" where
  "upd_proc i f s = s\<lparr>ptable := (ptable s)[i := f (ptable s ! i)]\<rparr>"

text \<open>Using the null pointer \<^verbatim>\<open>myproc()\<close> faults in the kernel.\<close>

definition myproc :: "'a procs_scheme \<Rightarrow> exn + nat" where
  "myproc s = (case curproc s of None \<Rightarrow> Inl (Panic ''kerneltrap'') | Some p \<Rightarrow> Inr p)"

text \<open>The offsets of the fields of \<^verbatim>\<open>struct trapframe\<close> that the kernel uses.\<close>

definition TF_kernel_satp :: uint64 where [simp, code_unfold]: "TF_kernel_satp = 0"
definition TF_kernel_sp :: uint64 where [simp, code_unfold]: "TF_kernel_sp = 8"
definition TF_kernel_trap :: uint64 where [simp, code_unfold]: "TF_kernel_trap = 16"
definition TF_epc :: uint64 where [simp, code_unfold]: "TF_epc = 24"
definition TF_kernel_hartid :: uint64 where [simp, code_unfold]: "TF_kernel_hartid = 32"
definition TF_sp :: uint64 where [simp, code_unfold]: "TF_sp = 48"
definition TF_a0 :: uint64 where [simp, code_unfold]: "TF_a0 = 112"
definition TF_a1 :: uint64 where [simp, code_unfold]: "TF_a1 = 120"
definition TF_a7 :: uint64 where [simp, code_unfold]: "TF_a7 = 168"
definition TF_size :: nat where [simp, code_unfold]: "TF_size = 288"

definition tf_get :: "nat \<Rightarrow> uint64 \<Rightarrow> 'a procs_scheme \<Rightarrow> uint64" where
  "tf_get p off s = load64 (mem s) (p_trapframe (pr s p) + off)"

definition tf_set :: "nat \<Rightarrow> uint64 \<Rightarrow> uint64 \<Rightarrow> 'a procs_scheme \<Rightarrow> 'a procs_scheme" where
  "tf_set p off v s = s\<lparr>mem := store64 (p_trapframe (pr s p) + off) v (mem s)\<rparr>"

subsection \<open>Allocation\<close>

definition procinit :: "'a procs_scheme \<Rightarrow> 'a procs_scheme" where
  "procinit s = s\<lparr>ptable := map (\<lambda>i. (ptable s ! i)\<lparr>p_state := UNUSED, p_kstack := KSTACK i\<rparr>) [0..<NPROC]\<rparr>"

text \<open>An \<^verbatim>\<open>int\<close>: 32 bits, two's complement, as the RISC-V \<^verbatim>\<open>addw\<close> computes it.\<close>

definition int32 :: "int \<Rightarrow> int" where
  "int32 n = sint (of_int n :: uint)"

definition allocpid :: "'a procs_scheme \<Rightarrow> exn + (int \<times> 'a procs_scheme)" where
  "allocpid s =
     andthen (acquire PidLock s) (\<lambda>s.
     let pid = nextpid s; s = s\<lparr>nextpid := int32 (nextpid s + 1)\<rparr>
     in andthen (release PidLock s) (\<lambda>s. Inr (pid, s)))"

definition proc_pagetable :: "nat \<Rightarrow> 'a procs_scheme \<Rightarrow> exn + (uint64 \<times> 'a procs_scheme)" where
  "proc_pagetable p s =
     andthen (uvmcreate s) (\<lambda>(pagetable, s).
     if pagetable = 0 then Inr (0, s)
     else andthen (mappages pagetable TRAMPOLINE PGSIZE (trampoline s) (PTE_R OR PTE_X) s) (\<lambda>(r, s).
       if r < 0 then andthen (uvmfree pagetable 0 s) (\<lambda>s. Inr (0, s))
       else andthen (mappages pagetable TRAPFRAME PGSIZE (p_trapframe (pr s p)) (PTE_R OR PTE_W) s) (\<lambda>(r, s).
         if r < 0
         then andthen (uvmunmap pagetable TRAMPOLINE 1 False s) (\<lambda>s.
              andthen (uvmfree pagetable 0 s) (\<lambda>s. Inr (0, s)))
         else Inr (pagetable, s))))"

definition proc_freepagetable :: "uint64 \<Rightarrow> uint64 \<Rightarrow> 'a kmem_scheme \<Rightarrow> exn + 'a kmem_scheme" where
  "proc_freepagetable pagetable sz s =
     andthen (uvmunmap pagetable TRAMPOLINE 1 False s) (\<lambda>s.
     andthen (uvmunmap pagetable TRAPFRAME 1 False s) (\<lambda>s.
     uvmfree pagetable sz s))"

definition freeproc :: "nat \<Rightarrow> 'a procs_scheme \<Rightarrow> exn + 'a procs_scheme" where
  "freeproc p s =
     andthen (if p_trapframe (pr s p) \<noteq> 0 then kfree (p_trapframe (pr s p)) s else Inr s) (\<lambda>s.
     let s = upd_proc p (\<lambda>q. q\<lparr>p_trapframe := 0\<rparr>) s in
     andthen (if p_pagetable (pr s p) \<noteq> 0
              then proc_freepagetable (p_pagetable (pr s p)) (p_sz (pr s p)) s else Inr s) (\<lambda>s.
     Inr (upd_proc p (\<lambda>q. q\<lparr>p_pagetable := 0, p_sz := 0, p_pid := 0, p_parent := None,
            p_name := (p_name q)[0 := 0], p_chan := None, p_killed := 0, p_xstate := 0,
            p_state := UNUSED\<rparr>) s)))"

fun allocproc_scan :: "nat list \<Rightarrow> 'a procs_scheme \<Rightarrow> exn + (nat option \<times> 'a procs_scheme)" where
  "allocproc_scan [] s = Inr (None, s)"
| "allocproc_scan (p # ps) s =
     andthen (acquire (ProcLock p) s) (\<lambda>s.
       if p_state (pr s p) = UNUSED then Inr (Some p, s)
       else andthen (release (ProcLock p) s) (allocproc_scan ps))"

definition allocproc :: "'a procs_scheme \<Rightarrow> exn + (nat option \<times> 'a procs_scheme)" where
  "allocproc s =
     andthen (allocproc_scan [0..<NPROC] s) (\<lambda>(r, s).
     case r of
       None \<Rightarrow> Inr (None, s)
     | Some p \<Rightarrow>
         andthen (allocpid s) (\<lambda>(pid, s).
         let s = upd_proc p (\<lambda>q. q\<lparr>p_pid := pid\<rparr>) s;
             s = upd_proc p (\<lambda>q. q\<lparr>p_state := USED\<rparr>) s in
         andthen (kalloc s) (\<lambda>(tf, s).
         let s = upd_proc p (\<lambda>q. q\<lparr>p_trapframe := tf\<rparr>) s in
         if tf = 0
         then andthen (freeproc p s) (\<lambda>s. andthen (release (ProcLock p) s) (\<lambda>s. Inr (None, s)))
         else andthen (proc_pagetable p s) (\<lambda>(pt, s).
           let s = upd_proc p (\<lambda>q. q\<lparr>p_pagetable := pt\<rparr>) s in
           if pt = 0
           then andthen (freeproc p s) (\<lambda>s. andthen (release (ProcLock p) s) (\<lambda>s. Inr (None, s)))
           else Inr (Some p, upd_proc p (\<lambda>q. q\<lparr>p_context :=
                  \<lparr>c_ra = sym s ''forkret'', c_sp = p_kstack q + PGSIZE, c_s = replicate 12 0\<rparr>\<rparr>) s)))))"

definition growproc :: "int \<Rightarrow> 'a procs_scheme \<Rightarrow> exn + (int \<times> 'a procs_scheme)" where
  "growproc n s =
     andthen (myproc s) (\<lambda>p.
     let sz = p_sz (pr s p) in
     if n > 0
     then andthen (uvmalloc (p_pagetable (pr s p)) sz (sz + of_int n) PTE_W s) (\<lambda>(sz, s).
            if sz = 0 then Inr (- 1, s) else Inr (0, upd_proc p (\<lambda>q. q\<lparr>p_sz := sz\<rparr>) s))
     else if n < 0
     then andthen (uvmdealloc (p_pagetable (pr s p)) sz (sz + of_int n) s) (\<lambda>(sz, s).
            Inr (0, upd_proc p (\<lambda>q. q\<lparr>p_sz := sz\<rparr>) s))
     else Inr (0, upd_proc p (\<lambda>q. q\<lparr>p_sz := sz\<rparr>) s))"

subsection \<open>Switching\<close>

text \<open>
  The nesting depth \<^verbatim>\<open>noff\<close> is the number of the locks held, and interrupts are off
  whenever it is not 0, so that the last check of \<^verbatim>\<open>sched\<close> is covered by the first.
\<close>

definition sched :: "'a procs_scheme \<Rightarrow> exn + 'a procs_scheme" where
  "sched s =
     andthen (myproc s) (\<lambda>p.
     if \<not> holding (ProcLock p) s then Inl (Panic ''sched p->lock'')
     else if length (held s) \<noteq> 1 then Inl (Panic ''sched locks'')
     else if p_state (pr s p) = RUNNING then Inl (Panic ''sched running'')
     else Inr s)"

definition yield_enter :: "'a procs_scheme \<Rightarrow> exn + 'a procs_scheme" where
  "yield_enter s =
     andthen (myproc s) (\<lambda>p.
     andthen (acquire (ProcLock p) s) (\<lambda>s.
     sched (upd_proc p (\<lambda>q. q\<lparr>p_state := RUNNABLE\<rparr>) s)))"

definition yield_return :: "'a procs_scheme \<Rightarrow> exn + 'a procs_scheme" where
  "yield_return s = andthen (myproc s) (\<lambda>p. release (ProcLock p) s)"

definition sleep_enter :: "chan \<Rightarrow> lock_id \<Rightarrow> 'a procs_scheme \<Rightarrow> exn + 'a procs_scheme" where
  "sleep_enter ch lk s =
     andthen (myproc s) (\<lambda>p.
     andthen (acquire (ProcLock p) s) (\<lambda>s.
     andthen (release lk s) (\<lambda>s.
     let s = upd_proc p (\<lambda>q. q\<lparr>p_chan := Some ch\<rparr>) s;
         s = upd_proc p (\<lambda>q. q\<lparr>p_state := SLEEPING\<rparr>) s
     in sched s)))"

definition sleep_return :: "lock_id \<Rightarrow> 'a procs_scheme \<Rightarrow> exn + 'a procs_scheme" where
  "sleep_return lk s =
     andthen (myproc s) (\<lambda>p.
     let s = upd_proc p (\<lambda>q. q\<lparr>p_chan := None\<rparr>) s in
     andthen (release (ProcLock p) s) (\<lambda>s.
     acquire lk s))"

definition sleep :: "chan \<Rightarrow> lock_id \<Rightarrow> 'a procs_scheme \<Rightarrow> exn + 'b" where
  "sleep ch lk s = andthen (sleep_enter ch lk s) (\<lambda>_. Inl (Sleeping ch))"

definition wakeup :: "chan \<Rightarrow> 'a procs_scheme \<Rightarrow> exn + 'a procs_scheme" where
  "wakeup ch =
     for_each [0..<NPROC] (\<lambda>p s.
       if curproc s \<noteq> Some p
       then andthen (acquire (ProcLock p) s) (\<lambda>s.
            release (ProcLock p)
              (if p_state (pr s p) = SLEEPING \<and> p_chan (pr s p) = Some ch
               then upd_proc p (\<lambda>q. q\<lparr>p_state := RUNNABLE\<rparr>) s else s))
       else Inr s)"

text \<open>
  One pass of the scheduler's inner loop up to \<^verbatim>\<open>swtch\<close>: the process it switches to, with
  its lock held; and what the scheduler does when that process switches back.
\<close>

fun scheduler_scan :: "nat list \<Rightarrow> 'a procs_scheme \<Rightarrow> exn + (nat option \<times> 'a procs_scheme)" where
  "scheduler_scan [] s = Inr (None, s)"
| "scheduler_scan (p # ps) s =
     andthen (acquire (ProcLock p) s) (\<lambda>s.
       if p_state (pr s p) = RUNNABLE
       then Inr (Some p, (upd_proc p (\<lambda>q. q\<lparr>p_state := RUNNING\<rparr>) s)\<lparr>curproc := Some p\<rparr>)
       else andthen (release (ProcLock p) s) (scheduler_scan ps))"

definition scheduler_back :: "nat \<Rightarrow> 'a procs_scheme \<Rightarrow> exn + 'a procs_scheme" where
  "scheduler_back p s = release (ProcLock p) (s\<lparr>curproc := None\<rparr>)"

subsection \<open>Killing\<close>

fun kill_scan :: "int \<Rightarrow> nat list \<Rightarrow> 'a procs_scheme \<Rightarrow> exn + (int \<times> 'a procs_scheme)" where
  "kill_scan pid [] s = Inr (- 1, s)"
| "kill_scan pid (p # ps) s =
     andthen (acquire (ProcLock p) s) (\<lambda>s.
       if p_pid (pr s p) = pid
       then let s = upd_proc p (\<lambda>q. q\<lparr>p_killed := 1\<rparr>) s;
                s = (if p_state (pr s p) = SLEEPING
                     then upd_proc p (\<lambda>q. q\<lparr>p_state := RUNNABLE\<rparr>) s else s)
            in andthen (release (ProcLock p) s) (\<lambda>s. Inr (0, s))
       else andthen (release (ProcLock p) s) (kill_scan pid ps))"

definition kill :: "int \<Rightarrow> 'a procs_scheme \<Rightarrow> exn + (int \<times> 'a procs_scheme)" where
  "kill pid s = kill_scan pid [0..<NPROC] s"

definition setkilled :: "nat \<Rightarrow> 'a procs_scheme \<Rightarrow> exn + 'a procs_scheme" where
  "setkilled p s =
     andthen (acquire (ProcLock p) s) (\<lambda>s.
     release (ProcLock p) (upd_proc p (\<lambda>q. q\<lparr>p_killed := 1\<rparr>) s))"

definition killed :: "nat \<Rightarrow> 'a procs_scheme \<Rightarrow> exn + (int \<times> 'a procs_scheme)" where
  "killed p s =
     andthen (acquire (ProcLock p) s) (\<lambda>s.
     let k = p_killed (pr s p)
     in andthen (release (ProcLock p) s) (\<lambda>s. Inr (k, s)))"

subsection \<open>Copying\<close>

text \<open>
  Where the bytes of a copy go: a user address of the current process, a physical address
  of the direct map, or an object of the kernel that the caller is given back as bytes;
  and where they come from.
\<close>

datatype dest = UserDst uint64 | KernelDst uint64 | ObjectDst

datatype source = UserSrc uint64 | KernelSrc "uchar list"

definition either_copyout :: "dest \<Rightarrow> uchar list \<Rightarrow> 'a procs_scheme \<Rightarrow> exn + (int \<times> 'a procs_scheme)" where
  "either_copyout dst src s =
     (case dst of
        UserDst va \<Rightarrow> andthen (myproc s) (\<lambda>p. copyout (p_pagetable (pr s p)) va src s)
      | KernelDst pa \<Rightarrow> Inr (0, s\<lparr>mem := store_bytes pa src (mem s)\<rparr>)
      | ObjectDst \<Rightarrow> Inr (0, s))"

definition either_copyin :: "source \<Rightarrow> nat \<Rightarrow> 'a procs_scheme \<Rightarrow> exn + (int \<times> uchar list \<times> 'a procs_scheme)" where
  "either_copyin src n s =
     (case src of
        UserSrc va \<Rightarrow> andthen (myproc s) (\<lambda>p. copyin (p_pagetable (pr s p)) va n s)
      | KernelSrc bs \<Rightarrow> Inr (0, take n bs, s))"

text \<open>The next position of a copy in steps.\<close>

fun dest_add :: "dest \<Rightarrow> nat \<Rightarrow> dest" where
  "dest_add (UserDst a) n = UserDst (a + of_nat n)"
| "dest_add (KernelDst a) n = KernelDst (a + of_nat n)"
| "dest_add ObjectDst n = ObjectDst"

fun source_add :: "source \<Rightarrow> nat \<Rightarrow> source" where
  "source_add (UserSrc a) n = UserSrc (a + of_nat n)"
| "source_add (KernelSrc bs) n = KernelSrc (drop n bs)"

subsection \<open>What the routines do\<close>

lemma upd_proc_fields [simp]:
  "held (upd_proc i f s) = held s" "curproc (upd_proc i f s) = curproc s" "mem (upd_proc i f s) = mem s"
  "freelist (upd_proc i f s) = freelist s" "kend (upd_proc i f s) = kend s" "nextpid (upd_proc i f s) = nextpid s"
  "length (ptable (upd_proc i f s)) = length (ptable s)" "initproc (upd_proc i f s) = initproc s"
  by (simp_all add: upd_proc_def)

lemma pr_upd_proc: "i < length (ptable s) \<Longrightarrow> pr (upd_proc i f s) j = (if j = i then f (pr s i) else pr s j)"
  by (simp add: pr_def upd_proc_def)

lemma pr_held [simp]: "pr (s\<lparr>held := h\<rparr>) = pr s"
  by (simp add: pr_def fun_eq_iff)

lemma upd_proc_held [simp]: "upd_proc i f (s\<lparr>held := h\<rparr>) = (upd_proc i f s)\<lparr>held := h\<rparr>"
  by (simp add: upd_proc_def)

lemma held_twice [simp]: "(upd_proc i f s)\<lparr>held := held s\<rparr> = upd_proc i f s" "s\<lparr>held := held s\<rparr> = s"
  by (simp_all add: upd_proc_def)

text \<open>No lock of a process is held.\<close>

definition no_plock :: "'a procs_scheme \<Rightarrow> bool" where
  "no_plock s \<longleftrightarrow> (\<forall>p. ProcLock p \<notin> set (held s))"

lemma no_plock_upd [simp]: "no_plock (upd_proc i f s) = no_plock s"
  by (simp add: no_plock_def)

definition wake_entry :: "chan \<Rightarrow> nat option \<Rightarrow> nat \<Rightarrow> proc \<Rightarrow> proc" where
  "wake_entry ch c i q =
     (if c \<noteq> Some i \<and> p_state q = SLEEPING \<and> p_chan q = Some ch then q\<lparr>p_state := RUNNABLE\<rparr> else q)"

lemma fold_upd_proc:
  "fold (\<lambda>i s. upd_proc i (g i) s) is s = s\<lparr>ptable := fold (\<lambda>i xs. xs[i := g i (xs ! i)]) is (ptable s)\<rparr>"
  by (induction "is" arbitrary: s) (simp_all add: upd_proc_def)

lemma upd_proc_id: "f (pr s i) = pr s i \<Longrightarrow> upd_proc i f s = s"
  by (simp add: upd_proc_def pr_def)

lemma wakeup_eq:
  assumes "no_plock s" "length (ptable s) = NPROC"
  shows "wakeup ch s = Inr (s\<lparr>ptable := map (\<lambda>i. wake_entry ch (curproc s) i (ptable s ! i)) [0..<NPROC]\<rparr>)"
proof -
  let ?u = "\<lambda>i t. upd_proc i (wake_entry ch (curproc s) i) t"
  have "wakeup ch s = Inr (fold ?u [0..<NPROC] s) \<and> (no_plock (fold ?u [0..<NPROC] s) \<and> curproc (fold ?u [0..<NPROC] s) = curproc s)"
    unfolding wakeup_def
  proof (rule for_each_fold)
    fix i :: nat and t :: "'a procs_scheme"
    assume "no_plock t \<and> curproc t = curproc s"
    then have l: "ProcLock i \<notin> set (held t)" and c: "curproc t = curproc s" by (simp_all add: no_plock_def)
    have "upd_proc i (wake_entry ch (curproc s) i) t =
        (if curproc s \<noteq> Some i \<and> p_state (pr t i) = SLEEPING \<and> p_chan (pr t i) = Some ch
         then upd_proc i (\<lambda>q. q\<lparr>p_state := RUNNABLE\<rparr>) t else t)"
      by (auto simp: upd_proc_def wake_entry_def pr_def)
    with l c \<open>no_plock t \<and> curproc t = curproc s\<close>
    show "(if curproc t \<noteq> Some i
           then andthen (acquire (ProcLock i) t) (\<lambda>s. release (ProcLock i)
                  (if p_state (pr s i) = SLEEPING \<and> p_chan (pr s i) = Some ch
                   then upd_proc i (\<lambda>q. q\<lparr>p_state := RUNNABLE\<rparr>) s else s))
           else Inr t) = Inr (?u i t) \<and> no_plock (?u i t) \<and> curproc (?u i t) = curproc s"
      by (auto simp: lock_simps)
  qed (use assms(1) in simp)
  then show ?thesis using assms(2) by (simp add: fold_upd_proc fold_list_update)
qed

text \<open>
  C23: \<open>wakeup\<close> makes runnable exactly the processes, other than the caller, that sleep on the
  channel, and changes nothing else.
\<close>

theorem wakeup_correct:
  assumes "no_plock s" "length (ptable s) = NPROC" "i < NPROC"
  shows "returns (wakeup ch s) (\<lambda>t. t = s\<lparr>ptable := ptable t\<rparr> \<and>
     pr t i = (if p_state (pr s i) = SLEEPING \<and> p_chan (pr s i) = Some ch \<and> curproc s \<noteq> Some i
               then (pr s i)\<lparr>p_state := RUNNABLE\<rparr> else pr s i))"
  using assms(3) wakeup_eq [OF assms(1,2)] by (simp add: pr_def wake_entry_def)

text \<open>
  C22: going to sleep. A process that holds the lock it passes to \<open>sleep\<close> and no other gives it
  up and is asleep on the channel when it leaves the CPU, with only its own lock held; if it
  holds any other lock, the kernel panics instead of sleeping with it.
\<close>

theorem sleep_enter_correct:
  assumes "curproc s = Some p" "p < length (ptable s)" "no_plock s" "\<forall>i. lk \<noteq> ProcLock i"
    "lk \<in> set (held s)" "distinct (held s)"
  shows "if held s = [lk]
         then returns (sleep_enter ch lk s) (\<lambda>t. held t = [ProcLock p] \<and>
                pr t p = (pr s p)\<lparr>p_chan := Some ch, p_state := SLEEPING\<rparr> \<and> (\<forall>j \<noteq> p. pr t j = pr s j))
         else sleep_enter ch lk s = Inl (Panic ''sched locks'')"
proof -
  have l: "ProcLock p \<notin> set (held s)" "lk \<noteq> ProcLock p" using assms(3,4) by (auto simp: no_plock_def)
  have len: "length (ProcLock p # remove1 lk (held s)) = 1 \<longleftrightarrow> held s = [lk]"
    using assms(5,6) by (cases "held s"; cases "tl (held s)") auto
  show ?thesis
    using assms l len by (auto simp: sleep_enter_def sched_def myproc_def lock_simps holding_def
        pr_upd_proc Let_def)
qed

text \<open>A process with the given state and channel, and a machine with a table of such.\<close>

definition demo_proc :: "procstate \<Rightarrow> chan option \<Rightarrow> proc" where
  "demo_proc st ch = \<lparr>p_state = st, p_chan = ch, p_killed = 0, p_xstate = 0, p_pid = 7, p_parent = None,
    p_kstack = 0, p_sz = 0, p_pagetable = 0, p_trapframe = 0,
    p_context = \<lparr>c_ra = 0, c_sp = 0, c_s = []\<rparr>, p_ofile = [], p_cwd = None, p_name = []\<rparr>"

definition demo_procs :: "lock_id list \<Rightarrow> proc list \<Rightarrow> nat option \<Rightarrow> procs" where
  "demo_procs h tb c = \<lparr>held = h, mem = (\<lambda>_. 0), kend = 0x80001000, etext = 0, trampoline = 0, freelist = 0,
    kernel_pagetable = 0, satp = 0, ptable = tb, curproc = c, initproc = None, nextpid = 8, sym = (\<lambda>_. 0)\<rparr>"

lemma demo_procs_simps [simp]:
  "held (demo_procs h tb c) = h" "ptable (demo_procs h tb c) = tb" "curproc (demo_procs h tb c) = c"
  "pr (demo_procs h tb c) i = tb ! i" "no_plock (demo_procs h tb c) = (\<forall>p. ProcLock p \<notin> set h)"
  "nextpid (demo_procs h tb c) = 8"
  by (simp_all add: demo_procs_def pr_def no_plock_def)

theorem wakeup_correct_witness:
  "returns (wakeup ChanTicks (demo_procs [TicksLock]
      ((replicate NPROC (demo_proc SLEEPING (Some ChanTicks)))[3 := demo_proc SLEEPING (Some ChanLog)]) (Some 5)))
     (\<lambda>t. p_state (pr t 2) = RUNNABLE)"
  using wakeup_correct [of "demo_procs [TicksLock]
      ((replicate NPROC (demo_proc SLEEPING (Some ChanTicks)))[3 := demo_proc SLEEPING (Some ChanLog)]) (Some 5)" 2 ChanTicks]
  by (auto simp: demo_proc_def elim!: returns_mono)

theorem sleep_enter_correct_witness:
  "returns (sleep_enter ChanTicks TicksLock (demo_procs [TicksLock] (replicate NPROC (demo_proc RUNNING None)) (Some 1)))
     (\<lambda>t. held t = [ProcLock 1] \<and> p_state (pr t 1) = SLEEPING)"
  using sleep_enter_correct [of "demo_procs [TicksLock] (replicate NPROC (demo_proc RUNNING None)) (Some 1)" 1 TicksLock ChanTicks]
  by (auto elim!: returns_mono)

subsection \<open>Process identifiers\<close>

lemma mem_only_procs:
  assumes "mem_only s t"
  shows "ptable t = ptable s" "nextpid t = nextpid s" "curproc t = curproc s" "held t = held s" "pr t = pr s"
    "initproc t = initproc s" "sym t = sym s"
proof -
  obtain m f where t: "t = s\<lparr>mem := m, freelist := f\<rparr>" using assms by (auto simp: mem_only_def)
  show "ptable t = ptable s" "nextpid t = nextpid s" "curproc t = curproc s" "held t = held s" "pr t = pr s"
    "initproc t = initproc s" "sym t = sym s"
    unfolding t by (simp_all add: pr_def fun_eq_iff)
qed

lemma proc_pagetable_frame [mem_frame]: "proc_pagetable p s = Inr (pt, t) \<Longrightarrow> mem_only s t"
  by (auto simp: proc_pagetable_def andthen_eq_Inr split: if_splits
      dest!: uvmcreate_frame mappages_frame uvmunmap_frame uvmfree_frame) (blast intro: mem_only_trans)+

lemma proc_freepagetable_frame [mem_frame]: "proc_freepagetable pt sz s = Inr t \<Longrightarrow> mem_only s t"
  by (auto simp: proc_freepagetable_def andthen_eq_Inr dest!: uvmunmap_frame uvmfree_frame)
    (blast intro: mem_only_trans)

text \<open>An entry of the table as \<open>freeproc\<close> leaves it.\<close>

definition free_entry :: "proc \<Rightarrow> proc" where
  "free_entry q = q\<lparr>p_trapframe := 0, p_pagetable := 0, p_sz := 0, p_pid := 0, p_parent := None,
     p_name := (p_name q)[0 := 0], p_chan := None, p_killed := 0, p_xstate := 0, p_state := UNUSED\<rparr>"

lemma free_entry_UNUSED [simp]: "p_state (free_entry q) = UNUSED"
  by (simp add: free_entry_def)

lemma freeproc_frame:
  assumes "freeproc p s = Inr t"
  shows "ptable t = (ptable s)[p := free_entry (ptable s ! p)]" "nextpid t = nextpid s" "held t = held s"
proof -
  obtain u v where u: "(if p_trapframe (pr s p) \<noteq> 0 then kfree (p_trapframe (pr s p)) s else Inr s) = Inr u"
      "(if p_pagetable (pr (upd_proc p (\<lambda>q. q\<lparr>p_trapframe := 0\<rparr>) u) p) \<noteq> 0
        then proc_freepagetable (p_pagetable (pr (upd_proc p (\<lambda>q. q\<lparr>p_trapframe := 0\<rparr>) u) p))
               (p_sz (pr (upd_proc p (\<lambda>q. q\<lparr>p_trapframe := 0\<rparr>) u) p)) (upd_proc p (\<lambda>q. q\<lparr>p_trapframe := 0\<rparr>) u)
        else Inr (upd_proc p (\<lambda>q. q\<lparr>p_trapframe := 0\<rparr>) u)) = Inr v"
      "t = upd_proc p (\<lambda>q. q\<lparr>p_pagetable := 0, p_sz := 0, p_pid := 0, p_parent := None,
            p_name := (p_name q)[0 := 0], p_chan := None, p_killed := 0, p_xstate := 0, p_state := UNUSED\<rparr>) v"
    using assms unfolding freeproc_def by (auto simp: andthen_eq_Inr Let_def)
  have su: "mem_only s u" using u(1) by (auto split: if_splits dest: kfree_frame)
  have "mem_only (upd_proc p (\<lambda>q. q\<lparr>p_trapframe := 0\<rparr>) u) v"
    using u(2) by (auto split: if_splits dest: proc_freepagetable_frame)
  note f = mem_only_procs [OF su] mem_only_procs [OF this]
  show "ptable t = (ptable s)[p := free_entry (ptable s ! p)]"
    unfolding u(3) by (cases "p < length (ptable s)") (simp_all add: upd_proc_def f free_entry_def not_less list_update_beyond)
  show "nextpid t = nextpid s" "held t = held s" unfolding u(3) by (simp_all add: f)
qed

lemma allocproc_scan_spec:
  "allocproc_scan ps s = Inr (r, t) \<Longrightarrow>
   r = find (\<lambda>p. p_state (pr s p) = UNUSED) ps \<and>
   (case r of None \<Rightarrow> t = s
    | Some p \<Rightarrow> p \<in> set ps \<and> p_state (pr s p) = UNUSED \<and> t = s\<lparr>held := ProcLock p # held s\<rparr>)"
proof (induction ps arbitrary: s)
  case (Cons p ps)
  have l: "ProcLock p \<notin> set (held s)"
    using Cons.prems by (auto simp: acquire_def holding_def split: if_splits)
  from Cons.prems have "(if p_state (pr s p) = UNUSED then Inr (Some p, s\<lparr>held := ProcLock p # held s\<rparr>)
      else allocproc_scan ps s) = Inr (r, t)" by (simp add: acquire_free [OF l] lock_simps split: if_splits)
  then show ?case using Cons.IH [of s] by (auto split: if_splits option.splits)
qed simp

lemma allocpid_spec: "allocpid s = Inr (pid, t) \<Longrightarrow> pid = nextpid s \<and> t = s\<lparr>nextpid := int32 (nextpid s + 1)\<rparr>"
  by (auto simp: allocpid_def andthen_eq_Inr acquire_def release_def holding_def Let_def split: if_splits)

lemma int32_id: "- (2 ^ 31) \<le> n \<Longrightarrow> n < 2 ^ 31 \<Longrightarrow> int32 n = n"
  by (simp add: int32_def signed_of_int signed_take_bit_int_eq_self)

definition pids_ok :: "'a procs_scheme \<Rightarrow> bool" where
  "pids_ok s \<longleftrightarrow> length (ptable s) = NPROC \<and>
     (\<forall>i < NPROC. p_state (pr s i) \<noteq> UNUSED \<longrightarrow> p_pid (pr s i) < nextpid s) \<and>
     (\<forall>i < NPROC. \<forall>j < NPROC. i \<noteq> j \<longrightarrow> p_state (pr s i) \<noteq> UNUSED \<longrightarrow> p_state (pr s j) \<noteq> UNUSED \<longrightarrow>
        p_pid (pr s i) \<noteq> p_pid (pr s j))"

lemma pids_ok_write:
  assumes "pids_ok s" "p < NPROC" "ptable t = (ptable s)[p := e]" "nextpid t = nextpid s + 1"
    "p_state e = UNUSED \<or> p_pid e = nextpid s"
  shows "pids_ok t"
proof -
  have pr: "pr t i = (if i = p then e else pr s i)" for i
    using assms(1-3) by (simp add: pids_ok_def pr_def)
  have s: "length (ptable s) = NPROC" "\<And>i. i < NPROC \<Longrightarrow> p_state (pr s i) \<noteq> UNUSED \<Longrightarrow> p_pid (pr s i) < nextpid s"
    "\<And>i j. i < NPROC \<Longrightarrow> j < NPROC \<Longrightarrow> i \<noteq> j \<Longrightarrow> p_state (pr s i) \<noteq> UNUSED \<Longrightarrow> p_state (pr s j) \<noteq> UNUSED \<Longrightarrow>
        p_pid (pr s i) \<noteq> p_pid (pr s j)"
    using assms(1) by (simp_all add: pids_ok_def)
  have "p_pid (pr t i) < nextpid t" if "i < NPROC" "p_state (pr t i) \<noteq> UNUSED" for i
    using s(2) [of i] assms(4,5) that by (auto simp: pr split: if_splits)
  moreover have "p_pid (pr t i) \<noteq> p_pid (pr t j)"
    if "i < NPROC" "j < NPROC" "i \<noteq> j" "p_state (pr t i) \<noteq> UNUSED" "p_state (pr t j) \<noteq> UNUSED" for i j
    using s(2) [of i] s(2) [of j] s(3) [of i j] assms(5) that by (auto simp: pr split: if_splits)
  ultimately show ?thesis using s(1) assms(3) by (simp add: pids_ok_def)
qed

lemma allocproc_write:
  assumes "length (ptable s) = NPROC" "allocproc s = Inr (r, t)"
  shows "r = None \<and> t = s \<or>
    (\<exists>p e. p < NPROC \<and> p_state (pr s p) = UNUSED \<and> ptable t = (ptable s)[p := e] \<and> nextpid t = int32 (nextpid s + 1) \<and>
       (r = None \<and> p_state e = UNUSED \<and> held t = held s \<or>
        r = Some p \<and> p_state e = USED \<and> p_pid e = nextpid s \<and> p_trapframe e \<noteq> 0 \<and> p_pagetable e \<noteq> 0 \<and>
        p_killed e = p_killed (pr s p) \<and> find (\<lambda>p. p_state (pr s p) = UNUSED) [0..<NPROC] = Some p \<and>
        held t = ProcLock p # held s))"
proof -
  obtain r0 s0 where s0: "allocproc_scan [0..<NPROC] s = Inr (r0, s0)"
    using assms(2) by (auto simp: allocproc_def andthen_eq_Inr)
  note sc = allocproc_scan_spec [OF s0]
  show ?thesis
  proof (cases r0)
    case None
    then show ?thesis using conjunct2 [OF sc] s0 assms(2) by (simp add: allocproc_def)
  next
    case (Some p)
    then have p: "p < NPROC" "p_state (pr s p) = UNUSED" "s0 = s\<lparr>held := ProcLock p # held s\<rparr>"
        "find (\<lambda>p. p_state (pr s p) = UNUSED) [0..<NPROC] = Some p"
      using conjunct2 [OF sc] conjunct1 [OF sc, symmetric] by (simp_all del: upt_rec_numeral)
    define s1 where "s1 = upd_proc p (\<lambda>q. q\<lparr>p_state := USED\<rparr>)
      (upd_proc p (\<lambda>q. q\<lparr>p_pid := nextpid s\<rparr>) (s0\<lparr>nextpid := int32 (nextpid s + 1)\<rparr>))"
    define e1 where "e1 = (ptable s ! p)\<lparr>p_pid := nextpid s, p_state := USED\<rparr>"
    have s1: "ptable s1 = (ptable s)[p := e1]" "nextpid s1 = int32 (nextpid s + 1)" "held s1 = ProcLock p # held s"
      using p(1,3) assms(1) by (simp_all add: s1_def e1_def upd_proc_def)
    obtain pid u where "allocpid s0 = Inr (pid, u)"
      using assms(2) s0 Some by (auto simp: allocproc_def andthen_eq_Inr)
    with allocpid_spec [OF this] have ap: "allocpid s0 = Inr (nextpid s, s0\<lparr>nextpid := int32 (nextpid s + 1)\<rparr>)"
      using p(3) by simp
    note ap' = assms(2) [unfolded allocproc_def, unfolded s0 Some, simplified, unfolded ap, simplified, folded s1_def]
    obtain tf s2 where s2: "kalloc s1 = Inr (tf, s2)"
      using ap' by (auto simp: andthen_eq_Inr Let_def s1_def)
    note f2 = mem_only_procs [OF kalloc_frame [OF s2]]
    define s3 where "s3 = upd_proc p (\<lambda>q. q\<lparr>p_trapframe := tf\<rparr>) s2"
    have s3: "ptable s3 = (ptable s)[p := e1\<lparr>p_trapframe := tf\<rparr>]" "nextpid s3 = int32 (nextpid s + 1)"
        "held s3 = ProcLock p # held s"
      using p(1) assms(1) f2 s1 by (simp_all add: s3_def upd_proc_def)
    show ?thesis
    proof (cases "tf = 0")
      case True
      then obtain s4 where s4: "freeproc p s3 = Inr s4" "release (ProcLock p) s4 = Inr t" "r = None"
        using ap' s2 by (auto simp: andthen_eq_Inr Let_def s3_def s1_def)
      note f4 = freeproc_frame [OF s4(1)]
      have "t = s4\<lparr>held := held s\<rparr>" using s4(2) f4 s3 by (simp add: release_top)
      then show ?thesis using p(1,2) f4 s3 s4(3)
        by (intro disjI2 exI [of _ p] exI [of _ "free_entry (ptable s3 ! p)"]) simp
    next
      case tf: False
      then obtain pt s4 where s4: "proc_pagetable p s3 = Inr (pt, s4)"
        using ap' s2 by (auto simp: andthen_eq_Inr Let_def s3_def s1_def split: if_splits)
      note f4 = mem_only_procs [OF proc_pagetable_frame [OF s4]]
      define s5 where "s5 = upd_proc p (\<lambda>q. q\<lparr>p_pagetable := pt\<rparr>) s4"
      have s5: "ptable s5 = (ptable s)[p := e1\<lparr>p_trapframe := tf, p_pagetable := pt\<rparr>]" "nextpid s5 = int32 (nextpid s + 1)"
          "held s5 = ProcLock p # held s"
        using p(1) assms(1) f4 s3 by (simp_all add: s5_def upd_proc_def)
      show ?thesis
      proof (cases "pt = 0")
        case True
        then obtain s6 where s6: "freeproc p s5 = Inr s6" "release (ProcLock p) s6 = Inr t" "r = None"
          using ap' s2 tf s4 by (auto simp: andthen_eq_Inr Let_def s1_def s3_def s5_def)
        note f6 = freeproc_frame [OF s6(1)]
        have "t = s6\<lparr>held := held s\<rparr>" using s6(2) f6 s5 by (simp add: release_top)
        then show ?thesis using p(1,2) f6 s5 s6(3)
          by (intro disjI2 exI [of _ p] exI [of _ "free_entry (ptable s5 ! p)"]) simp
      next
        case False
        then have "r = Some p" "t = upd_proc p (\<lambda>q. q\<lparr>p_context :=
            \<lparr>c_ra = sym s5 ''forkret'', c_sp = p_kstack q + PGSIZE, c_s = replicate 12 0\<rparr>\<rparr>) s5"
          using ap' s2 tf s4 by (auto simp: andthen_eq_Inr Let_def s1_def s3_def s5_def)
        then show ?thesis using p(1,2,4) s5 assms(1) tf False
          by (intro disjI2 exI [of _ p] exI [of _ "ptable t ! p"]) (simp add: upd_proc_def e1_def pr_def)
      qed
    qed
  qed
qed

lemma mappages_one:
  assumes ok: "pt_ok 2 s pt ps" "KmemLock \<notin> set (held s)" and va: "page_aligned va" "unat va + 4096 \<le> unat MAXVA"
    and nv: "\<And>vb. PGROUNDDOWN vb = va \<Longrightarrow> \<not> pte_valid (leaf 2 (mem s) pt vb)" and len: "2 \<le> length ps"
  shows "\<exists>t ts qs. mappages pt va PGSIZE pa perm s = Inr (0, t) \<and> ps = ts @ qs \<and> length ts \<le> 2 \<and> pt_ok 2 t pt qs \<and>
     mem_only s t \<and> (\<forall>vb < MAXVA. PGROUNDDOWN vb \<noteq> va \<longrightarrow> leaf 2 (mem t) pt vb = leaf 2 (mem s) pt vb)"
proof -
  have n: "npages_of va PGSIZE = 1"
    using va(1) by (auto simp: npages_of_def page_aligned_def mod_eq_0_iff_dvd)
  have nv': "\<not> pte_valid (leaf 2 (mem s) pt vb)" if "unat vb div 4096 = unat va div 4096" for vb
    using that PGROUNDDOWN_aligned [OF va(1)] by (intro nv) (simp add: word_unat_eq_iff unat_PGROUNDDOWN)
  have "returns (mappages pt va PGSIZE pa perm s) (mappages_post pt (PGROUNDDOWN va) (npages_of va PGSIZE) pa perm s ps)"
    using va(2) n nv' by (intro mappages_spec [OF ok]) (auto simp: le_less_Suc_eq)
  then obtain c t where "mappages pt va PGSIZE pa perm s = Inr (c, t)" "mappages_post pt va 1 pa perm s ps (c, t)"
    unfolding n PGROUNDDOWN_aligned [OF va(1)] returns_iff by auto
  then obtain ts qs k where m: "mappages pt va PGSIZE pa perm s = Inr (c, t)" "ps = ts @ qs" "length ts \<le> 2"
      "pt_upd pt s ts t qs (map_range va k pa perm (leaf 2 (mem s) pt))"
      "c = 0 \<and> k = 1 \<or> qs = [] \<and> length ts < 2"
    unfolding mappages_post_def prod.case mult_1_right by blast
  then have c: "c = 0" "k = 1" using len by auto
  have "leaf 2 (mem t) pt vb = leaf 2 (mem s) pt vb" if "vb < MAXVA" "PGROUNDDOWN vb \<noteq> va" for vb
    using m(4) that by (simp add: c pt_upd_def map_range_one [OF va(1), unfolded One_nat_def])
  then show ?thesis
    using m(1-4) unfolding c by (intro exI [of _ t] exI [of _ ts] exI [of _ qs]) (simp add: pt_upd_def)
qed

lemma proc_pagetable_succeeds:
  assumes "free_list s ps" "5 \<le> length ps" "KmemLock \<notin> set (held s)"
  shows "\<exists>pt t. proc_pagetable p s = Inr (pt, t) \<and> pt \<noteq> 0"
proof -
  obtain q qs where ps: "ps = q # qs" "4 \<le> length qs" using assms(2) by (cases ps) auto
  define u where "u = s\<lparr>freelist := load64 (mem s) q, mem := memset q 0 4096 (memset q 5 4096 (mem s))\<rparr>"
  have q: "page_aligned q" "q \<noteq> 0" "q \<notin> set qs" "ram_page s q"
    using assms(1) ram_page_nonzero [of s q] by (auto simp: ps free_list_def ram_page_def)
  have z: "PGROUNDDOWN x = q \<Longrightarrow> mem u x = 0" for x using q(1) by (simp add: u_def memset_page)
  note pz = pt_zero [OF q(1) z]
  have "free_list u qs"
    using free_list_memset [OF free_list_kalloc [OF assms(1) [unfolded ps(1)]] q(1,3)] by (simp add: u_def)
  then have ok: "pt_ok 2 u q qs" using pz(1,2) q(3,4) by (simp add: pt_ok_def u_def ram_page_def)
  have uc: "uvmcreate s = Inr (q, u)"
    using q(2) kalloc_page [OF assms(1) [unfolded ps(1)] assms(3)] by (simp add: uvmcreate_def u_def)
  have l: "KmemLock \<notin> set (held u)" using assms(3) by (simp add: u_def)
  have "page_aligned TRAMPOLINE" "unat TRAMPOLINE + 4096 \<le> unat MAXVA"
    "page_aligned TRAPFRAME" "unat TRAPFRAME + 4096 \<le> unat MAXVA" "TRAMPOLINE \<noteq> TRAPFRAME"
    by (simp_all add: page_aligned_def)
  note va = this
  obtain v ts rs where v: "mappages q TRAMPOLINE PGSIZE (trampoline u) (PTE_R OR PTE_X) u = Inr (0, v)"
      "qs = ts @ rs" "length ts \<le> 2" "pt_ok 2 v q rs" "mem_only u v"
      "\<forall>vb < MAXVA. PGROUNDDOWN vb \<noteq> TRAMPOLINE \<longrightarrow> leaf 2 (mem v) q vb = leaf 2 (mem u) q vb"
    using mappages_one [OF ok l va(1,2), of "trampoline u" "PTE_R OR PTE_X"] pz(3) ps(2) by auto
  have lv: "KmemLock \<notin> set (held v)" using l mem_only_fields(1) [OF v(5)] by simp
  have nv: "\<not> pte_valid (leaf 2 (mem v) q vb)" if vb: "PGROUNDDOWN vb = TRAPFRAME" for vb
  proof -
    have "vb < MAXVA" using vb in_page_unat [OF va(3), of vb] va(4) by (simp add: word_less_nat_alt)
    then show ?thesis using v(6) vb va(5) pz(3) by simp
  qed
  obtain w where "mappages q TRAPFRAME PGSIZE (p_trapframe (pr v p)) (PTE_R OR PTE_W) v = Inr (0, w)"
    using mappages_one [OF v(4) lv va(3,4) nv, of "p_trapframe (pr v p)" "PTE_R OR PTE_W"] v(2,3) ps(2) by auto
  then have "proc_pagetable p s = Inr (q, w)"
    using q(2) v(1) unfolding proc_pagetable_def uc by simp
  then show ?thesis using q(2) by blast
qed

lemma allocproc_scan_find:
  "no_plock s \<Longrightarrow> allocproc_scan ps s =
     (case find (\<lambda>p. p_state (pr s p) = UNUSED) ps of
        None \<Rightarrow> Inr (None, s) | Some p \<Rightarrow> Inr (Some p, s\<lparr>held := ProcLock p # held s\<rparr>))"
  by (induction ps) (auto simp: no_plock_def lock_simps)

lemma allocproc_succeeds:
  assumes "free_list s ps" "6 \<le> length ps" "no_plock s" "PidLock \<notin> set (held s)" "KmemLock \<notin> set (held s)"
    and p: "find (\<lambda>p. p_state (pr s p) = UNUSED) [0..<NPROC] = Some p"
  shows "\<exists>t. allocproc s = Inr (Some p, t)"
proof -
  obtain q qs where ps: "ps = q # qs" "5 \<le> length qs" using assms(2) by (cases ps) auto
  define u where "u = upd_proc p (\<lambda>q. q\<lparr>p_state := USED\<rparr>) (upd_proc p (\<lambda>q. q\<lparr>p_pid := nextpid s\<rparr>)
    (s\<lparr>held := ProcLock p # held s, nextpid := int32 (nextpid s + 1)\<rparr>))"
  have fu: "free_list u (q # qs)" "KmemLock \<notin> set (held u)"
    using assms(1,5) by (auto simp: u_def ps(1) upd_proc_def free_list_def ram_page_def)
  define v where "v = u\<lparr>freelist := load64 (mem u) q, mem := memset q 5 4096 (mem u)\<rparr>"
  have ka: "kalloc u = Inr (q, v)" using kalloc_page [OF fu] by (simp add: v_def)
  have q: "q \<noteq> 0" using fu(1) ram_page_nonzero [of u q] by (auto simp: free_list_def)
  define w where "w = upd_proc p (\<lambda>e. e\<lparr>p_trapframe := q\<rparr>) v"
  have "free_list v qs" using free_list_kalloc [OF fu(1)] by (simp add: v_def)
  then have "free_list w qs" "KmemLock \<notin> set (held w)"
    using fu(2) by (auto simp: w_def v_def upd_proc_def free_list_def ram_page_def)
  then obtain pt x where pp: "proc_pagetable p w = Inr (pt, x)" "pt \<noteq> 0"
    using proc_pagetable_succeeds [OF _ ps(2)] by blast
  have "allocpid (s\<lparr>held := ProcLock p # held s\<rparr>) =
      Inr (nextpid s, s\<lparr>held := ProcLock p # held s, nextpid := int32 (nextpid s + 1)\<rparr>)"
    using assms(4) by (simp add: allocpid_def lock_simps)
  then show ?thesis
    unfolding allocproc_def allocproc_scan_find [OF assms(3)] p
    using q pp by (simp add: u_def [symmetric] ka w_def [symmetric] Let_def)
qed

text \<open>
  C21: process identifiers. When the identifiers of the processes in use are distinct and below
  \<^verbatim>\<open>nextpid\<close>, which is positive and below the largest \<^verbatim>\<open>int\<close>, they still are after
  \<open>allocproc\<close> returned. A process it returns is the first unused one; it has the fresh
  identifier \<^verbatim>\<open>nextpid\<close>, state \<open>USED\<close>, a trap frame and a page table, its lock is held, and
  no other entry changed. With an unused entry and six pages of free memory it does return one.
\<close>

theorem allocproc_pids:
  assumes "pids_ok s" "0 < nextpid s" "nextpid s < 2 ^ 31 - 1"
  shows "(\<forall>r t. allocproc s = Inr (r, t) \<longrightarrow> pids_ok t \<and> nextpid s \<le> nextpid t \<and> nextpid t < 2 ^ 31 \<and>
      (case r of
         None \<Rightarrow> held t = held s
       | Some p \<Rightarrow> p < NPROC \<and> p_state (pr s p) = UNUSED \<and> (\<forall>i < p. p_state (pr s i) \<noteq> UNUSED) \<and>
           p_state (pr t p) = USED \<and> p_pid (pr t p) = nextpid s \<and> nextpid t = nextpid s + 1 \<and>
           held t = ProcLock p # held s \<and> p_trapframe (pr t p) \<noteq> 0 \<and> p_pagetable (pr t p) \<noteq> 0 \<and>
           (\<forall>i < NPROC. i \<noteq> p \<longrightarrow> pr t i = pr s i))) \<and>
    (\<forall>ps. free_list s ps \<and> 6 \<le> length ps \<and> no_plock s \<and> PidLock \<notin> set (held s) \<and> KmemLock \<notin> set (held s) \<and>
       (\<exists>p < NPROC. p_state (pr s p) = UNUSED) \<longrightarrow> (\<exists>p t. allocproc s = Inr (Some p, t)))"
proof (intro conjI allI impI)
  have l: "length (ptable s) = NPROC" using assms(1) by (simp add: pids_ok_def)
  have n: "int32 (nextpid s + 1) = nextpid s + 1" using assms(2,3) by (intro int32_id) simp_all
  fix r t
  assume a: "allocproc s = Inr (r, t)"
  from allocproc_write [OF l a, unfolded n] show "pids_ok t"
    using assms(1) by (auto intro: pids_ok_write [OF assms(1)])
  from allocproc_write [OF l a, unfolded n] show "nextpid s \<le> nextpid t" "nextpid t < 2 ^ 31"
    using assms(3) by auto
  from allocproc_write [OF l a, unfolded n] show "case r of
         None \<Rightarrow> held t = held s
       | Some p \<Rightarrow> p < NPROC \<and> p_state (pr s p) = UNUSED \<and> (\<forall>i < p. p_state (pr s i) \<noteq> UNUSED) \<and>
           p_state (pr t p) = USED \<and> p_pid (pr t p) = nextpid s \<and> nextpid t = nextpid s + 1 \<and>
           held t = ProcLock p # held s \<and> p_trapframe (pr t p) \<noteq> 0 \<and> p_pagetable (pr t p) \<noteq> 0 \<and>
           (\<forall>i < NPROC. i \<noteq> p \<longrightarrow> pr t i = pr s i)"
  proof (elim disjE exE conjE)
    fix p e
    assume h: "r = Some p" "p < NPROC" "p_state (pr s p) = UNUSED" "ptable t = (ptable s)[p := e]"
      "nextpid t = nextpid s + 1" "p_state e = USED" "p_pid e = nextpid s" "p_trapframe e \<noteq> 0" "p_pagetable e \<noteq> 0"
      "held t = ProcLock p # held s" "find (\<lambda>p. p_state (pr s p) = UNUSED) [0..<NPROC] = Some p"
    have "\<forall>i < p. p_state (pr s i) \<noteq> UNUSED"
      using h(11) by (auto simp: find_Some_iff simp del: upt_rec_numeral)
    then show ?thesis using h l by (simp add: pr_def)
  qed simp_all
next
  fix ps
  assume h: "free_list s ps \<and> 6 \<le> length ps \<and> no_plock s \<and> PidLock \<notin> set (held s) \<and> KmemLock \<notin> set (held s) \<and>
       (\<exists>p < NPROC. p_state (pr s p) = UNUSED)"
  then obtain p where "find (\<lambda>p. p_state (pr s p) = UNUSED) [0..<NPROC] = Some p"
    by (cases "find (\<lambda>p. p_state (pr s p) = UNUSED) [0..<NPROC]") (auto simp: find_None_iff simp del: upt_rec_numeral)
  with h show "\<exists>p t. allocproc s = Inr (Some p, t)" using allocproc_succeeds by blast
qed

text \<open>Six free pages, linked through their first words.\<close>

definition demo_free_mem :: memory where
  "demo_free_mem = store64 (slot 0x80001000 0) 0x80002000 (store64 (slot 0x80002000 0) 0x80003000
     (store64 (slot 0x80003000 0) 0x80004000 (store64 (slot 0x80004000 0) 0x80005000
     (store64 (slot 0x80005000 0) 0x80006000 (\<lambda>_. 0)))))"

lemma demo_free_entry:
  assumes "page_aligned p"
  shows "load64 demo_free_mem p =
     (if p = 0x80001000 then 0x80002000 else if p = 0x80002000 then 0x80003000 else if p = 0x80003000 then 0x80004000
      else if p = 0x80004000 then 0x80005000 else if p = 0x80005000 then 0x80006000 else 0)"
proof -
  have al: "page_aligned 0x80001000" "page_aligned 0x80002000" "page_aligned 0x80003000" "page_aligned 0x80004000"
    "page_aligned 0x80005000" by (simp_all add: page_aligned_def)
  have z: "entry (\<lambda>_. 0) p 0 = 0" by (simp add: entry_def load64_def)
  have "load64 demo_free_mem p = entry demo_free_mem p 0" by (simp add: entry_def slot_def)
  then show ?thesis unfolding demo_free_mem_def using assms al z by (simp add: entry_store)
qed

theorem allocproc_pids_witness:
  "\<exists>t. allocproc ((demo_procs [] (replicate NPROC (demo_proc UNUSED None)) None)
        \<lparr>mem := demo_free_mem, freelist := 0x80001000\<rparr>) = Inr (Some 0, t) \<and> p_pid (pr t 0) = 8 \<and>
     nextpid t = 9 \<and> p_state (pr t 0) = USED \<and> held t = [ProcLock 0]"
proof -
  define s where "s = (demo_procs [] (replicate NPROC (demo_proc UNUSED None)) None)\<lparr>mem := demo_free_mem, freelist := 0x80001000\<rparr>"
  let ?ps = "[0x80001000, 0x80002000, 0x80003000, 0x80004000, 0x80005000, 0x80006000]"
  have st: "p_state (pr s i) = UNUSED" if "i < NPROC" for i
    using that by (simp add: s_def pr_def demo_procs_def demo_proc_def)
  have l: "length (ptable s) = NPROC" "held s = []" "nextpid s = 8" by (simp_all add: s_def)
  have ok: "pids_ok s" using l by (simp add: pids_ok_def st)
  have n: "0 < nextpid s" "nextpid s < 2 ^ 31 - 1" using l by simp_all
  have "free_list s ?ps"
    unfolding free_list_def by (simp add: s_def demo_procs_def demo_free_entry ram_page_def page_aligned_def)
  moreover have "6 \<le> length ?ps" "no_plock s" "PidLock \<notin> set (held s)" "KmemLock \<notin> set (held s)"
    using l(2) by (simp_all add: no_plock_def)
  moreover have "\<exists>p < NPROC. p_state (pr s p) = UNUSED" using st [of 0] by (intro exI [of _ 0]) simp
  ultimately have "\<exists>p t. allocproc s = Inr (Some p, t)" using allocproc_pids [OF ok n] by blast
  then obtain p t where t: "allocproc s = Inr (Some p, t)" by blast
  with allocproc_pids [OF ok n] have c: "p < NPROC" "\<forall>i < p. p_state (pr s i) \<noteq> UNUSED" "p_state (pr t p) = USED"
      "p_pid (pr t p) = nextpid s" "nextpid t = nextpid s + 1" "held t = ProcLock p # held s"
    by fastforce+
  have "p = 0" using c(1,2) st [of 0] by auto
  then show ?thesis using t c l unfolding s_def [symmetric] by simp
qed

subsection \<open>\<open>kill\<close>\<close>

lemma kill_scan_eq:
  "no_plock s \<Longrightarrow> kill_scan pid ps s =
     (case find (\<lambda>p. p_pid (pr s p) = pid) ps of
        None \<Rightarrow> Inr (- 1, s)
      | Some p \<Rightarrow> Inr (0, upd_proc p (\<lambda>q. q\<lparr>p_killed := 1, p_state := if p_state q = SLEEPING then RUNNABLE else p_state q\<rparr>) s))"
proof (induction ps)
  case (Cons p ps)
  then have l: "ProcLock p \<notin> set (held s)" by (simp add: no_plock_def)
  show ?case
  proof (cases "p_pid (pr s p) = pid")
    case True
    then show ?thesis
      using l by (cases "p < length (ptable s)") (auto simp: lock_simps Let_def upd_proc_def pr_def list_update_beyond not_less)
  next
    case False
    then show ?thesis using l Cons.IH Cons.prems by (simp add: lock_simps)
  qed
qed simp

text \<open>
  \<open>kill\<close> marks the first process with the given identifier as killed and wakes it if it
  sleeps; it returns -1 and changes nothing when there is no such process.
\<close>

lemma kill_correct:
  assumes "no_plock s"
  shows "kill pid s =
     (case find (\<lambda>p. p_pid (pr s p) = pid) [0..<NPROC] of
        None \<Rightarrow> Inr (- 1, s)
      | Some p \<Rightarrow> Inr (0, upd_proc p (\<lambda>q. q\<lparr>p_killed := 1, p_state := if p_state q = SLEEPING then RUNNABLE else p_state q\<rparr>) s))"
  unfolding kill_def using assms by (rule kill_scan_eq)

text \<open>
  C33: \<open>kill(0)\<close> reaches a process that does not exist yet. Unused entries have identifier 0, so
  that \<open>kill(0)\<close> succeeds, marks the first of them as killed, and the process that
  \<open>allocproc\<close> next makes of this entry is born killed.
\<close>

theorem kill_zero_hits_next_process:
  assumes "no_plock s" "length (ptable s) = NPROC" "\<forall>j < NPROC. p_state (pr s j) = UNUSED \<longleftrightarrow> p_pid (pr s j) = 0"
    "i < NPROC" "p_state (pr s i) = UNUSED"
  shows "returns (kill 0 s) (\<lambda>(r, t). r = 0 \<and>
     (\<forall>p u. allocproc t = Inr (Some p, u) \<longrightarrow> p_state (pr u p) = USED \<and> p_killed (pr u p) = 1))"
proof -
  have same: "find (\<lambda>p. p_pid (pr s p) = 0) [0..<NPROC] = find (\<lambda>p. p_state (pr s p) = UNUSED) [0..<NPROC]"
    using assms(3) by (intro find_cong refl) (simp del: upt_rec_numeral)
  have "find (\<lambda>p. p_state (pr s p) = UNUSED) [0..<NPROC] \<noteq> None"
    using assms(4,5) by (auto simp: find_None_iff simp del: upt_rec_numeral)
  then obtain k where k: "find (\<lambda>p. p_state (pr s p) = UNUSED) [0..<NPROC] = Some k" by blast
  then have ks: "k < NPROC" "p_state (pr s k) = UNUSED" by (auto simp: find_Some_iff simp del: upt_rec_numeral)
  define t where "t = upd_proc k (\<lambda>q. q\<lparr>p_killed := 1, p_state := if p_state q = SLEEPING then RUNNABLE else p_state q\<rparr>) s"
  have t: "kill 0 s = Inr (0, t)"
    unfolding kill_def kill_scan_eq [OF assms(1)] same k t_def by simp
  have prt: "pr t j = (if j = k then (pr s k)\<lparr>p_killed := 1\<rparr> else pr s j)" for j
    using ks assms(2) by (simp add: t_def pr_upd_proc)
  have "(\<lambda>p. p_state (pr t p) = UNUSED) = (\<lambda>p. p_state (pr s p) = UNUSED)" by (rule ext) (simp add: prt)
  then have "find (\<lambda>p. p_state (pr t p) = UNUSED) [0..<NPROC] = Some k" using k by (simp only:)
  moreover have "length (ptable t) = NPROC" using assms(2) by (simp add: t_def)
  ultimately show ?thesis
    using allocproc_write [of t] t prt by (fastforce simp: pr_def)
qed

theorem kill_zero_hits_next_process_witness:
  "returns (kill 0 (demo_procs [] (replicate NPROC ((demo_proc UNUSED None)\<lparr>p_pid := 0\<rparr>)) None)) (\<lambda>(r, t). r = 0 \<and>
     (\<forall>p u. allocproc t = Inr (Some p, u) \<longrightarrow> p_killed (pr u p) = 1))"
  using kill_zero_hits_next_process [of "demo_procs [] (replicate NPROC ((demo_proc UNUSED None)\<lparr>p_pid := 0\<rparr>)) None" 0]
  by (auto simp: demo_proc_def elim!: returns_mono)

end
