(* ===== verification/Sleeplock.thy ===== *)
theory Sleeplock
  imports Proc
begin

section \<open>Sleep locks\<close>

text \<open>
  \<^verbatim>\<open>kernel/sleeplock.c\<close>. The sleep locks of the buffers and of the inodes are one map
  from their names to \<^verbatim>\<open>struct sleeplock\<close>. A process that finds a lock taken goes to
  sleep, which ends the routine with \<open>Sleeping\<close>.
\<close>

record sleeplock =
  sl_locked :: uint
  sl_pid :: int

record slocks = procs +
  slk :: "sleep_id \<Rightarrow> sleeplock"

definition upd_slk :: "sleep_id \<Rightarrow> (sleeplock \<Rightarrow> sleeplock) \<Rightarrow> 'a slocks_scheme \<Rightarrow> 'a slocks_scheme" where
  "upd_slk l f s = s\<lparr>slk := (slk s)(l := f (slk s l))\<rparr>"

definition initsleeplock :: "sleep_id \<Rightarrow> 'a slocks_scheme \<Rightarrow> 'a slocks_scheme" where
  "initsleeplock l s = upd_slk l (\<lambda>k. k\<lparr>sl_locked := 0, sl_pid := 0\<rparr>) s"

definition acquiresleep :: "sleep_id \<Rightarrow> 'a slocks_scheme \<Rightarrow> exn + 'a slocks_scheme" where
  "acquiresleep l s =
     andthen (acquire (SleepLk l) s) (\<lambda>s.
     if sl_locked (slk s l) \<noteq> 0 then sleep (ChanSleeplock l) (SleepLk l) s
     else let s = upd_slk l (\<lambda>k. k\<lparr>sl_locked := 1\<rparr>) s in
       andthen (myproc s) (\<lambda>p.
       let s = upd_slk l (\<lambda>k. k\<lparr>sl_pid := p_pid (pr s p)\<rparr>) s
       in release (SleepLk l) s))"

definition releasesleep :: "sleep_id \<Rightarrow> 'a slocks_scheme \<Rightarrow> exn + 'a slocks_scheme" where
  "releasesleep l s =
     andthen (acquire (SleepLk l) s) (\<lambda>s.
     let s = upd_slk l (\<lambda>k. k\<lparr>sl_locked := 0\<rparr>) s;
         s = upd_slk l (\<lambda>k. k\<lparr>sl_pid := 0\<rparr>) s in
     andthen (wakeup (ChanSleeplock l) s) (\<lambda>s.
     release (SleepLk l) s))"

definition holdingsleep :: "sleep_id \<Rightarrow> 'a slocks_scheme \<Rightarrow> exn + (bool \<times> 'a slocks_scheme)" where
  "holdingsleep l s =
     andthen (acquire (SleepLk l) s) (\<lambda>s.
     andthen (myproc s) (\<lambda>p.
     let r = (sl_locked (slk s l) \<noteq> 0 \<and> sl_pid (slk s l) = p_pid (pr s p))
     in andthen (release (SleepLk l) s) (\<lambda>s. Inr (r, s))))"

subsection \<open>What the routines do\<close>

text \<open>
  The state of a kernel thread in the middle of a system call: no spin lock held, the process
  of the CPU running.
\<close>

definition in_proc :: "nat \<Rightarrow> 'a procs_scheme \<Rightarrow> bool" where
  "in_proc p s \<longleftrightarrow> held s = [] \<and> curproc s = Some p \<and> p < NPROC \<and> length (ptable s) = NPROC \<and>
     p_state (pr s p) = RUNNING \<and> p_chan (pr s p) = None"

text \<open>The process table after wake-ups on a channel, seen from process \<open>p\<close>.\<close>

definition woken :: "chan \<Rightarrow> nat \<Rightarrow> proc list \<Rightarrow> proc list" where
  "woken ch p tb = map (\<lambda>i. wake_entry ch (Some p) i (tb ! i)) [0..<NPROC]"

lemma woken_nth: "p < NPROC \<Longrightarrow> woken ch p tb ! p = tb ! p"
  by (simp add: woken_def wake_entry_def)

lemma length_woken [simp]: "length (woken ch p tb) = NPROC"
  by (simp add: woken_def)

lemma in_proc_woken: "in_proc p s \<Longrightarrow> in_proc p (s\<lparr>ptable := woken ch p (ptable s)\<rparr>)"
  by (simp add: in_proc_def pr_def woken_nth)

lemma acquiresleep_free:
  assumes "in_proc p s" "sl_locked (slk s l) = 0"
  shows "acquiresleep l s = Inr (s\<lparr>slk := (slk s)(l := \<lparr>sl_locked = 1, sl_pid = p_pid (pr s p), \<dots> = sleeplock.more (slk s l)\<rparr>)\<rparr>)"
  using assms by (cases "slk s l") (simp add: acquiresleep_def lock_simps myproc_def in_proc_def upd_slk_def Let_def pr_def)

lemma acquiresleep_taken:
  assumes "in_proc p s" "sl_locked (slk s l) \<noteq> 0"
  shows "acquiresleep l s = Inl (Sleeping (ChanSleeplock l))"
  using assms by (simp add: acquiresleep_def lock_simps myproc_def in_proc_def sleep_def sleep_enter_def sched_def
      holding_def pr_upd_proc Let_def)

lemma releasesleep_eq:
  assumes "in_proc p s"
  shows "releasesleep l s = Inr (s\<lparr>slk := (slk s)(l := \<lparr>sl_locked = 0, sl_pid = 0, \<dots> = sleeplock.more (slk s l)\<rparr>),
     ptable := woken (ChanSleeplock l) p (ptable s)\<rparr>)"
proof -
  let ?s = "s\<lparr>held := [SleepLk l], slk := (slk s)(l := \<lparr>sl_locked = 0, sl_pid = 0, \<dots> = sleeplock.more (slk s l)\<rparr>)\<rparr>"
  have "no_plock ?s" "length (ptable ?s) = NPROC" "curproc ?s = Some p"
    using assms by (simp_all add: in_proc_def no_plock_def)
  note w = wakeup_eq [OF this(1,2), of "ChanSleeplock l"]
  show ?thesis
    using assms w by (cases "slk s l") (simp add: releasesleep_def lock_simps in_proc_def upd_slk_def Let_def woken_def)
qed

lemma holdingsleep_eq:
  assumes "in_proc p s"
  shows "holdingsleep l s = Inr (sl_locked (slk s l) \<noteq> 0 \<and> sl_pid (slk s l) = p_pid (pr s p), s)"
  using assms by (simp add: holdingsleep_def lock_simps myproc_def in_proc_def Let_def)

text \<open>
  C26: a sleep lock excludes. \<open>acquiresleep\<close> takes a free lock for the calling process, and while
  some process has the lock every other caller is put to sleep on it. Releasing the
  lock makes all the processes that sleep on it runnable.
\<close>

theorem sleeplock_excludes:
  assumes "in_proc p s"
  shows "(if sl_locked (slk s l) = 0
          then returns (acquiresleep l s) (\<lambda>t. sl_locked (slk t l) = 1 \<and> sl_pid (slk t l) = p_pid (pr s p) \<and>
                 acquiresleep l t = Inl (Sleeping (ChanSleeplock l)) \<and>
                 returns (holdingsleep l t) (\<lambda>(r, u). r \<and> u = t))
          else acquiresleep l s = Inl (Sleeping (ChanSleeplock l))) \<and>
         returns (releasesleep l s) (\<lambda>t. sl_locked (slk t l) = 0 \<and>
           (\<forall>q < NPROC. q \<noteq> p \<longrightarrow> \<not> (p_state (pr t q) = SLEEPING \<and> p_chan (pr t q) = Some (ChanSleeplock l))))"
proof -
  let ?t = "s\<lparr>slk := (slk s)(l := \<lparr>sl_locked = 1, sl_pid = p_pid (pr s p), \<dots> = sleeplock.more (slk s l)\<rparr>)\<rparr>"
  have "in_proc p ?t" using assms by (simp add: in_proc_def pr_def)
  note t = acquiresleep_taken [OF this, of l] holdingsleep_eq [OF this, of l]
  have "p_state (wake_entry ch (Some p) q e) = SLEEPING \<Longrightarrow> q \<noteq> p \<Longrightarrow> p_chan (wake_entry ch (Some p) q e) \<noteq> Some ch"
    for q e ch by (auto simp: wake_entry_def split: if_splits)
  then have "returns (releasesleep l s) (\<lambda>t. sl_locked (slk t l) = 0 \<and>
           (\<forall>q < NPROC. q \<noteq> p \<longrightarrow> \<not> (p_state (pr t q) = SLEEPING \<and> p_chan (pr t q) = Some (ChanSleeplock l))))"
    using releasesleep_eq [OF assms, of l] by (simp add: pr_def woken_def)
  moreover have "pr ?t = pr s" by (simp add: pr_def fun_eq_iff)
  ultimately show ?thesis
    using acquiresleep_free [OF assms, of l] acquiresleep_taken [OF assms, of l] t by simp
qed

theorem sleeplock_excludes_witness:
  "\<exists>s :: slocks. returns (acquiresleep (BufLock 3) s)
     (\<lambda>t. sl_locked (slk t (BufLock 3)) = 1 \<and> acquiresleep (BufLock 3) t = Inl (Sleeping (ChanSleeplock (BufLock 3))))"
proof -
  define s :: slocks where "s = \<lparr>held = [], mem = (\<lambda>_. 0), kend = 0x80001000, etext = 0, trampoline = 0, freelist = 0,
    kernel_pagetable = 0, satp = 0, ptable = replicate NPROC (demo_proc RUNNING None), curproc = Some 1, initproc = None,
    nextpid = 8, sym = (\<lambda>_. 0), slk = (\<lambda>_. \<lparr>sl_locked = 0, sl_pid = 0\<rparr>)\<rparr>"
  have "in_proc 1 s" by (simp add: s_def in_proc_def pr_def demo_proc_def)
  moreover have "sl_locked (slk s (BufLock 3)) = 0" by (simp add: s_def)
  ultimately show ?thesis
    using sleeplock_excludes [of 1 s "BufLock 3"] by (auto elim!: returns_mono intro!: exI [of _ s])
qed

end
