(* ===== verification/Virtio.thy ===== *)
theory Virtio
  imports Sleeplock
begin

section \<open>The virtio disk driver\<close>

text \<open>
  \<^verbatim>\<open>kernel/virtio_disk.c\<close>, and the buffers of \<^verbatim>\<open>buf.h\<close> it transfers. The
  descriptor table, the rings and the request headers are the driver's structures with
  symbolic DMA addresses. The disk itself is the list of the block writes it has carried out
  since it was empty (\<open>platter\<close>), so that a crash leaves a prefix of what a run would have
  written. The device is not part of the sources: \<open>vdev\<close> is what it does with the queue, the
  buffers and the platter when it is notified, and \<open>device_ok\<close> is what the virtio
  specification promises of it. \<open>mmio_in\<close> are the values its registers read as, and
  \<open>mmio_out\<close> the register writes of the driver.

  A driver thread that waits for a transfer sleeps, the device works, its interrupt is handled
  by \<open>virtio_disk_intr\<close>, and the scheduler resumes the thread: \<open>virtio_sleep\<close> is this round,
  in the run in which no other process gets the CPU in between.
\<close>

definition BSIZE :: nat where [simp, code_unfold]: "BSIZE = 1024"
definition NUM :: nat where [simp, code_unfold]: "NUM = 8"
definition VRING_DESC_F_NEXT :: nat where [simp, code_unfold]: "VRING_DESC_F_NEXT = 1"
definition VRING_DESC_F_WRITE :: nat where [simp, code_unfold]: "VRING_DESC_F_WRITE = 2"
definition VIRTIO_BLK_T_IN :: nat where [simp, code_unfold]: "VIRTIO_BLK_T_IN = 0"
definition VIRTIO_BLK_T_OUT :: nat where [simp, code_unfold]: "VIRTIO_BLK_T_OUT = 1"

subsection \<open>State\<close>

type_synonym block = "uchar list"

text \<open>\<open>b_prev\<close> and \<open>b_next\<close> are indices; index \<^verbatim>\<open>NBUF\<close> is the list head.\<close>

record buf =
  b_valid :: bool
  b_disk :: bool
  b_dev :: nat
  b_blockno :: nat
  b_refcnt :: uint
  b_prev :: nat
  b_next :: nat
  b_data :: block

datatype daddr = DNull | DOps nat | DData nat | DStatus nat

record virtq_desc =
  d_addr :: daddr
  d_len :: nat
  d_flags :: nat
  d_next :: nat

record virtio_blk_req =
  r_type :: nat
  r_sector :: nat

record vdisk =
  v_desc :: "nat \<Rightarrow> virtq_desc"
  v_avail_ring :: "nat \<Rightarrow> nat"
  v_avail_idx :: ushort
  v_used_ring :: "nat \<Rightarrow> nat"
  v_used_dev :: ushort
  v_free :: "nat \<Rightarrow> bool"
  v_used_idx :: ushort
  v_info_b :: "nat \<Rightarrow> nat option"
  v_status :: "nat \<Rightarrow> nat"
  v_ops :: "nat \<Rightarrow> virtio_blk_req"
  v_pages :: "uint64 list"

text \<open>The contents of a block after a list of writes.\<close>

type_synonym platter = "(nat \<times> block) list"

definition disk_block :: "platter \<Rightarrow> nat \<Rightarrow> block" where
  "disk_block ws n = (case find (\<lambda>w. fst w = n) (rev ws) of None \<Rightarrow> replicate BSIZE 0 | Some w \<Rightarrow> snd w)"

type_synonym device = "vdisk \<times> (nat \<Rightarrow> block) \<times> platter \<Rightarrow> vdisk \<times> (nat \<Rightarrow> block) \<times> platter"

record storage = slocks +
  bufs :: "buf list"
  vd :: vdisk
  platter :: platter
  vdev :: device
  mmio_in :: "nat \<Rightarrow> uint"
  mmio_out :: "(nat \<times> uint) list"

definition bf :: "'a storage_scheme \<Rightarrow> nat \<Rightarrow> buf" where
  "bf s i = bufs s ! i"

definition upd_buf :: "nat \<Rightarrow> (buf \<Rightarrow> buf) \<Rightarrow> 'a storage_scheme \<Rightarrow> 'a storage_scheme" where
  "upd_buf i f s = s\<lparr>bufs := (bufs s)[i := f (bufs s ! i)]\<rparr>"

definition upd_vd :: "(vdisk \<Rightarrow> vdisk) \<Rightarrow> 'a storage_scheme \<Rightarrow> 'a storage_scheme" where
  "upd_vd f s = s\<lparr>vd := f (vd s)\<rparr>"

subsection \<open>Initialisation\<close>

definition mmio_write :: "nat \<Rightarrow> uint \<Rightarrow> 'a storage_scheme \<Rightarrow> 'a storage_scheme" where
  "mmio_write r v s = s\<lparr>mmio_out := mmio_out s @ [(r, v)]\<rparr>"

text \<open>The feature bits the driver turns down.\<close>

definition drop_features :: "uint \<Rightarrow> uint" where
  "drop_features f =
     f AND NOT (push_bit 5 1) AND NOT (push_bit 7 1) AND NOT (push_bit 11 1) AND NOT (push_bit 12 1)
       AND NOT (push_bit 27 1) AND NOT (push_bit 29 1) AND NOT (push_bit 28 1)"

definition virtio_disk_init :: "'a storage_scheme \<Rightarrow> exn + 'a storage_scheme" where
  "virtio_disk_init s =
     (if mmio_in s 0x000 \<noteq> 0x74726976 \<or> mmio_in s 0x004 \<noteq> 2 \<or> mmio_in s 0x008 \<noteq> 2 \<or> mmio_in s 0x00c \<noteq> 0x554d4551
      then Inl (Panic ''could not find virtio disk'')
      else
        let s = mmio_write 0x070 0 s;
            s = mmio_write 0x070 1 s;
            s = mmio_write 0x070 (1 OR 2) s;
            s = mmio_write 0x020 (drop_features (mmio_in s 0x010)) s;
            s = mmio_write 0x070 (1 OR 2 OR 8) s;
            status = mmio_in s 0x070
        in if status AND 8 = 0 then Inl (Panic ''virtio disk FEATURES_OK unset'')
           else let s = mmio_write 0x030 0 s in
             if mmio_in s 0x044 \<noteq> 0 then Inl (Panic ''virtio disk should not be ready'')
             else if mmio_in s 0x034 = 0 then Inl (Panic ''virtio disk has no queue 0'')
             else if mmio_in s 0x034 < of_nat NUM then Inl (Panic ''virtio disk max queue too short'')
             else
               andthen (kalloc s) (\<lambda>(pd, s).
               andthen (kalloc s) (\<lambda>(pa, s).
               andthen (kalloc s) (\<lambda>(pu, s).
               if pd = 0 \<or> pa = 0 \<or> pu = 0 then Inl (Panic ''virtio disk kalloc'')
               else
                 let s = s\<lparr>mem := memset pd 0 4096 (mem s)\<rparr>;
                     s = s\<lparr>mem := memset pa 0 4096 (mem s)\<rparr>;
                     s = s\<lparr>mem := memset pu 0 4096 (mem s)\<rparr>;
                     s = upd_vd (\<lambda>v. v\<lparr>v_pages := [pd, pa, pu],
                           v_desc := (\<lambda>_. \<lparr>d_addr = DNull, d_len = 0, d_flags = 0, d_next = 0\<rparr>),
                           v_avail_ring := (\<lambda>_. 0), v_avail_idx := 0,
                           v_used_ring := (\<lambda>_. 0), v_used_dev := 0\<rparr>) s;
                     s = mmio_write 0x038 (of_nat NUM) s;
                     s = mmio_write 0x080 (ucast pd) s;
                     s = mmio_write 0x084 (ucast (drop_bit 32 pd)) s;
                     s = mmio_write 0x090 (ucast pa) s;
                     s = mmio_write 0x094 (ucast (drop_bit 32 pa)) s;
                     s = mmio_write 0x0a0 (ucast pu) s;
                     s = mmio_write 0x0a4 (ucast (drop_bit 32 pu)) s;
                     s = mmio_write 0x044 1 s;
                     s = upd_vd (\<lambda>v. v\<lparr>v_free := (\<lambda>_. True)\<rparr>) s
                 in Inr (mmio_write 0x070 (status OR 4) s)))))"

subsection \<open>Descriptors\<close>

definition alloc_desc :: "'a storage_scheme \<Rightarrow> nat option \<times> 'a storage_scheme" where
  "alloc_desc s =
     (case find (\<lambda>i. v_free (vd s) i) [0..<NUM] of
        None \<Rightarrow> (None, s)
      | Some i \<Rightarrow> (Some i, upd_vd (\<lambda>v. v\<lparr>v_free := (v_free v)(i := False)\<rparr>) s))"

definition free_desc :: "nat \<Rightarrow> 'a storage_scheme \<Rightarrow> exn + 'a storage_scheme" where
  "free_desc i s =
     (if i \<ge> NUM then Inl (Panic ''free_desc 1'')
      else if v_free (vd s) i then Inl (Panic ''free_desc 2'')
      else let s = upd_vd (\<lambda>v. v\<lparr>v_desc := (v_desc v)(i := \<lparr>d_addr = DNull, d_len = 0, d_flags = 0, d_next = 0\<rparr>)\<rparr>) s;
               s = upd_vd (\<lambda>v. v\<lparr>v_free := (v_free v)(i := True)\<rparr>) s
           in wakeup ChanDiskFree s)"

text \<open>Wake-ups only touch the process table and the locks.\<close>

lemma wakeup_frame:
  assumes "wakeup ch s = Inr t"
  shows "t = s\<lparr>held := held t, ptable := ptable t\<rparr>"
proof -
  have "t = s\<lparr>held := held t, ptable := ptable t\<rparr>"
    if "for_each is (\<lambda>p s. if curproc s \<noteq> Some p
       then andthen (acquire (ProcLock p) s) (\<lambda>s. release (ProcLock p)
              (if p_state (pr s p) = SLEEPING \<and> p_chan (pr s p) = Some ch
               then upd_proc p (\<lambda>q. q\<lparr>p_state := RUNNABLE\<rparr>) s else s))
       else Inr s) s = Inr t" for "is" and s :: "'a procs_scheme"
    using that
  proof (induction "is" arbitrary: s)
    case (Cons i "is")
    then obtain u where u: "(if curproc s \<noteq> Some i
       then andthen (acquire (ProcLock i) s) (\<lambda>s. release (ProcLock i)
              (if p_state (pr s i) = SLEEPING \<and> p_chan (pr s i) = Some ch
               then upd_proc i (\<lambda>q. q\<lparr>p_state := RUNNABLE\<rparr>) s else s))
       else Inr s) = Inr u" and t: "t = u\<lparr>held := held t, ptable := ptable t\<rparr>"
      by (auto simp: andthen_eq_Inr)
    have "u = s\<lparr>held := held u, ptable := ptable u\<rparr>"
      using u by (auto simp: acquire_def release_def upd_proc_def split: if_splits)
    then show ?case using t by (cases s; cases t; cases u) simp
  qed simp
  then show ?thesis using assms by (simp only: wakeup_def)
qed

definition count_used :: "(nat \<Rightarrow> bool) \<Rightarrow> nat" where
  "count_used fr = card {i. i < NUM \<and> \<not> fr i}"

lemma free_desc_vd:
  assumes "free_desc i s = Inr t"
  shows "vd t = (vd s)\<lparr>v_desc := (v_desc (vd s))(i := \<lparr>d_addr = DNull, d_len = 0, d_flags = 0, d_next = 0\<rparr>),
           v_free := (v_free (vd s))(i := True)\<rparr>" "i < NUM" "\<not> v_free (vd s) i"
proof -
  define u where "u = upd_vd (\<lambda>v. v\<lparr>v_free := (v_free v)(i := True)\<rparr>)
    (upd_vd (\<lambda>v. v\<lparr>v_desc := (v_desc v)(i := \<lparr>d_addr = DNull, d_len = 0, d_flags = 0, d_next = 0\<rparr>)\<rparr>) s)"
  have u: "wakeup ChanDiskFree u = Inr t" and i: "i < NUM" "\<not> v_free (vd s) i"
    using assms by (auto simp: free_desc_def u_def Let_def split: if_splits)
  show "vd t = (vd s)\<lparr>v_desc := (v_desc (vd s))(i := \<lparr>d_addr = DNull, d_len = 0, d_flags = 0, d_next = 0\<rparr>),
           v_free := (v_free (vd s))(i := True)\<rparr>"
    using arg_cong [OF wakeup_frame [OF u], of vd] by (simp add: u_def upd_vd_def)
  show "i < NUM" "\<not> v_free (vd s) i" by (fact i)+
qed

lemma free_desc_count:
  assumes "free_desc i s = Inr t"
  shows "count_used (v_free (vd t)) < count_used (v_free (vd s))"
  unfolding count_used_def by (rule psubset_card_mono) (use free_desc_vd [OF assms] in auto)

function free_chain :: "nat \<Rightarrow> 'a storage_scheme \<Rightarrow> exn + 'a storage_scheme" where
  "free_chain i s =
     (let flag = d_flags (v_desc (vd s) i); nxt = d_next (v_desc (vd s) i) in
      andthen (free_desc i s) (\<lambda>s.
        if flag AND VRING_DESC_F_NEXT \<noteq> 0 then free_chain nxt s else Inr s))"
  by pat_completeness auto
termination
  by (relation "measure (\<lambda>(i, s). count_used (v_free (vd s)))") (auto intro: free_desc_count)

declare free_chain.simps [simp del]

definition alloc3_desc :: "'a storage_scheme \<Rightarrow> exn + (nat list option \<times> 'a storage_scheme)" where
  "alloc3_desc s =
     (case alloc_desc s of
        (None, s) \<Rightarrow> Inr (None, s)
      | (Some i0, s) \<Rightarrow>
          (case alloc_desc s of
             (None, s) \<Rightarrow> andthen (free_desc i0 s) (\<lambda>s. Inr (None, s))
           | (Some i1, s) \<Rightarrow>
               (case alloc_desc s of
                  (None, s) \<Rightarrow> andthen (free_desc i0 s) (\<lambda>s. andthen (free_desc i1 s) (\<lambda>s. Inr (None, s)))
                | (Some i2, s) \<Rightarrow> Inr (Some [i0, i1, i2], s))))"

subsection \<open>Completion interrupts\<close>

function intr_loop :: "'a storage_scheme \<Rightarrow> exn + 'a storage_scheme" where
  "intr_loop s =
     (if v_used_idx (vd s) \<noteq> v_used_dev (vd s) then
        let i = v_used_ring (vd s) (unat (v_used_idx (vd s)) mod NUM) in
        if v_status (vd s) i \<noteq> 0 then Inl (Panic ''virtio_disk_intr status'')
        else (case v_info_b (vd s) i of
                None \<Rightarrow> Inl (Panic ''kerneltrap'')
              | Some b \<Rightarrow>
                  andthen (wakeup (ChanBuf b) (upd_buf b (\<lambda>q. q\<lparr>b_disk := False\<rparr>) s)) (\<lambda>s.
                  intr_loop (upd_vd (\<lambda>v. v\<lparr>v_used_idx := v_used_idx v + 1\<rparr>) s)))
      else Inr s)"
  by pat_completeness auto
termination
proof (relation "measure (\<lambda>s. unat (v_used_dev (vd s) - v_used_idx (vd s)))")
  fix s t :: "'a storage_scheme" and x b
  assume ne: "v_used_idx (vd s) \<noteq> v_used_dev (vd s)"
    and w: "wakeup (ChanBuf b) (upd_buf b (\<lambda>q. q\<lparr>b_disk := False\<rparr>) s) = Inr t"
  have "vd t = vd s" using arg_cong [OF wakeup_frame [OF w], of vd] by (simp add: upd_buf_def)
  moreover have "unat (v_used_dev (vd s) - (v_used_idx (vd s) + 1)) < unat (v_used_dev (vd s) - v_used_idx (vd s))"
  proof -
    have "v_used_dev (vd s) - v_used_idx (vd s) \<noteq> 0" using ne by simp
    then have "unat (v_used_dev (vd s) - v_used_idx (vd s) - 1) < unat (v_used_dev (vd s) - v_used_idx (vd s))"
      by (simp add: unat_minus_one unat_gt_0)
    then show ?thesis by (simp add: diff_diff_eq)
  qed
  ultimately show "(upd_vd (\<lambda>v. v\<lparr>v_used_idx := v_used_idx v + 1\<rparr>) t, s)
      \<in> measure (\<lambda>s. unat (v_used_dev (vd s) - v_used_idx (vd s)))"
    by (simp add: upd_vd_def)
qed simp

declare intr_loop.simps [simp del]

definition virtio_disk_intr :: "'a storage_scheme \<Rightarrow> exn + 'a storage_scheme" where
  "virtio_disk_intr s =
     andthen (acquire VdiskLock s) (\<lambda>s.
     let s = mmio_write 0x064 (mmio_in s 0x060 AND 3) s in
     andthen (intr_loop s) (\<lambda>s.
     release VdiskLock s))"

subsection \<open>Transfers\<close>

text \<open>The device works on the queue, the buffers' data and the platter.\<close>

definition device_step :: "'a storage_scheme \<Rightarrow> 'a storage_scheme" where
  "device_step s =
     (let (v, d, pl) = vdev s (vd s, (\<lambda>i. b_data (bufs s ! i)), platter s)
      in s\<lparr>vd := v, bufs := map (\<lambda>i. (bufs s ! i)\<lparr>b_data := d i\<rparr>) [0..<length (bufs s)], platter := pl\<rparr>)"

text \<open>One round of sleeping for the completion of buffer \<open>b\<close>.\<close>

definition virtio_sleep :: "nat \<Rightarrow> 'a storage_scheme \<Rightarrow> exn + 'a storage_scheme" where
  "virtio_sleep b s =
     andthen (myproc s) (\<lambda>p.
     andthen (sleep_enter (ChanBuf b) VdiskLock s) (\<lambda>s.
     andthen (scheduler_back p s) (\<lambda>s.
     andthen (virtio_disk_intr (device_step s)) (\<lambda>s.
     andthen (scheduler_scan [p] s) (\<lambda>(r, s).
     if r = None then Inl (Sleeping (ChanBuf b)) else sleep_return VdiskLock s)))))"

definition virtio_disk_rw :: "nat \<Rightarrow> bool \<Rightarrow> 'a storage_scheme \<Rightarrow> exn + 'a storage_scheme" where
  "virtio_disk_rw b wr s =
     (let sector = (b_blockno (bf s b) * (BSIZE div 512)) mod 2 ^ 32 in
      andthen (acquire VdiskLock s) (\<lambda>s.
      andthen (alloc3_desc s) (\<lambda>(r, s).
      case r of
        None \<Rightarrow> sleep ChanDiskFree VdiskLock s
      | Some idx \<Rightarrow>
          let i0 = idx ! 0; i1 = idx ! 1; i2 = idx ! 2;
              s = upd_vd (\<lambda>v. v\<lparr>v_ops := (v_ops v)(i0 :=
                    \<lparr>r_type = (if wr then VIRTIO_BLK_T_OUT else VIRTIO_BLK_T_IN), r_sector = sector\<rparr>)\<rparr>) s;
              s = upd_vd (\<lambda>v. v\<lparr>v_desc := (v_desc v)(i0 :=
                    \<lparr>d_addr = DOps i0, d_len = 16, d_flags = VRING_DESC_F_NEXT, d_next = i1\<rparr>)\<rparr>) s;
              s = upd_vd (\<lambda>v. v\<lparr>v_desc := (v_desc v)(i1 :=
                    \<lparr>d_addr = DData b, d_len = BSIZE,
                     d_flags = (if wr then 0 else VRING_DESC_F_WRITE) OR VRING_DESC_F_NEXT, d_next = i2\<rparr>)\<rparr>) s;
              s = upd_vd (\<lambda>v. v\<lparr>v_status := (v_status v)(i0 := 0xff)\<rparr>) s;
              s = upd_vd (\<lambda>v. v\<lparr>v_desc := (v_desc v)(i2 :=
                    \<lparr>d_addr = DStatus i0, d_len = 1, d_flags = VRING_DESC_F_WRITE, d_next = 0\<rparr>)\<rparr>) s;
              s = upd_buf b (\<lambda>q. q\<lparr>b_disk := True\<rparr>) s;
              s = upd_vd (\<lambda>v. v\<lparr>v_info_b := (v_info_b v)(i0 := Some b)\<rparr>) s;
              s = upd_vd (\<lambda>v. v\<lparr>v_avail_ring := (v_avail_ring v)(unat (v_avail_idx v) mod NUM := i0)\<rparr>) s;
              s = upd_vd (\<lambda>v. v\<lparr>v_avail_idx := v_avail_idx v + 1\<rparr>) s;
              s = mmio_write 0x050 0 s
          in andthen (virtio_sleep b s) (\<lambda>s.
             if b_disk (bf s b) then Inl (Sleeping (ChanBuf b))
             else let s = upd_vd (\<lambda>v. v\<lparr>v_info_b := (v_info_b v)(i0 := None)\<rparr>) s in
               andthen (free_chain i0 s) (\<lambda>s.
               release VdiskLock s)))))"

subsection \<open>What the specification promises of the device\<close>

text \<open>
  With one request on the available ring, a well-formed chain of a header, a block and a
  status byte, the device carries out the transfer, reports success in the status byte and puts
  the head of the chain on the used ring. The sectors have 512 bytes.
\<close>

definition request :: "vdisk \<Rightarrow> nat \<Rightarrow> nat \<Rightarrow> nat \<Rightarrow> nat \<Rightarrow> bool \<Rightarrow> nat \<Rightarrow> bool" where
  "request v i0 i1 i2 b wr n \<longleftrightarrow>
     v_avail_idx v = v_used_dev v + 1 \<and> v_avail_ring v (unat (v_used_dev v) mod NUM) = i0 \<and>
     v_desc v i0 = \<lparr>d_addr = DOps i0, d_len = 16, d_flags = VRING_DESC_F_NEXT, d_next = i1\<rparr> \<and>
     v_desc v i1 = \<lparr>d_addr = DData b, d_len = BSIZE,
        d_flags = (if wr then 0 else VRING_DESC_F_WRITE) OR VRING_DESC_F_NEXT, d_next = i2\<rparr> \<and>
     v_desc v i2 = \<lparr>d_addr = DStatus i0, d_len = 1, d_flags = VRING_DESC_F_WRITE, d_next = 0\<rparr> \<and>
     v_ops v i0 = \<lparr>r_type = (if wr then VIRTIO_BLK_T_OUT else VIRTIO_BLK_T_IN), r_sector = 2 * n\<rparr>"

definition device_ok :: "device \<Rightarrow> bool" where
  "device_ok dv \<longleftrightarrow> (\<forall>v d pl i0 i1 i2 b wr n. request v i0 i1 i2 b wr n \<longrightarrow>
     dv (v, d, pl) =
       (v\<lparr>v_status := (v_status v)(i0 := 0),
          v_used_ring := (v_used_ring v)(unat (v_used_dev v) mod NUM := i0), v_used_dev := v_used_dev v + 1\<rparr>,
        if wr then d else d(b := disk_block pl n),
        if wr then pl @ [(n, d b)] else pl))"

subsection \<open>A transfer\<close>

text \<open>The process table after process \<open>p\<close> slept and others were woken: only states changed.\<close>

definition tb_le :: "nat \<Rightarrow> proc list \<Rightarrow> proc list \<Rightarrow> bool" where
  "tb_le p tb tb' \<longleftrightarrow> length tb' = length tb \<and> tb' ! p = tb ! p \<and>
     (\<forall>q < length tb. \<exists>st. tb' ! q = (tb ! q)\<lparr>p_state := st\<rparr>)"

lemma tb_le_refl [simp]: "tb_le p tb tb"
proof -
  have "\<exists>st. tb ! q = (tb ! q)\<lparr>p_state := st\<rparr>" for q by (rule exI [of _ "p_state (tb ! q)"]) simp
  then show ?thesis by (simp add: tb_le_def)
qed

lemma tb_le_trans: "tb_le p a b \<Longrightarrow> tb_le p b c \<Longrightarrow> tb_le p a c"
proof -
  assume ab: "tb_le p a b" and bc: "tb_le p b c"
  have "\<exists>st. c ! q = (a ! q)\<lparr>p_state := st\<rparr>" if "q < length a" for q
  proof -
    obtain st where "b ! q = (a ! q)\<lparr>p_state := st\<rparr>" using ab \<open>q < length a\<close> by (auto simp: tb_le_def)
    moreover obtain st' where "c ! q = (b ! q)\<lparr>p_state := st'\<rparr>" using ab bc \<open>q < length a\<close> by (auto simp: tb_le_def)
    ultimately show ?thesis by auto
  qed
  then show ?thesis using ab bc by (auto simp: tb_le_def)
qed

lemma wake_entry_state: "\<exists>st. wake_entry ch c i q = q\<lparr>p_state := st\<rparr>"
proof (cases "c \<noteq> Some i \<and> p_state q = SLEEPING \<and> p_chan q = Some ch")
  case True
  then show ?thesis by (auto simp: wake_entry_def)
next
  case False
  then show ?thesis unfolding wake_entry_def by (intro exI [of _ "p_state q"]) simp
qed

lemma tb_le_woken: "p < NPROC \<Longrightarrow> length tb = NPROC \<Longrightarrow> tb_le p tb (woken ch p tb)"
  using wake_entry_state by (simp add: tb_le_def woken_nth) (simp add: woken_def)

lemma tb_le_pr: "tb_le p (ptable s) (ptable t) \<Longrightarrow> pr t p = pr s p"
  by (simp add: tb_le_def pr_def)

lemma in_proc_tb_le:
  "in_proc p s \<Longrightarrow> tb_le p (ptable s) (ptable t) \<Longrightarrow> held t = [] \<Longrightarrow> curproc t = Some p \<Longrightarrow> in_proc p t"
  by (simp add: in_proc_def tb_le_def pr_def)

definition vd_idle :: "vdisk \<Rightarrow> bool" where
  "vd_idle v \<longleftrightarrow> v_used_dev v = v_avail_idx v \<and> v_used_idx v = v_avail_idx v \<and> (\<forall>i < NUM. v_free v i)"

lemma upt_NUM: "[0..<NUM] = [0, 1, 2, 3, 4, 5, 6, 7]"
  by (simp add: upt_rec)

lemma alloc3_desc_idle:
  assumes "\<forall>i < NUM. v_free (vd s) i"
  shows "alloc3_desc s = Inr (Some [0, 1, 2],
     s\<lparr>vd := (vd s)\<lparr>v_free := (v_free (vd s))(0 := False, 1 := False, 2 := False)\<rparr>\<rparr>)"
proof -
  have "v_free (vd s) 0" "v_free (vd s) 1" "v_free (vd s) 2" using assms by simp_all
  note alloc_desc_unfold = alloc_desc_def [unfolded upt_NUM]
  from \<open>v_free (vd s) 0\<close> \<open>v_free (vd s) 1\<close> \<open>v_free (vd s) 2\<close>
  show ?thesis by (simp add: alloc3_desc_def alloc_desc_unfold upd_vd_def)
qed

lemma free_desc_eq:
  assumes "i < NUM" "\<not> v_free (vd s) i" "no_plock s" "length (ptable s) = NPROC" "curproc s = Some p"
  shows "free_desc i s = Inr (s\<lparr>vd := (vd s)\<lparr>v_desc := (v_desc (vd s))(i := \<lparr>d_addr = DNull, d_len = 0, d_flags = 0, d_next = 0\<rparr>),
           v_free := (v_free (vd s))(i := True)\<rparr>, ptable := woken ChanDiskFree p (ptable s)\<rparr>)"
proof -
  define u where "u = s\<lparr>vd := (vd s)\<lparr>v_desc := (v_desc (vd s))(i := \<lparr>d_addr = DNull, d_len = 0, d_flags = 0, d_next = 0\<rparr>),
           v_free := (v_free (vd s))(i := True)\<rparr>\<rparr>"
  have "no_plock u" "length (ptable u) = NPROC" using assms(3,4) by (simp_all add: u_def no_plock_def)
  from wakeup_eq [OF this, of ChanDiskFree] assms(1,2,5) show ?thesis
    by (simp add: free_desc_def upd_vd_def woken_def u_def)
qed

text \<open>The table while nobody runs: process \<open>p\<close> is asleep and is woken.\<close>

lemma sleep_wake_table:
  assumes "p < NPROC" "length tb = NPROC" "p_state (tb ! p) = RUNNING" "p_chan (tb ! p) = None"
    and "tb1 = tb[p := (tb ! p)\<lparr>p_chan := Some ch, p_state := SLEEPING\<rparr>]"
    and "tb2 = map (\<lambda>i. wake_entry ch None i (tb1 ! i)) [0..<NPROC]"
  shows "tb2 ! p = (tb ! p)\<lparr>p_chan := Some ch, p_state := RUNNABLE\<rparr>"
    "tb_le p tb (tb2[p := (tb2 ! p)\<lparr>p_state := RUNNING, p_chan := None\<rparr>])"
proof -
  show t2: "tb2 ! p = (tb ! p)\<lparr>p_chan := Some ch, p_state := RUNNABLE\<rparr>"
    using assms by (simp add: wake_entry_def)
  have "(tb ! p)\<lparr>p_state := RUNNING, p_chan := None\<rparr> = tb ! p" using assms(3,4) by (cases "tb ! p") simp
  then have "(tb2 ! p)\<lparr>p_state := RUNNING, p_chan := None\<rparr> = tb ! p" by (simp add: t2)
  moreover have "\<exists>st. tb2 ! q = (tb ! q)\<lparr>p_state := st\<rparr>" if "q < NPROC" "q \<noteq> p" for q
    using that assms wake_entry_state by simp
  moreover have "\<exists>st. tb ! p = (tb ! p)\<lparr>p_state := st\<rparr>" by (rule exI [of _ "p_state (tb ! p)"]) simp
  ultimately show "tb_le p tb (tb2[p := (tb2 ! p)\<lparr>p_state := RUNNING, p_chan := None\<rparr>])"
    using assms by (auto simp: tb_le_def nth_list_update)
qed

text \<open>The state a driver thread is in when it starts to wait: it holds the driver's lock.\<close>

definition in_driver :: "nat \<Rightarrow> 'a storage_scheme \<Rightarrow> bool" where
  "in_driver p s \<longleftrightarrow> held s = [VdiskLock] \<and> curproc s = Some p \<and> p < NPROC \<and> length (ptable s) = NPROC \<and>
     p_state (pr s p) = RUNNING \<and> p_chan (pr s p) = None"

lemma intr_loop_one:
  assumes "v_used_dev (vd s) = v_used_idx (vd s) + 1" "v_used_ring (vd s) (unat (v_used_idx (vd s)) mod NUM) = i0"
    "v_status (vd s) i0 = 0" "v_info_b (vd s) i0 = Some b" "no_plock s" "length (ptable s) = NPROC" "curproc s = None"
  shows "intr_loop s = Inr (s\<lparr>bufs := (bufs s)[b := (bufs s ! b)\<lparr>b_disk := False\<rparr>],
     ptable := map (\<lambda>i. wake_entry (ChanBuf b) None i (ptable s ! i)) [0..<NPROC],
     vd := (vd s)\<lparr>v_used_idx := v_used_idx (vd s) + 1\<rparr>\<rparr>)"
proof -
  let ?u = "s\<lparr>bufs := (bufs s)[b := (bufs s ! b)\<lparr>b_disk := False\<rparr>]\<rparr>"
  have "no_plock ?u" "length (ptable ?u) = NPROC" using assms(5,6) by (simp_all add: no_plock_def)
  note w = wakeup_eq [OF this, of "ChanBuf b"]
  show ?thesis
    using assms w by (simp add: intr_loop.simps upd_buf_def upd_vd_def Let_def)
qed

lemma virtio_sleep_spec:
  assumes drv: "in_driver p s"
    and dev: "vdev s (vd s, (\<lambda>i. b_data (bufs s ! i)), platter s) = (v, d, pl)"
    and v: "v_used_dev v = v_used_idx v + 1" "v_used_ring v (unat (v_used_idx v) mod NUM) = i0"
      "v_status v i0 = 0" "v_info_b v i0 = Some b"
  shows "\<exists>tb. tb_le p (ptable s) tb \<and> virtio_sleep b s = Inr (s\<lparr>ptable := tb,
     vd := v\<lparr>v_used_idx := v_used_idx v + 1\<rparr>, platter := pl, mmio_out := mmio_out s @ [(0x064, mmio_in s 0x060 AND 3)],
     bufs := (map (\<lambda>i. (bufs s ! i)\<lparr>b_data := d i\<rparr>) [0..<length (bufs s)])[b :=
       (map (\<lambda>i. (bufs s ! i)\<lparr>b_data := d i\<rparr>) [0..<length (bufs s)] ! b)\<lparr>b_disk := False\<rparr>]\<rparr>)"
proof -
  define tb1 where "tb1 = (ptable s)[p := (ptable s ! p)\<lparr>p_chan := Some (ChanBuf b), p_state := SLEEPING\<rparr>]"
  define tb2 where "tb2 = map (\<lambda>i. wake_entry (ChanBuf b) None i (tb1 ! i)) [0..<NPROC]"
  have p: "p < NPROC" "length (ptable s) = NPROC" "p_state (ptable s ! p) = RUNNING" "p_chan (ptable s ! p) = None"
    "held s = [VdiskLock]" "curproc s = Some p"
    using drv by (simp_all add: in_driver_def pr_def)
  note tb = sleep_wake_table [OF p(1-4) tb1_def tb2_def]
  let ?bs = "map (\<lambda>i. (bufs s ! i)\<lparr>b_data := d i\<rparr>) [0..<length (bufs s)]"
  define s1 where "s1 = s\<lparr>held := [ProcLock p], ptable := tb1\<rparr>"
  have "sleep_enter (ChanBuf b) VdiskLock s = Inr s1"
    using p by (simp add: sleep_enter_def sched_def myproc_def lock_simps holding_def upd_proc_def pr_def s1_def tb1_def Let_def)
  moreover define s2 where "s2 = s1\<lparr>held := [], curproc := None\<rparr>"
  have "scheduler_back p s1 = Inr s2" by (simp add: scheduler_back_def lock_simps s1_def s2_def)
  moreover define s3 where "s3 = s2\<lparr>vd := v, bufs := ?bs, platter := pl\<rparr>"
  have "device_step s2 = s3" using dev by (simp add: device_step_def s2_def s1_def s3_def)
  moreover define s4 where "s4 = s3\<lparr>held := [], mmio_out := mmio_out s @ [(0x064, mmio_in s 0x060 AND 3)],
    bufs := ?bs[b := (?bs ! b)\<lparr>b_disk := False\<rparr>], ptable := tb2, vd := v\<lparr>v_used_idx := v_used_idx v + 1\<rparr>\<rparr>"
  have "virtio_disk_intr s3 = Inr s4"
  proof -
    let ?u = "s3\<lparr>held := [VdiskLock], mmio_out := mmio_out s @ [(0x064, mmio_in s 0x060 AND 3)]\<rparr>"
    have "length tb1 = NPROC" using p(2) by (simp add: tb1_def)
    then have "intr_loop ?u = Inr (?u\<lparr>bufs := ?bs[b := (?bs ! b)\<lparr>b_disk := False\<rparr>], ptable := tb2,
        vd := v\<lparr>v_used_idx := v_used_idx v + 1\<rparr>\<rparr>)"
      using intr_loop_one [of ?u i0 b] v by (simp add: s3_def s2_def s1_def no_plock_def tb2_def)
    then show ?thesis
      by (simp add: virtio_disk_intr_def lock_simps mmio_write_def s3_def s2_def s1_def s4_def)
  qed
  moreover define s5 where "s5 = s4\<lparr>held := [ProcLock p], curproc := Some p, ptable := tb2[p := (tb2 ! p)\<lparr>p_state := RUNNING\<rparr>]\<rparr>"
  have "scheduler_scan [p] s4 = Inr (Some p, s5)"
    using p tb(1) by (simp add: lock_simps s4_def s3_def s2_def s1_def s5_def pr_def upd_proc_def)
  moreover have "sleep_return VdiskLock s5 = Inr (s\<lparr>ptable := tb2[p := (tb2 ! p)\<lparr>p_state := RUNNING, p_chan := None\<rparr>],
     vd := v\<lparr>v_used_idx := v_used_idx v + 1\<rparr>, platter := pl, mmio_out := mmio_out s @ [(0x064, mmio_in s 0x060 AND 3)],
     bufs := ?bs[b := (?bs ! b)\<lparr>b_disk := False\<rparr>]\<rparr>)"
    using p by (simp add: sleep_return_def myproc_def lock_simps s5_def s4_def s3_def s2_def s1_def upd_proc_def tb2_def)
  ultimately show ?thesis using p(6) tb(2) by (auto simp: virtio_sleep_def myproc_def)
qed

definition free_desc_result :: "nat \<Rightarrow> nat \<Rightarrow> 'a storage_scheme \<Rightarrow> 'a storage_scheme" where
  "free_desc_result p i t = t\<lparr>vd := (vd t)\<lparr>v_desc := (v_desc (vd t))(i := \<lparr>d_addr = DNull, d_len = 0, d_flags = 0, d_next = 0\<rparr>),
       v_free := (v_free (vd t))(i := True)\<rparr>, ptable := woken ChanDiskFree p (ptable t)\<rparr>"

lemma free_chain_step:
  assumes "i < NUM" "\<not> v_free (vd t) i" "held t = [VdiskLock]" "curproc t = Some p" "length (ptable t) = NPROC"
  shows "free_chain i t = (if odd (d_flags (v_desc (vd t) i)) then free_chain (d_next (v_desc (vd t) i)) (free_desc_result p i t)
     else Inr (free_desc_result p i t))"
proof -
  have "free_desc i t = Inr (free_desc_result p i t)"
    unfolding free_desc_result_def using assms by (intro free_desc_eq) (simp_all add: no_plock_def)
  moreover have "(d_flags (v_desc (vd t) i) AND VRING_DESC_F_NEXT \<noteq> 0) = odd (d_flags (v_desc (vd t) i))"
    by (simp add: and_one_eq odd_iff_mod_2_eq_one)
  ultimately show ?thesis by (subst free_chain.simps) (simp add: Let_def del: VRING_DESC_F_NEXT_def)
qed

lemma free_desc_result_fields:
  "held (free_desc_result p i t) = held t" "curproc (free_desc_result p i t) = curproc t"
  "length (ptable (free_desc_result p i t)) = NPROC" "ptable (free_desc_result p i t) = woken ChanDiskFree p (ptable t)"
  "v_free (vd (free_desc_result p i t)) = (v_free (vd t))(i := True)"
  "j \<noteq> i \<Longrightarrow> v_desc (vd (free_desc_result p i t)) j = v_desc (vd t) j"
  by (simp_all add: free_desc_result_def)

lemma free_chain_three:
  assumes drv: "in_driver p s" and nf: "\<not> v_free (vd s) 0" "\<not> v_free (vd s) 1" "\<not> v_free (vd s) 2"
    and d: "odd (d_flags (v_desc (vd s) 0))" "d_next (v_desc (vd s) 0) = 1" "odd (d_flags (v_desc (vd s) 1))"
      "d_next (v_desc (vd s) 1) = 2" "even (d_flags (v_desc (vd s) 2))"
  shows "\<exists>tb ds. tb_le p (ptable s) tb \<and> free_chain 0 s = Inr (s\<lparr>ptable := tb,
     vd := (vd s)\<lparr>v_desc := ds, v_free := (v_free (vd s))(0 := True, 1 := True, 2 := True)\<rparr>\<rparr>)"
proof -
  let ?w = "woken ChanDiskFree p"
  have p: "held s = [VdiskLock]" "curproc s = Some p" "p < NPROC" "length (ptable s) = NPROC"
    using drv by (simp_all add: in_driver_def)
  define s1 where "s1 = free_desc_result p 0 s"
  define s2 where "s2 = free_desc_result p 1 s1"
  define s3 where "s3 = free_desc_result p 2 s2"
  note fs = free_desc_result_fields
  have "free_chain 0 s = free_chain 1 s1" using free_chain_step [of 0 s p] nf d p by (simp add: s1_def)
  also have "\<dots> = free_chain 2 s2" using free_chain_step [of 1 s1 p] nf d p by (simp add: s2_def s1_def fs)
  also have "\<dots> = Inr s3" using free_chain_step [of 2 s2 p] nf d p by (simp add: s3_def s2_def s1_def fs)
  finally have "free_chain 0 s = Inr s3" .
  moreover have "tb_le p (ptable s) (?w (?w (?w (ptable s))))"
    using p(3,4) by (intro tb_le_trans [OF tb_le_woken tb_le_trans [OF tb_le_woken tb_le_woken]]) simp_all
  moreover have "\<exists>ds. s3 = s\<lparr>ptable := ?w (?w (?w (ptable s))),
     vd := (vd s)\<lparr>v_desc := ds, v_free := (v_free (vd s))(0 := True, 1 := True, 2 := True)\<rparr>\<rparr>"
    by (rule exI [of _ "v_desc (vd s3)"]) (simp add: s3_def s2_def s1_def free_desc_result_def)
  ultimately show ?thesis by blast
qed

text \<open>The queue and the buffers once the request of a transfer is on the available ring.\<close>

definition submitted :: "nat \<Rightarrow> bool \<Rightarrow> nat \<Rightarrow> vdisk \<Rightarrow> vdisk" where
  "submitted b wr n v = v\<lparr>v_free := (v_free v)(0 := False, 1 := False, 2 := False),
     v_ops := (v_ops v)(0 := \<lparr>r_type = (if wr then VIRTIO_BLK_T_OUT else VIRTIO_BLK_T_IN), r_sector = 2 * n\<rparr>),
     v_desc := (v_desc v)(
       0 := \<lparr>d_addr = DOps 0, d_len = 16, d_flags = VRING_DESC_F_NEXT, d_next = 1\<rparr>,
       1 := \<lparr>d_addr = DData b, d_len = BSIZE, d_flags = (if wr then 0 else VRING_DESC_F_WRITE) OR VRING_DESC_F_NEXT, d_next = 2\<rparr>,
       2 := \<lparr>d_addr = DStatus 0, d_len = 1, d_flags = VRING_DESC_F_WRITE, d_next = 0\<rparr>),
     v_status := (v_status v)(0 := 0xff), v_info_b := (v_info_b v)(0 := Some b),
     v_avail_ring := (v_avail_ring v)(unat (v_avail_idx v) mod NUM := 0),
     v_avail_idx := v_avail_idx v + 1\<rparr>"

lemma submitted_request: "vd_idle v \<Longrightarrow> request (submitted b wr n v) 0 1 2 b wr n"
  by (simp add: request_def submitted_def vd_idle_def)

lemma submitted_flags:
  "odd (d_flags (v_desc (submitted b wr n v) 0))" "odd (d_flags (v_desc (submitted b wr n v) 1))"
  "even (d_flags (v_desc (submitted b wr n v) 2))" "d_next (v_desc (submitted b wr n v) 0) = 1"
  "d_next (v_desc (submitted b wr n v) 1) = 2"
  by (simp_all add: submitted_def even_or_iff)

lemma upd_vd_upd_vd: "upd_vd f (upd_vd g s) = upd_vd (\<lambda>v. f (g v)) s"
  by (simp add: upd_vd_def)

lemma upd_buf_upd_vd: "upd_buf b g (upd_vd f s) = upd_vd f (upd_buf b g s)"
  by (simp add: upd_vd_def upd_buf_def)

lemma upd_vd_free: "s\<lparr>held := h, vd := (vd s)\<lparr>v_free := fr\<rparr>\<rparr> = upd_vd (\<lambda>v. v\<lparr>v_free := fr\<rparr>) (s\<lparr>held := h\<rparr>)"
  by (simp add: upd_vd_def)

lemma virtio_disk_rw_submit:
  assumes idle: "vd_idle (vd s)" and h: "held s = []" and b: "b_blockno (bf s b) = n" "n < 2 ^ 31"
    and u: "u = s\<lparr>held := [VdiskLock], vd := submitted b wr n (vd s), mmio_out := mmio_out s @ [(0x050, 0)],
      bufs := (bufs s)[b := (bufs s ! b)\<lparr>b_disk := True\<rparr>]\<rparr>"
  shows "virtio_disk_rw b wr s = andthen (virtio_sleep b u) (\<lambda>s.
     if b_disk (bf s b) then Inl (Sleeping (ChanBuf b))
     else andthen (free_chain 0 (s\<lparr>vd := (vd s)\<lparr>v_info_b := (v_info_b (vd s))(0 := None)\<rparr>\<rparr>)) (\<lambda>s. release VdiskLock s))"
proof -
  have sec: "(b_blockno (bf s b) * (BSIZE div 512)) mod 2 ^ 32 = 2 * n" using b by simp
  let ?l = "s\<lparr>held := [VdiskLock]\<rparr>"
  have acq: "acquire VdiskLock s = Inr ?l" using h by (simp add: lock_simps)
  have al: "alloc3_desc ?l = Inr (Some [0, 1, 2],
     ?l\<lparr>vd := (vd s)\<lparr>v_free := (v_free (vd s))(0 := False, 1 := False, 2 := False)\<rparr>\<rparr>)"
    using alloc3_desc_idle [of ?l] idle by (simp add: vd_idle_def)
  show ?thesis
    unfolding virtio_disk_rw_def sec acq Let_def andthen.simps(2) al
    by (cases wr; simp add: upd_vd_upd_vd upd_buf_upd_vd upd_vd_free cong: if_cong;
        intro arg_cong2 [where f = andthen] arg_cong [where f = "virtio_sleep b"];
        simp add: upd_vd_def upd_buf_def mmio_write_def u submitted_def cong: if_cong)
qed

text \<open>A transfer between buffer \<open>b\<close>, which holds block \<open>n\<close>, and the disk.\<close>

lemma virtio_disk_rw_spec:
  assumes ip: "in_proc p s" and idle: "vd_idle (vd s)" and dev: "device_ok (vdev s)"
    and b: "b < length (bufs s)" "b_blockno (bf s b) = n" "n < 2 ^ 31"
  shows "\<exists>tb v out. tb_le p (ptable s) tb \<and> vd_idle v \<and> virtio_disk_rw b wr s = Inr (s\<lparr>ptable := tb, vd := v, mmio_out := out,
     platter := (if wr then platter s @ [(n, b_data (bf s b))] else platter s),
     bufs := (bufs s)[b := (bufs s ! b)\<lparr>b_disk := False,
        b_data := (if wr then b_data (bf s b) else disk_block (platter s) n)\<rparr>]\<rparr>)"
proof -
  have p: "held s = []" "curproc s = Some p" "p < NPROC" "length (ptable s) = NPROC"
    "p_state (pr s p) = RUNNING" "p_chan (pr s p) = None" using ip by (simp_all add: in_proc_def)
  define bs where "bs = (bufs s)[b := (bufs s ! b)\<lparr>b_disk := False, b_data := (if wr then b_data (bf s b) else disk_block (platter s) n)\<rparr>]"
  define pl where "pl = (if wr then platter s @ [(n, b_data (bf s b))] else platter s)"
  define u where "u = s\<lparr>held := [VdiskLock], vd := submitted b wr n (vd s), mmio_out := mmio_out s @ [(0x050, 0)],
      bufs := (bufs s)[b := (bufs s ! b)\<lparr>b_disk := True\<rparr>]\<rparr>"
  define vu where "vu = submitted b wr n (vd s)"
  have udv: "v_used_dev vu = v_avail_idx (vd s)" "v_used_idx vu = v_avail_idx (vd s)" "v_avail_idx vu = v_avail_idx (vd s) + 1"
    "v_info_b vu 0 = Some b" using idle by (simp_all add: vu_def submitted_def vd_idle_def)
  define v where "v = vu\<lparr>v_status := (v_status vu)(0 := 0),
          v_used_ring := (v_used_ring vu)(unat (v_used_dev vu) mod NUM := 0), v_used_dev := v_used_dev vu + 1\<rparr>"
  define d where "d = (if wr then (\<lambda>i. b_data (bufs u ! i)) else (\<lambda>i. b_data (bufs u ! i))(b := disk_block (platter s) n))"
  have dv: "vdev u (vd u, (\<lambda>i. b_data (bufs u ! i)), platter u) = (v, d, pl)"
    using dev [unfolded device_ok_def, rule_format, OF submitted_request [OF idle]] b(1)
    by (simp add: u_def v_def vu_def d_def pl_def bf_def)
  have "(map (\<lambda>i. (bufs u ! i)\<lparr>b_data := d i\<rparr>) [0..<length (bufs u)])[b :=
       (map (\<lambda>i. (bufs u ! i)\<lparr>b_data := d i\<rparr>) [0..<length (bufs u)] ! b)\<lparr>b_disk := False\<rparr>] = bs"
    by (rule nth_equalityI) (use b(1) in \<open>auto simp: u_def bs_def d_def bf_def nth_list_update\<close>)
  moreover have "in_driver p u" using p by (simp add: in_driver_def u_def pr_def)
  ultimately obtain tb w where tb: "tb_le p (ptable s) tb" and sl: "virtio_sleep b u = Inr w" and w_def: "w = (u\<lparr>ptable := tb,
     vd := v\<lparr>v_used_idx := v_used_idx v + 1\<rparr>, platter := pl, mmio_out := mmio_out u @ [(0x064, mmio_in u 0x060 AND 3)], bufs := bs\<rparr>)"
    using virtio_sleep_spec [OF _ dv, where ?i0.0 = 0 and b = b and p = p] udv by (auto simp: v_def u_def)
  define t where "t = u\<lparr>ptable := tb, vd := v\<lparr>v_used_idx := v_used_idx v + 1, v_info_b := (v_info_b v)(0 := None)\<rparr>,
     platter := pl, mmio_out := mmio_out u @ [(0x064, mmio_in u 0x060 AND 3)], bufs := bs\<rparr>"
  have "in_driver p t" using p tb by (simp add: in_driver_def t_def u_def pr_def tb_le_def)
  moreover have "\<not> v_free (vd t) 0" "\<not> v_free (vd t) 1" "\<not> v_free (vd t) 2" "v_desc (vd t) = v_desc (submitted b wr n (vd s))"
    by (simp_all add: t_def v_def vu_def) (simp_all add: submitted_def)
  ultimately obtain tb' ds where tb': "tb_le p tb tb'" and fc: "free_chain 0 t = Inr (t\<lparr>ptable := tb',
     vd := (vd t)\<lparr>v_desc := ds, v_free := (v_free (vd t))(0 := True, 1 := True, 2 := True)\<rparr>\<rparr>)"
    using free_chain_three [of p t] by (auto simp: submitted_flags simp del: One_nat_def) (simp add: t_def)
  define v' where "v' = (vd t)\<lparr>v_desc := ds, v_free := (v_free (vd t))(0 := True, 1 := True, 2 := True)\<rparr>"
  have "\<not> b_disk (bs ! b)" using b(1) by (simp add: bs_def)
  then have "virtio_disk_rw b wr s = andthen (free_chain 0 (w\<lparr>vd := (vd w)\<lparr>v_info_b := (v_info_b (vd w))(0 := None)\<rparr>\<rparr>)) (release VdiskLock)"
    using virtio_disk_rw_submit [OF idle p(1) b(2,3) u_def] sl by (simp add: bf_def w_def)
  also have "w\<lparr>vd := (vd w)\<lparr>v_info_b := (v_info_b (vd w))(0 := None)\<rparr>\<rparr> = t" by (simp add: w_def t_def)
  also have "andthen (free_chain 0 t) (release VdiskLock) = Inr (s\<lparr>ptable := tb', vd := v', mmio_out := mmio_out t, platter := pl, bufs := bs\<rparr>)"
    unfolding fc using p(1) by (simp add: lock_simps v'_def t_def u_def)
  finally have "virtio_disk_rw b wr s = Inr (s\<lparr>ptable := tb', vd := v', mmio_out := mmio_out t, platter := pl, bufs := bs\<rparr>)" .
  moreover have "vd_idle v'" using idle udv by (simp add: v'_def t_def vd_idle_def v_def) (simp add: vu_def submitted_def)
  ultimately show ?thesis using tb_le_trans [OF tb tb'] by (fold bs_def pl_def) blast
qed

text \<open>
  C4: with a disk that works as the virtio specification says, a transfer that starts on an idle
  queue completes. A write appends exactly the block to what the disk has carried out, a
  read fills the buffer with the block's last written contents, and no other buffer changes. Afterwards all
  descriptors are free again, no lock is held, and the thread runs on.
\<close>

theorem virtio_disk_rw_correct:
  assumes "in_proc p s" "vd_idle (vd s)" "device_ok (vdev s)" "b < length (bufs s)" "b_blockno (bf s b) < 2 ^ 31"
  shows "returns (virtio_disk_rw b wr s) (\<lambda>t. in_proc p t \<and> vd_idle (vd t) \<and> \<not> b_disk (bf t b) \<and>
     platter t = (if wr then platter s @ [(b_blockno (bf s b), b_data (bf s b))] else platter s) \<and>
     b_data (bf t b) = (if wr then b_data (bf s b) else disk_block (platter s) (b_blockno (bf s b))) \<and>
     length (bufs t) = length (bufs s) \<and> (\<forall>c < length (bufs s). c \<noteq> b \<longrightarrow> bf t c = bf s c))"
proof -
  from virtio_disk_rw_spec [OF assms(1-4) refl assms(5), of wr]
  obtain tb v out where tb: "tb_le p (ptable s) tb" and v: "vd_idle v" and r: "virtio_disk_rw b wr s =
     Inr (s\<lparr>ptable := tb, vd := v, mmio_out := out,
     platter := (if wr then platter s @ [(b_blockno (bf s b), b_data (bf s b))] else platter s),
     bufs := (bufs s)[b := (bufs s ! b)\<lparr>b_disk := False,
        b_data := (if wr then b_data (bf s b) else disk_block (platter s) (b_blockno (bf s b)))\<rparr>]\<rparr>)"
    (is "_ = Inr ?t") by blast
  have "in_proc p ?t" using assms(1) by (rule in_proc_tb_le) (use assms(1) tb in \<open>simp_all add: in_proc_def\<close>)
  then show ?thesis using assms(4) v by (simp add: r bf_def)
qed

text \<open>A disk that does what the specification says, and a state that uses it.\<close>

definition demo_device :: device where
  "demo_device = (\<lambda>(v, d, pl).
     let i0 = v_avail_ring v (unat (v_used_dev v) mod NUM); n = r_sector (v_ops v i0) div 2;
         v' = v\<lparr>v_status := (v_status v)(i0 := 0),
                v_used_ring := (v_used_ring v)(unat (v_used_dev v) mod NUM := i0), v_used_dev := v_used_dev v + 1\<rparr>
     in case d_addr (v_desc v (d_next (v_desc v i0))) of
          DData b \<Rightarrow> if r_type (v_ops v i0) = VIRTIO_BLK_T_OUT then (v', d, pl @ [(n, d b)])
                     else (v', d(b := disk_block pl n), pl)
        | _ \<Rightarrow> (v, d, pl))"

lemma demo_device_ok: "device_ok demo_device"
  unfolding device_ok_def request_def demo_device_def by (simp add: Let_def)

definition demo_storage :: "buf list \<Rightarrow> platter \<Rightarrow> storage" where
  "demo_storage bs pl = \<lparr>held = [], mem = (\<lambda>_. 0), kend = 0x80001000, etext = 0, trampoline = 0, freelist = 0,
    kernel_pagetable = 0, satp = 0, ptable = replicate NPROC (demo_proc RUNNING None), curproc = Some 2, initproc = None,
    nextpid = 8, sym = (\<lambda>_. 0), slk = (\<lambda>_. \<lparr>sl_locked = 0, sl_pid = 0\<rparr>), bufs = bs,
    vd = \<lparr>v_desc = (\<lambda>_. \<lparr>d_addr = DNull, d_len = 0, d_flags = 0, d_next = 0\<rparr>), v_avail_ring = (\<lambda>_. 0), v_avail_idx = 65535,
      v_used_ring = (\<lambda>_. 0), v_used_dev = 65535, v_free = (\<lambda>_. True), v_used_idx = 65535, v_info_b = (\<lambda>_. None),
      v_status = (\<lambda>_. 0), v_ops = (\<lambda>_. \<lparr>r_type = 0, r_sector = 0\<rparr>), v_pages = []\<rparr>,
    platter = pl, vdev = demo_device, mmio_in = (\<lambda>_. 0), mmio_out = []\<rparr>"

lemma demo_storage_simps [simp]:
  "in_proc 2 (demo_storage bs pl)" "vd_idle (vd (demo_storage bs pl))" "device_ok (vdev (demo_storage bs pl))"
  "bufs (demo_storage bs pl) = bs" "platter (demo_storage bs pl) = pl" "curproc (demo_storage bs pl) = Some 2"
  "ptable (demo_storage bs pl) = replicate NPROC (demo_proc RUNNING None)" "held (demo_storage bs pl) = []"
  "slk (demo_storage bs pl) = (\<lambda>_. \<lparr>sl_locked = 0, sl_pid = 0\<rparr>)"
  by (simp_all add: demo_storage_def in_proc_def pr_def demo_proc_def vd_idle_def demo_device_ok)

theorem virtio_disk_rw_correct_witness:
  "returns (virtio_disk_rw 0 False (demo_storage
      [\<lparr>b_valid = False, b_disk = False, b_dev = 1, b_blockno = 7, b_refcnt = 1, b_prev = 0, b_next = 0, b_data = []\<rparr>]
      [(7, [1]), (7, [2])]))
     (\<lambda>t. b_data (bf t 0) = [2] \<and> vd_idle (vd t))"
  using virtio_disk_rw_correct [of 2 "demo_storage
      [\<lparr>b_valid = False, b_disk = False, b_dev = 1, b_blockno = 7, b_refcnt = 1, b_prev = 0, b_next = 0, b_data = []\<rparr>]
      [(7, [1]), (7, [2])]" 0 False]
  by (auto simp: bf_def disk_block_def elim!: returns_mono)

end
