(* ===== verification/Bio.thy ===== *)
theory Bio
  imports Virtio
begin

section \<open>The buffer cache\<close>

text \<open>
  \<^verbatim>\<open>kernel/bio.c\<close>. The buffers are the array \<open>bufs\<close> of the state; index \<^verbatim>\<open>NBUF\<close> is
  \<^verbatim>\<open>bcache.head\<close>, and \<open>b_prev\<close>, \<open>b_next\<close> are the links of the list that is sorted by how
  recently a buffer was used. The walks of \<^verbatim>\<open>bget\<close> along that list carry fuel, which
  \<open>ring_find\<close> shows to be enough on a well-formed list.

  The lemmas show that the links form one ring through all buffers (\<open>ring\<close>), that the routines refine a
  list of buffers ordered by use, that no block is ever cached twice, and that what a
  reader of a block sees is the last contents written to it, in the cache or on the disk (\<open>blk\<close>).
\<close>

subsection \<open>The routines\<close>

text \<open>The assignments that put a buffer behind the head, and those that take it out of the list.\<close>

definition link_front :: "nat \<Rightarrow> 'a storage_scheme \<Rightarrow> 'a storage_scheme" where
  "link_front b s =
     (let s = upd_buf b (\<lambda>q. q\<lparr>b_next := b_next (bf s NBUF)\<rparr>) s;
          s = upd_buf b (\<lambda>q. q\<lparr>b_prev := NBUF\<rparr>) s;
          s = upd_buf (b_next (bf s NBUF)) (\<lambda>q. q\<lparr>b_prev := b\<rparr>) s
      in upd_buf NBUF (\<lambda>q. q\<lparr>b_next := b\<rparr>) s)"

definition unlink_buf :: "nat \<Rightarrow> 'a storage_scheme \<Rightarrow> 'a storage_scheme" where
  "unlink_buf b s =
     (let s = upd_buf (b_next (bf s b)) (\<lambda>q. q\<lparr>b_prev := b_prev (bf s b)\<rparr>) s
      in upd_buf (b_prev (bf s b)) (\<lambda>q. q\<lparr>b_next := b_next (bf s b)\<rparr>) s)"

definition binit :: "'a storage_scheme \<Rightarrow> 'a storage_scheme" where
  "binit s =
     (let s = upd_buf NBUF (\<lambda>q. q\<lparr>b_prev := NBUF\<rparr>) s;
          s = upd_buf NBUF (\<lambda>q. q\<lparr>b_next := NBUF\<rparr>) s
      in fold (\<lambda>b s. link_front b (initsleeplock (BufLock b) s)) [0..<NBUF] s)"

text \<open>The two walks of \<^verbatim>\<open>bget\<close>: for the block, and backwards for an unused buffer.\<close>

fun bget_cached :: "nat \<Rightarrow> nat \<Rightarrow> nat \<Rightarrow> nat \<Rightarrow> 'a storage_scheme \<Rightarrow> exn + nat option" where
  "bget_cached 0 b dev blockno s = Inl OutOfFuel"
| "bget_cached (Suc k) b dev blockno s =
     (if b = NBUF then Inr None
      else if b_dev (bf s b) = dev \<and> b_blockno (bf s b) = blockno then Inr (Some b)
      else bget_cached k (b_next (bf s b)) dev blockno s)"

fun bget_unused :: "nat \<Rightarrow> nat \<Rightarrow> 'a storage_scheme \<Rightarrow> exn + nat option" where
  "bget_unused 0 b s = Inl OutOfFuel"
| "bget_unused (Suc k) b s =
     (if b = NBUF then Inr None
      else if b_refcnt (bf s b) = 0 then Inr (Some b)
      else bget_unused k (b_prev (bf s b)) s)"

definition bget :: "nat \<Rightarrow> nat \<Rightarrow> 'a storage_scheme \<Rightarrow> exn + (nat \<times> 'a storage_scheme)" where
  "bget dev blockno s =
     andthen (acquire BcacheLock s) (\<lambda>s.
     andthen (bget_cached (Suc NBUF) (b_next (bf s NBUF)) dev blockno s) (\<lambda>r.
     case r of
       Some b \<Rightarrow>
         let s = upd_buf b (\<lambda>q. q\<lparr>b_refcnt := b_refcnt q + 1\<rparr>) s in
         andthen (release BcacheLock s) (\<lambda>s.
         andthen (acquiresleep (BufLock b) s) (\<lambda>s. Inr (b, s)))
     | None \<Rightarrow>
         andthen (bget_unused (Suc NBUF) (b_prev (bf s NBUF)) s) (\<lambda>r.
         case r of
           Some b \<Rightarrow>
             let s = upd_buf b (\<lambda>q. q\<lparr>b_dev := dev\<rparr>) s;
                 s = upd_buf b (\<lambda>q. q\<lparr>b_blockno := blockno\<rparr>) s;
                 s = upd_buf b (\<lambda>q. q\<lparr>b_valid := False\<rparr>) s;
                 s = upd_buf b (\<lambda>q. q\<lparr>b_refcnt := 1\<rparr>) s in
             andthen (release BcacheLock s) (\<lambda>s.
             andthen (acquiresleep (BufLock b) s) (\<lambda>s. Inr (b, s)))
         | None \<Rightarrow> Inl (Panic ''bget: no buffers''))))"

definition bread :: "nat \<Rightarrow> nat \<Rightarrow> 'a storage_scheme \<Rightarrow> exn + (nat \<times> 'a storage_scheme)" where
  "bread dev blockno s =
     andthen (bget dev blockno s) (\<lambda>(b, s).
     if \<not> b_valid (bf s b) then
       andthen (virtio_disk_rw b False s) (\<lambda>s. Inr (b, upd_buf b (\<lambda>q. q\<lparr>b_valid := True\<rparr>) s))
     else Inr (b, s))"

definition bwrite :: "nat \<Rightarrow> 'a storage_scheme \<Rightarrow> exn + 'a storage_scheme" where
  "bwrite b s =
     andthen (holdingsleep (BufLock b) s) (\<lambda>(r, s).
     if \<not> r then Inl (Panic ''bwrite'') else virtio_disk_rw b True s)"

definition brelse :: "nat \<Rightarrow> 'a storage_scheme \<Rightarrow> exn + 'a storage_scheme" where
  "brelse b s =
     andthen (holdingsleep (BufLock b) s) (\<lambda>(r, s).
     if \<not> r then Inl (Panic ''brelse'')
     else
       andthen (releasesleep (BufLock b) s) (\<lambda>s.
       andthen (acquire BcacheLock s) (\<lambda>s.
       let s = upd_buf b (\<lambda>q. q\<lparr>b_refcnt := b_refcnt q - 1\<rparr>) s;
           s = (if b_refcnt (bf s b) = 0 then link_front b (unlink_buf b s) else s)
       in release BcacheLock s)))"

definition bpin :: "nat \<Rightarrow> 'a storage_scheme \<Rightarrow> exn + 'a storage_scheme" where
  "bpin b s =
     andthen (acquire BcacheLock s) (\<lambda>s.
     release BcacheLock (upd_buf b (\<lambda>q. q\<lparr>b_refcnt := b_refcnt q + 1\<rparr>) s))"

definition bunpin :: "nat \<Rightarrow> 'a storage_scheme \<Rightarrow> exn + 'a storage_scheme" where
  "bunpin b s =
     andthen (acquire BcacheLock s) (\<lambda>s.
     release BcacheLock (upd_buf b (\<lambda>q. q\<lparr>b_refcnt := b_refcnt q - 1\<rparr>) s))"

subsection \<open>The ring of buffers\<close>

definition linked :: "buf list \<Rightarrow> nat \<Rightarrow> nat \<Rightarrow> bool" where
  "linked bs a b \<longleftrightarrow> b_next (bs ! a) = b \<and> b_prev (bs ! b) = a"

text \<open>The list runs from the head through the buffers \<open>xs\<close>, most recently used first, back to the head.\<close>

definition ring :: "buf list \<Rightarrow> nat list \<Rightarrow> bool" where
  "ring bs xs \<longleftrightarrow> length bs = Suc NBUF \<and> distinct xs \<and> set xs \<subseteq> {..<NBUF} \<and> successively (linked bs) (NBUF # xs @ [NBUF])"

lemma successively_ends:
  assumes "successively P xs" "\<And>x y. x \<in> set (butlast xs) \<Longrightarrow> y \<in> set (tl xs) \<Longrightarrow> P x y \<Longrightarrow> Q x y"
  shows "successively Q xs"
  using assms
proof (induction xs)
  case (Cons x xs)
  then show ?case by (cases xs) (auto split: if_splits)
qed simp

lemma distinct_hd_tl: "distinct xs \<Longrightarrow> hd xs \<notin> set (tl xs)"
  by (cases xs) (auto dest: in_set_dropD simp: tl_Nil)

lemma distinct_last_butlast: "distinct xs \<Longrightarrow> last xs \<notin> set (butlast xs)"
  by (cases xs rule: rev_cases) auto

lemma ring_ends:
  assumes "ring bs xs"
  shows "b_next (bs ! NBUF) = hd (xs @ [NBUF])" "b_prev (bs ! NBUF) = last (NBUF # xs)"
proof -
  have s: "successively (linked bs) (NBUF # xs @ [NBUF])" using assms by (simp add: ring_def)
  then show "b_next (bs ! NBUF) = hd (xs @ [NBUF])" by (cases xs) (simp_all add: linked_def)
  from s have "successively (linked bs) ((NBUF # xs) @ [NBUF])" by simp
  then show "b_prev (bs ! NBUF) = last (NBUF # xs)"
    unfolding successively_append_iff by (simp add: linked_def)
qed

lemma ring_link:
  assumes r: "ring bs xs" and b: "b < NBUF" "b \<notin> set xs" and l: "length cs = length bs"
    and n: "\<And>i. i \<le> NBUF \<Longrightarrow> b_next (cs ! i) = (if i = NBUF then b else if i = b then hd (xs @ [NBUF]) else b_next (bs ! i))"
    and p: "\<And>i. i \<le> NBUF \<Longrightarrow> b_prev (cs ! i) = (if i = hd (xs @ [NBUF]) then b else if i = b then NBUF else b_prev (bs ! i))"
  shows "ring cs (b # xs)"
proof -
  define f where "f = hd (xs @ [NBUF])"
  have xs: "length bs = Suc NBUF" "distinct xs" "set xs \<subseteq> {..<NBUF}" "successively (linked bs) (xs @ [NBUF])"
    using r by (auto simp: ring_def successively_Cons)
  then have "distinct (xs @ [NBUF])" by auto
  then have tl: "f \<notin> set (tl (xs @ [NBUF]))" "f \<in> set (xs @ [NBUF])"
    unfolding f_def using hd_in_set [of "xs @ [NBUF]"] by (simp_all add: distinct_hd_tl)
  have "successively (linked cs) (xs @ [NBUF])"
  proof (rule successively_ends [OF xs(4)])
    fix x y assume "x \<in> set (butlast (xs @ [NBUF]))" "y \<in> set (tl (xs @ [NBUF]))" and lk: "linked bs x y"
    moreover from this have "y \<in> set (xs @ [NBUF])" using list.set_sel(2) [of "xs @ [NBUF]"] by blast
    ultimately have "x \<noteq> NBUF" "x \<noteq> b" "y \<noteq> f" "y \<noteq> b" "x \<le> NBUF" "y \<le> NBUF"
      using tl b xs(3) by auto
    with lk n [of x] p [of y] show "linked cs x y" by (simp add: linked_def f_def)
  qed
  moreover have "f \<le> NBUF" "f \<noteq> b" using tl(2) xs(3) b by auto
  then have "linked cs NBUF b" "linked cs b f"
    using n [of NBUF] n [of b] p [of b] p [of f] b by (simp_all add: linked_def f_def)
  ultimately have "successively (linked cs) (NBUF # b # xs @ [NBUF])"
    by (simp add: successively_Cons f_def)
  then show ?thesis using xs b l by (simp add: ring_def)
qed

lemma ring_unlink:
  assumes r: "ring bs (ys @ b # zs)" and l: "length cs = length bs"
    and n: "\<And>i. i \<le> NBUF \<Longrightarrow> b_next (cs ! i) = (if i = b_prev (bs ! b) then b_next (bs ! b) else b_next (bs ! i))"
    and p: "\<And>i. i \<le> NBUF \<Longrightarrow> b_prev (cs ! i) = (if i = b_next (bs ! b) then b_prev (bs ! b) else b_prev (bs ! i))"
  shows "ring cs (ys @ zs)"
proof -
  have d: "distinct (ys @ b # zs)" "set (ys @ b # zs) \<subseteq> {..<NBUF}" "length bs = Suc NBUF"
    and s: "successively (linked bs) ((NBUF # ys) @ [b] @ (zs @ [NBUF]))"
    using r by (simp_all add: ring_def)
  define f where "f = last (NBUF # ys)" define g where "g = hd (zs @ [NBUF])"
  have s1: "successively (linked bs) (NBUF # ys)" and s2: "successively (linked bs) (zs @ [NBUF])"
    and bf: "linked bs f b" and bg: "linked bs b g"
    using s unfolding successively_append_iff by (auto simp: f_def g_def)
  have fg: "b_prev (bs ! b) = f" "b_next (bs ! b) = g" using bf bg by (simp_all add: linked_def)
  have "distinct (NBUF # ys)" "distinct (zs @ [NBUF])" using d by auto
  then have fb: "f \<notin> set (butlast (NBUF # ys))" and gt: "g \<notin> set (tl (zs @ [NBUF]))"
    unfolding f_def g_def by - (erule distinct_last_butlast, erule distinct_hd_tl)
  have fm: "f \<in> set (NBUF # ys)" and gm: "g \<in> set (zs @ [NBUF])"
    unfolding f_def g_def using last_in_set [of "NBUF # ys"] hd_in_set [of "zs @ [NBUF]"] by simp_all
  have "successively (linked cs) (NBUF # ys)"
  proof (rule successively_ends [OF s1])
    fix x y assume "x \<in> set (butlast (NBUF # ys))" "y \<in> set (tl (NBUF # ys))" and lk: "linked bs x y"
    then have "x \<noteq> f" "y \<noteq> g" "x \<le> NBUF" "y \<le> NBUF" using fb gm d in_set_butlastD [of x "NBUF # ys"] by auto
    with lk n [of x] p [of y] fg show "linked cs x y" by (simp add: linked_def)
  qed
  moreover have "successively (linked cs) (zs @ [NBUF])"
  proof (rule successively_ends [OF s2])
    fix x y assume "x \<in> set (butlast (zs @ [NBUF]))" "y \<in> set (tl (zs @ [NBUF]))" and lk: "linked bs x y"
    moreover from this have "y \<in> set (zs @ [NBUF])" using list.set_sel(2) [of "zs @ [NBUF]"] by blast
    ultimately have "x \<noteq> f" "y \<noteq> g" "x \<le> NBUF" "y \<le> NBUF" using fm gt d by auto
    with lk n [of x] p [of y] fg show "linked cs x y" by (simp add: linked_def)
  qed
  moreover have "linked cs f g" using n [of f] p [of g] fm gm fg d by (auto simp: linked_def)
  ultimately have "successively (linked cs) ((NBUF # ys) @ (zs @ [NBUF]))"
    unfolding successively_append_iff by (simp add: f_def g_def)
  then show ?thesis using d l by (simp add: ring_def)
qed

text \<open>The walks stop after at most \<^verbatim>\<open>NBUF\<close> buffers and find the first one they look for.\<close>

lemma ring_find:
  assumes "ring (bufs s) xs"
  shows "bget_cached (Suc NBUF) (b_next (bf s NBUF)) dev n s = Inr (find (\<lambda>b. b_dev (bf s b) = dev \<and> b_blockno (bf s b) = n) xs)"
    "bget_unused (Suc NBUF) (b_prev (bf s NBUF)) s = Inr (find (\<lambda>b. b_refcnt (bf s b) = 0) (rev xs))"
proof -
  have sc: "successively (linked (bufs s)) (NBUF # xs @ [NBUF])" and xs: "set xs \<subseteq> {..<NBUF}" "length xs \<le> NBUF"
    using assms card_mono [of "{..<NBUF}" "set xs"] by (auto simp: ring_def distinct_card)
  have "bget_cached (Suc k) (hd (ys @ [NBUF])) dev n s = Inr (find (\<lambda>b. b_dev (bf s b) = dev \<and> b_blockno (bf s b) = n) ys)"
    if "successively (linked (bufs s)) (ys @ [NBUF])" "length ys \<le> k" "set ys \<subseteq> {..<NBUF}" for ys k
    using that
  proof (induction ys arbitrary: k)
    case (Cons y ys)
    then obtain j where k: "k = Suc j" by (cases k) auto
    have "b_next (bf s y) = hd (ys @ [NBUF])"
      using Cons.prems(1) by (cases ys) (auto simp: linked_def bf_def)
    moreover have "successively (linked (bufs s)) (ys @ [NBUF])" using Cons.prems(1) by (simp add: successively_Cons)
    ultimately show ?case using Cons.IH [of j] Cons.prems k by simp
  qed simp
  from this [of xs NBUF] show "bget_cached (Suc NBUF) (b_next (bf s NBUF)) dev n s = Inr (find (\<lambda>b. b_dev (bf s b) = dev \<and> b_blockno (bf s b) = n) xs)"
    using sc xs ring_ends(1) [OF assms] by (simp add: bf_def successively_Cons)
  have un: "bget_unused (Suc k) (last (NBUF # ys)) s = Inr (find (\<lambda>b. b_refcnt (bf s b) = 0) (rev ys))"
    if "successively (linked (bufs s)) (NBUF # ys)" "length ys \<le> k" "set ys \<subseteq> {..<NBUF}" for ys k
    using that
  proof (induction ys arbitrary: k rule: rev_induct)
    case (snoc y ys)
    then obtain j where k: "k = Suc j" by (cases k) auto
    have "successively (linked (bufs s)) ((NBUF # ys) @ [y])" using snoc.prems(1) by simp
    then have "b_prev (bf s y) = last (NBUF # ys)" "successively (linked (bufs s)) (NBUF # ys)"
      unfolding successively_append_iff by (simp_all add: linked_def bf_def)
    then have "bget_unused (Suc j) (b_prev (bf s y)) s = Inr (find (\<lambda>b. b_refcnt (bf s b) = 0) (rev ys))"
      using snoc.IH [of j] snoc.prems k by simp
    moreover have "last (NBUF # ys @ [y]) = y" "y \<noteq> NBUF" using snoc.prems(3) by auto
    ultimately show ?case unfolding k bget_unused.simps(2) [of "Suc j"] by (simp del: bget_unused.simps last.simps)
  qed simp
  have "successively (linked (bufs s)) ((NBUF # xs) @ [NBUF])" using sc by simp
  then have "successively (linked (bufs s)) (NBUF # xs)" unfolding successively_append_iff by simp
  from un [OF this xs(2,1)] show "bget_unused (Suc NBUF) (b_prev (bf s NBUF)) s = Inr (find (\<lambda>b. b_refcnt (bf s b) = 0) (rev xs))"
    using ring_ends(2) [OF assms] by (simp add: bf_def del: bget_unused.simps)
qed

text \<open>The fields other than the links.\<close>

definition body :: "buf \<Rightarrow> buf" where
  "body q = q\<lparr>b_prev := 0, b_next := 0\<rparr>"

lemma body_fields:
  assumes "map body bs = map body cs"
  shows "length bs = length cs" "i < length cs \<Longrightarrow> b_valid (bs ! i) = b_valid (cs ! i)" "i < length cs \<Longrightarrow> b_dev (bs ! i) = b_dev (cs ! i)"
    "i < length cs \<Longrightarrow> b_blockno (bs ! i) = b_blockno (cs ! i)" "i < length cs \<Longrightarrow> b_refcnt (bs ! i) = b_refcnt (cs ! i)"
    "i < length cs \<Longrightarrow> b_data (bs ! i) = b_data (cs ! i)" "i < length cs \<Longrightarrow> b_disk (bs ! i) = b_disk (cs ! i)"
proof -
  show l: "length bs = length cs" using map_eq_imp_length_eq [OF assms] .
  have e: "body (bs ! i) = body (cs ! i)" if "i < length cs"
    using assms l that by (metis nth_map)
  show "i < length cs \<Longrightarrow> b_valid (bs ! i) = b_valid (cs ! i)" "i < length cs \<Longrightarrow> b_dev (bs ! i) = b_dev (cs ! i)"
    "i < length cs \<Longrightarrow> b_blockno (bs ! i) = b_blockno (cs ! i)" "i < length cs \<Longrightarrow> b_refcnt (bs ! i) = b_refcnt (cs ! i)"
    "i < length cs \<Longrightarrow> b_data (bs ! i) = b_data (cs ! i)" "i < length cs \<Longrightarrow> b_disk (bs ! i) = b_disk (cs ! i)"
    using e by (cases "bs ! i"; cases "cs ! i"; simp add: body_def)+
qed

lemma map_body_update: "map body (bs[i := q]) = (map body bs)[i := body q]"
  by (rule map_update)

lemma body_upd [simp]:
  "body (q\<lparr>b_prev := x\<rparr>) = body q" "body (q\<lparr>b_next := x\<rparr>) = body q"
  by (simp_all add: body_def)

lemma bufs_upd_buf: "bufs (upd_buf i f s) = (bufs s)[i := f (bufs s ! i)]"
  by (simp add: upd_buf_def)

lemma map_body_upd_buf: "(\<And>q. body (f q) = body q) \<Longrightarrow> map body (bufs (upd_buf i f s)) = map body (bufs s)"
  by (cases "i < length (bufs s)")
    (simp_all add: upd_buf_def map_body_update list_update_same_conv list_update_beyond)

text \<open>Both list operations only change links.\<close>

definition links_only :: "'a storage_scheme \<Rightarrow> 'a storage_scheme \<Rightarrow> bool" where
  "links_only s t \<longleftrightarrow> map body (bufs t) = map body (bufs s) \<and> (\<exists>bs. t = s\<lparr>bufs := bs\<rparr>)"

lemma link_front_links: "links_only s (link_front b s)"
proof -
  have "\<exists>bs. link_front b s = s\<lparr>bufs := bs\<rparr>" by (auto simp: link_front_def upd_buf_def Let_def)
  then show ?thesis by (simp add: links_only_def link_front_def map_body_upd_buf Let_def)
qed

lemma unlink_buf_links: "links_only s (unlink_buf b s)"
proof -
  have "\<exists>bs. unlink_buf b s = s\<lparr>bufs := bs\<rparr>" by (auto simp: unlink_buf_def upd_buf_def Let_def)
  then show ?thesis by (simp add: links_only_def unlink_buf_def map_body_upd_buf Let_def)
qed

lemma links_only_trans: "links_only s t \<Longrightarrow> links_only t u \<Longrightarrow> links_only s u"
  by (auto simp: links_only_def)

lemma link_front_ring:
  assumes r: "ring (bufs s) xs" and b: "b < NBUF" "b \<notin> set xs"
  shows "ring (bufs (link_front b s)) (b # xs)"
proof (rule ring_link [OF r b])
  have l: "length (bufs s) = Suc NBUF" and f: "hd (xs @ [NBUF]) \<le> NBUF" "hd (xs @ [NBUF]) \<noteq> b"
    using r b hd_in_set [of "xs @ [NBUF]"] by (auto simp: ring_def)
  note h = ring_ends(1) [OF r]
  show "length (bufs (link_front b s)) = length (bufs s)" by (simp add: link_front_def upd_buf_def Let_def)
  fix i assume i: "i \<le> NBUF"
  show "b_next (bufs (link_front b s) ! i) = (if i = NBUF then b else if i = b then hd (xs @ [NBUF]) else b_next (bufs s ! i))"
    using i l b h f by (simp add: link_front_def upd_buf_def bf_def Let_def nth_list_update)
  show "b_prev (bufs (link_front b s) ! i) = (if i = hd (xs @ [NBUF]) then b else if i = b then NBUF else b_prev (bufs s ! i))"
    using i l b h f by (simp add: link_front_def upd_buf_def bf_def Let_def nth_list_update)
qed

lemma unlink_buf_ring:
  assumes r: "ring (bufs s) (ys @ b # zs)"
  shows "ring (bufs (unlink_buf b s)) (ys @ zs)"
proof (rule ring_unlink [OF r])
  have l: "length (bufs s) = Suc NBUF" using r by (simp add: ring_def)
  have "successively (linked (bufs s)) ((NBUF # ys) @ [b] @ (zs @ [NBUF]))" and d: "distinct (ys @ b # zs)" "set (ys @ b # zs) \<subseteq> {..<NBUF}"
    using r by (simp_all add: ring_def)
  then have "linked (bufs s) (last (NBUF # ys)) b" "linked (bufs s) b (hd (zs @ [NBUF]))"
    unfolding successively_append_iff by auto
  moreover have "last (NBUF # ys) \<in> set (NBUF # ys)" "hd (zs @ [NBUF]) \<in> set (zs @ [NBUF])"
    by (rule last_in_set hd_in_set; simp)+
  ultimately have n: "b_next (bufs s ! b) \<noteq> b" "b_prev (bufs s ! b) \<noteq> b" "b_next (bufs s ! b) \<le> NBUF" "b_prev (bufs s ! b) \<le> NBUF"
    using d by (auto simp: linked_def)
  show "length (bufs (unlink_buf b s)) = length (bufs s)" by (simp add: unlink_buf_def upd_buf_def Let_def)
  fix i assume i: "i \<le> NBUF"
  show "b_next (bufs (unlink_buf b s) ! i) = (if i = b_prev (bufs s ! b) then b_next (bufs s ! b) else b_next (bufs s ! i))"
    using i l n by (simp add: unlink_buf_def upd_buf_def bf_def Let_def nth_list_update)
  show "b_prev (bufs (unlink_buf b s) ! i) = (if i = b_next (bufs s ! b) then b_prev (bufs s ! b) else b_prev (bufs s ! i))"
    using i l n by (simp add: unlink_buf_def upd_buf_def bf_def Let_def nth_list_update)
qed

subsection \<open>The invariant and what the cache stands for\<close>

text \<open>
  Buffer contents that no one refers to agree with the disk, so that they can be dropped. A
  buffer somebody refers to has been read. Device 0 is the mark of a buffer that was never used.
\<close>

definition buf_ok :: "platter \<Rightarrow> buf \<Rightarrow> bool \<Rightarrow> bool" where
  "buf_ok pl q lk \<longleftrightarrow> (b_dev q = 0 \<or> b_dev q = ROOTDEV) \<and> (b_dev q = 0 \<longrightarrow> \<not> b_valid q \<and> b_refcnt q = 0) \<and>
     length (b_data q) = BSIZE \<and> (b_refcnt q \<noteq> 0 \<longrightarrow> b_valid q) \<and>
     (b_refcnt q = 0 \<longrightarrow> \<not> lk \<and> (b_valid q \<longrightarrow> b_data q = disk_block pl (b_blockno q)))"

definition buf_locked :: "'a storage_scheme \<Rightarrow> nat \<Rightarrow> bool" where
  "buf_locked s b \<longleftrightarrow> sl_locked (slk s (BufLock b)) \<noteq> 0"

definition cached :: "'a storage_scheme \<Rightarrow> nat \<Rightarrow> nat \<Rightarrow> bool" where
  "cached s b n \<longleftrightarrow> b < NBUF \<and> b_dev (bf s b) = ROOTDEV \<and> b_blockno (bf s b) = n"

definition once :: "'a storage_scheme \<Rightarrow> bool" where
  "once s \<longleftrightarrow> (\<forall>i j n. cached s i n \<longrightarrow> cached s j n \<longrightarrow> i = j)"

definition bcache_ok :: "'a storage_scheme \<Rightarrow> bool" where
  "bcache_ok s \<longleftrightarrow> (\<exists>xs. ring (bufs s) xs \<and> set xs = {..<NBUF}) \<and> once s \<and>
     (\<forall>i < NBUF. buf_ok (platter s) (bf s i) (buf_locked s i)) \<and> (\<forall>w \<in> set (platter s). length (snd w) = BSIZE)"

text \<open>The buffer of a block, the contents a reader of the block sees, its references, its lock.\<close>

definition buf_of :: "'a storage_scheme \<Rightarrow> nat \<Rightarrow> nat option" where
  "buf_of s n = find (\<lambda>b. cached s b n) [0..<NBUF]"

definition blk :: "'a storage_scheme \<Rightarrow> nat \<Rightarrow> block" where
  "blk s n = (case buf_of s n of
     Some b \<Rightarrow> if b_valid (bf s b) then b_data (bf s b) else disk_block (platter s) n
   | None \<Rightarrow> disk_block (platter s) n)"

definition refs :: "'a storage_scheme \<Rightarrow> nat \<Rightarrow> nat" where
  "refs s n = (case buf_of s n of Some b \<Rightarrow> unat (b_refcnt (bf s b)) | None \<Rightarrow> 0)"

definition blk_locked :: "'a storage_scheme \<Rightarrow> nat \<Rightarrow> bool" where
  "blk_locked s n = (case buf_of s n of Some b \<Rightarrow> buf_locked s b | None \<Rightarrow> False)"

text \<open>Process \<open>p\<close> has block \<open>n\<close> locked, in buffer \<open>b\<close>.\<close>

definition holds :: "nat \<Rightarrow> 'a storage_scheme \<Rightarrow> nat \<Rightarrow> nat \<Rightarrow> bool" where
  "holds p s b n \<longleftrightarrow> cached s b n \<and> b_refcnt (bf s b) \<noteq> 0 \<and> buf_locked s b \<and> sl_pid (slk s (BufLock b)) = p_pid (pr s p)"

lemma disk_block_length: "\<forall>w \<in> set pl. length (snd w) = BSIZE \<Longrightarrow> length (disk_block pl n) = BSIZE"
proof -
  assume pl: "\<forall>w \<in> set pl. length (snd w) = BSIZE"
  show ?thesis
  proof (cases "find (\<lambda>w. fst w = n) (rev pl)")
    case (Some w)
    then have "w \<in> set pl" using nth_mem [of _ "rev pl"] by (auto simp: find_Some_iff)
    then show ?thesis using pl Some by (simp add: disk_block_def)
  qed (simp add: disk_block_def)
qed

lemma disk_block_append: "disk_block (pl @ [(m, d)]) n = (if n = m then d else disk_block pl n)"
  by (simp add: disk_block_def)

lemma buf_of_iff: "once s \<Longrightarrow> buf_of s n = Some b \<longleftrightarrow> cached s b n"
proof
  assume "buf_of s n = Some b"
  then show "cached s b n" by (auto simp: buf_of_def find_Some_iff)
next
  assume o: "once s" and c: "cached s b n"
  then obtain c where "buf_of s n = Some c"
    by (cases "buf_of s n") (auto simp: buf_of_def find_None_iff cached_def)
  moreover from this have "cached s c n" by (auto simp: buf_of_def find_Some_iff)
  ultimately show "buf_of s n = Some b" using o c by (simp add: once_def)
qed

lemma buf_of_None: "buf_of s n = None \<longleftrightarrow> (\<forall>b. \<not> cached s b n)"
  by (auto simp: buf_of_def find_None_iff cached_def)

text \<open>The state of one buffer changes so that it then holds block \<open>n\<close>.\<close>

definition one_buf :: "'a storage_scheme \<Rightarrow> 'a storage_scheme \<Rightarrow> nat \<Rightarrow> nat \<Rightarrow> buf \<Rightarrow> bool" where
  "one_buf s t b n q \<longleftrightarrow> b < NBUF \<and> bufs t = (bufs s)[b := q] \<and>
     b_dev q = ROOTDEV \<and> b_blockno q = n \<and> b_next q = b_next (bf s b) \<and> b_prev q = b_prev (bf s b) \<and>
     (\<forall>i. i \<noteq> b \<longrightarrow> slk t (BufLock i) = slk s (BufLock i) \<and> \<not> cached s i n) \<and>
     (\<forall>m. m \<noteq> n \<longrightarrow> disk_block (platter t) m = disk_block (platter s) m) \<and>
     (\<forall>w \<in> set (platter t). length (snd w) = BSIZE)"

lemma bcache_ok_length: "bcache_ok s \<Longrightarrow> length (bufs s) = Suc NBUF"
  by (auto simp: bcache_ok_def ring_def)

lemma one_buf_bf: "bcache_ok s \<Longrightarrow> one_buf s t b n q \<Longrightarrow> bf t i = (if i = b then q else bf s i)"
  using bcache_ok_length [of s] by (cases "i = b") (auto simp: bf_def one_buf_def)

lemma one_buf_cached:
  assumes s: "bcache_ok s" and ob: "one_buf s t b n q"
  shows "cached t i m \<longleftrightarrow> (if i = b then m = n else cached s i m)"
proof -
  have "b < NBUF" "b_dev q = ROOTDEV" "b_blockno q = n" using ob by (simp_all add: one_buf_def)
  then show ?thesis by (auto simp: cached_def one_buf_bf [OF s ob])
qed

lemma one_buf_once:
  assumes s: "bcache_ok s" and ob: "one_buf s t b n q"
  shows "once t"
proof -
  have o: "once s" and "\<And>i. i \<noteq> b \<Longrightarrow> \<not> cached s i n" using s ob by (simp_all add: bcache_ok_def one_buf_def)
  then show ?thesis by (auto simp: once_def one_buf_cached [OF s ob] split: if_splits)
qed

lemma one_buf_buf_of:
  assumes s: "bcache_ok s" and ob: "one_buf s t b n q"
  shows "buf_of t m = (if m = n then Some b else if buf_of s m = Some b then None else buf_of s m)"
proof (cases "m = n \<or> buf_of s m \<noteq> Some b")
  case True
  note once_t = one_buf_once [OF s ob] and cached_t = one_buf_cached [OF s ob]
  have o: "once s" using s by (simp add: bcache_ok_def)
  show ?thesis
  proof (cases "m = n")
    case False
    with True have "buf_of s m \<noteq> Some b" by simp
    then have "\<forall>c. (buf_of t m = Some c) = (buf_of s m = Some c)"
      by (auto simp: buf_of_iff [OF once_t] buf_of_iff [OF o] cached_t False)
    then have "buf_of t m = buf_of s m" by (metis not_None_eq)
    then show ?thesis using False \<open>buf_of s m \<noteq> Some b\<close> by simp
  qed (simp add: buf_of_iff [OF once_t] cached_t)
next
  case False
  have o: "once s" using s by (simp add: bcache_ok_def)
  with False have "cached s b m" by (simp add: buf_of_iff)
  then have "cached s i m \<Longrightarrow> i = b" for i using o by (simp add: once_def)
  then have "buf_of t m = None" using False by (auto simp: buf_of_None one_buf_cached [OF s ob])
  then show ?thesis using False by simp
qed

lemma one_buf_ring:
  assumes s: "bcache_ok s" and ob: "one_buf s t b n q" and r: "ring (bufs s) xs"
  shows "ring (bufs t) xs"
proof -
  have "b_next (bufs t ! i) = b_next (bufs s ! i)" "b_prev (bufs t ! i) = b_prev (bufs s ! i)" for i
    using one_buf_bf [OF s ob, of i] ob by (auto simp: bf_def one_buf_def split: if_splits)
  then have "linked (bufs t) = linked (bufs s)" by (simp add: linked_def fun_eq_iff)
  then show ?thesis using r ob by (simp add: ring_def one_buf_def)
qed

lemma one_buf_ok:
  assumes s: "bcache_ok s" and ob: "one_buf s t b n q" and ok: "buf_ok (platter t) q (buf_locked t b)"
  shows "bcache_ok t"
proof -
  have "buf_ok (platter t) (bf t i) (buf_locked t i)" if "i < NBUF" for i
  proof (cases "i = b")
    case True
    then show ?thesis using ok by (simp add: one_buf_bf [OF s ob])
  next
    case False
    have bi: "buf_ok (platter s) (bf s i) (buf_locked s i)" using s that by (simp add: bcache_ok_def)
    then have "b_valid (bf s i) \<Longrightarrow> b_blockno (bf s i) \<noteq> n"
      using ob False \<open>i < NBUF\<close> by (auto simp: cached_def buf_ok_def one_buf_def)
    then show ?thesis using bi ob False by (auto simp: buf_ok_def one_buf_bf [OF s ob] buf_locked_def one_buf_def)
  qed
  moreover have "\<exists>xs. ring (bufs t) xs \<and> set xs = {..<NBUF}"
    using s one_buf_ring [OF s ob] unfolding bcache_ok_def by blast
  ultimately show ?thesis using one_buf_once [OF s ob] ob by (simp add: bcache_ok_def one_buf_def)
qed

text \<open>What the change means for the blocks, when the old contents were dropped or were the same block.\<close>

lemma one_buf_view:
  assumes s: "bcache_ok s" and ob: "one_buf s t b n q" and drop: "cached s b n \<or> b_refcnt (bf s b) = 0"
  shows "blk t = (blk s)(n := if b_valid q then b_data q else disk_block (platter t) n)"
    "refs t = (refs s)(n := unat (b_refcnt q))" "blk_locked t = (blk_locked s)(n := buf_locked t b)"
proof -
  have o: "once s" and bb: "buf_ok (platter s) (bf s b) (buf_locked s b)"
    using s ob by (simp_all add: bcache_ok_def one_buf_def)
  note simps = blk_def refs_def blk_locked_def one_buf_buf_of [OF s ob] one_buf_bf [OF s ob]
  have n: "blk t n = (if b_valid q then b_data q else disk_block (platter t) n)" "refs t n = unat (b_refcnt q)"
    "blk_locked t n = buf_locked t b"
    by (simp_all add: simps)
  have m: "blk t m = blk s m" "refs t m = refs s m" "blk_locked t m = blk_locked s m" if m: "m \<noteq> n" for m
  proof -
    have d: "disk_block (platter t) m = disk_block (platter s) m" and
      lk: "i \<noteq> b \<Longrightarrow> buf_locked t i = buf_locked s i" for i
      using ob m by (auto simp: one_buf_def buf_locked_def)
    have "buf_of s m = Some b \<Longrightarrow> b_refcnt (bf s b) = 0 \<and> b_blockno (bf s b) = m"
      using drop m by (auto simp: buf_of_iff [OF o] cached_def)
    then show "blk t m = blk s m" "refs t m = refs s m" "blk_locked t m = blk_locked s m"
      using m bb d lk by (auto simp: simps buf_ok_def split: option.splits)
  qed
  show "blk t = (blk s)(n := if b_valid q then b_data q else disk_block (platter t) n)"
    "refs t = (refs s)(n := unat (b_refcnt q))" "blk_locked t = (blk_locked s)(n := buf_locked t b)"
    using n m by (auto simp: fun_eq_iff)
qed

subsection \<open>The contract of the routines\<close>

text \<open>A thread that can use the cache, and what a cache operation may change of the state.\<close>

definition io_ok :: "nat \<Rightarrow> 'a storage_scheme \<Rightarrow> bool" where
  "io_ok p s \<longleftrightarrow> in_proc p s \<and> vd_idle (vd s) \<and> device_ok (vdev s) \<and> bcache_ok s"

definition cframe :: "nat \<Rightarrow> 'a storage_scheme \<Rightarrow> 'a storage_scheme \<Rightarrow> bool" where
  "cframe p s t \<longleftrightarrow> (\<exists>tb sl bs v pl out. t = s\<lparr>ptable := tb, slk := sl, bufs := bs, vd := v, platter := pl, mmio_out := out\<rparr> \<and>
     tb_le p (ptable s) tb \<and> (\<forall>i. sl (InodeLock i) = slk s (InodeLock i)))"

text \<open>
  One operation: the blocks, the references and the locks it leaves, the writes of the disk. Blocks the
  process holds and does not give back stay its own.
\<close>

definition cache_step :: "nat \<Rightarrow> 'a storage_scheme \<Rightarrow> 'a storage_scheme \<Rightarrow> (nat \<Rightarrow> block) \<Rightarrow> (nat \<Rightarrow> nat) \<Rightarrow> (nat \<Rightarrow> bool) \<Rightarrow> platter \<Rightarrow> bool" where
  "cache_step p s t B R L pl \<longleftrightarrow> io_ok p t \<and> cframe p s t \<and> blk t = B \<and> refs t = R \<and> blk_locked t = L \<and> platter t = pl \<and>
     (\<forall>c m. holds p s c m \<longrightarrow> L m \<longrightarrow> holds p t c m)"

lemma cframe_refl [simp]: "cframe p s s"
  unfolding cframe_def
  by (intro exI [of _ "ptable s"] exI [of _ "slk s"] exI [of _ "bufs s"] exI [of _ "vd s"] exI [of _ "platter s"] exI [of _ "mmio_out s"]) simp

lemma cframe_trans: "cframe p s t \<Longrightarrow> cframe p t u \<Longrightarrow> cframe p s u"
proof -
  assume st: "cframe p s t" and tu: "cframe p t u"
  from st obtain tb sl bs v pl out where t: "t = s\<lparr>ptable := tb, slk := sl, bufs := bs, vd := v, platter := pl, mmio_out := out\<rparr>"
    "tb_le p (ptable s) tb" "\<forall>i. sl (InodeLock i) = slk s (InodeLock i)" unfolding cframe_def by blast
  from tu obtain tb' sl' bs' v' pl' out' where u: "u = t\<lparr>ptable := tb', slk := sl', bufs := bs', vd := v', platter := pl', mmio_out := out'\<rparr>"
    "tb_le p (ptable t) tb'" "\<forall>i. sl' (InodeLock i) = slk t (InodeLock i)" unfolding cframe_def by blast
  have "tb_le p (ptable s) tb'" using t(2) u(2) by (auto simp: t(1) intro: tb_le_trans)
  moreover have "u = s\<lparr>ptable := tb', slk := sl', bufs := bs', vd := v', platter := pl', mmio_out := out'\<rparr>"
    unfolding u(1) t(1) by simp
  moreover have "\<forall>i. sl' (InodeLock i) = slk s (InodeLock i)" using u(3) t(3) by (simp add: t(1))
  ultimately show ?thesis unfolding cframe_def by blast
qed

lemma cframe_pr: "cframe p s t \<Longrightarrow> pr t p = pr s p"
  unfolding cframe_def by (auto simp: pr_def tb_le_def)

lemma cframeI:
  "t = s\<lparr>ptable := ptable t, slk := slk t, bufs := bufs t, vd := vd t, platter := platter t, mmio_out := mmio_out t\<rparr> \<Longrightarrow>
   tb_le p (ptable s) (ptable t) \<Longrightarrow> \<forall>i. slk t (InodeLock i) = slk s (InodeLock i) \<Longrightarrow> cframe p s t"
  unfolding cframe_def by blast

lemma holds_view:
  assumes "bcache_ok s" "holds p s b n"
  shows "blk_locked s n" "blk s n = b_data (bf s b)" "refs s n = unat (b_refcnt (bf s b))" "b_valid (bf s b)" "b < NBUF"
    "b_dev (bf s b) = ROOTDEV" "b_blockno (bf s b) = n"
proof -
  have c: "cached s b n" and r: "b_refcnt (bf s b) \<noteq> 0" "buf_locked s b" using assms(2) by (simp_all add: holds_def)
  then have "buf_of s n = Some b" using assms(1) by (simp add: buf_of_iff bcache_ok_def)
  moreover show v: "b_valid (bf s b)" using assms(1) c r by (auto simp: bcache_ok_def cached_def buf_ok_def)
  ultimately show "blk_locked s n" "blk s n = b_data (bf s b)" "refs s n = unat (b_refcnt (bf s b))"
    using r by (simp_all add: blk_locked_def blk_def refs_def)
  show "b < NBUF" "b_dev (bf s b) = ROOTDEV" "b_blockno (bf s b) = n" using c by (simp_all add: cached_def)
qed

lemma cache_step_trans:
  assumes "bcache_ok s" "cache_step p s t B R L pl" "cache_step p t u B' R' L' pl'" "\<And>m. L' m \<Longrightarrow> blk_locked s m \<Longrightarrow> L m"
  shows "cache_step p s u B' R' L' pl'"
proof -
  have "holds p u c m" if h: "holds p s c m" "L' m" for c m
  proof -
    have "L m" using assms(4) h holds_view(1) [OF assms(1) h(1)] by blast
    then have "holds p t c m" using assms(2) h(1) unfolding cache_step_def by blast
    then show ?thesis using assms(3) h(2) unfolding cache_step_def by blast
  qed
  moreover have "cframe p s u" using assms(2,3) unfolding cache_step_def by (blast intro: cframe_trans)
  ultimately show ?thesis using assms(3) unfolding cache_step_def by blast
qed

lemma in_proc_cframe: "in_proc p s \<Longrightarrow> cframe p s t \<Longrightarrow> in_proc p t"
  unfolding cframe_def by (auto simp: in_proc_def tb_le_def pr_def)

lemma cframe_vdev: "cframe p s t \<Longrightarrow> vdev t = vdev s"
  unfolding cframe_def by auto

lemma one_buf_step:
  assumes io: "io_ok p s" and ob: "one_buf s t b n q" and drop: "cached s b n \<or> b_refcnt (bf s b) = 0"
    and ok: "buf_ok (platter t) q (buf_locked t b)" and v: "b_valid q"
    and fr: "cframe p s t" "vd_idle (vd t)"
    and lk: "buf_locked t b \<Longrightarrow> b_refcnt q \<noteq> 0 \<and> sl_pid (slk t (BufLock b)) = p_pid (pr s p)"
  shows "cache_step p s t ((blk s)(n := b_data q)) ((refs s)(n := unat (b_refcnt q))) ((blk_locked s)(n := buf_locked t b)) (platter t)"
    "buf_locked t b \<Longrightarrow> holds p t b n"
proof -
  have s: "bcache_ok s" using io by (simp add: io_ok_def)
  have "io_ok p t"
    using io fr one_buf_ok [OF s ob ok] in_proc_cframe [OF _ fr(1)] cframe_vdev [OF fr(1)] by (simp add: io_ok_def)
  moreover have pp: "pr t p = pr s p" using fr(1) by (rule cframe_pr)
  show new: "buf_locked t b \<Longrightarrow> holds p t b n"
    using lk pp by (simp add: holds_def one_buf_cached [OF s ob] one_buf_bf [OF s ob])
  have "holds p t c m" if h: "holds p s c m" and l: "((blk_locked s)(n := buf_locked t b)) m" for c m
  proof (cases "c = b")
    case True
    have "b_refcnt (bf s b) \<noteq> 0" "cached s b m" using h True by (simp_all add: holds_def)
    with drop have "m = n" by (auto simp: cached_def)
    then show ?thesis using new l True by simp
  next
    case False
    have "slk t (BufLock c) = slk s (BufLock c)" using ob False by (simp add: one_buf_def)
    then show ?thesis
      using h False pp by (simp add: holds_def one_buf_cached [OF s ob] one_buf_bf [OF s ob] buf_locked_def)
  qed
  ultimately show "cache_step p s t ((blk s)(n := b_data q)) ((refs s)(n := unat (b_refcnt q))) ((blk_locked s)(n := buf_locked t b)) (platter t)"
    using one_buf_view [OF s ob drop] v fr(1) by (simp add: cache_step_def)
qed

text \<open>The common case: the process has the buffer, and its contents and count change.\<close>

lemma held_buf_step:
  assumes io: "io_ok p s" and h: "holds p s b n" and d: "length d = BSIZE" "r \<noteq> 0"
    and t: "t = s\<lparr>ptable := tb, bufs := (bufs s)[b := (bf s b)\<lparr>b_disk := dk, b_refcnt := r, b_data := d\<rparr>],
        vd := v, platter := pl, mmio_out := out\<rparr>"
    and tb: "tb_le p (ptable s) tb" and v: "vd_idle v"
    and pl: "\<And>m. m \<noteq> n \<Longrightarrow> disk_block pl m = disk_block (platter s) m" "\<forall>w \<in> set pl. length (snd w) = BSIZE"
  shows "cache_step p s t ((blk s)(n := d)) ((refs s)(n := unat r)) (blk_locked s) pl" "holds p t b n"
proof -
  let ?q = "(bf s b)\<lparr>b_disk := dk, b_refcnt := r, b_data := d\<rparr>"
  have s: "bcache_ok s" using io by (simp add: io_ok_def)
  note hv = holds_view [OF s h]
  have c: "cached s b n" and pid: "sl_pid (slk s (BufLock b)) = p_pid (pr s p)" and lb: "buf_locked s b" using h by (simp_all add: holds_def)
  have sl: "slk t = slk s" by (simp add: t)
  have ob: "one_buf s t b n ?q"
    using hv c s pl unfolding one_buf_def by (auto simp: t bcache_ok_def once_def)
  have ok: "buf_ok (platter t) ?q (buf_locked t b)" using d hv by (simp add: buf_ok_def t)
  have fr: "cframe p s t" by (rule cframeI) (use tb in \<open>simp_all add: t\<close>)
  have lt: "buf_locked t b" using lb by (simp add: buf_locked_def sl)
  note st = one_buf_step [OF io ob _ ok _ fr]
  show "cache_step p s t ((blk s)(n := d)) ((refs s)(n := unat r)) (blk_locked s) pl"
    using st(1) c hv v d(2) pid lt by (simp add: sl) (simp add: t fun_upd_idem)
  show "holds p t b n" using st(2) c hv v d(2) pid lt by (simp add: sl) (simp add: t)
qed

lemma unat_inc: "unat (r :: uint) + 1 < 2 ^ 32 \<Longrightarrow> unat (r + 1) = unat r + 1 \<and> r + 1 \<noteq> 0"
  using unat_add_small [of r 1] by auto

lemma unat_dec: "(r :: uint) \<noteq> 0 \<Longrightarrow> unat (r - 1) = unat r - 1"
  by (simp add: unat_minus_one)

lemma self_upd: "s\<lparr>ptable := ptable s, bufs := bs, vd := vd s, platter := platter s, mmio_out := mmio_out s\<rparr> = s\<lparr>bufs := bs\<rparr>"
  by simp

lemma bpin_spec:
  assumes io: "io_ok p s" and h: "holds p s b n" and r: "refs s n + 1 < 2 ^ 32"
  shows "returns (bpin b s) (\<lambda>t. cache_step p s t (blk s) ((refs s)(n := refs s n + 1)) (blk_locked s) (platter s))"
proof -
  have s: "bcache_ok s" and hd: "held s = []" using io by (simp_all add: io_ok_def in_proc_def)
  note hv = holds_view [OF s h]
  have l: "length (b_data (bf s b)) = BSIZE" and w: "\<forall>w \<in> set (platter s). length (snd w) = BSIZE"
    using s hv(5) by (auto simp: bcache_ok_def buf_ok_def)
  have r': "unat (b_refcnt (bf s b) + 1) = refs s n + 1 \<and> b_refcnt (bf s b) + 1 \<noteq> 0"
    using unat_inc [of "b_refcnt (bf s b)"] r hv(3) by simp
  let ?t = "s\<lparr>bufs := (bufs s)[b := (bf s b)\<lparr>b_disk := b_disk (bf s b), b_refcnt := b_refcnt (bf s b) + 1, b_data := b_data (bf s b)\<rparr>]\<rparr>"
  have "bpin b s = Inr ?t" using hd by (simp add: bpin_def lock_simps upd_buf_def bf_def)
  moreover have "cache_step p s ?t ((blk s)(n := b_data (bf s b))) ((refs s)(n := unat (b_refcnt (bf s b) + 1))) (blk_locked s) (platter s)"
    by (rule held_buf_step [OF io h l _ self_upd [symmetric]]) (use io r' w in \<open>simp_all add: io_ok_def\<close>)
  ultimately show ?thesis using r' hv(2) [symmetric] by simp
qed

lemma set_data_spec:
  assumes io: "io_ok p s" and h: "holds p s b n" and d: "length d = BSIZE"
  shows "cache_step p s (upd_buf b (\<lambda>q. q\<lparr>b_data := d\<rparr>) s) ((blk s)(n := d)) (refs s) (blk_locked s) (platter s)"
proof -
  have s: "bcache_ok s" using io by (simp add: io_ok_def)
  note hv = holds_view [OF s h]
  have w: "\<forall>w \<in> set (platter s). length (snd w) = BSIZE" "b_refcnt (bf s b) \<noteq> 0" using s h by (auto simp: bcache_ok_def holds_def)
  let ?t = "s\<lparr>bufs := (bufs s)[b := (bf s b)\<lparr>b_disk := b_disk (bf s b), b_refcnt := b_refcnt (bf s b), b_data := d\<rparr>]\<rparr>"
  have "cache_step p s ?t ((blk s)(n := d)) ((refs s)(n := unat (b_refcnt (bf s b)))) (blk_locked s) (platter s)"
    by (rule held_buf_step [OF io h d _ self_upd [symmetric]]) (use io w in \<open>simp_all add: io_ok_def\<close>)
  then show ?thesis using hv(3) [symmetric] by (simp add: upd_buf_def bf_def)
qed

lemma bwrite_spec:
  assumes io: "io_ok p s" and h: "holds p s b n" and n: "n < 2 ^ 31"
  shows "returns (bwrite b s) (\<lambda>t. cache_step p s t (blk s) (refs s) (blk_locked s) (platter s @ [(n, blk s n)]))"
proof -
  have s: "bcache_ok s" and ip: "in_proc p s" and vi: "vd_idle (vd s)" and dev: "device_ok (vdev s)"
    using io by (simp_all add: io_ok_def)
  note hv = holds_view [OF s h]
  have w: "\<forall>w \<in> set (platter s). length (snd w) = BSIZE" and l: "length (b_data (bf s b)) = BSIZE" and nz: "b_refcnt (bf s b) \<noteq> 0"
    using s h hv(5) by (auto simp: bcache_ok_def buf_ok_def holds_def)
  have hs: "holdingsleep (BufLock b) s = Inr (True, s)"
    using holdingsleep_eq [OF ip, of "BufLock b"] h by (simp add: holds_def buf_locked_def)
  have b: "b < length (bufs s)" using bcache_ok_length [OF s] hv(5) by simp
  from virtio_disk_rw_spec [OF ip vi dev b hv(7) n, of True] obtain tb v out where tb: "tb_le p (ptable s) tb" "vd_idle v"
    and rw: "virtio_disk_rw b True s = Inr (s\<lparr>ptable := tb, vd := v, mmio_out := out, platter := platter s @ [(n, b_data (bf s b))],
     bufs := (bufs s)[b := (bufs s ! b)\<lparr>b_disk := False, b_data := b_data (bf s b)\<rparr>]\<rparr>)" (is "_ = Inr ?t") by auto
  have t: "?t = s\<lparr>ptable := tb, bufs := (bufs s)[b := (bf s b)\<lparr>b_disk := False, b_refcnt := b_refcnt (bf s b), b_data := b_data (bf s b)\<rparr>],
        vd := v, platter := platter s @ [(n, b_data (bf s b))], mmio_out := out\<rparr>" by (simp add: bf_def)
  have "cache_step p s ?t ((blk s)(n := b_data (bf s b))) ((refs s)(n := unat (b_refcnt (bf s b)))) (blk_locked s) (platter s @ [(n, b_data (bf s b))])"
    by (rule held_buf_step [OF io h l nz t tb]) (use w l in \<open>auto simp: disk_block_append\<close>)
  then show ?thesis using hv(2,3) [symmetric] by (simp add: bwrite_def hs rw)
qed

lemma bunpin_spec:
  assumes io: "io_ok p s" and h: "holds p s b n" and r: "2 \<le> refs s n"
  shows "returns (bunpin b s) (\<lambda>t. cache_step p s t (blk s) ((refs s)(n := refs s n - 1)) (blk_locked s) (platter s))"
proof -
  have s: "bcache_ok s" and hd: "held s = []" using io by (simp_all add: io_ok_def in_proc_def)
  note hv = holds_view [OF s h]
  have l: "length (b_data (bf s b)) = BSIZE" and w: "\<forall>w \<in> set (platter s). length (snd w) = BSIZE"
    using s hv(5) by (auto simp: bcache_ok_def buf_ok_def)
  have u: "unat (b_refcnt (bf s b) - 1) = refs s n - 1"
    using unat_dec [of "b_refcnt (bf s b)"] h hv(3) by (simp add: holds_def)
  then have nz: "b_refcnt (bf s b) - 1 \<noteq> 0" using r by (metis diff_is_0_eq not_numeral_le_zero numeral_2_eq_2 not_less_eq_eq One_nat_def unat_0)
  let ?t = "s\<lparr>bufs := (bufs s)[b := (bf s b)\<lparr>b_disk := b_disk (bf s b), b_refcnt := b_refcnt (bf s b) - 1, b_data := b_data (bf s b)\<rparr>]\<rparr>"
  have "bunpin b s = Inr ?t" using hd by (simp add: bunpin_def lock_simps upd_buf_def bf_def)
  moreover have "cache_step p s ?t ((blk s)(n := b_data (bf s b))) ((refs s)(n := unat (b_refcnt (bf s b) - 1))) (blk_locked s) (platter s)"
    by (rule held_buf_step [OF io h l nz self_upd [symmetric]]) (use io w in \<open>simp_all add: io_ok_def\<close>)
  ultimately show ?thesis using u hv(2) [symmetric] by simp
qed

text \<open>Moving a buffer to the front of the list.\<close>

lemma front_ring:
  assumes "ring (bufs s) xs" "set xs = {..<NBUF}" "b < NBUF"
  shows "ring (bufs (link_front b (unlink_buf b s))) (b # remove1 b xs)" "set (b # remove1 b xs) = {..<NBUF}"
proof -
  have d: "distinct xs" "b \<in> set xs" using assms by (auto simp: ring_def)
  then obtain ys zs where xs: "xs = ys @ b # zs" and "b \<notin> set ys" by (metis split_list_first)
  then have r1: "remove1 b xs = ys @ zs" by (simp add: remove1_append)
  have "ring (bufs (unlink_buf b s)) (ys @ zs)" using assms(1) unfolding xs by (rule unlink_buf_ring)
  moreover have "b \<notin> set (ys @ zs)" using d(1) xs by auto
  ultimately show "ring (bufs (link_front b (unlink_buf b s))) (b # remove1 b xs)"
    unfolding r1 using assms(3) by (intro link_front_ring)
  show "set (b # remove1 b xs) = {..<NBUF}" using assms(2,3) d by (auto simp: set_remove1_eq)
qed

lemma links_step:
  assumes io: "io_ok p s" and l: "links_only s t" and r: "\<exists>xs. ring (bufs t) xs \<and> set xs = {..<NBUF}"
  shows "cache_step p s t (blk s) (refs s) (blk_locked s) (platter s)"
proof -
  have s: "bcache_ok s" using io by (simp add: io_ok_def)
  from l obtain bs where t: "t = s\<lparr>bufs := bs\<rparr>" and bd: "map body bs = map body (bufs s)" by (auto simp: links_only_def)
  have f: "b_valid (bf t i) = b_valid (bf s i)" "b_dev (bf t i) = b_dev (bf s i)" "b_blockno (bf t i) = b_blockno (bf s i)"
    "b_refcnt (bf t i) = b_refcnt (bf s i)" "b_data (bf t i) = b_data (bf s i)" if "i < NBUF" for i
    using body_fields(2-6) [OF bd, of i] bcache_ok_length [OF s] that by (simp_all add: bf_def t)
  have c: "cached t = cached s" using f by (auto simp: cached_def fun_eq_iff)
  then have bo: "buf_of t = buf_of s" by (simp add: buf_of_def fun_eq_iff)
  have lk: "buf_locked t = buf_locked s" by (simp add: buf_locked_def fun_eq_iff t)
  have bl: "buf_of s n = Some b \<Longrightarrow> b < NBUF" for n b
    using s by (auto simp: buf_of_iff bcache_ok_def cached_def)
  have pl: "platter t = platter s" by (simp add: t)
  have fb: "buf_of s n = Some b \<Longrightarrow> b_valid (bf t b) = b_valid (bf s b) \<and> b_data (bf t b) = b_data (bf s b) \<and> b_refcnt (bf t b) = b_refcnt (bf s b)"
    for n b using bl f by blast
  have v: "blk t = blk s" "refs t = refs s" "blk_locked t = blk_locked s" "platter t = platter s"
    using fb pl by (auto simp: fun_eq_iff blk_def refs_def blk_locked_def bo lk split: option.splits)
  have "bcache_ok t" using s r f lk c by (auto simp: bcache_ok_def once_def buf_ok_def v(4))
  moreover have "in_proc p t" "vd_idle (vd t)" "device_ok (vdev t)" using io by (simp_all add: io_ok_def in_proc_def t pr_def)
  moreover have "cframe p s t" by (rule cframeI) (simp_all add: t)
  moreover have "holds p s c m \<Longrightarrow> holds p t c m" for c m
    using f [of c] \<open>cached t = cached s\<close> by (simp add: holds_def lk cached_def) (simp add: t pr_def)
  ultimately show ?thesis using v by (simp add: cache_step_def io_ok_def)
qed

lemma front_held:
  "link_front b (unlink_buf b (s\<lparr>held := h\<rparr>)) = (link_front b (unlink_buf b s))\<lparr>held := h\<rparr>"
  by (simp add: link_front_def unlink_buf_def upd_buf_def bf_def Let_def)

lemma brelse_eq:
  assumes ip: "in_proc p s" and b: "b < length (bufs s)"
    and l: "buf_locked s b" "sl_pid (slk s (BufLock b)) = p_pid (pr s p)"
    and u: "u = s\<lparr>slk := (slk s)(BufLock b := \<lparr>sl_locked = 0, sl_pid = 0, \<dots> = sleeplock.more (slk s (BufLock b))\<rparr>),
       ptable := woken (ChanSleeplock (BufLock b)) p (ptable s), bufs := (bufs s)[b := (bf s b)\<lparr>b_refcnt := b_refcnt (bf s b) - 1\<rparr>]\<rparr>"
  shows "brelse b s = Inr (if b_refcnt (bf s b) = 1 then link_front b (unlink_buf b u) else u)"
proof -
  let ?r = "s\<lparr>slk := (slk s)(BufLock b := \<lparr>sl_locked = 0, sl_pid = 0, \<dots> = sleeplock.more (slk s (BufLock b))\<rparr>),
       ptable := woken (ChanSleeplock (BufLock b)) p (ptable s)\<rparr>"
  have hs: "holdingsleep (BufLock b) s = Inr (True, s)"
    using holdingsleep_eq [OF ip, of "BufLock b"] l by (simp add: buf_locked_def)
  have hd: "held s = []" "held ?r = []" using ip by (simp_all add: in_proc_def)
  have ub: "upd_buf b (\<lambda>q. q\<lparr>b_refcnt := b_refcnt q - 1\<rparr>) (?r\<lparr>held := [BcacheLock]\<rparr>) = u\<lparr>held := [BcacheLock]\<rparr>"
    by (simp add: u upd_buf_def bf_def)
  have c: "(b_refcnt (bf (u\<lparr>held := [BcacheLock]\<rparr>) b) = 0) = (b_refcnt (bf s b) = 1)"
    using b by (simp add: u bf_def)
  have hu: "held (link_front b (unlink_buf b u)) = []" "held u = []"
    using hd by (simp_all add: u link_front_def unlink_buf_def upd_buf_def bf_def Let_def)
  have rl: "release BcacheLock (w\<lparr>held := [BcacheLock]\<rparr>) = Inr w" if "held w = []" for w :: "'a storage_scheme"
    using that by (simp add: lock_simps)
  have "brelse b s = andthen (acquire BcacheLock ?r) (\<lambda>s.
       let s = upd_buf b (\<lambda>q. q\<lparr>b_refcnt := b_refcnt q - 1\<rparr>) s;
           s = (if b_refcnt (bf s b) = 0 then link_front b (unlink_buf b s) else s)
       in release BcacheLock s)"
    by (simp add: brelse_def hs releasesleep_eq [OF ip])
  also have "acquire BcacheLock ?r = Inr (?r\<lparr>held := [BcacheLock]\<rparr>)" using hd by (simp add: lock_simps)
  finally show ?thesis
    unfolding andthen.simps Let_def ub c using rl hu by (simp add: front_held)
qed

lemma brelse_spec:
  assumes io: "io_ok p s" and h: "holds p s b n" and clean: "refs s n = 1 \<Longrightarrow> blk s n = disk_block (platter s) n"
  shows "returns (brelse b s) (\<lambda>t. cache_step p s t (blk s) ((refs s)(n := refs s n - 1)) ((blk_locked s)(n := False)) (platter s))"
proof -
  have s: "bcache_ok s" and ip: "in_proc p s" using io by (simp_all add: io_ok_def)
  note hv = holds_view [OF s h]
  have l: "length (b_data (bf s b)) = BSIZE" and w: "\<forall>w \<in> set (platter s). length (snd w) = BSIZE"
    using s hv(5) by (auto simp: bcache_ok_def buf_ok_def)
  have c: "cached s b n" and lb: "buf_locked s b" and pid: "sl_pid (slk s (BufLock b)) = p_pid (pr s p)" and nz: "b_refcnt (bf s b) \<noteq> 0"
    using h by (simp_all add: holds_def)
  let ?q = "(bf s b)\<lparr>b_refcnt := b_refcnt (bf s b) - 1\<rparr>"
  let ?sl = "(slk s)(BufLock b := \<lparr>sl_locked = 0, sl_pid = 0, \<dots> = sleeplock.more (slk s (BufLock b))\<rparr>)"
  define u where "u = s\<lparr>slk := ?sl, ptable := woken (ChanSleeplock (BufLock b)) p (ptable s), bufs := (bufs s)[b := ?q]\<rparr>"
  have ul: "\<not> buf_locked u b" by (simp add: buf_locked_def u_def)
  have r: "unat (b_refcnt (bf s b) - 1) = refs s n - 1" using unat_dec [OF nz] hv(3) by simp
  have one: "b_refcnt (bf s b) = 1 \<longleftrightarrow> refs s n = 1" using hv(3) by (metis unat_1 unsigned_word_eqI)
  have ob: "one_buf s u b n ?q"
    using hv c s w unfolding one_buf_def by (auto simp: u_def bcache_ok_def once_def)
  have ok: "buf_ok (platter u) ?q (buf_locked u b)"
    using hv l clean one ul by (auto simp: buf_ok_def u_def)
  have tb: "tb_le p (ptable s) (woken (ChanSleeplock (BufLock b)) p (ptable s))" using ip by (intro tb_le_woken) (simp_all add: in_proc_def)
  have fr: "cframe p s u" by (rule cframeI) (use tb in \<open>simp_all add: u_def\<close>)
  have vi: "vd_idle (vd u)" using io by (simp add: io_ok_def u_def)
  have su: "cache_step p s u (blk s) ((refs s)(n := refs s n - 1)) ((blk_locked s)(n := False)) (platter s)"
    using one_buf_step(1) [OF io ob _ ok _ fr vi] c hv(4) ul r hv(2) [symmetric] by (simp add: u_def)
  show ?thesis
  proof (cases "b_refcnt (bf s b) = 1")
    case True
    have iu: "io_ok p u" using su by (simp add: cache_step_def)
    have "\<exists>xs. ring (bufs (link_front b (unlink_buf b u))) xs \<and> set xs = {..<NBUF}"
      using iu front_ring hv(5) unfolding io_ok_def bcache_ok_def by blast
    from links_step [OF iu links_only_trans [OF unlink_buf_links link_front_links] this] su
    have "cache_step p u (link_front b (unlink_buf b u)) (blk s) ((refs s)(n := refs s n - 1)) ((blk_locked s)(n := False)) (platter s)"
      by (simp add: cache_step_def)
    from cache_step_trans [OF s su this] show ?thesis
      using brelse_eq [OF ip _ lb pid u_def] True bcache_ok_length [OF s] hv(5) by simp
  next
    case False
    then show ?thesis using brelse_eq [OF ip _ lb pid u_def] su bcache_ok_length [OF s] hv(5) by simp
  qed
qed

subsection \<open>Reading a block\<close>

text \<open>The references that are left: buffers nobody refers to.\<close>

definition buf_avail :: "'a storage_scheme \<Rightarrow> bool" where
  "buf_avail s \<longleftrightarrow> (\<exists>b < NBUF. b_refcnt (bf s b) = 0)"

lemma buf_availI:
  assumes "bcache_ok s" "finite {n. refs s n \<noteq> 0}" "card {n. refs s n \<noteq> 0} < NBUF"
  shows "buf_avail s"
proof (rule ccontr)
  assume "\<not> buf_avail s"
  then have nz: "b_refcnt (bf s b) \<noteq> 0" if "b < NBUF" for b using that by (auto simp: buf_avail_def)
  have "cached s b (b_blockno (bf s b))" if "b < NBUF" for b
    using assms(1) nz [OF that] that by (auto simp: bcache_ok_def buf_ok_def cached_def)
  then have bo: "buf_of s (b_blockno (bf s b)) = Some b" if "b < NBUF" for b
    using assms(1) that by (simp add: buf_of_iff bcache_ok_def)
  then have "inj_on (\<lambda>b. b_blockno (bf s b)) {..<NBUF}" by (auto simp: inj_on_def) (metis option.inject)
  moreover have "(\<lambda>b. b_blockno (bf s b)) ` {..<NBUF} \<subseteq> {n. refs s n \<noteq> 0}"
    using bo nz by (auto simp: refs_def unat_gt_0)
  ultimately have "NBUF \<le> card {n. refs s n \<noteq> 0}" using card_inj_on_le [of "\<lambda>b. b_blockno (bf s b)" "{..<NBUF}"] assms(2) by simp
  then show False using assms(3) by simp
qed

lemma bget_hit:
  assumes io: "io_ok p s" and c: "cached s b n" and ul: "\<not> buf_locked s b"
  shows "bget ROOTDEV n s = Inr (b, s\<lparr>bufs := (bufs s)[b := (bf s b)\<lparr>b_refcnt := b_refcnt (bf s b) + 1\<rparr>],
     slk := (slk s)(BufLock b := \<lparr>sl_locked = 1, sl_pid = p_pid (pr s p), \<dots> = sleeplock.more (slk s (BufLock b))\<rparr>)\<rparr>)"
proof -
  have ip: "in_proc p s" and hd: "held s = []" and ok: "bcache_ok s" using io by (simp_all add: io_ok_def in_proc_def)
  then obtain xs where r: "ring (bufs s) xs" "set xs = {..<NBUF}" by (auto simp: bcache_ok_def)
  let ?l = "s\<lparr>held := [BcacheLock]\<rparr>" let ?u = "s\<lparr>bufs := (bufs s)[b := (bf s b)\<lparr>b_refcnt := b_refcnt (bf s b) + 1\<rparr>]\<rparr>"
  have "find (\<lambda>b. b_dev (bf s b) = ROOTDEV \<and> b_blockno (bf s b) = n) xs = Some b"
  proof -
    have "i = b" if "i < NBUF" "b_dev (bf s i) = ROOTDEV" "b_blockno (bf s i) = n" for i
      using ok c that by (auto simp: bcache_ok_def once_def cached_def)
    moreover obtain i where "find (\<lambda>b. b_dev (bf s b) = ROOTDEV \<and> b_blockno (bf s b) = n) xs = Some i"
      using c r(2) by (cases "find (\<lambda>b. b_dev (bf s b) = ROOTDEV \<and> b_blockno (bf s b) = n) xs") (auto simp: find_None_iff cached_def)
    moreover from this have "i \<in> set xs \<and> b_dev (bf s i) = ROOTDEV \<and> b_blockno (bf s i) = n" by (auto simp: find_Some_iff)
    ultimately show ?thesis using r(2) by auto
  qed
  then have f: "bget_cached (Suc NBUF) (b_next (bf ?l NBUF)) ROOTDEV n ?l = Inr (Some b)"
    using ring_find(1) [of ?l xs] r(1) by (simp add: bf_def del: bget_cached.simps)
  have iu: "in_proc p ?u" using ip by (simp add: in_proc_def pr_def)
  have ru: "release BcacheLock (upd_buf b (\<lambda>q. q\<lparr>b_refcnt := b_refcnt q + 1\<rparr>) ?l) = Inr ?u"
    using hd by (simp add: lock_simps upd_buf_def bf_def)
  have aq: "acquire BcacheLock s = Inr ?l" using hd by (simp add: lock_simps)
  have as: "acquiresleep (BufLock b) ?u = Inr (?u\<lparr>slk := (slk s)(BufLock b := \<lparr>sl_locked = 1, sl_pid = p_pid (pr s p), \<dots> = sleeplock.more (slk s (BufLock b))\<rparr>)\<rparr>)"
    using acquiresleep_free [OF iu, of "BufLock b"] ul by (simp add: buf_locked_def pr_def)
  show ?thesis unfolding bget_def aq andthen.simps f Let_def option.case ru as by simp
qed

lemma bget_miss:
  assumes io: "io_ok p s" and c: "\<And>b. \<not> cached s b n" and av: "buf_avail s"
  shows "\<exists>b < NBUF. b_refcnt (bf s b) = 0 \<and> bget ROOTDEV n s = Inr (b, s\<lparr>bufs := (bufs s)[b := (bf s b)\<lparr>b_dev := ROOTDEV, b_blockno := n, b_valid := False, b_refcnt := 1\<rparr>],
     slk := (slk s)(BufLock b := \<lparr>sl_locked = 1, sl_pid = p_pid (pr s p), \<dots> = sleeplock.more (slk s (BufLock b))\<rparr>)\<rparr>)"
proof -
  have ip: "in_proc p s" and hd: "held s = []" and ok: "bcache_ok s" using io by (simp_all add: io_ok_def in_proc_def)
  then obtain xs where r: "ring (bufs s) xs" "set xs = {..<NBUF}" by (auto simp: bcache_ok_def)
  let ?l = "s\<lparr>held := [BcacheLock]\<rparr>"
  have "find (\<lambda>b. b_dev (bf s b) = ROOTDEV \<and> b_blockno (bf s b) = n) xs = None"
    using c r(2) by (auto simp: find_None_iff cached_def)
  then have f: "bget_cached (Suc NBUF) (b_next (bf ?l NBUF)) ROOTDEV n ?l = Inr None"
    using ring_find(1) [of ?l xs] r(1) by (simp add: bf_def del: bget_cached.simps)
  obtain b where fu: "find (\<lambda>b. b_refcnt (bf s b) = 0) (rev xs) = Some b"
    using av r(2) by (cases "find (\<lambda>b. b_refcnt (bf s b) = 0) (rev xs)") (auto simp: find_None_iff buf_avail_def)
  then have b: "b < NBUF" "b_refcnt (bf s b) = 0"
    using r(2) nth_mem [of _ "rev xs"] by (auto simp: find_Some_iff)
  have g: "bget_unused (Suc NBUF) (b_prev (bf ?l NBUF)) ?l = Inr (Some b)"
    using ring_find(2) [of ?l xs] r(1) fu by (simp add: bf_def del: bget_unused.simps)
  let ?u = "s\<lparr>bufs := (bufs s)[b := (bf s b)\<lparr>b_dev := ROOTDEV, b_blockno := n, b_valid := False, b_refcnt := 1\<rparr>]\<rparr>"
  have iu: "in_proc p ?u" using ip by (simp add: in_proc_def pr_def)
  have ru: "release BcacheLock (upd_buf b (\<lambda>q. q\<lparr>b_refcnt := 1\<rparr>) (upd_buf b (\<lambda>q. q\<lparr>b_valid := False\<rparr>)
      (upd_buf b (\<lambda>q. q\<lparr>b_blockno := n\<rparr>) (upd_buf b (\<lambda>q. q\<lparr>b_dev := ROOTDEV\<rparr>) ?l)))) = Inr ?u"
    using hd b bcache_ok_length [OF ok] by (simp add: lock_simps upd_buf_def bf_def)
  have aq: "acquire BcacheLock s = Inr ?l" using hd by (simp add: lock_simps)
  have "\<not> buf_locked s b" using ok b by (auto simp: bcache_ok_def buf_ok_def)
  then have as: "acquiresleep (BufLock b) ?u = Inr (?u\<lparr>slk := (slk s)(BufLock b := \<lparr>sl_locked = 1, sl_pid = p_pid (pr s p), \<dots> = sleeplock.more (slk s (BufLock b))\<rparr>)\<rparr>)"
    using acquiresleep_free [OF iu, of "BufLock b"] by (simp add: buf_locked_def pr_def)
  have "bget ROOTDEV n s = Inr (b, ?u\<lparr>slk := (slk s)(BufLock b := \<lparr>sl_locked = 1, sl_pid = p_pid (pr s p), \<dots> = sleeplock.more (slk s (BufLock b))\<rparr>)\<rparr>)"
    unfolding bget_def aq andthen.simps f g Let_def option.case ru as by simp
  then show ?thesis using b by auto
qed

text \<open>What \<open>bread\<close> does with the buffer it got.\<close>

lemma bread_fill:
  assumes "in_proc p s" "vd_idle (vd s)" "device_ok (vdev s)" "b < length (bufs s)" "b_blockno (bf s b) = n" "n < 2 ^ 31"
  shows "\<exists>tb v out dk. tb_le p (ptable s) tb \<and> vd_idle v \<and>
    (if \<not> b_valid (bf s b) then andthen (virtio_disk_rw b False s) (\<lambda>s. Inr (b, upd_buf b (\<lambda>q. q\<lparr>b_valid := True\<rparr>) s)) else Inr (b, s)) =
    Inr (b, s\<lparr>ptable := tb, vd := v, mmio_out := out, bufs := (bufs s)[b := (bf s b)\<lparr>b_disk := dk,
      b_data := (if b_valid (bf s b) then b_data (bf s b) else disk_block (platter s) n), b_valid := True\<rparr>]\<rparr>)"
proof (cases "b_valid (bf s b)")
  case True
  then have e: "(bufs s)[b := (bf s b)\<lparr>b_valid := True\<rparr>] = bufs s"
    by (cases "bufs s ! b") (simp add: bf_def list_update_same_conv assms(4))
  show ?thesis
    by (rule exI [of _ "ptable s"], rule exI [of _ "vd s"], rule exI [of _ "mmio_out s"], rule exI [of _ "b_disk (bf s b)"])
      (use True assms(2) in \<open>simp add: e\<close>)
next
  case False
  from virtio_disk_rw_spec [OF assms, of False] obtain tb v out where tb: "tb_le p (ptable s) tb" "vd_idle v"
    and rw: "virtio_disk_rw b False s = Inr (s\<lparr>ptable := tb, vd := v, mmio_out := out, platter := platter s,
     bufs := (bufs s)[b := (bufs s ! b)\<lparr>b_disk := False, b_data := disk_block (platter s) n\<rparr>]\<rparr>)" by auto
  show ?thesis
    by (rule exI [of _ tb], rule exI [of _ v], rule exI [of _ out], rule exI [of _ False])
      (use False tb assms(4) in \<open>simp add: rw upd_buf_def bf_def\<close>)
qed

lemma bread_spec_buf:
  assumes io: "io_ok p s" and n: "n < 2 ^ 31" and b: "b < NBUF" and oth: "\<And>i. i \<noteq> b \<Longrightarrow> \<not> cached s i n"
    and drop: "cached s b n \<or> b_refcnt (bf s b) = 0"
    and g: "bget ROOTDEV n s = Inr (b, s\<lparr>bufs := (bufs s)[b := q],
     slk := (slk s)(BufLock b := \<lparr>sl_locked = 1, sl_pid = p_pid (pr s p), \<dots> = sleeplock.more (slk s (BufLock b))\<rparr>)\<rparr>)"
    and q: "b_dev q = ROOTDEV" "b_blockno q = n" "b_next q = b_next (bf s b)" "b_prev q = b_prev (bf s b)" "b_refcnt q \<noteq> 0"
    and d: "blk s n = (if b_valid q then b_data q else disk_block (platter s) n)" "length (b_data q) = BSIZE"
  shows "returns (bread ROOTDEV n s) (\<lambda>(b, t). holds p t b n \<and> b_data (bf t b) = blk s n \<and>
     cache_step p s t (blk s) ((refs s)(n := unat (b_refcnt q))) ((blk_locked s)(n := True)) (platter s))"
proof -
  have s: "bcache_ok s" and ip: "in_proc p s" and vi: "vd_idle (vd s)" and dev: "device_ok (vdev s)" using io by (simp_all add: io_ok_def)
  have len: "length (bufs s) = Suc NBUF" by (rule bcache_ok_length [OF s])
  let ?sl = "(slk s)(BufLock b := \<lparr>sl_locked = 1, sl_pid = p_pid (pr s p), \<dots> = sleeplock.more (slk s (BufLock b))\<rparr>)"
  let ?u = "s\<lparr>bufs := (bufs s)[b := q], slk := ?sl\<rparr>"
  have u: "in_proc p ?u" "vd_idle (vd ?u)" "device_ok (vdev ?u)" "b < length (bufs ?u)" "b_blockno (bf ?u b) = n" "bf ?u b = q"
    using ip vi dev len b q by (simp_all add: in_proc_def pr_def bf_def)
  from bread_fill [OF u(1-5) n] obtain tb v out dk where tb: "tb_le p (ptable s) tb" "vd_idle v" and
    r: "(if \<not> b_valid (bf ?u b) then andthen (virtio_disk_rw b False ?u) (\<lambda>s. Inr (b, upd_buf b (\<lambda>q. q\<lparr>b_valid := True\<rparr>) s)) else Inr (b, ?u)) =
    Inr (b, ?u\<lparr>ptable := tb, vd := v, mmio_out := out, bufs := (bufs ?u)[b := (bf ?u b)\<lparr>b_disk := dk,
      b_data := (if b_valid (bf ?u b) then b_data (bf ?u b) else disk_block (platter ?u) n), b_valid := True\<rparr>]\<rparr>)" by auto
  define q' where "q' = q\<lparr>b_disk := dk, b_data := blk s n, b_valid := True\<rparr>"
  define t where "t = s\<lparr>ptable := tb, slk := ?sl, bufs := (bufs s)[b := q'], vd := v, mmio_out := out\<rparr>"
  have "bread ROOTDEV n s = Inr (b, ?u\<lparr>ptable := tb, vd := v, mmio_out := out, bufs := (bufs ?u)[b := (bf ?u b)\<lparr>b_disk := dk,
      b_data := (if b_valid (bf ?u b) then b_data (bf ?u b) else disk_block (platter ?u) n), b_valid := True\<rparr>]\<rparr>)"
    unfolding bread_def g andthen.simps prod.case by (fact r)
  then have br: "bread ROOTDEV n s = Inr (b, t)" unfolding u(6) by (simp add: t_def q'_def d(1))
  have w: "\<forall>w \<in> set (platter s). length (snd w) = BSIZE" using s by (simp add: bcache_ok_def)
  have ob: "one_buf s t b n q'"
    using b q oth w by (simp add: one_buf_def t_def q'_def)
  have lt: "buf_locked t b" "sl_pid (slk t (BufLock b)) = p_pid (pr s p)" by (simp_all add: buf_locked_def t_def)
  have bd: "length (blk s n) = BSIZE" using d w disk_block_length by auto
  have ok: "buf_ok (platter t) q' (buf_locked t b)" using q bd by (simp add: buf_ok_def q'_def)
  have fr: "cframe p s t" by (rule cframeI) (use tb in \<open>simp_all add: t_def\<close>)
  have vt: "vd_idle (vd t)" "b_valid q'" "b_refcnt q' \<noteq> 0" "b_data q' = blk s n" "b_refcnt q' = b_refcnt q"
    using tb q by (simp_all add: t_def q'_def)
  note st = one_buf_step [OF io ob drop ok vt(2) fr vt(1)]
  have "cache_step p s t ((blk s)(n := blk s n)) ((refs s)(n := unat (b_refcnt q))) ((blk_locked s)(n := True)) (platter s)"
    using st(1) lt vt by (simp add: t_def)
  moreover have "holds p t b n" using st(2) lt vt by blast
  moreover have "b_data (bf t b) = blk s n" using vt one_buf_bf [OF s ob, of b] by simp
  ultimately show ?thesis by (simp add: br)
qed

text \<open>Both cases end with the buffer of the block, and its contents are what a reader should see.\<close>

lemma bread_spec:
  assumes io: "io_ok p s" and n: "n < 2 ^ 31" and ul: "\<not> blk_locked s n" and r: "refs s n + 1 < 2 ^ 32"
    and av: "refs s n \<noteq> 0 \<or> buf_avail s"
  shows "returns (bread ROOTDEV n s) (\<lambda>(b, t). holds p t b n \<and> b_data (bf t b) = blk s n \<and>
     cache_step p s t (blk s) ((refs s)(n := refs s n + 1)) ((blk_locked s)(n := True)) (platter s))"
proof -
  have s: "bcache_ok s" and o: "once s" using io by (simp_all add: io_ok_def bcache_ok_def)
  have len: "i < NBUF \<Longrightarrow> length (b_data (bf s i)) = BSIZE" for i using s by (auto simp: bcache_ok_def buf_ok_def)
  show ?thesis
  proof (cases "buf_of s n")
    case (Some b)
    then have c: "cached s b n" using buf_of_iff [OF o] by simp
    have b: "b < NBUF" "b_dev (bf s b) = ROOTDEV" "b_blockno (bf s b) = n" "\<not> buf_locked s b" "unat (b_refcnt (bf s b)) = refs s n"
      using c ul Some by (simp_all add: cached_def blk_locked_def refs_def)
    have i: "unat (b_refcnt (bf s b) + 1) = refs s n + 1" "b_refcnt (bf s b) + 1 \<noteq> 0"
      using unat_inc [of "b_refcnt (bf s b)"] r b(5) by simp_all
    have "\<not> cached s i n" if "i \<noteq> b" for i using o c that by (auto simp: once_def)
    then have "returns (bread ROOTDEV n s) (\<lambda>(b', t). holds p t b' n \<and> b_data (bf t b') = blk s n \<and>
      cache_step p s t (blk s) ((refs s)(n := unat (b_refcnt ((bf s b)\<lparr>b_refcnt := b_refcnt (bf s b) + 1\<rparr>)))) ((blk_locked s)(n := True)) (platter s))"
      by (rule bread_spec_buf [OF io n b(1) _ disjI1 [OF c] bget_hit [OF io c b(4)]]) (use b i(2) len in \<open>simp_all add: blk_def Some\<close>)
    then show ?thesis using i(1) by simp
  next
    case None
    then have c: "\<not> cached s b n" for b by (simp add: buf_of_None)
    have "refs s n = 0" by (simp add: refs_def None)
    with av have "buf_avail s" by simp
    from bget_miss [OF io c this] obtain b where b: "b < NBUF" "b_refcnt (bf s b) = 0" and
      g: "bget ROOTDEV n s = Inr (b, s\<lparr>bufs := (bufs s)[b := (bf s b)\<lparr>b_dev := ROOTDEV, b_blockno := n, b_valid := False, b_refcnt := 1\<rparr>],
     slk := (slk s)(BufLock b := \<lparr>sl_locked = 1, sl_pid = p_pid (pr s p), \<dots> = sleeplock.more (slk s (BufLock b))\<rparr>)\<rparr>)" by auto
    moreover have "blk s n = disk_block (platter s) n" by (simp add: blk_def None)
    ultimately show ?thesis using bread_spec_buf [OF io n b(1) c disjI2 [OF b(2)] g] len \<open>refs s n = 0\<close> by simp
  qed
qed

end
