(* ===== verification/Layout.thy ===== *)
theory Layout
  imports Virtio
begin

section \<open>The on-disk format\<close>

text \<open>
  \<^verbatim>\<open>kernel/fs.h\<close>: the structures the kernel reads from and writes to disk blocks through casts
  of the block's bytes. \<open>getn\<close> and \<open>putn\<close> are the little-endian integer fields, and
  \<open>get_dinode\<close>, \<open>put_dinode\<close>, \<open>get_dirent\<close>, \<open>put_dirent\<close>, \<open>get_superblock\<close> the
  structures at a byte offset. The lemmas are the round trips and that a field leaves the bytes
  next to it alone.
\<close>

definition ROOTINO :: nat where [simp, code_unfold]: "ROOTINO = 1"
definition FSMAGIC :: nat where [simp, code_unfold]: "FSMAGIC = 0x10203040"
definition NDIRECT :: nat where [simp, code_unfold]: "NDIRECT = 12"
definition NINDIRECT :: nat where [simp, code_unfold]: "NINDIRECT = BSIZE div 4"
definition MAXFILE :: nat where [simp, code_unfold]: "MAXFILE = NDIRECT + NINDIRECT"
definition IPB :: nat where [simp, code_unfold]: "IPB = BSIZE div 64"
definition BPB :: nat where [simp, code_unfold]: "BPB = BSIZE * 8"
definition DIRSIZ :: nat where [simp, code_unfold]: "DIRSIZ = 14"
definition T_DIR :: ushort where [simp, code_unfold]: "T_DIR = 1"
definition T_FILE :: ushort where [simp, code_unfold]: "T_FILE = 2"
definition T_DEVICE :: ushort where [simp, code_unfold]: "T_DEVICE = 3"

subsection \<open>Integer fields\<close>

definition le_bytes :: "nat \<Rightarrow> nat \<Rightarrow> uchar list" where
  "le_bytes k v = map (\<lambda>i. of_nat (v div 256 ^ i)) [0..<k]"

definition le_num :: "uchar list \<Rightarrow> nat" where
  "le_num bs = foldr (\<lambda>b a. unat b + 256 * a) bs 0"

text \<open>Bytes of a block, and bytes put over those of a block.\<close>

definition get_at :: "nat \<Rightarrow> nat \<Rightarrow> block \<Rightarrow> uchar list" where
  "get_at off k d = take k (drop off d)"

definition put_at :: "nat \<Rightarrow> uchar list \<Rightarrow> block \<Rightarrow> block" where
  "put_at off bs d = take off d @ bs @ drop (off + length bs) d"

definition getn :: "nat \<Rightarrow> nat \<Rightarrow> block \<Rightarrow> nat" where
  "getn k off d = le_num (get_at off k d)"

definition putn :: "nat \<Rightarrow> nat \<Rightarrow> nat \<Rightarrow> block \<Rightarrow> block" where
  "putn k off v d = put_at off (le_bytes k v) d"

lemma length_le_bytes [simp]: "length (le_bytes k v) = k"
  by (simp add: le_bytes_def)

lemma le_bytes_Suc: "le_bytes (Suc k) v = of_nat v # le_bytes k (v div 256)"
proof -
  have "le_bytes (Suc k) v = of_nat v # map (\<lambda>i. of_nat (v div 256 ^ Suc i)) [0..<k]"
    by (simp add: le_bytes_def upt_conv_Cons map_Suc_upt [symmetric] del: upt_Suc)
  then show ?thesis by (simp add: le_bytes_def div_mult2_eq)
qed

lemma le_num_bytes: "le_num (le_bytes k v) = v mod 256 ^ k"
proof (induction k arbitrary: v)
  case (Suc k)
  have "le_num (le_bytes (Suc k) v) = v mod 256 + 256 * (v div 256 mod 256 ^ k)"
    using Suc [of "v div 256"] by (simp add: le_bytes_Suc le_num_def unat_of_nat)
  then show ?case by (simp add: mod_mult2_eq)
qed (simp add: le_num_def le_bytes_def)

lemma le_num_less: "le_num bs < 256 ^ length bs"
proof (induction bs)
  case (Cons b bs)
  have "256 * Suc (le_num bs) \<le> 256 * 256 ^ length bs" by (rule mult_le_mono2) (use Cons in simp)
  moreover have "unat b + 256 * le_num bs < 256 * Suc (le_num bs)" using unat_less_exp8 [of b] unfolding mult_Suc_right by linarith
  ultimately have "unat b + 256 * le_num bs < 256 * 256 ^ length bs" by (rule less_le_trans [rotated])
  then show ?case by (simp add: le_num_def)
qed (simp add: le_num_def)

lemma le_bytes_num: "le_bytes (length bs) (le_num bs) = bs"
proof (induction bs)
  case (Cons b bs)
  have n: "le_num (b # bs) = unat b + 256 * le_num bs" by (simp add: le_num_def)
  have "(of_nat (unat b + 256 * le_num bs) :: uchar) = b"
  proof -
    have z: "(256 :: uchar) = 0" by simp
    have "(256 :: uchar) * w = 0" for w unfolding z by simp
    then show ?thesis by simp
  qed
  moreover have "(unat b + 256 * le_num bs) div 256 = le_num bs" using unat_less_exp8 [of b] by linarith
  ultimately show ?case using Cons by (simp only: length_Cons n le_bytes_Suc)
qed (simp add: le_bytes_def)

lemma length_put_at [simp]: "off + length bs \<le> length d \<Longrightarrow> length (put_at off bs d) = length d"
  by (simp add: put_at_def)

lemma get_put_same: "off + length bs \<le> length d \<Longrightarrow> get_at off (length bs) (put_at off bs d) = bs"
  by (simp add: get_at_def put_at_def)

lemma put_at_nth:
  assumes "off + length bs \<le> length d"
  shows "put_at off bs d ! i = (if off \<le> i \<and> i < off + length bs then bs ! (i - off) else d ! i)"
  using assms by (simp add: put_at_def nth_append) (auto simp: nth_append)

lemma get_put_other:
  assumes "off + length bs \<le> length d" "off' + k \<le> off \<or> off + length bs \<le> off'"
  shows "get_at off' k (put_at off bs d) = get_at off' k d"
  by (rule nth_equalityI) (use assms in \<open>auto simp: get_at_def put_at_nth\<close>)

lemma length_putn [simp]: "off + k \<le> length d \<Longrightarrow> length (putn k off v d) = length d"
  by (simp add: putn_def)

lemma getn_putn: "off + k \<le> length d \<Longrightarrow> getn k off (putn k off v d) = v mod 256 ^ k"
  using get_put_same [of off "le_bytes k v" d] by (simp add: getn_def putn_def le_num_bytes)

lemma getn_putn_other:
  "off + k \<le> length d \<Longrightarrow> off' + k' \<le> off \<or> off + k \<le> off' \<Longrightarrow> getn k' off' (putn k off v d) = getn k' off' d"
  by (simp add: getn_def putn_def get_put_other)

lemma getn_less: "getn k off d < 256 ^ k"
proof -
  have "getn k off d < 256 ^ length (get_at off k d)" unfolding getn_def by (rule le_num_less)
  also have "\<dots> \<le> 256 ^ k" by (rule power_increasing) (simp_all add: get_at_def)
  finally show ?thesis .
qed

subsection \<open>Structures\<close>

record superblock =
  sb_magic :: nat
  sb_size :: nat
  sb_nblocks :: nat
  sb_ninodes :: nat
  sb_nlog :: nat
  sb_logstart :: nat
  sb_inodestart :: nat
  sb_bmapstart :: nat

definition get_superblock :: "block \<Rightarrow> superblock" where
  "get_superblock d = \<lparr>sb_magic = getn 4 0 d, sb_size = getn 4 4 d, sb_nblocks = getn 4 8 d, sb_ninodes = getn 4 12 d,
     sb_nlog = getn 4 16 d, sb_logstart = getn 4 20 d, sb_inodestart = getn 4 24 d, sb_bmapstart = getn 4 28 d\<rparr>"

record dinode =
  di_type :: ushort
  di_major :: ushort
  di_minor :: ushort
  di_nlink :: ushort
  di_size :: nat
  di_addrs :: "nat list"

definition get_dinode :: "nat \<Rightarrow> block \<Rightarrow> dinode" where
  "get_dinode off d = \<lparr>di_type = of_nat (getn 2 off d), di_major = of_nat (getn 2 (off + 2) d), di_minor = of_nat (getn 2 (off + 4) d),
     di_nlink = of_nat (getn 2 (off + 6) d), di_size = getn 4 (off + 8) d,
     di_addrs = map (\<lambda>i. getn 4 (off + 12 + 4 * i) d) [0..<NDIRECT + 1]\<rparr>"

definition dinode_bytes :: "dinode \<Rightarrow> uchar list" where
  "dinode_bytes x = le_bytes 2 (unat (di_type x)) @ le_bytes 2 (unat (di_major x)) @ le_bytes 2 (unat (di_minor x)) @
     le_bytes 2 (unat (di_nlink x)) @ le_bytes 4 (di_size x) @ concat (map (le_bytes 4) (di_addrs x))"

definition put_dinode :: "nat \<Rightarrow> dinode \<Rightarrow> block \<Rightarrow> block" where
  "put_dinode off x d = put_at off (dinode_bytes x) d"

definition dinode_ok :: "dinode \<Rightarrow> bool" where
  "dinode_ok x \<longleftrightarrow> di_size x < 2 ^ 32 \<and> length (di_addrs x) = NDIRECT + 1 \<and> (\<forall>a \<in> set (di_addrs x). a < 2 ^ 32)"

text \<open>
  Blocks with inode \<open>i\<close> and with the free bit of block \<open>b\<close>. Block numbers are natural numbers: the sums are those of the code as long as
  they are below \<open>2 ^ 32\<close>. The theorems about blocks ask for numbers below \<open>2 ^ 31\<close>.
\<close>

definition IBLOCK :: "nat \<Rightarrow> superblock \<Rightarrow> nat" where
  "IBLOCK i sb = i div IPB + sb_inodestart sb"

definition BBLOCK :: "nat \<Rightarrow> superblock \<Rightarrow> nat" where
  "BBLOCK b sb = b div BPB + sb_bmapstart sb"

record dirent =
  de_inum :: nat
  de_name :: "uchar list"

definition get_dirent :: "uchar list \<Rightarrow> dirent" where
  "get_dirent bs = \<lparr>de_inum = le_num (take 2 bs), de_name = take DIRSIZ (drop 2 bs)\<rparr>"

definition dirent_bytes :: "dirent \<Rightarrow> uchar list" where
  "dirent_bytes x = le_bytes 2 (de_inum x) @ de_name x"

lemma dirent_roundtrip:
  "de_inum x < 2 ^ 16 \<Longrightarrow> length (de_name x) = DIRSIZ \<Longrightarrow> get_dirent (dirent_bytes x) = x"
  by (simp add: get_dirent_def dirent_bytes_def le_num_bytes)

lemma length_dirent_bytes: "length (de_name x) = DIRSIZ \<Longrightarrow> length (dirent_bytes x) = 16"
  by (simp add: dirent_bytes_def)

lemma length_concat_le: "length (concat (map (le_bytes k) xs)) = k * length xs"
  by (induction xs) simp_all

lemma length_dinode_bytes: "length (di_addrs x) = NDIRECT + 1 \<Longrightarrow> length (dinode_bytes x) = 64"
  by (simp add: dinode_bytes_def length_concat_le)

lemma concat_le_nth:
  "i < length xs \<Longrightarrow> take k (drop (k * i) (concat (map (le_bytes k) xs) @ ys)) = le_bytes k (xs ! i)"
proof (induction xs arbitrary: i)
  case (Cons x xs)
  then show ?case by (cases i) simp_all
qed simp

lemma get_at_put_at_within:
  "off + length bs \<le> length d \<Longrightarrow> j + k \<le> length bs \<Longrightarrow> get_at (off + j) k (put_at off bs d) = get_at j k bs"
  by (rule nth_equalityI) (auto simp: get_at_def put_at_nth)

lemma get_put_dinode:
  assumes "off + 64 \<le> length d" "dinode_ok x"
  shows "get_dinode off (put_dinode off x d) = x" "length (put_dinode off x d) = length d"
    "off' + 64 \<le> off \<or> off + 64 \<le> off' \<Longrightarrow> get_dinode off' (put_dinode off x d) = get_dinode off' d"
proof -
  have l: "length (dinode_bytes x) = 64" using assms(2) by (simp add: dinode_ok_def length_dinode_bytes)
  define a where "a = concat (map (le_bytes 4) (di_addrs x))"
  have g: "getn k (off + j) (put_dinode off x d) = le_num (get_at j k (dinode_bytes x))" if "j + k \<le> 64" for j k
    using assms(1) that l by (simp add: getn_def put_dinode_def get_at_put_at_within)
  have b: "get_at 0 2 (dinode_bytes x) = le_bytes 2 (unat (di_type x))" "get_at 2 2 (dinode_bytes x) = le_bytes 2 (unat (di_major x))"
    "get_at 4 2 (dinode_bytes x) = le_bytes 2 (unat (di_minor x))" "get_at 6 2 (dinode_bytes x) = le_bytes 2 (unat (di_nlink x))"
    "get_at 8 4 (dinode_bytes x) = le_bytes 4 (di_size x)" "\<And>j. get_at (12 + j) 4 (dinode_bytes x) = take 4 (drop j (a @ []))"
    by (simp_all add: get_at_def dinode_bytes_def a_def)
  have u: "unat (w :: ushort) mod 65536 = unat w" for w
    using unsigned_less [of w, where ?'a = nat] by simp
  have ad: "getn 4 (off + 12 + 4 * i) (put_dinode off x d) = di_addrs x ! i" if "i < NDIRECT + 1" for i
  proof -
    have i: "i < length (di_addrs x)" using that assms(2) by (simp add: dinode_ok_def)
    then have "di_addrs x ! i < 2 ^ 32" using assms(2) nth_mem unfolding dinode_ok_def by blast
    then show ?thesis using g [of "12 + 4 * i" 4] that concat_le_nth [OF i, of 4 "[]"]
      by (simp add: b(6) a_def le_num_bytes add.assoc)
  qed
  have "map (\<lambda>i. getn 4 (off + 12 + 4 * i) (put_dinode off x d)) [0..<NDIRECT + 1] = di_addrs x"
    by (rule nth_equalityI) (use assms(2) ad in \<open>simp_all add: dinode_ok_def del: upt_Suc\<close>)
  moreover have "di_size x < 2 ^ 32" using assms(2) by (simp add: dinode_ok_def)
  ultimately have "get_dinode off (put_dinode off x d) = x"
    using g [of 0 2] g [of 2 2] g [of 4 2] g [of 6 2] g [of 8 4]
    by (simp add: get_dinode_def b le_num_bytes u del: upt_Suc)
  moreover have "getn k (off' + j) (put_dinode off x d) = getn k (off' + j) d"
    if "off' + 64 \<le> off \<or> off + 64 \<le> off'" "j + k \<le> 64" for off' j k
    using that assms(1) l by (auto simp: getn_def put_dinode_def intro!: arg_cong [where f = le_num] get_put_other)
  note o = this [where j = 0, simplified] this
  have "get_dinode off' (put_dinode off x d) = get_dinode off' d" if "off' + 64 \<le> off \<or> off + 64 \<le> off'" for off'
    using o [OF that] by (simp add: get_dinode_def add.assoc del: upt_Suc add_2_eq_Suc')
  ultimately show "get_dinode off (put_dinode off x d) = x" "length (put_dinode off x d) = length d"
    "off' + 64 \<le> off \<or> off + 64 \<le> off' \<Longrightarrow> get_dinode off' (put_dinode off x d) = get_dinode off' d"
    using assms(1) l by (simp_all add: put_dinode_def)
qed

text \<open>
  An on-disk inode that is written at its place in a block reads back as it was written, and the
  inodes in the other places of the block are unchanged.
\<close>

lemma dinode_roundtrip:
  assumes "off + 64 \<le> length d" "dinode_ok x"
  shows "get_dinode off (put_dinode off x d) = x \<and> length (put_dinode off x d) = length d \<and>
    (\<forall>off'. off' + 64 \<le> off \<or> off + 64 \<le> off' \<longrightarrow> get_dinode off' (put_dinode off x d) = get_dinode off' d)"
  using get_put_dinode [OF assms] by simp

end
