(* ===== verification/Blockcache.thy ===== *)
theory Blockcache
  imports Bio Layout
begin

section \<open>The contract of the buffer cache\<close>

text \<open>
  What \<^verbatim>\<open>bio.c\<close> promises to the log and the file system, as a locale over block numbers. A
  state has a set of pinned blocks and a set of blocks the caller holds. Reading a block adds it to the
  held ones, releasing it takes it away and requires that its contents are pinned or on disk.
  The clients' idioms (read and release, rewrite a block, copy a block to another) are proved
  once from the laws, and the locale is interpreted on the routines of \<open>Bio\<close>.
\<close>

locale block_cache =
  fixes st :: "'s \<Rightarrow> nat set \<Rightarrow> nat set \<Rightarrow> bool"
    and contents :: "'s \<Rightarrow> nat \<Rightarrow> block" and disk :: "'s \<Rightarrow> platter"
    and has :: "'s \<Rightarrow> nat \<Rightarrow> nat \<Rightarrow> bool" and data :: "'s \<Rightarrow> nat \<Rightarrow> block"
    and rd :: "nat \<Rightarrow> 's \<Rightarrow> exn + (nat \<times> 's)" and put :: "nat \<Rightarrow> block \<Rightarrow> 's \<Rightarrow> 's"
    and wr :: "nat \<Rightarrow> 's \<Rightarrow> exn + 's" and rel :: "nat \<Rightarrow> 's \<Rightarrow> exn + 's"
    and pin :: "nat \<Rightarrow> 's \<Rightarrow> exn + 's" and unpin :: "nat \<Rightarrow> 's \<Rightarrow> exn + 's"
    and fr :: "'s \<Rightarrow> 's \<Rightarrow> bool"
  assumes rd: "st s L H \<Longrightarrow> n \<notin> H \<Longrightarrow> n < 2 ^ 31 \<Longrightarrow> n \<in> L \<or> card (L \<union> H) < NBUF \<Longrightarrow>
      returns (rd n s) (\<lambda>(b, t). st t L (insert n H) \<and> has t b n \<and> contents t = contents s \<and> disk t = disk s \<and> fr s t \<and>
        (\<forall>c m. has s c m \<longrightarrow> has t c m))"
    and data: "st s L H \<Longrightarrow> has s b n \<Longrightarrow> data s b = contents s n \<and> n \<in> H"
    and size: "st s L H \<Longrightarrow> length (contents s n) = BSIZE"
    and put: "st s L H \<Longrightarrow> has s b n \<Longrightarrow> length d = BSIZE \<Longrightarrow>
      st (put b d s) L H \<and> contents (put b d s) = (contents s)(n := d) \<and> disk (put b d s) = disk s \<and> fr s (put b d s) \<and>
      (\<forall>c m. has s c m \<longrightarrow> has (put b d s) c m)"
    and wr: "st s L H \<Longrightarrow> has s b n \<Longrightarrow> n < 2 ^ 31 \<Longrightarrow>
      returns (wr b s) (\<lambda>t. st t L H \<and> contents t = contents s \<and> disk t = disk s @ [(n, contents s n)] \<and> fr s t \<and>
        (\<forall>c m. has s c m \<longrightarrow> has t c m))"
    and rel: "st s L H \<Longrightarrow> has s b n \<Longrightarrow> n \<in> L \<or> contents s n = disk_block (disk s) n \<Longrightarrow>
      returns (rel b s) (\<lambda>t. st t L (H - {n}) \<and> contents t = contents s \<and> disk t = disk s \<and> fr s t \<and>
        (\<forall>c m. has s c m \<longrightarrow> m \<noteq> n \<longrightarrow> has t c m))"
    and pin: "st s L H \<Longrightarrow> has s b n \<Longrightarrow> n \<notin> L \<Longrightarrow>
      returns (pin b s) (\<lambda>t. st t (insert n L) H \<and> contents t = contents s \<and> disk t = disk s \<and> fr s t \<and>
        (\<forall>c m. has s c m \<longrightarrow> has t c m))"
    and unpin: "st s L H \<Longrightarrow> has s b n \<Longrightarrow> n \<in> L \<Longrightarrow>
      returns (unpin b s) (\<lambda>t. st t (L - {n}) H \<and> contents t = contents s \<and> disk t = disk s \<and> fr s t \<and>
        (\<forall>c m. has s c m \<longrightarrow> has t c m))"
    and fr_refl: "fr s s" and fr_trans: "fr s t \<Longrightarrow> fr t u \<Longrightarrow> fr s u"
begin

text \<open>Outcomes of the laws as existentials, for chaining.\<close>

lemma rdE:
  assumes "st s L H" "n \<notin> H" "n < 2 ^ 31" "n \<in> L \<or> card (L \<union> H) < NBUF"
  obtains b t where "rd n s = Inr (b, t)" "st t L (insert n H)" "has t b n" "contents t = contents s" "disk t = disk s" "fr s t"
    "\<forall>c m. has s c m \<longrightarrow> has t c m"
  using rd [OF assms] by (auto simp: returns_iff)

lemma wrE:
  assumes "st s L H" "has s b n" "n < 2 ^ 31"
  obtains t where "wr b s = Inr t" "st t L H" "contents t = contents s" "disk t = disk s @ [(n, contents s n)]" "fr s t"
    "\<forall>c m. has s c m \<longrightarrow> has t c m"
  using wr [OF assms] by (auto simp: returns_iff)

lemma relE:
  assumes "st s L H" "has s b n" "n \<in> L \<or> contents s n = disk_block (disk s) n"
  obtains t where "rel b s = Inr t" "st t L (H - {n})" "contents t = contents s" "disk t = disk s" "fr s t"
    "\<forall>c m. has s c m \<longrightarrow> m \<noteq> n \<longrightarrow> has t c m"
  using rel [OF assms] by (auto simp: returns_iff)

text \<open>Read a block and release it.\<close>

lemma peek:
  assumes "st s L H" "n \<notin> H" "n < 2 ^ 31" "n \<in> L \<or> card (L \<union> H) < NBUF" "n \<in> L \<or> contents s n = disk_block (disk s) n"
  obtains b t u where "rd n s = Inr (b, t)" "has t b n" "st t L (insert n H)" "data t b = contents s n" "rel b t = Inr u" "st u L H" "contents u = contents s"
    "disk u = disk s" "fr s t" "fr t u"
proof -
  obtain b t where t: "rd n s = Inr (b, t)" "st t L (insert n H)" "has t b n" "contents t = contents s"
    "disk t = disk s" "fr s t" "\<forall>c m. has s c m \<longrightarrow> has t c m" by (rule rdE [OF assms(1-4)])
  have "n \<in> L \<or> contents t n = disk_block (disk t) n" using assms(5) t(4,5) by simp
  then obtain u where u: "rel b t = Inr u" "st u L (insert n H - {n})" "contents u = contents t" "disk u = disk t" "fr t u"
    "\<forall>c m. has t c m \<longrightarrow> m \<noteq> n \<longrightarrow> has u c m" by (rule relE [OF t(2,3)])
  have "data t b = contents s n" using data [OF t(2,3)] t(4) by simp
  moreover have "insert n H - {n} = H" using assms(2) by simp
  ultimately show thesis using that [OF t(1,3,2) _ u(1)] u(2-5) t(4-6) by simp
qed

text \<open>Read a block, change it, write it to the disk and release it.\<close>

lemma rewrite:
  assumes "st s L H" "n \<notin> H" "n < 2 ^ 31" "n \<in> L \<or> card (L \<union> H) < NBUF" "length (f (contents s n)) = BSIZE"
  obtains b t u v where "rd n s = Inr (b, t)" "has t b n" "st t L (insert n H)" "data t b = contents s n" "fr s t" "wr b (put b (f (contents s n)) t) = Inr u" "rel b u = Inr v"
    "st v L H" "contents v = (contents s)(n := f (contents s n))" "disk v = disk s @ [(n, f (contents s n))]" "fr s v"
proof -
  obtain b t where t: "rd n s = Inr (b, t)" "st t L (insert n H)" "has t b n" "contents t = contents s"
    "disk t = disk s" "fr s t" "\<forall>c m. has s c m \<longrightarrow> has t c m" by (rule rdE [OF assms(1-4)])
  define w where "w = put b (f (contents s n)) t"
  have w: "st w L (insert n H)" "contents w = (contents s)(n := f (contents s n))" "disk w = disk s" "fr t w" "has w b n"
    using put [OF t(2,3) assms(5)] t by (simp_all add: w_def)
  obtain u where u: "wr b w = Inr u" "st u L (insert n H)" "contents u = contents w"
    "disk u = disk w @ [(n, contents w n)]" "fr w u" "\<forall>c m. has w c m \<longrightarrow> has u c m" by (rule wrE [OF w(1,5) assms(3)])
  have "n \<in> L \<or> contents u n = disk_block (disk u) n" using u(3,4) by (simp add: disk_block_append)
  then obtain v where v: "rel b u = Inr v" "st v L (insert n H - {n})" "contents v = contents u" "disk v = disk u" "fr u v"
    "\<forall>c m. has u c m \<longrightarrow> m \<noteq> n \<longrightarrow> has v c m" by (rule relE [OF u(2) u(6) [rule_format, OF w(5)]])
  have "insert n H - {n} = H" using assms(2) by simp
  moreover have "fr s v" using t(6) w(4) u(5) v(5) fr_trans by blast
  moreover have "data t b = contents s n" using data [OF t(2,3)] t by simp
  ultimately show thesis using that [OF t(1,3,2) _ t(6) u(1) [unfolded w_def] v(1)] v(2-4) u(3,4) w(2,3) by simp
qed

text \<open>With two blocks at hand, copy the first over the second on the disk and release both.\<close>

lemma copy_over:
  assumes s: "st s L H" "has s a m" "has s b n" and ne: "m \<noteq> n" and n: "n < 2 ^ 31" and m: "m \<in> L \<or> contents s m = disk_block (disk s) m"
  obtains t u v where "data s a = contents s m" "wr b (put b (data s a) s) = Inr t" "rel a t = Inr u" "rel b u = Inr v" "st v L (H - {m} - {n})"
    "contents v = (contents s)(n := contents s m)" "disk v = disk s @ [(n, contents s m)]" "fr s v"
proof -
  define w where "w = put b (contents s m) s"
  have da: "data s a = contents s m" using data [OF s(1,2)] by simp
  have w: "st w L H" "contents w = (contents s)(n := contents s m)" "disk w = disk s" "fr s w" "has w a m" "has w b n"
    using put [OF s(1,3) size [OF s(1)]] s(2,3) by (simp_all add: w_def)
  obtain t where t: "wr b w = Inr t" "st t L H" "contents t = contents w" "disk t = disk w @ [(n, contents w n)]"
    "fr w t" and ht: "\<forall>c m. has w c m \<longrightarrow> has t c m" by (rule wrE [OF w(1,6) n])
  have h: "has t a m" "has t b n" using ht w(5,6) by blast+
  have "m \<in> L \<or> contents t m = disk_block (disk t) m" using m ne t(3,4) w(2,3) by (auto simp: disk_block_append)
  then obtain u where u: "rel a t = Inr u" "st u L (H - {m})" "contents u = contents t" "disk u = disk t" "fr t u"
    and hu: "\<forall>c k. has t c k \<longrightarrow> k \<noteq> m \<longrightarrow> has u c k" by (rule relE [OF t(2) h(1)])
  have "n \<in> L \<or> contents u n = disk_block (disk u) n" using u(3,4) t(3,4) by (simp add: disk_block_append)
  then obtain v where v: "rel b u = Inr v" "st v L (H - {m} - {n})" "contents v = contents u" "disk v = disk u" "fr u v"
    "\<forall>c k. has u c k \<longrightarrow> k \<noteq> n \<longrightarrow> has v c k" by (rule relE [OF u(2) hu [rule_format, OF h(2) ne [symmetric]]])
  have "fr s v" using w(4) t(5) u(5) v(5) fr_trans by blast
  then show thesis using that [OF da t(1) [unfolded w_def, folded da] u(1) v(1) v(2)] v(3,4) u(3,4) t(3,4) w(2,3) by simp
qed

text \<open>The same with the second block unpinned after it was written.\<close>

lemma copy_over_unpin:
  assumes s: "st s L H" "has s a m" "has s b n" and ne: "m \<noteq> n" "n \<in> L" and n: "n < 2 ^ 31" and m: "m \<in> L \<or> contents s m = disk_block (disk s) m"
  obtains t t' u v where "data s a = contents s m" "wr b (put b (data s a) s) = Inr t" "unpin b t = Inr t'" "rel a t' = Inr u" "rel b u = Inr v"
    "st v (L - {n}) (H - {m} - {n})" "contents v = (contents s)(n := contents s m)" "disk v = disk s @ [(n, contents s m)]" "fr s v"
proof -
  define w where "w = put b (contents s m) s"
  have da: "data s a = contents s m" using data [OF s(1,2)] by simp
  have w: "st w L H" "contents w = (contents s)(n := contents s m)" "disk w = disk s" "fr s w" "has w a m" "has w b n"
    using put [OF s(1,3) size [OF s(1)]] s(2,3) by (simp_all add: w_def)
  obtain t where t: "wr b w = Inr t" "st t L H" "contents t = contents w" "disk t = disk w @ [(n, contents w n)]"
    "fr w t" and ht: "\<forall>c m. has w c m \<longrightarrow> has t c m" by (rule wrE [OF w(1,6) n])
  have h: "has t a m" "has t b n" using ht w(5,6) by blast+
  obtain t' where t': "unpin b t = Inr t'" "st t' (L - {n}) H" "contents t' = contents t" "disk t' = disk t"
    "fr t t'" "has t' a m" "has t' b n" using unpin [OF t(2) h(2) ne(2)] h by (auto simp: returns_iff)
  have "m \<in> L - {n} \<or> contents t' m = disk_block (disk t') m" using m ne t(3,4) t'(3,4) w(2,3) by (auto simp: disk_block_append)
  then obtain u where u: "rel a t' = Inr u" "st u (L - {n}) (H - {m})" "contents u = contents t'" "disk u = disk t'" "fr t' u"
    and hu: "\<forall>c k. has t' c k \<longrightarrow> k \<noteq> m \<longrightarrow> has u c k" by (rule relE [OF t'(2) t'(6)])
  have "n \<in> L - {n} \<or> contents u n = disk_block (disk u) n" using u(3,4) t(3,4) t'(3,4) by (simp add: disk_block_append)
  then obtain v where v: "rel b u = Inr v" "st v (L - {n}) (H - {m} - {n})" "contents v = contents u" "disk v = disk u" "fr u v"
    "\<forall>c k. has u c k \<longrightarrow> k \<noteq> n \<longrightarrow> has v c k" by (rule relE [OF u(2) hu [rule_format, OF t'(7) ne(1) [symmetric]]])
  have "fr s v" using w(4) t(5) t'(5) u(5) v(5) fr_trans by blast
  then show thesis using that [OF da t(1) [unfolded w_def, folded da] t'(1) u(1) v(1) v(2)] v(3,4) u(3,4) t(3,4) t'(3,4) w(2,3) by simp
qed

end

subsection \<open>The routines of the buffer cache keep the contract\<close>

text \<open>Each pinned and each held block has one reference; the held blocks are the locked ones.\<close>

definition cst :: "nat \<Rightarrow> 'a storage_scheme \<Rightarrow> nat set \<Rightarrow> nat set \<Rightarrow> bool" where
  "cst p s L H \<longleftrightarrow> io_ok p s \<and> finite L \<and> finite H \<and>
     refs s = (\<lambda>m. of_bool (m \<in> L) + of_bool (m \<in> H)) \<and> blk_locked s = (\<lambda>m. m \<in> H)"

definition put_data :: "nat \<Rightarrow> block \<Rightarrow> 'a storage_scheme \<Rightarrow> 'a storage_scheme" where
  "put_data b d s = upd_buf b (\<lambda>q. q\<lparr>b_data := d\<rparr>) s"

lemma cst_holds: "cst p s L H \<Longrightarrow> holds p s b n \<Longrightarrow> b_data (bf s b) = blk s n \<and> n \<in> H"
  using holds_view(1,2) [of s p b n] by (auto simp: cst_def io_ok_def)

lemma blk_length: "bcache_ok s \<Longrightarrow> length (blk s n) = BSIZE"
proof -
  assume s: "bcache_ok s"
  have "length (b_data (bf s b)) = BSIZE" if "b < NBUF" for b using s that by (auto simp: bcache_ok_def buf_ok_def)
  moreover have "buf_of s n = Some b \<Longrightarrow> b < NBUF" for b using s by (auto simp: buf_of_iff bcache_ok_def cached_def)
  ultimately show ?thesis using s disk_block_length [of "platter s" n]
    by (auto simp: blk_def bcache_ok_def split: option.splits)
qed

lemma cst_step:
  assumes "cst p s L H" "cache_step p s t B R K pl" "R = (\<lambda>m. of_bool (m \<in> L') + of_bool (m \<in> H'))" "K = (\<lambda>m. m \<in> H')"
    "finite L'" "finite H'"
  shows "cst p t L' H'" "blk t = B" "platter t = pl" "cframe p s t" "\<And>c m. holds p s c m \<Longrightarrow> m \<in> H' \<Longrightarrow> holds p t c m"
  using assms by (auto simp: cache_step_def cst_def)

lemma cst_keep:
  assumes "cst p s L H" "returns (f s) (\<lambda>t. cache_step p s t B R (\<lambda>m. m \<in> H) pl)"
    "R = (\<lambda>m. of_bool (m \<in> L') + of_bool (m \<in> H))" "finite L'"
  shows "returns (f s) (\<lambda>t. cst p t L' H \<and> blk t = B \<and> platter t = pl \<and> cframe p s t \<and> (\<forall>c m. holds p s c m \<longrightarrow> holds p t c m))"
proof -
  obtain t where t: "f s = Inr t" "cache_step p s t B R (\<lambda>m. m \<in> H) pl" using assms(2) by (auto simp: returns_iff)
  have "finite H" using assms(1) by (simp add: cst_def)
  note st = cst_step [OF assms(1) t(2) assms(3) refl assms(4) this]
  have "holds p s c m \<Longrightarrow> m \<in> H" for c m using cst_holds [OF assms(1)] by blast
  then show ?thesis using st t(1) by simp
qed

interpretation bc: block_cache "cst p" blk platter "holds p" "\<lambda>s b. b_data (bf s b)" "bread ROOTDEV" put_data bwrite brelse bpin bunpin "cframe p"
  for p :: nat
proof unfold_locales
  fix s t u :: "'a storage_scheme" and L H :: "nat set" and n b :: nat and d :: block
  show "cframe p s s" by simp
  show "cframe p s t \<Longrightarrow> cframe p t u \<Longrightarrow> cframe p s u" by (rule cframe_trans)
  assume c: "cst p s L H"
  have io: "io_ok p s" "bcache_ok s" and rf: "refs s = (\<lambda>m. of_bool (m \<in> L) + of_bool (m \<in> H))" and lk: "blk_locked s = (\<lambda>m. m \<in> H)"
    and fin: "finite L" "finite H" using c by (simp_all add: cst_def io_ok_def)
  show "length (blk s n) = BSIZE" by (rule blk_length [OF io(2)])
  show "returns (bread ROOTDEV n s) (\<lambda>(b, t). cst p t L (insert n H) \<and> holds p t b n \<and> blk t = blk s \<and> platter t = platter s \<and> cframe p s t \<and>
        (\<forall>c m. holds p s c m \<longrightarrow> holds p t c m))"
    if "n \<notin> H" "n < 2 ^ 31" "n \<in> L \<or> card (L \<union> H) < NBUF"
  proof -
    have "{m. refs s m \<noteq> 0} = L \<union> H" by (auto simp: rf)
    then have "refs s n \<noteq> 0 \<or> buf_avail s" using that(3) buf_availI [OF io(2)] fin by (auto simp: rf)
    moreover have "refs s n + 1 < 2 ^ 32" by (simp add: rf)
    ultimately have "returns (bread ROOTDEV n s) (\<lambda>(b, t). holds p t b n \<and> b_data (bf t b) = blk s n \<and>
     cache_step p s t (blk s) ((refs s)(n := refs s n + 1)) ((blk_locked s)(n := True)) (platter s))"
      using bread_spec [OF io(1) that(2)] that(1) lk by simp
    then obtain b t where t: "bread ROOTDEV n s = Inr (b, t)" "holds p t b n"
      "cache_step p s t (blk s) ((refs s)(n := refs s n + 1)) ((blk_locked s)(n := True)) (platter s)" by (auto simp: returns_iff)
    have "(refs s)(n := refs s n + 1) = (\<lambda>m. of_bool (m \<in> L) + of_bool (m \<in> insert n H))"
      "(blk_locked s)(n := True) = (\<lambda>m. m \<in> insert n H)" using that(1) by (auto simp: rf lk fun_eq_iff)
    note st = cst_step [OF c t(3) this fin(1)]
    have "holds p s c m \<Longrightarrow> m \<in> insert n H" for c m using cst_holds [OF c] by blast
    then show ?thesis using st fin t(1,2) by simp
  qed
  assume h: "holds p s b n"
  show "b_data (bf s b) = blk s n \<and> n \<in> H" by (rule cst_holds [OF c h])
  then have nH: "n \<in> H" by simp
  show "cst p (put_data b d s) L H \<and> blk (put_data b d s) = (blk s)(n := d) \<and> platter (put_data b d s) = platter s \<and>
    cframe p s (put_data b d s) \<and> (\<forall>c m. holds p s c m \<longrightarrow> holds p (put_data b d s) c m)" if "length d = BSIZE"
    using cst_keep [OF c, where f = "\<lambda>s. Inr (put_data b d s)" and L' = L] set_data_spec [OF io(1) h that] rf lk fin by (simp add: put_data_def)
  show "returns (bwrite b s) (\<lambda>t. cst p t L H \<and> blk t = blk s \<and> platter t = platter s @ [(n, blk s n)] \<and> cframe p s t \<and>
        (\<forall>c m. holds p s c m \<longrightarrow> holds p t c m))" if "n < 2 ^ 31"
    using cst_keep [OF c, where f = "bwrite b" and L' = L] bwrite_spec [OF io(1) h that] rf lk fin by simp
  show "returns (bpin b s) (\<lambda>t. cst p t (insert n L) H \<and> blk t = blk s \<and> platter t = platter s \<and> cframe p s t \<and>
        (\<forall>c m. holds p s c m \<longrightarrow> holds p t c m))" if "n \<notin> L"
  proof (rule cst_keep [OF c, where f = "bpin b"])
    show "returns (bpin b s) (\<lambda>t. cache_step p s t (blk s) ((refs s)(n := refs s n + 1)) (\<lambda>m. m \<in> H) (platter s))"
      using bpin_spec [OF io(1) h] lk by (simp add: rf)
  qed (use that fin in \<open>auto simp: rf fun_eq_iff\<close>)
  show "returns (bunpin b s) (\<lambda>t. cst p t (L - {n}) H \<and> blk t = blk s \<and> platter t = platter s \<and> cframe p s t \<and>
        (\<forall>c m. holds p s c m \<longrightarrow> holds p t c m))" if "n \<in> L"
  proof (rule cst_keep [OF c, where f = "bunpin b"])
    show "returns (bunpin b s) (\<lambda>t. cache_step p s t (blk s) ((refs s)(n := refs s n - 1)) (\<lambda>m. m \<in> H) (platter s))"
      using bunpin_spec [OF io(1) h] lk nH that by (simp add: rf)
  qed (use that nH fin in \<open>auto simp: rf fun_eq_iff\<close>)
  show "returns (brelse b s) (\<lambda>t. cst p t L (H - {n}) \<and> blk t = blk s \<and> platter t = platter s \<and> cframe p s t \<and>
        (\<forall>c m. holds p s c m \<longrightarrow> m \<noteq> n \<longrightarrow> holds p t c m))" if "n \<in> L \<or> blk s n = disk_block (platter s) n"
  proof -
    have "refs s n = 1 \<Longrightarrow> n \<notin> L" using nH by (auto simp: rf)
    then have "returns (brelse b s) (\<lambda>t. cache_step p s t (blk s) ((refs s)(n := refs s n - 1)) ((blk_locked s)(n := False)) (platter s))"
      using brelse_spec [OF io(1) h] that by blast
    then obtain t where t: "brelse b s = Inr t"
      "cache_step p s t (blk s) ((refs s)(n := refs s n - 1)) ((blk_locked s)(n := False)) (platter s)" by (auto simp: returns_iff)
    have "(refs s)(n := refs s n - 1) = (\<lambda>m. of_bool (m \<in> L) + of_bool (m \<in> H - {n}))"
      "(blk_locked s)(n := False) = (\<lambda>m. m \<in> H - {n})" using nH by (auto simp: rf lk fun_eq_iff)
    note st = cst_step [OF c t(2) this fin(1)]
    have "holds p s c m \<Longrightarrow> m \<in> H" for c m using cst_holds [OF c] by blast
    then show ?thesis using st fin t(1) by simp
  qed
qed

lemma cst_clean: "cst p s L H \<Longrightarrow> m \<notin> L \<Longrightarrow> m \<notin> H \<Longrightarrow> blk s m = disk_block (platter s) m"
proof -
  assume c: "cst p s L H" and m: "m \<notin> L" "m \<notin> H"
  have ok: "bcache_ok s" and r: "refs s m = 0" using c m by (simp_all add: cst_def io_ok_def)
  show ?thesis
  proof (cases "buf_of s m")
    case (Some b)
    then have "cached s b m" using ok by (simp add: buf_of_iff bcache_ok_def)
    then show ?thesis using ok r Some by (auto simp: blk_def refs_def bcache_ok_def buf_ok_def cached_def unat_eq_zero)
  qed (simp add: blk_def)
qed

subsection \<open>The initial cache\<close>

definition zero_buf :: "buf \<Rightarrow> bool" where
  "zero_buf q \<longleftrightarrow> b_dev q = 0 \<and> \<not> b_valid q \<and> b_refcnt q = 0 \<and> length (b_data q) = BSIZE"

lemma binit_loop:
  assumes "k \<le> NBUF" "ring (bufs s) []" "\<forall>i < NBUF. zero_buf (bf s i)"
  shows "\<exists>t. fold (\<lambda>b s. link_front b (initsleeplock (BufLock b) s)) [0..<k] s = t \<and> ring (bufs t) (rev [0..<k]) \<and>
    (\<forall>i < NBUF. zero_buf (bf t i)) \<and> (\<forall>i < k. \<not> buf_locked t i) \<and> (\<exists>bs sl. t = s\<lparr>bufs := bs, slk := sl\<rparr>)"
  using assms(1)
proof (induction k)
  case 0
  have "\<exists>bs sl. s = s\<lparr>bufs := bs, slk := sl\<rparr>" by (rule exI [of _ "bufs s"], rule exI [of _ "slk s"]) simp
  then show ?case using assms by simp
next
  case (Suc k)
  then obtain u where u: "fold (\<lambda>b s. link_front b (initsleeplock (BufLock b) s)) [0..<k] s = u" "ring (bufs u) (rev [0..<k])"
    "\<forall>i < NBUF. zero_buf (bf u i)" "\<forall>i < k. \<not> buf_locked u i" "\<exists>bs sl. u = s\<lparr>bufs := bs, slk := sl\<rparr>" by auto
  define v where "v = initsleeplock (BufLock k) u"
  have v: "bufs v = bufs u" "\<exists>sl. v = u\<lparr>slk := sl\<rparr>" "slk v (BufLock k) = (slk u (BufLock k))\<lparr>sl_locked := 0, sl_pid := 0\<rparr>"
    "\<forall>i. i \<noteq> k \<longrightarrow> slk v (BufLock i) = slk u (BufLock i)"
    by (auto simp: v_def initsleeplock_def upd_slk_def)
  define t where "t = link_front k v"
  from link_front_links [of v k] obtain bs where t: "t = v\<lparr>bufs := bs\<rparr>" "map body bs = map body (bufs v)" by (auto simp: links_only_def t_def)
  have len: "length (bufs v) = Suc NBUF" using u(2) v(1) by (simp add: ring_def)
  have "zero_buf (bf t i)" if "i < NBUF" for i
    using body_fields(2-6) [OF t(2), of i] u(3) that len v(1) by (simp add: t(1) bf_def zero_buf_def)
  moreover have "ring (bufs t) (rev [0..<Suc k])"
    using link_front_ring [of v "rev [0..<k]" k] u(2) v(1) Suc.prems by (simp add: t_def)
  moreover have "\<not> buf_locked t i" if "i < Suc k" for i
    using that u(4) v(3,4) by (cases "i = k") (auto simp: buf_locked_def t(1))
  moreover have "fold (\<lambda>b s. link_front b (initsleeplock (BufLock b) s)) [0..<Suc k] s = t" using u(1) by (simp add: t_def v_def)
  moreover have "\<exists>bs sl. t = s\<lparr>bufs := bs, slk := sl\<rparr>"
  proof -
    obtain bs' sl' sl where "u = s\<lparr>bufs := bs', slk := sl'\<rparr>" "v = u\<lparr>slk := sl\<rparr>" using u(5) v(2) by blast
    then have "t = s\<lparr>bufs := bs, slk := sl\<rparr>" by (simp add: t(1))
    then show ?thesis by blast
  qed
  ultimately show ?case by simp
qed

lemma binit_spec:
  assumes "length (bufs s) = Suc NBUF" "\<forall>i < NBUF. zero_buf (bf s i)"
  shows "\<exists>bs sl. binit s = s\<lparr>bufs := bs, slk := sl\<rparr> \<and> ring bs (rev [0..<NBUF]) \<and> (\<forall>i < NBUF. zero_buf (bs ! i) \<and> sl_locked (sl (BufLock i)) = 0)"
proof -
  define u where "u = upd_buf NBUF (\<lambda>q. q\<lparr>b_next := NBUF\<rparr>) (upd_buf NBUF (\<lambda>q. q\<lparr>b_prev := NBUF\<rparr>) s)"
  have u: "ring (bufs u) []" "\<forall>i < NBUF. zero_buf (bf u i)" "\<exists>bs. u = s\<lparr>bufs := bs\<rparr>"
    using assms by (simp_all add: u_def upd_buf_def ring_def linked_def bf_def) blast
  have "binit s = fold (\<lambda>b s. link_front b (initsleeplock (BufLock b) s)) [0..<NBUF] u" by (simp only: binit_def Let_def u_def)
  with binit_loop [OF order_refl u(1,2)] obtain t where t: "binit s = t" "ring (bufs t) (rev [0..<NBUF])" "\<forall>i < NBUF. zero_buf (bf t i)"
    "\<forall>i < NBUF. \<not> buf_locked t i" "\<exists>bs sl. t = u\<lparr>bufs := bs, slk := sl\<rparr>" by auto
  from t(5) u(3) obtain bs sl where "t = s\<lparr>bufs := bs, slk := sl\<rparr>" by auto
  with t show ?thesis by (auto simp: bf_def buf_locked_def simp del: upt_rec_numeral)
qed

lemma binit_cst:
  assumes "length (bufs s) = Suc NBUF" "\<forall>i < NBUF. zero_buf (bf s i)" "in_proc p s" "vd_idle (vd s)" "device_ok (vdev s)"
    "\<forall>w \<in> set (platter s). length (snd w) = BSIZE"
  shows "cst p (binit s) {} {}"
proof -
  from binit_spec [OF assms(1,2)] obtain bs sl where t: "binit s = s\<lparr>bufs := bs, slk := sl\<rparr>" "ring bs (rev [0..<NBUF])"
    "\<forall>i < NBUF. zero_buf (bs ! i) \<and> sl_locked (sl (BufLock i)) = 0" by blast
  let ?t = "s\<lparr>bufs := bs, slk := sl\<rparr>"
  have nc: "\<not> cached ?t b n" for b n using t(3) by (auto simp: cached_def bf_def zero_buf_def)
  then have bo: "buf_of ?t n = None" for n by (simp add: buf_of_None)
  have "set (rev [0..<NBUF]) = {..<NBUF}" by (simp add: atLeast0LessThan)
  then have "\<exists>xs. ring bs xs \<and> set xs = {..<NBUF}" using t(2) by blast
  moreover have "buf_ok (platter s) (bf ?t i) (buf_locked ?t i)" if "i < NBUF" for i
    using t(3) that by (simp add: buf_ok_def zero_buf_def bf_def buf_locked_def)
  ultimately have "bcache_ok ?t" using nc assms(6) by (simp add: bcache_ok_def once_def)
  moreover have "in_proc p ?t" using assms(3) by (simp add: in_proc_def pr_def)
  ultimately show ?thesis unfolding t(1) using assms(4,5)
    by (simp add: cst_def io_ok_def fun_eq_iff refs_def blk_locked_def bo)
qed

text \<open>
  \<^verbatim>\<open>binit\<close> builds the list of buffers: the links in both directions form one ring through the head and
  every buffer, no buffer is locked or holds a block, and the cache satisfies its invariant.
\<close>

lemma binit_correct:
  assumes "length (bufs s) = Suc NBUF" "\<forall>i < NBUF. zero_buf (bf s i)" "\<forall>w \<in> set (platter s). length (snd w) = BSIZE"
  shows "ring (bufs (binit s)) (rev [0..<NBUF]) \<and> bcache_ok (binit s) \<and> (\<forall>i < NBUF. \<not> buf_locked (binit s) i \<and> b_refcnt (bf (binit s) i) = 0)"
proof -
  from binit_spec [OF assms(1,2)] obtain bs sl where t: "binit s = s\<lparr>bufs := bs, slk := sl\<rparr>" "ring bs (rev [0..<NBUF])"
    "\<forall>i < NBUF. zero_buf (bs ! i) \<and> sl_locked (sl (BufLock i)) = 0" by blast
  let ?t = "s\<lparr>bufs := bs, slk := sl\<rparr>"
  have nc: "\<not> cached ?t b n" for b n using t(3) by (auto simp: cached_def bf_def zero_buf_def)
  have "set (rev [0..<NBUF]) = {..<NBUF}" by (simp add: atLeast0LessThan)
  then have "\<exists>xs. ring bs xs \<and> set xs = {..<NBUF}" using t(2) by blast
  moreover have "buf_ok (platter s) (bf ?t i) (buf_locked ?t i)" if "i < NBUF" for i
    using t(3) that by (simp add: buf_ok_def zero_buf_def bf_def buf_locked_def)
  ultimately have "bcache_ok ?t" using nc assms(3) by (simp add: bcache_ok_def once_def)
  then show ?thesis unfolding t(1) using t(2,3) by (simp add: zero_buf_def bf_def buf_locked_def del: upt_rec_numeral)
qed

definition demo_buf :: buf where
  "demo_buf = \<lparr>b_valid = False, b_disk = False, b_dev = 0, b_blockno = 0, b_refcnt = 0, b_prev = 0, b_next = 0, b_data = replicate BSIZE 0\<rparr>"

definition demo_boot :: "platter \<Rightarrow> storage" where
  "demo_boot pl = demo_storage (replicate (Suc NBUF) demo_buf) pl"

lemma demo_boot_zero: "length (bufs (demo_boot pl)) = Suc NBUF" "i < NBUF \<Longrightarrow> zero_buf (bf (demo_boot pl) i)"
  by (simp_all add: demo_boot_def bf_def demo_buf_def zero_buf_def del: replicate_Suc)

text \<open>
  C3: \<^verbatim>\<open>bread\<close> hands out a block. With a buffer to spare it returns a buffer that the caller has
  locked and whose bytes are the current contents of the block, that is the cached copy if there is one and what
  was last written to the disk otherwise. No block is in two buffers afterwards, no block's
  contents change, and nothing is written to the disk.
\<close>

theorem bread_correct:
  assumes "io_ok p s" "n < 2 ^ 31" "\<not> blk_locked s n" "refs s n + 1 < 2 ^ 32" "refs s n \<noteq> 0 \<or> buf_avail s"
  shows "returns (bread ROOTDEV n s) (\<lambda>(b, t). holds p t b n \<and> b_data (bf t b) = blk s n \<and> io_ok p t \<and> once t \<and>
    blk t = blk s \<and> refs t = (refs s)(n := refs s n + 1) \<and> platter t = platter s)"
  using bread_spec [OF assms] by (auto elim!: returns_mono simp: cache_step_def io_ok_def bcache_ok_def)

theorem bread_correct_witness:
  "returns (bread ROOTDEV 7 (binit (demo_boot [(7, replicate BSIZE 5)])))
     (\<lambda>(b, t). b_data (bf t b) = replicate BSIZE 5 \<and> refs t 7 = 1)"
proof -
  let ?s = "demo_boot [(7, replicate BSIZE 5)]" let ?t = "binit ?s"
  have c: "cst 2 ?t {} {}"
    by (rule binit_cst) (use demo_boot_zero in \<open>simp_all add: demo_boot_def\<close>)
  then have io: "io_ok 2 ?t" "refs ?t 7 = 0" "\<not> blk_locked ?t 7" "refs ?t = (\<lambda>_. 0)" by (simp_all add: cst_def)
  have "buf_avail ?t" using buf_availI [of ?t] io by (simp add: io_ok_def)
  moreover have "platter ?t = [(7, replicate BSIZE 5)]"
    using binit_spec [OF demo_boot_zero(1), of "[(7, replicate BSIZE 5)]"] demo_boot_zero(2) by (auto simp: demo_boot_def)
  then have "blk ?t 7 = replicate BSIZE 5" using cst_clean [OF c, of 7] by (simp add: disk_block_def)
  ultimately show ?thesis
    using bread_correct [OF io(1), of 7] io by (auto elim!: returns_mono)
qed

end
