(* ===== verification/Log.thy ===== *)
theory Log
  imports Blockcache
begin

section \<open>The log\<close>

text \<open>
  \<^verbatim>\<open>kernel/log.c\<close>. The state adds \<^verbatim>\<open>struct log\<close> with its in-memory header; \<open>lh_n\<close> is the
  signed counter of the C code, which \<^verbatim>\<open>read_head\<close> takes from the disk. The loops run over
  the values of \<^verbatim>\<open>tail\<close>. \<^verbatim>\<open>begin_op\<close> ends with \<open>Sleeping\<close> where the code waits.

  The lemmas show what one commit writes to the disk, in order, and that recovery after a crash at any
  point of that sequence leaves either all of the transaction's blocks at their new contents
  or all at their old ones.
\<close>

record logst = storage +
  l_start :: nat
  l_size :: nat
  l_outstanding :: int
  l_committing :: bool
  l_dev :: nat
  lh_n :: int
  lh_block :: "nat list"

subsection \<open>Moving blocks between the log and their homes\<close>

definition install_trans :: "bool \<Rightarrow> 'a logst_scheme \<Rightarrow> exn + 'a logst_scheme" where
  "install_trans recovering s =
     for_each [0..<nat (lh_n s)] (\<lambda>tail s.
       andthen (bread (l_dev s) (l_start s + tail + 1) s) (\<lambda>(lbuf, s).
       andthen (bread (l_dev s) (lh_block s ! tail) s) (\<lambda>(dbuf, s).
       let s = upd_buf dbuf (\<lambda>q. q\<lparr>b_data := b_data (bf s lbuf)\<rparr>) s in
       andthen (bwrite dbuf s) (\<lambda>s.
       andthen (if \<not> recovering then bunpin dbuf s else Inr s) (\<lambda>s.
       andthen (brelse lbuf s) (\<lambda>s.
       brelse dbuf s)))))) s"

text \<open>The header block: the count and the block numbers.\<close>

definition read_head :: "'a logst_scheme \<Rightarrow> exn + 'a logst_scheme" where
  "read_head s =
     andthen (bread (l_dev s) (l_start s) s) (\<lambda>(buf, s).
     let s = s\<lparr>lh_n := sint (of_nat (getn 4 0 (b_data (bf s buf))) :: uint)\<rparr> in
     if nat (lh_n s) > LOGSIZE then Inl OutOfBounds
     else
       let s = fold (\<lambda>i s. s\<lparr>lh_block := (lh_block s)[i := getn 4 (4 + 4 * i) (b_data (bf s buf))]\<rparr>) [0..<nat (lh_n s)] s
       in brelse buf s)"

definition write_head :: "'a logst_scheme \<Rightarrow> exn + 'a logst_scheme" where
  "write_head s =
     andthen (bread (l_dev s) (l_start s) s) (\<lambda>(buf, s).
     let s = upd_buf buf (\<lambda>q. q\<lparr>b_data := putn 4 0 (unat (of_int (lh_n s) :: uint)) (b_data q)\<rparr>) s;
         s = fold (\<lambda>i s. upd_buf buf (\<lambda>q. q\<lparr>b_data := putn 4 (4 + 4 * i) (lh_block s ! i) (b_data q)\<rparr>) s) [0..<nat (lh_n s)] s in
     andthen (bwrite buf s) (\<lambda>s.
     brelse buf s))"

definition recover_from_log :: "'a logst_scheme \<Rightarrow> exn + 'a logst_scheme" where
  "recover_from_log s =
     andthen (read_head s) (\<lambda>s.
     andthen (install_trans True s) (\<lambda>s.
     write_head (s\<lparr>lh_n := 0\<rparr>)))"

definition initlog :: "nat \<Rightarrow> superblock \<Rightarrow> 'a logst_scheme \<Rightarrow> exn + 'a logst_scheme" where
  "initlog dev sb s =
     (if 4 + 4 * LOGSIZE \<ge> BSIZE then Inl (Panic ''initlog: too big logheader'')
      else recover_from_log (s\<lparr>l_start := sb_logstart sb, l_size := sb_nlog sb, l_dev := dev\<rparr>))"

definition write_log :: "'a logst_scheme \<Rightarrow> exn + 'a logst_scheme" where
  "write_log s =
     for_each [0..<nat (lh_n s)] (\<lambda>tail s.
       andthen (bread (l_dev s) (l_start s + tail + 1) s) (\<lambda>(to, s).
       andthen (bread (l_dev s) (lh_block s ! tail) s) (\<lambda>(from, s).
       let s = upd_buf to (\<lambda>q. q\<lparr>b_data := b_data (bf s from)\<rparr>) s in
       andthen (bwrite to s) (\<lambda>s.
       andthen (brelse from s) (\<lambda>s.
       brelse to s))))) s"

definition commit :: "'a logst_scheme \<Rightarrow> exn + 'a logst_scheme" where
  "commit s =
     (if lh_n s > 0 then
        andthen (write_log s) (\<lambda>s.
        andthen (write_head s) (\<lambda>s.
        andthen (install_trans False s) (\<lambda>s.
        write_head (s\<lparr>lh_n := 0\<rparr>))))
      else Inr s)"

subsection \<open>Operations\<close>

definition begin_op :: "'a logst_scheme \<Rightarrow> exn + 'a logst_scheme" where
  "begin_op s =
     andthen (acquire LogLock s) (\<lambda>s.
     if l_committing s then sleep ChanLog LogLock s
     else if lh_n s + (l_outstanding s + 1) * int MAXOPBLOCKS > int LOGSIZE then sleep ChanLog LogLock s
     else release LogLock (s\<lparr>l_outstanding := l_outstanding s + 1\<rparr>))"

definition end_op :: "'a logst_scheme \<Rightarrow> exn + 'a logst_scheme" where
  "end_op s =
     andthen (acquire LogLock s) (\<lambda>s.
     let s = s\<lparr>l_outstanding := l_outstanding s - 1\<rparr> in
     if l_committing s then Inl (Panic ''log.committing'')
     else if l_outstanding s = 0 then
       let s = s\<lparr>l_committing := True\<rparr> in
       andthen (release LogLock s) (\<lambda>s.
       andthen (commit s) (\<lambda>s.
       andthen (acquire LogLock s) (\<lambda>s.
       let s = s\<lparr>l_committing := False\<rparr> in
       andthen (wakeup ChanLog s) (\<lambda>s.
       release LogLock s))))
     else
       andthen (wakeup ChanLog s) (\<lambda>s.
       release LogLock s))"

definition log_write :: "nat \<Rightarrow> 'a logst_scheme \<Rightarrow> exn + 'a logst_scheme" where
  "log_write b s =
     andthen (acquire LogLock s) (\<lambda>s.
     if lh_n s \<ge> int LOGSIZE \<or> lh_n s \<ge> int (l_size s) - 1 then Inl (Panic ''too big a transaction'')
     else if l_outstanding s < 1 then Inl (Panic ''log_write outside of trans'')
     else
       let i = (case find (\<lambda>i. lh_block s ! i = b_blockno (bf s b)) [0..<nat (lh_n s)] of Some i \<Rightarrow> i | None \<Rightarrow> nat (lh_n s));
           s = s\<lparr>lh_block := (lh_block s)[i := b_blockno (bf s b)]\<rparr> in
       andthen (if int i = lh_n s then andthen (bpin b s) (\<lambda>s. Inr (s\<lparr>lh_n := lh_n s + 1\<rparr>)) else Inr s) (\<lambda>s.
       release LogLock s))"

subsection \<open>Sequences of block writes\<close>

text \<open>The contents of the blocks after a list of writes.\<close>

definition apply_writes :: "(nat \<Rightarrow> block) \<Rightarrow> platter \<Rightarrow> nat \<Rightarrow> block" where
  "apply_writes f ws = fold (\<lambda>(m, d) f. f(m := d)) ws f"

lemma apply_writes_simps [simp]:
  "apply_writes f [] = f" "apply_writes f ((m, d) # ws) = apply_writes (f(m := d)) ws"
  "apply_writes f (ws @ ws') = apply_writes (apply_writes f ws) ws'"
  by (simp_all add: apply_writes_def)

lemma apply_writes_other: "m \<notin> fst ` set ws \<Longrightarrow> apply_writes f ws m = f m"
  by (induction ws arbitrary: f) (auto simp: apply_writes_def)

lemma apply_writes_map:
  assumes "distinct ms"
  shows "apply_writes f (map (\<lambda>m. (m, g m)) ms) m = (if m \<in> set ms then g m else f m)"
  using assms
proof (induction ms arbitrary: f)
  case (Cons a ms)
  then show ?case by auto
qed simp

lemma disk_block_writes: "disk_block (pl @ ws) = apply_writes (disk_block pl) ws"
proof (induction ws rule: rev_induct)
  case (snoc w ws)
  obtain m d where w: "w = (m, d)" by (cases w)
  have "disk_block (pl @ ws @ [w]) = (disk_block (pl @ ws))(m := d)"
    using disk_block_append [of "pl @ ws" m d] by (auto simp: w fun_eq_iff)
  then show ?case using snoc by (simp add: w)
qed simp

subsection \<open>The header block\<close>

definition hdr :: "int \<Rightarrow> nat list \<Rightarrow> block \<Rightarrow> block" where
  "hdr n bl d = fold (\<lambda>i d. putn 4 (4 + 4 * i) (bl ! i) d) [0..<nat n] (putn 4 0 (unat (of_int n :: uint)) d)"

definition hdr_n :: "block \<Rightarrow> int" where
  "hdr_n d = sint (of_nat (getn 4 0 d) :: uint)"

definition hdr_blocks :: "block \<Rightarrow> nat list" where
  "hdr_blocks d = map (\<lambda>i. getn 4 (4 + 4 * i) d) [0..<nat (hdr_n d)]"

lemma hdr_fold:
  assumes "k \<le> LOGSIZE" "length d = BSIZE" "\<forall>i < k. bl ! i < 2 ^ 32"
  shows "length (fold (\<lambda>i d. putn 4 (4 + 4 * i) (bl ! i) d) [0..<k] d) = BSIZE \<and>
    getn 4 0 (fold (\<lambda>i d. putn 4 (4 + 4 * i) (bl ! i) d) [0..<k] d) = getn 4 0 d \<and>
    (\<forall>i < k. getn 4 (4 + 4 * i) (fold (\<lambda>i d. putn 4 (4 + 4 * i) (bl ! i) d) [0..<k] d) = bl ! i)"
  using assms
proof (induction k)
  case (Suc k)
  then show ?case by (auto simp: getn_putn getn_putn_other less_Suc_eq)
qed simp

lemma int_word_nat: "0 \<le> n \<Longrightarrow> n < 2 ^ 31 \<Longrightarrow> unat (of_int n :: uint) = nat n \<and> sint (of_nat (nat n) :: uint) = n"
proof -
  assume n: "0 \<le> n" "n < 2 ^ 31"
  then have "uint (of_int n :: uint) = n" by (simp add: uint_word_of_int)
  then have "unat (of_int n :: uint) = nat n" by (simp add: unat_eq_nat_uint)
  moreover have "sint (of_int n :: uint) = n" using n by (simp add: signed_of_int signed_take_bit_int_eq_self)
  ultimately show ?thesis using n by simp
qed

lemma hdr_roundtrip:
  assumes "length d = BSIZE" "0 \<le> n" "n \<le> int LOGSIZE" "\<forall>i < nat n. bl ! i < 2 ^ 32" "length bl = LOGSIZE"
  shows "length (hdr n bl d) = BSIZE" "hdr_n (hdr n bl d) = n" "hdr_blocks (hdr n bl d) = take (nat n) bl"
proof -
  define d' where "d' = putn 4 0 (unat (of_int n :: uint)) d"
  have d': "length d' = BSIZE" "getn 4 0 d' = nat n"
    using assms(1-3) int_word_nat [of n] by (simp_all add: d'_def getn_putn)
  have k: "nat n \<le> LOGSIZE" using assms(3) by simp
  note f = hdr_fold [OF k d'(1) assms(4)]
  show "length (hdr n bl d) = BSIZE" using f by (simp add: hdr_def d'_def)
  show n: "hdr_n (hdr n bl d) = n"
    using f d'(2) int_word_nat [of n] assms(2,3) by (simp add: hdr_n_def hdr_def d'_def)
  show "hdr_blocks (hdr n bl d) = take (nat n) bl"
    by (rule nth_equalityI) (use f k assms(5) in \<open>simp_all add: hdr_blocks_def n\<close>, simp add: hdr_def d'_def)
qed

subsection \<open>What the routines write\<close>

text \<open>The blocks of the current transaction.\<close>

definition logged :: "'a logst_scheme \<Rightarrow> nat list" where
  "logged s = take (nat (lh_n s)) (lh_block s)"

definition log_area :: "'a logst_scheme \<Rightarrow> nat set" where
  "log_area s = {l_start s..<l_start s + l_size s}"

text \<open>The shape of the in-memory log: where it lies and that the blocks in it are distinct blocks outside it.\<close>

definition log_shape :: "'a logst_scheme \<Rightarrow> bool" where
  "log_shape s \<longleftrightarrow> l_dev s = ROOTDEV \<and> l_start s + l_size s \<le> 2 ^ 31 \<and> l_size s \<le> LOGSIZE \<and> 0 \<le> lh_n s \<and> lh_n s < int (l_size s) \<and>
     length (lh_block s) = LOGSIZE \<and> distinct (logged s) \<and> (\<forall>m \<in> set (logged s). m < 2 ^ 31 \<and> m \<notin> log_area s)"

lemma cframe_log:
  assumes "cframe p s t"
  shows "l_start t = l_start s" "l_size t = l_size s" "l_outstanding t = l_outstanding s" "l_committing t = l_committing s"
    "l_dev t = l_dev s" "lh_n t = lh_n s" "lh_block t = lh_block s" "logged t = logged s" "log_area t = log_area s" "log_shape t = log_shape s"
proof -
  from assms obtain tb sl bs v pl out where "t = s\<lparr>ptable := tb, slk := sl, bufs := bs, vd := v, platter := pl, mmio_out := out\<rparr>"
    unfolding cframe_def by blast
  then show "l_start t = l_start s" "l_size t = l_size s" "l_outstanding t = l_outstanding s" "l_committing t = l_committing s"
    "l_dev t = l_dev s" "lh_n t = lh_n s" "lh_block t = lh_block s" "logged t = logged s" "log_area t = log_area s" "log_shape t = log_shape s"
    by (simp_all add: logged_def log_area_def log_shape_def)
qed

lemma logged_nth: "log_shape s \<Longrightarrow> i < nat (lh_n s) \<Longrightarrow> lh_block s ! i = logged s ! i \<and> logged s ! i \<in> set (logged s)"
  by (auto simp: logged_def log_shape_def intro!: nth_mem) (simp add: in_set_conv_nth, metis nth_take length_take min.absorb2)

lemma length_logged: "log_shape s \<Longrightarrow> length (logged s) = nat (lh_n s) \<and> nat (lh_n s) < l_size s \<and> nat (lh_n s) < NBUF"
  by (auto simp: logged_def log_shape_def)

lemma upd_put: "upd_buf b (\<lambda>q. q\<lparr>b_data := g (b_data q)\<rparr>) s = put_data b (g (b_data (bf s b))) s"
  by (simp add: put_data_def upd_buf_def bf_def)

lemma put_put: "b < length (bufs s) \<Longrightarrow> put_data b d' (put_data b d s) = put_data b d' s"
  by (simp add: put_data_def upd_buf_def)

lemma put_bf: "b < length (bufs s) \<Longrightarrow> b_data (bf (put_data b d s) b) = d"
  by (simp add: put_data_def upd_buf_def bf_def)

lemma put_fields [simp]: "lh_block (put_data b d s) = lh_block s" "lh_n (put_data b d s) = lh_n s" "length (bufs (put_data b d s)) = length (bufs s)"
  by (simp_all add: put_data_def upd_buf_def)

lemma fold_put:
  assumes "b < length (bufs s)"
  shows "fold (\<lambda>i s. upd_buf b (\<lambda>q. q\<lparr>b_data := putn 4 (4 + 4 * i) (lh_block s ! i) (b_data q)\<rparr>) s) xs (put_data b d s) =
    put_data b (fold (\<lambda>i d. putn 4 (4 + 4 * i) (lh_block s ! i) d) xs d) s"
proof (induction xs arbitrary: d)
  case (Cons x xs)
  have "upd_buf b (\<lambda>q. q\<lparr>b_data := putn 4 (4 + 4 * x) (lh_block (put_data b d s) ! x) (b_data q)\<rparr>) (put_data b d s) =
    put_data b (putn 4 (4 + 4 * x) (lh_block s ! x) d) s"
    using assms by (simp add: upd_put put_put put_bf)
  then show ?case using Cons by simp
qed simp

lemma cst_bound: "cst p s L H \<Longrightarrow> holds p s b n \<Longrightarrow> b < length (bufs s)"
  using bcache_ok_length [of s] by (auto simp: cst_def io_ok_def holds_def cached_def)

lemma write_head_spec:
  assumes c: "cst p s L {}" and dev: "l_dev s = ROOTDEV" "l_start s < 2 ^ 31" and fin: "card L < NBUF"
    and n: "0 \<le> lh_n s" "lh_n s \<le> int LOGSIZE" "\<forall>i < nat (lh_n s). lh_block s ! i < 2 ^ 32" "length (lh_block s) = LOGSIZE"
  shows "returns (write_head s) (\<lambda>t. cst p t L {} \<and> cframe p s t \<and>
    blk t = (blk s)(l_start s := hdr (lh_n s) (lh_block s) (blk s (l_start s))) \<and>
    platter t = platter s @ [(l_start s, hdr (lh_n s) (lh_block s) (blk s (l_start s)))])"
proof -
  have "length (hdr (lh_n s) (lh_block s) (blk s (l_start s))) = BSIZE"
    using hdr_roundtrip(1) [OF bc.size [OF c] n] .
  then obtain b t u v where t: "bread ROOTDEV (l_start s) s = Inr (b, t)" "holds p t b (l_start s)" "cst p t L (insert (l_start s) {})" "b_data (bf t b) = blk s (l_start s)" "cframe p s t"
    and u: "bwrite b (put_data b (hdr (lh_n s) (lh_block s) (blk s (l_start s))) t) = Inr u" "brelse b u = Inr v"
    and v: "cst p v L {}" "blk v = (blk s)(l_start s := hdr (lh_n s) (lh_block s) (blk s (l_start s)))"
      "platter v = platter s @ [(l_start s, hdr (lh_n s) (lh_block s) (blk s (l_start s)))]" "cframe p s v"
    by (rule bc.rewrite [OF c _ dev(2), where f = "hdr (lh_n s) (lh_block s)", rotated 2]) (use fin in simp_all)
  note eqs = cframe_log [OF t(5)]
  have b: "b < length (bufs t)" by (rule cst_bound [OF t(3,2)])
  have "upd_buf b (\<lambda>q. q\<lparr>b_data := putn 4 0 (unat (of_int (lh_n t) :: uint)) (b_data q)\<rparr>) t = put_data b (putn 4 0 (unat (of_int (lh_n s) :: uint)) (blk s (l_start s))) t"
    by (simp add: upd_put t eqs)
  then show ?thesis
    using u v b dev(1) by (simp add: write_head_def t(1) fold_put hdr_def eqs)
qed

text \<open>One round of \<open>write_log\<close> and of \<open>install_trans\<close>.\<close>

lemma write_log_round:
  assumes c: "cst p s L {}" and fin: "card L < NBUF" and m: "m \<in> L" "m < 2 ^ 31" and k: "k < 2 ^ 31" "k \<noteq> m"
    and dev: "l_dev s = ROOTDEV" "lh_block s ! tail = m" "k = l_start s + tail + 1"
  shows "returns (andthen (bread (l_dev s) (l_start s + tail + 1) s) (\<lambda>(to, s).
       andthen (bread (l_dev s) (lh_block s ! tail) s) (\<lambda>(from, s).
       let s = upd_buf to (\<lambda>q. q\<lparr>b_data := b_data (bf s from)\<rparr>) s in
       andthen (bwrite to s) (\<lambda>s. andthen (brelse from s) (\<lambda>s. brelse to s)))))
    (\<lambda>t. cst p t L {} \<and> cframe p s t \<and> blk t = (blk s)(k := blk s m) \<and> platter t = platter s @ [(k, blk s m)])"
proof -
  obtain to t where t: "bread ROOTDEV k s = Inr (to, t)" "cst p t L (insert k {})" "holds p t to k" "blk t = blk s" "platter t = platter s"
    "cframe p s t" "\<forall>c m. holds p s c m \<longrightarrow> holds p t c m"
    by (rule bc.rdE [OF c, of k]) (use fin k in simp_all)
  obtain fb u where u: "bread ROOTDEV m t = Inr (fb, u)" "cst p u L (insert m {k})" "holds p u fb m" "blk u = blk t" "platter u = platter t"
    "cframe p t u" "\<forall>c m. holds p t c m \<longrightarrow> holds p u c m"
    by (rule bc.rdE [OF t(2), of m]) (use m k in simp_all)
  have h: "holds p u to k" using u(7) t(3) by blast
  obtain v w x where v: "b_data (bf u fb) = blk u m" "bwrite to (put_data to (b_data (bf u fb)) u) = Inr v" "brelse fb v = Inr w" "brelse to w = Inr x"
    and x: "cst p x L (insert m {k} - {m} - {k})" "blk x = (blk u)(k := blk u m)" "platter x = platter u @ [(k, blk u m)]" "cframe p u x"
    by (rule bc.copy_over [OF u(2,3) h]) (use m k in simp_all)
  have "insert m {k} - {m} - {k} = {}" by auto
  then have "cst p x L {}" using x(1) by (simp only:)
  moreover have "cframe p s x" using t(6) u(6) x(4) by (blast intro: cframe_trans)
  ultimately show ?thesis
    using t(1,4,5) u(1,4,5) v x(2,3) dev cframe_log [OF t(6)] by (simp add: put_data_def)
qed

lemma install_round:
  assumes c: "cst p s L {}" and fin: "card L < NBUF" "card L + 1 < NBUF \<or> m \<in> L" and m: "\<not> recovering \<longrightarrow> m \<in> L" "m < 2 ^ 31" and k: "k < 2 ^ 31" "k \<noteq> m" "k \<notin> L"
    and clean: "blk s k = disk_block (platter s) k"
    and dev: "l_dev s = ROOTDEV" "lh_block s ! tail = m" "k = l_start s + tail + 1"
  shows "returns (andthen (bread (l_dev s) (l_start s + tail + 1) s) (\<lambda>(lbuf, s).
       andthen (bread (l_dev s) (lh_block s ! tail) s) (\<lambda>(dbuf, s).
       let s = upd_buf dbuf (\<lambda>q. q\<lparr>b_data := b_data (bf s lbuf)\<rparr>) s in
       andthen (bwrite dbuf s) (\<lambda>s. andthen (if \<not> recovering then bunpin dbuf s else Inr s) (\<lambda>s.
       andthen (brelse lbuf s) (\<lambda>s. brelse dbuf s))))))
    (\<lambda>t. cst p t (if recovering then L else L - {m}) {} \<and> cframe p s t \<and> blk t = (blk s)(m := blk s k) \<and> platter t = platter s @ [(m, blk s k)])"
proof -
  obtain lb t where t: "bread ROOTDEV k s = Inr (lb, t)" "cst p t L (insert k {})" "holds p t lb k" "blk t = blk s" "platter t = platter s"
    "cframe p s t" "\<forall>c m. holds p s c m \<longrightarrow> holds p t c m"
    by (rule bc.rdE [OF c, of k]) (use fin k in simp_all)
  have fl: "finite L" using c by (simp add: cst_def)
  obtain db u where u: "bread ROOTDEV m t = Inr (db, u)" "cst p u L (insert m {k})" "holds p u db m" "blk u = blk t" "platter u = platter t"
    "cframe p t u" "\<forall>c m. holds p t c m \<longrightarrow> holds p u c m"
    by (rule bc.rdE [OF t(2), of m]) (use m k fin fl in auto)
  have h: "holds p u lb k" using u(7) t(3) by blast
  have cl: "k \<in> L \<or> blk u k = disk_block (platter u) k" using clean t u by simp
  have e: "insert m {k} - {k} - {m} = {}" by auto
  show ?thesis
  proof (cases recovering)
    case True
    obtain v w x where v: "b_data (bf u lb) = blk u k" "bwrite db (put_data db (b_data (bf u lb)) u) = Inr v" "brelse lb v = Inr w" "brelse db w = Inr x"
      and x: "cst p x L (insert m {k} - {k} - {m})" "blk x = (blk u)(m := blk u k)" "platter x = platter u @ [(m, blk u k)]" "cframe p u x"
      by (rule bc.copy_over [OF u(2) h u(3) k(2) m(2) cl])
    have "cframe p s x" using t(6) u(6) x(4) by (blast intro: cframe_trans)
    moreover have "cst p x L {}" using x(1) e by (simp only:)
    ultimately show ?thesis using t(1,4,5) u(1,4,5) v x(2,3) dev True cframe_log [OF t(6)] by (simp add: put_data_def)
  next
    case False
    then have "m \<in> L" using m by simp
    obtain v v' w x where v: "b_data (bf u lb) = blk u k" "bwrite db (put_data db (b_data (bf u lb)) u) = Inr v" "bunpin db v = Inr v'" "brelse lb v' = Inr w" "brelse db w = Inr x"
      and x: "cst p x (L - {m}) (insert m {k} - {k} - {m})" "blk x = (blk u)(m := blk u k)" "platter x = platter u @ [(m, blk u k)]" "cframe p u x"
      by (rule bc.copy_over_unpin [OF u(2) h u(3) k(2) \<open>m \<in> L\<close> m(2) cl])
    have "cframe p s x" using t(6) u(6) x(4) by (blast intro: cframe_trans)
    moreover have "cst p x (L - {m}) {}" using x(1) e by (simp only:)
    ultimately show ?thesis using t(1,4,5) u(1,4,5) v x(2,3) dev False cframe_log [OF t(6)] by (simp add: put_data_def)
  qed
qed

definition log_writes :: "'a logst_scheme \<Rightarrow> nat list \<Rightarrow> platter" where
  "log_writes s is = map (\<lambda>i. (l_start s + 1 + i, blk s (logged s ! i))) is"

definition home_writes :: "'a logst_scheme \<Rightarrow> nat list \<Rightarrow> platter" where
  "home_writes s is = map (\<lambda>i. (logged s ! i, blk s (l_start s + 1 + i))) is"

lemma upt_split: "[0..<n] = js @ j # ks \<Longrightarrow> js = [0..<j] \<and> j < n"
proof -
  assume u: "[0..<n] = js @ j # ks"
  have l: "length js < n" using arg_cong [OF u, of length] by simp
  moreover have "[0..<n] ! length js = j" unfolding u by simp
  ultimately have j: "length js = j" "j < n" by auto
  have "take (length js) [0..<n] = js" unfolding u by simp
  then show ?thesis using j by (simp add: take_upt)
qed

lemma log_pos: "log_shape s \<Longrightarrow> i < nat (lh_n s) \<Longrightarrow> l_start s + 1 + i \<in> log_area s \<and> l_start s + 1 + i < 2 ^ 31"
  by (auto simp: log_shape_def log_area_def)

lemma write_log_spec:
  assumes sh: "log_shape s" and c: "cst p s (set (logged s)) {}"
  shows "returns (write_log s) (\<lambda>t. cst p t (set (logged s)) {} \<and> cframe p s t \<and>
    blk t = apply_writes (blk s) (log_writes s [0..<nat (lh_n s)]) \<and> platter t = platter s @ log_writes s [0..<nat (lh_n s)])"
  unfolding write_log_def
proof (rule for_each_returns [where I = "\<lambda>js t. cst p t (set (logged s)) {} \<and> cframe p s t \<and>
    blk t = apply_writes (blk s) (log_writes s js) \<and> platter t = platter s @ log_writes s js"])
  show "cst p s (set (logged s)) {} \<and> cframe p s s \<and> blk s = apply_writes (blk s) (log_writes s []) \<and> platter s = platter s @ log_writes s []"
    using c by (simp add: log_writes_def)
next
  fix js j ks t
  assume "[0..<nat (lh_n s)] = js @ j # ks" and I: "cst p t (set (logged s)) {} \<and> cframe p s t \<and>
    blk t = apply_writes (blk s) (log_writes s js) \<and> platter t = platter s @ log_writes s js"
  then have j: "js = [0..<j]" "j < nat (lh_n s)" and ct: "cst p t (set (logged s)) {}" and ft: "cframe p s t"
    using upt_split by auto
  note eqs = cframe_log [OF ft] and lj = logged_nth [OF sh j(2)]
  let ?m = "logged s ! j" and ?k = "l_start s + 1 + j"
  have m: "?m < 2 ^ 31" "?m \<notin> log_area s" using sh lj by (auto simp: log_shape_def)
  have k: "?k \<in> log_area s" "?k < 2 ^ 31" using log_pos [OF sh j(2)] by simp_all
  have "fst ` set (log_writes s js) \<subseteq> log_area s" using j log_pos [OF sh] by (auto simp: log_writes_def)
  then have b: "blk t ?m = blk s ?m" using I m(2) by (auto intro: apply_writes_other)
  have "card (set (logged s)) < NBUF" using card_length [of "logged s"] length_logged [OF sh] by simp
  moreover have "?k \<noteq> ?m" using k(1) m(2) by auto
  moreover have "l_dev t = ROOTDEV" "lh_block t ! j = ?m" "?k = l_start t + j + 1" using sh eqs lj by (simp_all add: log_shape_def)
  ultimately have "returns (andthen (bread (l_dev t) (l_start t + j + 1) t) (\<lambda>(to, s).
       andthen (bread (l_dev s) (lh_block s ! j) s) (\<lambda>(from, s).
       let s = upd_buf to (\<lambda>q. q\<lparr>b_data := b_data (bf s from)\<rparr>) s in
       andthen (bwrite to s) (\<lambda>s. andthen (brelse from s) (\<lambda>s. brelse to s)))))
    (\<lambda>u. cst p u (set (logged s)) {} \<and> cframe p t u \<and> blk u = (blk t)(?k := blk t ?m) \<and> platter u = platter t @ [(?k, blk t ?m)])"
    (is "returns ?f _") using write_log_round [OF ct _ conjunct2 [OF lj] m(1) k(2), of j] by (simp add: eqs)
  then show "returns ?f (\<lambda>u. cst p u (set (logged s)) {} \<and> cframe p s u \<and>
    blk u = apply_writes (blk s) (log_writes s (js @ [j])) \<and> platter u = platter s @ log_writes s (js @ [j]))"
    by (rule returns_mono) (use I b ft in \<open>auto simp: log_writes_def intro: cframe_trans\<close>)
qed

text \<open>Installing, in a commit (the blocks are pinned) and in recovery (nothing is).\<close>

lemma install_spec:
  assumes sh: "log_shape s" and c: "cst p s (if rec then {} else set (logged s)) {}"
    and clean: "\<forall>m \<in> log_area s. blk s m = disk_block (platter s) m"
  shows "returns (install_trans rec s) (\<lambda>t. cst p t {} {} \<and> cframe p s t \<and>
    blk t = apply_writes (blk s) (home_writes s [0..<nat (lh_n s)]) \<and> platter t = platter s @ home_writes s [0..<nat (lh_n s)])"
proof -
  let ?L = "\<lambda>js. if rec then {} else set (drop (length js) (logged s))"
  let ?I = "\<lambda>js t. cst p t (?L js) {} \<and> cframe p s t \<and>
    blk t = apply_writes (blk s) (home_writes s js) \<and> platter t = platter s @ home_writes s js"
  have "returns (install_trans rec s) (?I [0..<nat (lh_n s)])"
    unfolding install_trans_def
  proof (rule for_each_returns [where I = ?I])
    show "?I [] s" using c by (cases rec) (simp_all add: home_writes_def)
  next
    fix js j ks t
    assume "[0..<nat (lh_n s)] = js @ j # ks" and I: "?I js t"
    then have j: "js = [0..<j]" "j < nat (lh_n s)" and ct: "cst p t (?L js) {}" and ft: "cframe p s t"
      using upt_split by auto
    note eqs = cframe_log [OF ft] and lj = logged_nth [OF sh j(2)]
    let ?m = "logged s ! j" and ?k = "l_start s + 1 + j"
    have m: "?m < 2 ^ 31" "?m \<notin> log_area s" using sh lj by (auto simp: log_shape_def)
    have k: "?k \<in> log_area s" "?k < 2 ^ 31" using log_pos [OF sh j(2)] by simp_all
    have "fst ` set (home_writes s js) \<inter> log_area s = {}"
      using j sh logged_nth [OF sh] by (auto simp: home_writes_def log_shape_def)
    then have kn: "?k \<notin> fst ` set (home_writes s js)" using k(1) by blast
    then have b: "blk t ?k = blk s ?k" "disk_block (platter t) ?k = disk_block (platter s) ?k"
      using I by (auto simp: disk_block_writes intro: apply_writes_other)
    have dr: "drop j (logged s) = ?m # drop (Suc j) (logged s)" using length_logged [OF sh] j(2) by (simp add: Cons_nth_drop_Suc)
    have ll: "length (drop j (logged s)) < NBUF" using length_logged [OF sh] by (metis le_less_trans length_drop diff_le_self)
    have cd: "card (?L js) < NBUF" "card (?L js) + 1 < NBUF \<or> ?m \<in> ?L js"
      using card_length [of "drop j (logged s)"] ll j(1) dr by auto
    have "?L js \<subseteq> set (logged s)" by (auto dest: in_set_dropD)
    then have "?k \<notin> ?L js" "?k \<noteq> ?m" using sh k(1) m(2) by (auto simp: log_shape_def)
    moreover have "\<not> rec \<longrightarrow> ?m \<in> ?L js" using dr j(1) by simp
    moreover have "l_dev t = ROOTDEV" "lh_block t ! j = ?m" "?k = l_start t + j + 1" using sh eqs lj by (simp_all add: log_shape_def)
    moreover have "blk t ?k = disk_block (platter t) ?k" using b clean k(1) by simp
    ultimately have "returns (andthen (bread (l_dev t) (l_start t + j + 1) t) (\<lambda>(lbuf, s).
       andthen (bread (l_dev s) (lh_block s ! j) s) (\<lambda>(dbuf, s).
       let s = upd_buf dbuf (\<lambda>q. q\<lparr>b_data := b_data (bf s lbuf)\<rparr>) s in
       andthen (bwrite dbuf s) (\<lambda>s. andthen (if \<not> rec then bunpin dbuf s else Inr s) (\<lambda>s.
       andthen (brelse lbuf s) (\<lambda>s. brelse dbuf s))))))
      (\<lambda>u. cst p u (if rec then ?L js else ?L js - {?m}) {} \<and> cframe p t u \<and> blk u = (blk t)(?m := blk t ?k) \<and> platter u = platter t @ [(?m, blk t ?k)])"
      (is "returns ?f _") by (intro install_round [OF ct cd _ m(1) k(2)])
    moreover have "(if rec then ?L js else ?L js - {?m}) = ?L (js @ [j])"
    proof -
      have "distinct (drop j (logged s))" using sh by (simp add: log_shape_def)
      then show ?thesis using j(1) dr by auto
    qed
    ultimately show "returns ?f (?I (js @ [j]))"
      by (elim returns_mono) (use I b ft in \<open>auto simp: home_writes_def intro: cframe_trans\<close>)
  qed
  moreover have "?L [0..<nat (lh_n s)] = {}" using length_logged [OF sh] by simp
  ultimately show ?thesis by (simp only:)
qed

subsection \<open>A commit\<close>

text \<open>
  The state of the log while operations are running: the logged blocks are the pinned ones (so all
  others agree with the disk), and the header on the disk is empty.
\<close>

definition log_ok :: "nat \<Rightarrow> 'a logst_scheme \<Rightarrow> bool" where
  "log_ok p s \<longleftrightarrow> log_shape s \<and> cst p s (set (logged s)) {} \<and> hdr_n (disk_block (platter s) (l_start s)) = 0"

definition head_block :: "'a logst_scheme \<Rightarrow> block" where
  "head_block s = hdr (lh_n s) (lh_block s) (blk s (l_start s))"

text \<open>The block writes of a commit: the log, the header, the homes, the empty header.\<close>

definition commit_writes :: "'a logst_scheme \<Rightarrow> platter" where
  "commit_writes s = log_writes s [0..<nat (lh_n s)] @ [(l_start s, head_block s)] @
     map (\<lambda>m. (m, blk s m)) (logged s) @ [(l_start s, hdr 0 (lh_block s) (head_block s))]"

lemma cache_cong:
  fixes s t :: "'a storage_scheme"
  assumes "bufs t = bufs s" "slk t = slk s" "platter t = platter s"
  shows "blk t = blk s" "refs t = refs s" "blk_locked t = blk_locked s" "bcache_ok t = bcache_ok s"
proof -
  have b: "bf t = bf s" "buf_locked t = buf_locked s" using assms by (simp_all add: bf_def buf_locked_def fun_eq_iff)
  then have c: "cached t = cached s" by (simp add: cached_def fun_eq_iff)
  then have "buf_of t = buf_of s" "once t = once s" by (simp_all add: buf_of_def once_def fun_eq_iff)
  with b assms(1,3) show "blk t = blk s" "refs t = refs s" "blk_locked t = blk_locked s" "bcache_ok t = bcache_ok s"
    unfolding fun_eq_iff blk_def refs_def blk_locked_def bcache_ok_def by (simp_all cong: option.case_cong if_cong)
qed

lemma cst_cong:
  fixes s t :: "'a storage_scheme"
  assumes "bufs t = bufs s" "slk t = slk s" "platter t = platter s" "held t = held s" "curproc t = curproc s" "ptable t = ptable s"
    "vd t = vd s" "vdev t = vdev s"
  shows "cst p t = cst p s"
  unfolding cst_def io_ok_def in_proc_def pr_def using cache_cong [OF assms(1-3)] assms(4-) by (intro ext) simp

lemma cache_logfields [simp]:
  "blk (s\<lparr>lh_n := x\<rparr>) = blk s" "blk (s\<lparr>lh_block := y\<rparr>) = blk s" "blk (s\<lparr>l_outstanding := z\<rparr>) = blk s" "blk (s\<lparr>l_committing := c\<rparr>) = blk s"
  by (rule cache_cong; simp)+

lemma cst_logfields [simp]:
  "cst p (s\<lparr>lh_n := x\<rparr>) = cst p s" "cst p (s\<lparr>lh_block := y\<rparr>) = cst p s" "cst p (s\<lparr>l_outstanding := z\<rparr>) = cst p s" "cst p (s\<lparr>l_committing := c\<rparr>) = cst p s"
  by (rule cst_cong; simp)+

lemma apply_writes_cong: "f m = g m \<Longrightarrow> apply_writes f ws m = apply_writes g ws m"
proof (induction ws arbitrary: f g)
  case (Cons w ws)
  obtain k d where w: "w = (k, d)" by (cases w)
  have "(f(k := d)) m = (g(k := d)) m" using Cons.prems by simp
  then show ?case unfolding w apply_writes_simps by (rule Cons.IH)
qed simp

lemma apply_writes_mem: "distinct (map fst ws) \<Longrightarrow> (m, d) \<in> set ws \<Longrightarrow> apply_writes f ws m = d"
proof (induction ws arbitrary: f)
  case (Cons w ws)
  obtain k e where w: "w = (k, e)" by (cases w)
  show ?case
  proof (cases "m = k")
    case True
    then have "m \<notin> fst ` set ws" using Cons.prems(1) by (simp add: w)
    moreover from this have "e = d" using Cons.prems(2) True by (force simp: w)
    ultimately show ?thesis using True by (simp add: w apply_writes_other)
  next
    case False
    then have "(m, d) \<in> set ws" using Cons.prems(2) by (simp add: w)
    then show ?thesis using Cons.IH Cons.prems(1) by (simp add: w)
  qed
qed simp

lemma log_writes_at:
  assumes "i < nat (lh_n s)"
  shows "apply_writes f (log_writes s [0..<nat (lh_n s)]) (l_start s + 1 + i) = blk s (logged s ! i)"
proof (rule apply_writes_mem)
  have "map fst (log_writes s [0..<nat (lh_n s)]) = map (\<lambda>i. l_start s + 1 + i) [0..<nat (lh_n s)]" by (simp add: log_writes_def)
  then show "distinct (map fst (log_writes s [0..<nat (lh_n s)]))" by (simp add: distinct_map inj_on_def)
qed (use assms in \<open>auto simp: log_writes_def\<close>)

lemma log_writes_start: "l_start s \<notin> fst ` set (log_writes s is)"
  by (auto simp: log_writes_def)

lemma log_blocks_small: "log_shape s \<Longrightarrow> \<forall>i < nat (lh_n s). lh_block s ! i < 2 ^ 32"
proof (intro allI impI)
  fix i assume sh: "log_shape s" and i: "i < nat (lh_n s)"
  have "lh_block s ! i < 2 ^ 31" using logged_nth [OF sh i] sh by (auto simp: log_shape_def)
  then show "lh_block s ! i < 2 ^ 32" by simp
qed

lemma map_logged: "log_shape s \<Longrightarrow> map (\<lambda>i. f (logged s ! i)) [0..<nat (lh_n s)] = map f (logged s)"
  using length_logged [of s] by (intro nth_equalityI) simp_all

lemma cframe_lh: "cframe p s t \<Longrightarrow> cframe p (s\<lparr>lh_n := x\<rparr>) (t\<lparr>lh_n := x\<rparr>)"
proof -
  assume "cframe p s t"
  then obtain tb sl bs v pl out where t: "t = s\<lparr>ptable := tb, slk := sl, bufs := bs, vd := v, platter := pl, mmio_out := out\<rparr>"
    "tb_le p (ptable s) tb" "\<forall>i. sl (InodeLock i) = slk s (InodeLock i)" unfolding cframe_def by blast
  show ?thesis by (rule cframeI) (use t(2,3) in \<open>simp_all add: t(1)\<close>)
qed

lemma commit_spec:
  assumes ok: "log_ok p s" and n: "0 < lh_n s"
  shows "returns (commit s) (\<lambda>t. cst p t {} {} \<and> lh_n t = 0 \<and> cframe p (s\<lparr>lh_n := 0\<rparr>) t \<and>
    platter t = platter s @ commit_writes s \<and> blk t = apply_writes (blk s) (commit_writes s))"
proof -
  have sh: "log_shape s" and c: "cst p s (set (logged s)) {}" and cl: "\<And>m. m \<notin> set (logged s) \<Longrightarrow> blk s m = disk_block (platter s) m"
    using ok cst_clean [of p s "set (logged s)" "{}"] by (simp_all add: log_ok_def)
  let ?n = "nat (lh_n s)" and ?lw = "log_writes s [0..<nat (lh_n s)]" and ?hw = "map (\<lambda>m. (m, blk s m)) (logged s)"
  have cd: "card (set (logged s)) < NBUF" using card_length [of "logged s"] length_logged [OF sh] by simp
  have g: "l_dev s = ROOTDEV" "l_start s < 2 ^ 31" "0 \<le> lh_n s" "lh_n s \<le> int LOGSIZE" "length (lh_block s) = LOGSIZE"
    using sh by (simp_all add: log_shape_def)
  obtain t1 where t1: "write_log s = Inr t1" "cst p t1 (set (logged s)) {}" "cframe p s t1" "blk t1 = apply_writes (blk s) ?lw" "platter t1 = platter s @ ?lw"
    using write_log_spec [OF sh c] by (auto simp: returns_iff)
  note e1 = cframe_log [OF t1(3)]
  have b1: "blk t1 (l_start s) = blk s (l_start s)" using t1(4) log_writes_start [of s] by (simp add: apply_writes_other)
  have "returns (write_head t1) (\<lambda>t. cst p t (set (logged s)) {} \<and> cframe p t1 t \<and>
    blk t = (blk t1)(l_start s := head_block s) \<and> platter t = platter t1 @ [(l_start s, head_block s)])"
    using write_head_spec [OF t1(2)] cd g log_blocks_small [OF sh] by (simp add: e1 b1 head_block_def)
  then obtain t2 where t2: "write_head t1 = Inr t2" "cst p t2 (set (logged s)) {}" "cframe p t1 t2" "blk t2 = (blk t1)(l_start s := head_block s)"
    "platter t2 = platter s @ ?lw @ [(l_start s, head_block s)]" by (auto simp: returns_iff t1(5))
  have f2: "cframe p s t2" using t1(3) t2(3) by (rule cframe_trans)
  note e2 = cframe_log [OF f2]
  have bl2: "blk t2 = apply_writes (blk s) (?lw @ [(l_start s, head_block s)])" by (simp add: t2(4) t1(4))
  have area: "m \<in> log_area s \<Longrightarrow> blk t2 m = disk_block (platter t2) m" for m
  proof -
    assume "m \<in> log_area s"
    then have "m \<notin> set (logged s)" using sh by (auto simp: log_shape_def)
    then show ?thesis unfolding bl2 t2(5) disk_block_writes by (intro apply_writes_cong cl)
  qed
  have hw: "home_writes t2 [0..<?n] = ?hw"
  proof -
    have "blk t2 (l_start s + 1 + i) = blk s (logged s ! i)" if "i < ?n" for i
      using log_writes_at [OF that, of "blk s"] by (simp add: t2(4) t1(4))
    then have "home_writes t2 [0..<?n] = map (\<lambda>i. (\<lambda>m. (m, blk s m)) (logged s ! i)) [0..<?n]" by (simp add: home_writes_def e2)
    also have "\<dots> = ?hw" by (rule map_logged [OF sh])
    finally show ?thesis .
  qed
  obtain t3 where t3: "install_trans False t2 = Inr t3" "cst p t3 {} {}" "cframe p t2 t3" "blk t3 = apply_writes (blk t2) ?hw" "platter t3 = platter t2 @ ?hw"
    using install_spec [where s = t2 and rec = False and p = p] sh t2(2) area e2 hw by (auto simp: returns_iff)
  have f3: "cframe p s t3" using f2 t3(3) by (rule cframe_trans)
  note e3 = cframe_log [OF f3]
  have "l_start s \<notin> fst ` set ?hw" using sh by (auto simp: log_shape_def log_area_def)
  then have b3: "blk t3 (l_start s) = head_block s" by (simp add: t3(4) apply_writes_other t2(4))
  have "returns (write_head (t3\<lparr>lh_n := 0\<rparr>)) (\<lambda>t. cst p t {} {} \<and> cframe p (t3\<lparr>lh_n := 0\<rparr>) t \<and>
    blk t = (blk t3)(l_start s := hdr 0 (lh_block s) (head_block s)) \<and> platter t = platter t3 @ [(l_start s, hdr 0 (lh_block s) (head_block s))])"
    using write_head_spec [of p "t3\<lparr>lh_n := 0\<rparr>" "{}"] t3(2) g by (simp add: e3 b3)
  then obtain t where t: "write_head (t3\<lparr>lh_n := 0\<rparr>) = Inr t" "cst p t {} {}" "cframe p (t3\<lparr>lh_n := 0\<rparr>) t"
    "blk t = (blk t3)(l_start s := hdr 0 (lh_block s) (head_block s))" "platter t = platter t3 @ [(l_start s, hdr 0 (lh_block s) (head_block s))]"
    by (auto simp: returns_iff)
  have "cframe p (s\<lparr>lh_n := 0\<rparr>) (t3\<lparr>lh_n := 0\<rparr>)" using f3 by (rule cframe_lh)
  then have "cframe p (s\<lparr>lh_n := 0\<rparr>) t" using t(3) by (rule cframe_trans)
  moreover have "lh_n t = 0" using cframe_log(6) [OF t(3)] by simp
  ultimately show ?thesis
    using n t1(1) t2(1) t3(1) t(1,2) by (simp add: commit_def t(4,5) t3(4,5) bl2 t2(5) commit_writes_def)
qed

subsection \<open>Recovery\<close>

lemma holds_logfields [simp]:
  "holds p (s\<lparr>lh_n := x\<rparr>) = holds p s" "holds p (s\<lparr>lh_block := y\<rparr>) = holds p s"
  by (simp_all add: fun_eq_iff holds_def cached_def bf_def buf_locked_def pr_def)

lemma read_fold:
  "fold (\<lambda>i s. s\<lparr>lh_block := (lh_block s)[i := getn 4 (4 + 4 * i) (b_data (bf s b))]\<rparr>) is s =
    s\<lparr>lh_block := fold (\<lambda>i l. l[i := getn 4 (4 + 4 * i) (b_data (bf s b))]) is (lh_block s)\<rparr>"
proof (induction "is" arbitrary: s)
  case (Cons i "is")
  then show ?case by (simp add: bf_def)
qed simp

lemma read_head_spec:
  assumes c: "cst p s {} {}" and dev: "l_dev s = ROOTDEV" "l_start s < 2 ^ 31" "length (lh_block s) = LOGSIZE"
    and d: "d = disk_block (platter s) (l_start s)" "hdr_n d \<le> int LOGSIZE"
  shows "returns (read_head s) (\<lambda>t. cst p t {} {} \<and> platter t = platter s \<and> lh_n t = hdr_n d \<and> logged t = hdr_blocks d \<and>
    length (lh_block t) = LOGSIZE \<and> l_dev t = l_dev s \<and> l_start t = l_start s \<and> l_size t = l_size s)"
proof -
  have cl: "blk s m = disk_block (platter s) m" for m using cst_clean [OF c] by simp
  obtain b t where t: "bread ROOTDEV (l_start s) s = Inr (b, t)" "cst p t {} (insert (l_start s) {})" "holds p t b (l_start s)" "blk t = blk s"
    "platter t = platter s" "cframe p s t" "\<forall>c m. holds p s c m \<longrightarrow> holds p t c m"
    by (rule bc.rdE [OF c, of "l_start s"]) (use dev in simp_all)
  note e = cframe_log [OF t(6)]
  have bd: "b_data (bf t b) = d" using bc.data [OF t(2,3)] t(4) cl d(1) by simp
  let ?n = "nat (hdr_n d)" let ?l = "map (\<lambda>i. getn 4 (4 + 4 * i) d) [0..<?n] @ drop ?n (lh_block s)"
  let ?u = "t\<lparr>lh_n := hdr_n d, lh_block := ?l\<rparr>"
  have fl: "fold (\<lambda>i l. l[i := getn 4 (4 + 4 * i) d]) [0..<?n] (lh_block s) = ?l"
    using fold_list_update [of ?n "lh_block s" "\<lambda>i _. getn 4 (4 + 4 * i) d"] dev(3) d(2) by simp
  have "l_start s \<in> {} \<or> blk ?u (l_start s) = disk_block (platter ?u) (l_start s)" using t cl by simp
  then obtain v where v: "brelse b ?u = Inr v" "cst p v {} (insert (l_start s) {} - {l_start s})" "blk v = blk ?u" "platter v = platter ?u" "cframe p ?u v"
    "\<forall>c m. holds p ?u c m \<longrightarrow> m \<noteq> l_start s \<longrightarrow> holds p v c m"
    by (rule bc.relE [where s = ?u and p = p and L = "{}" and H = "insert (l_start s) {}" and b = b and n = "l_start s", rotated 2]) (use t in simp_all)
  have nd: "\<not> LOGSIZE < nat (hdr_n d)" using d(2) by simp
  have bu: "b_data (bf (t\<lparr>lh_n := hdr_n d\<rparr>) b) = d" using bd by (simp add: bf_def)
  have "read_head s = brelse b ?u"
    unfolding read_head_def dev(1) t(1) andthen.simps prod.case Let_def bd hdr_n_def [symmetric] read_fold bu
    using nd by (simp add: e fl)
  moreover have "logged v = hdr_blocks d"
    using cframe_log [OF v(5)] by (simp add: logged_def hdr_blocks_def)
  ultimately show ?thesis
    using v(1,2,4) cframe_log [OF v(5)] e t(5) dev(3) d(2) by simp
qed

text \<open>The writes of recovery from a disk with contents \<open>f\<close> and a log that starts at block \<open>st\<close>.\<close>

definition recovery_writes :: "nat \<Rightarrow> (nat \<Rightarrow> block) \<Rightarrow> platter" where
  "recovery_writes st f = map (\<lambda>i. (hdr_blocks (f st) ! i, f (st + 1 + i))) [0..<nat (hdr_n (f st))]"

text \<open>A machine after a restart: nothing in use, and a header on the disk that names blocks outside the log.\<close>

definition restarted :: "nat \<Rightarrow> 'a logst_scheme \<Rightarrow> bool" where
  "restarted p s \<longleftrightarrow> cst p s {} {} \<and> l_dev s = ROOTDEV \<and> length (lh_block s) = LOGSIZE \<and> l_start s + l_size s \<le> 2 ^ 31 \<and> l_size s \<le> LOGSIZE"

definition header_ok :: "'a logst_scheme \<Rightarrow> block \<Rightarrow> bool" where
  "header_ok s d \<longleftrightarrow> 0 \<le> hdr_n d \<and> hdr_n d < int (l_size s) \<and> distinct (hdr_blocks d) \<and>
     (\<forall>m \<in> set (hdr_blocks d). m < 2 ^ 31 \<and> m \<notin> log_area s)"

lemma recover_spec:
  assumes r: "restarted p s" and h: "header_ok s (disk_block (platter s) (l_start s))"
  shows "returns (recover_from_log s) (\<lambda>t. cst p t {} {} \<and> lh_n t = 0 \<and> (\<exists>d. hdr_n d = 0 \<and>
    platter t = platter s @ recovery_writes (l_start s) (disk_block (platter s)) @ [(l_start s, d)]))"
proof -
  define d where "d = disk_block (platter s) (l_start s)"
  have c: "cst p s {} {}" and g: "l_dev s = ROOTDEV" "l_start s < 2 ^ 31" "length (lh_block s) = LOGSIZE" "hdr_n d \<le> int LOGSIZE" "0 \<le> hdr_n d"
    using r h by (simp_all add: restarted_def header_ok_def d_def)
  obtain t where t: "read_head s = Inr t" "cst p t {} {}" "platter t = platter s" "lh_n t = hdr_n d" "logged t = hdr_blocks d"
    "length (lh_block t) = LOGSIZE" "l_dev t = l_dev s" "l_start t = l_start s" "l_size t = l_size s"
    using read_head_spec [OF c g(1-3) d_def g(4)] by (auto simp: returns_iff)
  have sh: "log_shape t" using r h by (simp add: log_shape_def t log_area_def restarted_def header_ok_def d_def)
  have cl: "blk t m = disk_block (platter s) m" for m using cst_clean [OF t(2)] t(3) by simp
  have hw: "home_writes t [0..<nat (lh_n t)] = recovery_writes (l_start s) (disk_block (platter s))"
    by (simp add: home_writes_def recovery_writes_def t cl d_def)
  obtain u where u: "install_trans True t = Inr u" "cst p u {} {}" "cframe p t u"
    "platter u = platter s @ recovery_writes (l_start s) (disk_block (platter s))"
    using install_spec [OF sh, where rec = True and p = p] t(2,3) cl hw by (auto simp: returns_iff)
  note e = cframe_log [OF u(3)]
  let ?d = "hdr 0 (lh_block t) (blk u (l_start s))"
  have "hdr_n ?d = 0" using hdr_roundtrip(2) [of "blk u (l_start s)" 0 "lh_block t"] bc.size [OF u(2)] t(6) by simp
  moreover have "returns (write_head (u\<lparr>lh_n := 0\<rparr>)) (\<lambda>v. cst p v {} {} \<and> cframe p (u\<lparr>lh_n := 0\<rparr>) v \<and> platter v = platter u @ [(l_start s, ?d)])"
    using write_head_spec [of p "u\<lparr>lh_n := 0\<rparr>" "{}"] u(2) t g by (auto simp: e elim!: returns_mono)
  then obtain v where v: "write_head (u\<lparr>lh_n := 0\<rparr>) = Inr v" "cst p v {} {}" "cframe p (u\<lparr>lh_n := 0\<rparr>) v" "platter v = platter u @ [(l_start s, ?d)]"
    by (auto simp: returns_iff)
  moreover have "lh_n v = 0" using cframe_log(6) [OF v(3)] by simp
  ultimately show ?thesis using t(1) u(1,4) by (auto simp: recover_from_log_def)
qed

subsection \<open>Crashes\<close>

text \<open>What a prefix of the writes of a commit leaves on the disk.\<close>

lemma header_empty: "hdr_n d = 0 \<Longrightarrow> 0 < l_size s \<Longrightarrow> header_ok s d" "hdr_n (f st) = 0 \<Longrightarrow> recovery_writes st f = []"
  by (simp_all add: header_ok_def hdr_blocks_def recovery_writes_def)

lemma head_block_fields:
  assumes "log_ok p s"
  shows "hdr_n (head_block s) = lh_n s" "hdr_blocks (head_block s) = logged s" "hdr_n (hdr 0 (lh_block s) (head_block s)) = 0"
    "header_ok s (head_block s)"
proof -
  have sh: "log_shape s" and c: "cst p s (set (logged s)) {}" using assms by (simp_all add: log_ok_def)
  have g: "0 \<le> lh_n s" "lh_n s \<le> int LOGSIZE" "length (lh_block s) = LOGSIZE" using sh by (simp_all add: log_shape_def)
  note h = hdr_roundtrip [OF bc.size [OF c] g(1,2) log_blocks_small [OF sh] g(3), of "l_start s"]
  show "hdr_n (head_block s) = lh_n s" "hdr_blocks (head_block s) = logged s" using h by (simp_all add: head_block_def logged_def)
  then show "header_ok s (head_block s)" using sh by (simp add: header_ok_def log_shape_def)
  show "hdr_n (hdr 0 (lh_block s) (head_block s)) = 0"
    using hdr_roundtrip(2) [of "head_block s" 0 "lh_block s"] h(1) g(3) by (simp add: head_block_def)
qed

text \<open>The disk once the header is written: the homes as far as they are installed.\<close>

lemma after_header:
  assumes ok: "log_ok p s" and f: "f = disk_block (platter s @ log_writes s [0..<nat (lh_n s)] @ [(l_start s, head_block s)] @ take j (map (\<lambda>m. (m, blk s m)) (logged s)))"
  shows "f (l_start s) = head_block s" "i < nat (lh_n s) \<Longrightarrow> f (l_start s + 1 + i) = blk s (logged s ! i)"
    "m \<notin> log_area s \<Longrightarrow> apply_writes f (map (\<lambda>m. (m, blk s m)) (logged s)) m = blk s m"
proof -
  let ?lw = "log_writes s [0..<nat (lh_n s)]" and ?hw = "map (\<lambda>m. (m, blk s m)) (logged s)"
  have sh: "log_shape s" and c: "cst p s (set (logged s)) {}" using ok by (simp_all add: log_ok_def)
  have ar: "x \<in> log_area s \<Longrightarrow> x \<notin> set (logged s)" for x using sh by (auto simp: log_shape_def)
  have keys: "fst ` set (take j ?hw) \<subseteq> set (logged s)" by (auto dest: in_set_takeD)
  have F: "f = apply_writes ((apply_writes (disk_block (platter s)) ?lw)(l_start s := head_block s)) (take j ?hw)"
    by (simp add: f disk_block_writes)
  have st: "l_start s \<in> log_area s" using sh by (simp add: log_shape_def log_area_def)
  then have "l_start s \<notin> fst ` set (take j ?hw)" using ar keys by blast
  then show "f (l_start s) = head_block s" by (simp add: F apply_writes_other)
  show "f (l_start s + 1 + i) = blk s (logged s ! i)" if i: "i < nat (lh_n s)"
  proof -
    have "l_start s + 1 + i \<notin> fst ` set (take j ?hw)" using ar keys log_pos [OF sh i] by blast
    then show ?thesis using log_writes_at [OF i] by (simp add: F apply_writes_other)
  qed
  show "apply_writes f ?hw m = blk s m" if m: "m \<notin> log_area s"
  proof -
    have d: "distinct (logged s)" using sh by (simp add: log_shape_def)
    have "f m = blk s m" if "m \<notin> set (logged s)"
    proof -
      have "m \<notin> fst ` set (take j ?hw)" "m \<noteq> l_start s" using that keys m st by auto
      moreover have "m \<notin> fst ` set ?lw" using m log_pos [OF sh] by (auto simp: log_writes_def)
      ultimately show ?thesis using cst_clean [OF c that] by (simp add: F apply_writes_other)
    qed
    then show ?thesis using apply_writes_map [OF d, of f "blk s" m] by simp
  qed
qed

lemma take_commit:
  assumes "log_shape s"
  shows "take k (commit_writes s) = (if k \<le> nat (lh_n s) then take k (log_writes s [0..<nat (lh_n s)])
    else log_writes s [0..<nat (lh_n s)] @ [(l_start s, head_block s)] @ take (k - nat (lh_n s) - 1) (map (\<lambda>m. (m, blk s m)) (logged s)) @
      (if k \<le> 2 * nat (lh_n s) + 1 then [] else [(l_start s, hdr 0 (lh_block s) (head_block s))]))"
proof -
  have l: "length (log_writes s [0..<nat (lh_n s)]) = nat (lh_n s)" "length (logged s) = nat (lh_n s)"
    using length_logged [OF assms] by (simp_all add: log_writes_def)
  obtain n where n: "nat (lh_n s) = n" by simp
  show ?thesis
  proof (cases "k \<le> n")
    case False
    then obtain j where k: "k = Suc (n + j)" by (metis add_Suc_right less_imp_Suc_add not_le)
    then show ?thesis using l by (simp add: commit_writes_def n take_Cons' )
  qed (use l in \<open>simp add: commit_writes_def n\<close>)
qed

lemma commit_prefix:
  assumes ok: "log_ok p s"
    and f: "f = disk_block (platter s @ take k (commit_writes s))"
  shows "header_ok s (f (l_start s)) \<and> (\<forall>m. m \<notin> log_area s \<longrightarrow>
    apply_writes f (recovery_writes (l_start s) f) m = (if k \<le> nat (lh_n s) then disk_block (platter s) m else blk s m))"
proof -
  let ?lw = "log_writes s [0..<nat (lh_n s)]" and ?hw = "map (\<lambda>m. (m, blk s m)) (logged s)"
  have sh: "log_shape s" and z: "hdr_n (disk_block (platter s) (l_start s)) = 0" and sz: "0 < l_size s" "l_start s \<in> log_area s"
    using ok by (simp_all add: log_ok_def log_shape_def log_area_def)
  consider (log) "k \<le> nat (lh_n s)" | (home) "nat (lh_n s) < k" "k \<le> 2 * nat (lh_n s) + 1" | (all) "2 * nat (lh_n s) + 1 < k" by linarith
  then show ?thesis
  proof cases
    case log
    have F: "f = apply_writes (disk_block (platter s)) (take k ?lw)" using log by (simp add: f take_commit [OF sh] disk_block_writes)
    have keys: "fst ` set (take k ?lw) \<subseteq> log_area s - {l_start s}"
      using log_pos [OF sh] by (auto simp: log_writes_def log_area_def dest!: in_set_takeD)
    then have "l_start s \<notin> fst ` set (take k ?lw)" by blast
    then have "hdr_n (f (l_start s)) = 0" using z by (simp add: F apply_writes_other)
    moreover have "m \<notin> log_area s \<Longrightarrow> f m = disk_block (platter s) m" for m using keys by (auto simp: F intro!: apply_writes_other)
    ultimately show ?thesis using log sz header_empty by simp
  next
    case home
    then have F: "f = disk_block (platter s @ ?lw @ [(l_start s, head_block s)] @ take (k - nat (lh_n s) - 1) ?hw)"
      by (simp add: f take_commit [OF sh])
    note ah = after_header [OF ok F] and hb = head_block_fields [OF ok]
    have "recovery_writes (l_start s) f = map (\<lambda>i. (\<lambda>m. (m, blk s m)) (logged s ! i)) [0..<nat (lh_n s)]"
      unfolding recovery_writes_def ah(1) hb(1,2) using ah(2) by simp
    also have "\<dots> = ?hw" by (rule map_logged [OF sh])
    finally show ?thesis using ah(3) home hb(4) by (simp add: ah(1))
  next
    case all
    define g where "g = disk_block (platter s @ ?lw @ [(l_start s, head_block s)] @ take 0 ?hw)"
    have "take (k - nat (lh_n s) - 1) ?hw = ?hw" using all length_logged [OF sh] by simp
    then have F: "f = (apply_writes g ?hw)(l_start s := hdr 0 (lh_block s) (head_block s))"
      using all by (simp add: f take_commit [OF sh] disk_block_writes g_def)
    have "hdr_n (f (l_start s)) = 0" using head_block_fields(3) [OF ok] by (simp add: F)
    moreover have "f m = blk s m" if "m \<notin> log_area s" for m
      using after_header(3) [OF ok g_def that] that sz by (auto simp: F)
    ultimately show ?thesis using all sz header_empty by simp
  qed
qed

subsection \<open>Operations inside a transaction\<close>

definition tx :: "nat \<Rightarrow> 'a logst_scheme \<Rightarrow> nat set \<Rightarrow> bool" where
  "tx p s H \<longleftrightarrow> log_shape s \<and> cst p s (set (logged s)) H \<and> 1 \<le> l_outstanding s \<and> hdr_n (disk_block (platter s) (l_start s)) = 0"

text \<open>What an operation on logged blocks may change.\<close>

definition lframe :: "nat \<Rightarrow> 'a logst_scheme \<Rightarrow> 'a logst_scheme \<Rightarrow> bool" where
  "lframe p s t \<longleftrightarrow> (\<exists>x y. cframe p (s\<lparr>lh_n := x, lh_block := y\<rparr>) t) \<and> platter t = platter s"

text \<open>Room for \<open>k\<close> more blocks, and blocks that may be logged.\<close>

definition room :: "'a logst_scheme \<Rightarrow> nat \<Rightarrow> bool" where
  "room s k \<longleftrightarrow> card (set (logged s)) + k < l_size s"

definition loggable :: "'a logst_scheme \<Rightarrow> nat \<Rightarrow> bool" where
  "loggable s n \<longleftrightarrow> n < 2 ^ 31 \<and> n \<notin> log_area s"

lemma lframe_fields:
  assumes "lframe p s t"
  shows "l_start t = l_start s" "l_size t = l_size s" "l_outstanding t = l_outstanding s" "l_committing t = l_committing s" "l_dev t = l_dev s"
    "log_area t = log_area s" "loggable t = loggable s" "platter t = platter s" "held t = held s" "curproc t = curproc s" "pr t p = pr s p"
    "\<And>i. slk t (InodeLock i) = slk s (InodeLock i)" "in_proc p s \<Longrightarrow> in_proc p t"
proof -
  obtain x y where c: "cframe p (s\<lparr>lh_n := x, lh_block := y\<rparr>) t" and pl: "platter t = platter s" using assms by (auto simp: lframe_def)
  from c show l: "l_start t = l_start s" "l_size t = l_size s" "l_outstanding t = l_outstanding s" "l_committing t = l_committing s" "l_dev t = l_dev s"
    by (auto dest: cframe_log)
  then show "log_area t = log_area s" "loggable t = loggable s" by (simp_all add: log_area_def loggable_def fun_eq_iff)
  show "platter t = platter s" by (rule pl)
  from c show "held t = held s" "curproc t = curproc s" "\<And>i. slk t (InodeLock i) = slk s (InodeLock i)" unfolding cframe_def by auto
  show "pr t p = pr s p" using cframe_pr [OF c] by (simp add: pr_def)
  show "in_proc p s \<Longrightarrow> in_proc p t" using in_proc_cframe [OF _ c] by (simp add: in_proc_def pr_def)
qed

lemma cframe_lframe: "cframe p s t \<Longrightarrow> platter t = platter s \<Longrightarrow> lframe p s t"
  unfolding lframe_def by (auto intro!: exI [of _ "lh_n s"] exI [of _ "lh_block s"])

lemma cframe_lh2: "cframe p s t \<Longrightarrow> cframe p (s\<lparr>lh_n := x, lh_block := y\<rparr>) (t\<lparr>lh_n := x, lh_block := y\<rparr>)"
proof -
  assume "cframe p s t"
  then obtain tb sl bs v pl out where t: "t = s\<lparr>ptable := tb, slk := sl, bufs := bs, vd := v, platter := pl, mmio_out := out\<rparr>"
    "tb_le p (ptable s) tb" "\<forall>i. sl (InodeLock i) = slk s (InodeLock i)" unfolding cframe_def by blast
  show ?thesis by (rule cframeI) (use t(2,3) in \<open>simp_all add: t(1)\<close>)
qed

lemma lframe_trans: "lframe p s t \<Longrightarrow> lframe p t u \<Longrightarrow> lframe p s u"
proof -
  assume st: "lframe p s t" and tu: "lframe p t u"
  from st obtain x y where c: "cframe p (s\<lparr>lh_n := x, lh_block := y\<rparr>) t" by (auto simp: lframe_def)
  from tu obtain x' y' where c': "cframe p (t\<lparr>lh_n := x', lh_block := y'\<rparr>) u" by (auto simp: lframe_def)
  have "cframe p (s\<lparr>lh_n := x', lh_block := y'\<rparr>) (t\<lparr>lh_n := x', lh_block := y'\<rparr>)" using cframe_lh2 [OF c, where x = x' and y = y'] by simp
  then have "cframe p (s\<lparr>lh_n := x', lh_block := y'\<rparr>) u" using c' by (rule cframe_trans)
  then show ?thesis using st tu unfolding lframe_def by auto
qed

lemma lframe_refl [simp]: "lframe p s s"
  by (rule cframe_lframe) simp_all

text \<open>The position \<open>log_write\<close> finds for a block.\<close>

lemma log_find:
  assumes "log_shape s"
  shows "(case find (\<lambda>i. lh_block s ! i = n) [0..<nat (lh_n s)] of Some i \<Rightarrow> i | None \<Rightarrow> nat (lh_n s)) = i \<Longrightarrow>
    (if n \<in> set (logged s) then i < nat (lh_n s) \<and> lh_block s ! i = n else i = nat (lh_n s))"
proof -
  assume i: "(case find (\<lambda>i. lh_block s ! i = n) [0..<nat (lh_n s)] of Some i \<Rightarrow> i | None \<Rightarrow> nat (lh_n s)) = i"
  have mem: "n \<in> set (logged s) \<longleftrightarrow> (\<exists>j < nat (lh_n s). lh_block s ! j = n)"
    using length_logged [OF assms] logged_nth [OF assms] by (auto simp: in_set_conv_nth)
  show ?thesis
  proof (cases "find (\<lambda>i. lh_block s ! i = n) [0..<nat (lh_n s)]")
    case None
    then have "n \<notin> set (logged s)" using mem by (auto simp: find_None_iff)
    then show ?thesis using i None by simp
  next
    case (Some j)
    then have "j < nat (lh_n s)" "lh_block s ! j = n" by (auto simp: find_Some_iff)
    then show ?thesis using i mem Some by auto
  qed
qed

lemma bpin_log:
  assumes "held s = []" "bpin b s = Inr t"
  shows "bpin b (s\<lparr>held := [LogLock], lh_block := y\<rparr>) = Inr (t\<lparr>held := [LogLock], lh_block := y\<rparr>)" "held t = []" "lh_n t = lh_n s"
  using assms by (auto simp: bpin_def lock_simps upd_buf_def)

lemma log_write_eq:
  assumes t: "tx p s H" and h: "holds p s b n" and rm: "room s 1"
  shows "log_write b s = (if n \<in> set (logged s) then Inr s
    else andthen (bpin b s) (\<lambda>t. Inr (t\<lparr>lh_block := (lh_block s)[nat (lh_n s) := n], lh_n := lh_n s + 1\<rparr>)))"
proof -
  have sh: "log_shape s" and c: "cst p s (set (logged s)) H" and o: "1 \<le> l_outstanding s" using t by (simp_all add: tx_def)
  have hd: "held s = []" using c by (simp add: cst_def io_ok_def in_proc_def)
  have ln: "length (logged s) = nat (lh_n s)" "card (set (logged s)) = nat (lh_n s)" "0 \<le> lh_n s" "l_size s \<le> LOGSIZE"
    using length_logged [OF sh] sh distinct_card [of "logged s"] by (simp_all add: log_shape_def)
  then have sm: "\<not> (int LOGSIZE \<le> lh_n s \<or> int (l_size s) - 1 \<le> lh_n s)" using rm by (auto simp: room_def)
  have bn: "b_blockno (bf s b) = n" using h by (simp add: holds_def cached_def)
  define i where "i = (case find (\<lambda>i. lh_block s ! i = n) [0..<nat (lh_n s)] of Some i \<Rightarrow> i | None \<Rightarrow> nat (lh_n s))"
  note lf = log_find [OF sh i_def [symmetric]]
  define u where "u = s\<lparr>held := [LogLock], lh_block := (lh_block s)[i := n]\<rparr>"
  have "log_write b s = andthen (if int i = lh_n u then andthen (bpin b u) (\<lambda>s. Inr (s\<lparr>lh_n := lh_n s + 1\<rparr>)) else Inr u) (\<lambda>s. release LogLock s)"
  proof -
    let ?l = "s\<lparr>held := [LogLock]\<rparr>"
    have aq: "acquire LogLock s = Inr ?l" using hd by (simp add: lock_simps)
    have fs: "lh_n ?l = lh_n s" "l_size ?l = l_size s" "l_outstanding ?l = l_outstanding s" "lh_block ?l = lh_block s" "b_blockno (bf ?l b) = n"
      using bn by (simp_all add: bf_def)
    show ?thesis
      unfolding log_write_def aq andthen.simps(2) Let_def fs i_def [symmetric] using sm o by (simp add: u_def)
  qed
  also have "\<dots> = (if n \<in> set (logged s) then Inr s
    else andthen (bpin b s) (\<lambda>t. Inr (t\<lparr>lh_block := (lh_block s)[nat (lh_n s) := n], lh_n := lh_n s + 1\<rparr>)))"
  proof (cases "n \<in> set (logged s)")
    case True
    then have "int i \<noteq> lh_n s" "(lh_block s)[i := n] = lh_block s" using lf by auto
    then show ?thesis using True hd by (simp add: u_def lock_simps)
  next
    case False
    then have i: "int i = lh_n s" "i = nat (lh_n s)" using lf ln by auto
    obtain t0 where t0: "bpin b s = Inr t0" using hd by (simp add: bpin_def lock_simps upd_buf_def)
    show ?thesis using bpin_log(1) [OF hd t0, of "(lh_block s)[i := n]"] bpin_log(2,3) [OF hd t0] False i t0
      by (simp add: u_def lock_simps)
  qed
  finally show ?thesis .
qed

lemma log_write_spec:
  assumes t: "tx p s H" and h: "holds p s b n" and n: "loggable s n" and rm: "room s 1"
  shows "returns (log_write b s) (\<lambda>t. tx p t H \<and> set (logged t) = insert n (set (logged s)) \<and> blk t = blk s \<and> lframe p s t \<and>
    (\<forall>c m. holds p s c m \<longrightarrow> holds p t c m))"
proof (cases "n \<in> set (logged s)")
  case True
  then show ?thesis using log_write_eq [OF t h rm] t by (simp add: insert_absorb)
next
  case False
  have sh: "log_shape s" and c: "cst p s (set (logged s)) H" using t by (simp_all add: tx_def)
  obtain u where u: "bpin b s = Inr u" "cst p u (insert n (set (logged s))) H" "blk u = blk s" "platter u = platter s" "cframe p s u"
    "\<forall>c m. holds p s c m \<longrightarrow> holds p u c m" using bc.pin [OF c h False] by (auto simp: returns_iff)
  note e = cframe_log [OF u(5)]
  define v where "v = u\<lparr>lh_block := (lh_block s)[nat (lh_n s) := n], lh_n := lh_n s + 1\<rparr>"
  have ln: "length (logged s) = nat (lh_n s)" "card (set (logged s)) = nat (lh_n s)" "0 \<le> lh_n s" "l_size s \<le> LOGSIZE" "nat (lh_n s) < length (lh_block s)"
    using length_logged [OF sh] sh distinct_card [of "logged s"] by (simp_all add: log_shape_def)
  have "nat (lh_n s + 1) = Suc (nat (lh_n s))" using ln by simp
  then have lg: "logged v = logged s @ [n]"
    using ln(5) by (simp add: logged_def v_def take_Suc_conv_app_nth)
  have ar: "log_area v = log_area s" by (simp add: log_area_def v_def e)
  have "log_shape v"
    using sh n False ln rm unfolding log_shape_def lg ar by (auto simp: v_def e loggable_def room_def log_shape_def)
  moreover have "cst p v (set (logged v)) H" using u(2) by (simp add: lg) (simp add: v_def)
  ultimately have "tx p v H" using t u(4) by (simp add: tx_def) (simp add: v_def e)
  moreover have "cframe p (s\<lparr>lh_n := lh_n s + 1, lh_block := (lh_block s)[nat (lh_n s) := n]\<rparr>) v"
  proof -
    have "v = u\<lparr>lh_n := lh_n s + 1, lh_block := (lh_block s)[nat (lh_n s) := n]\<rparr>" by (simp add: v_def)
    then show ?thesis using cframe_lh2 [OF u(5), where x = "lh_n s + 1" and y = "(lh_block s)[nat (lh_n s) := n]"] by (simp only:)
  qed
  then have "lframe p s v" using u(4) unfolding lframe_def by (auto simp: v_def)
  ultimately show ?thesis
    using log_write_eq [OF t h rm] False u(1,3,6) lg by (simp add: v_def [symmetric]) (simp add: v_def)
qed

end
