(* ===== verification/Transaction.thy ===== *)
theory Transaction
  imports Log
begin

section \<open>Transactions\<close>

text \<open>
  The interface of the log to the file system. The locale \<open>block_tx\<close> lists what the file system relies
  on between \<^verbatim>\<open>begin_op\<close> and \<^verbatim>\<open>end_op\<close> and derives its two idioms: look at a block, and
  change a block through the log. It is interpreted on \<^verbatim>\<open>bio.c\<close> and \<^verbatim>\<open>log.c\<close>. The rest of
  the theory is about the beginning and the end of operations: the reservation of log space, and
  that the end of the last operation makes the transaction durable.
\<close>

locale block_tx =
  fixes tr :: "'s \<Rightarrow> nat set \<Rightarrow> bool" and logset :: "'s \<Rightarrow> nat set" and contents :: "'s \<Rightarrow> nat \<Rightarrow> block" and disk :: "'s \<Rightarrow> platter"
    and has :: "'s \<Rightarrow> nat \<Rightarrow> nat \<Rightarrow> bool" and data :: "'s \<Rightarrow> nat \<Rightarrow> block"
    and rd :: "nat \<Rightarrow> 's \<Rightarrow> exn + (nat \<times> 's)" and put :: "nat \<Rightarrow> block \<Rightarrow> 's \<Rightarrow> 's"
    and lw :: "nat \<Rightarrow> 's \<Rightarrow> exn + 's" and rel :: "nat \<Rightarrow> 's \<Rightarrow> exn + 's"
    and fits :: "'s \<Rightarrow> nat \<Rightarrow> bool" and spare :: "'s \<Rightarrow> nat \<Rightarrow> bool" and fr :: "'s \<Rightarrow> 's \<Rightarrow> bool"
  assumes rd: "tr s H \<Longrightarrow> n \<notin> H \<Longrightarrow> n < 2 ^ 31 \<Longrightarrow> n \<in> logset s \<or> card (logset s \<union> H) < NBUF \<Longrightarrow>
      returns (rd n s) (\<lambda>(b, t). tr t (insert n H) \<and> has t b n \<and> contents t = contents s \<and> logset t = logset s \<and> fr s t \<and>
        (\<forall>c m. has s c m \<longrightarrow> has t c m))"
    and data: "tr s H \<Longrightarrow> has s b n \<Longrightarrow> data s b = contents s n \<and> n \<in> H"
    and size: "tr s H \<Longrightarrow> length (contents s n) = BSIZE"
    and clean: "tr s H \<Longrightarrow> m \<notin> logset s \<Longrightarrow> m \<notin> H \<Longrightarrow> contents s m = disk_block (disk s) m"
    and change: "tr s H \<Longrightarrow> has s b n \<Longrightarrow> fits s n \<Longrightarrow> spare s 1 \<Longrightarrow> length d = BSIZE \<Longrightarrow>
      returns (lw b (put b d s)) (\<lambda>t. tr t H \<and> contents t = (contents s)(n := d) \<and> logset t = insert n (logset s) \<and> fr s t \<and>
        (\<forall>c m. has s c m \<longrightarrow> has t c m))"
    and rel: "tr s H \<Longrightarrow> has s b n \<Longrightarrow> n \<in> logset s \<or> contents s n = disk_block (disk s) n \<Longrightarrow>
      returns (rel b s) (\<lambda>t. tr t (H - {n}) \<and> contents t = contents s \<and> logset t = logset s \<and> fr s t \<and>
        (\<forall>c m. has s c m \<longrightarrow> m \<noteq> n \<longrightarrow> has t c m))"
    and fr_trans: "fr s t \<Longrightarrow> fr t u \<Longrightarrow> fr s u"
    and fr_disk: "fr s t \<Longrightarrow> disk t = disk s"
    and fr_fits: "fr s t \<Longrightarrow> fits t = fits s"
    and fits_small: "fits s n \<Longrightarrow> n < 2 ^ 31"
    and fr_spare: "fr s t \<Longrightarrow> logset t = logset s \<Longrightarrow> spare t k = spare s k"
begin

lemma rdE:
  assumes "tr s H" "n \<notin> H" "n < 2 ^ 31" "n \<in> logset s \<or> card (logset s \<union> H) < NBUF"
  obtains b t where "rd n s = Inr (b, t)" "tr t (insert n H)" "has t b n" "contents t = contents s" "logset t = logset s" "fr s t"
    "\<forall>c m. has s c m \<longrightarrow> has t c m" "data t b = contents s n"
  using rd [OF assms] data by (auto simp: returns_iff)

text \<open>Look at a block.\<close>

lemma look:
  assumes "tr s H" "n \<notin> H" "n < 2 ^ 31" "n \<in> logset s \<or> card (logset s \<union> H) < NBUF"
  obtains b t u where "rd n s = Inr (b, t)" "has t b n" "tr t (insert n H)" "data t b = contents s n" "contents t = contents s" "logset t = logset s" "fr s t"
    "rel b t = Inr u" "tr u H" "contents u = contents s" "logset u = logset s" "fr s u" "\<forall>c m. has s c m \<longrightarrow> has u c m"
proof -
  obtain b t where t: "rd n s = Inr (b, t)" "tr t (insert n H)" "has t b n" "contents t = contents s" "logset t = logset s" "fr s t"
    "\<forall>c m. has s c m \<longrightarrow> has t c m" "data t b = contents s n" by (rule rdE [OF assms])
  have "n \<in> logset t \<or> contents t n = disk_block (disk t) n"
    using clean [OF assms(1), of n] assms(2) t fr_disk [OF t(6)] by auto
  from rel [OF t(2,3) this] obtain u where u: "rel b t = Inr u" "tr u (insert n H - {n})" "contents u = contents t" "logset u = logset t" "fr t u"
    and h: "\<forall>c m. has t c m \<longrightarrow> m \<noteq> n \<longrightarrow> has u c m"
    by (auto simp: returns_iff)
  moreover have "insert n H - {n} = H" using assms(2) by simp
  moreover have "fr s u" using t(6) u(5) by (rule fr_trans)
  moreover have "\<forall>c m. has s c m \<longrightarrow> has u c m" using h t(7) data [OF assms(1)] assms(2) by blast
  ultimately show thesis using that [OF t(1,3,2) _ _ _ t(6) u(1)] t by simp
qed

text \<open>Change a block.\<close>

lemma modify:
  assumes "tr s H" "n \<notin> H" "fits s n" "n \<in> logset s \<or> card (logset s \<union> H) < NBUF" "spare s 1" "length d = BSIZE"
  obtains b t u v where "rd n s = Inr (b, t)" "has t b n" "tr t (insert n H)" "data t b = contents s n" "contents t = contents s" "logset t = logset s" "fr s t"
    "lw b (put b d t) = Inr u" "rel b u = Inr v" "tr v H" "contents v = (contents s)(n := d)" "logset v = insert n (logset s)" "fr s v"
    "\<forall>c m. has s c m \<longrightarrow> has v c m"
proof -
  obtain b t where t: "rd n s = Inr (b, t)" "tr t (insert n H)" "has t b n" "contents t = contents s" "logset t = logset s" "fr s t"
    "\<forall>c m. has s c m \<longrightarrow> has t c m" "data t b = contents s n"
    using rdE [OF assms(1,2) fits_small [OF assms(3)] assms(4)] by blast
  have "fits t n" "spare t 1" using assms(3,5) fr_fits [OF t(6)] fr_spare [OF t(6,5)] by simp_all
  from change [OF t(2,3) this assms(6)] obtain u where u: "lw b (put b d t) = Inr u" "tr u (insert n H)" "contents u = (contents s)(n := d)"
    "logset u = insert n (logset s)" "fr t u" "has u b n" and hu: "\<forall>c m. has t c m \<longrightarrow> has u c m" using t by (auto simp: returns_iff)
  from rel [OF u(2,6)] obtain v where v: "rel b u = Inr v" "tr v (insert n H - {n})" "contents v = contents u" "logset v = logset u" "fr u v"
    and hv: "\<forall>c m. has u c m \<longrightarrow> m \<noteq> n \<longrightarrow> has v c m"
    using u(4) by (auto simp: returns_iff)
  moreover have "insert n H - {n} = H" using assms(2) by simp
  moreover have "fr s v" using t(6) u(5) v(5) by (blast intro: fr_trans)
  moreover have "\<forall>c m. has s c m \<longrightarrow> has v c m" using hu hv t(7) data [OF assms(1)] assms(2) by blast
  ultimately show thesis using that [OF t(1,3,2,8,4,5,6) u(1) v(1)] u by simp
qed

end

text \<open>The file system's view of \<^verbatim>\<open>bio.c\<close> and \<^verbatim>\<open>log.c\<close> keeps the contract.\<close>

interpretation bt: block_tx "tx p" "\<lambda>s. set (logged s)" blk platter "holds p" "\<lambda>s b. b_data (bf s b)" "bread ROOTDEV" put_data log_write brelse
  loggable room "lframe p" for p :: nat
proof unfold_locales
  fix s t u :: "'a logst_scheme" and H :: "nat set" and n b k m :: nat and d :: block
  show "lframe p s t \<Longrightarrow> lframe p t u \<Longrightarrow> lframe p s u" by (rule lframe_trans)
  show "lframe p s t \<Longrightarrow> platter t = platter s" by (rule lframe_fields)
  show "lframe p s t \<Longrightarrow> loggable t = loggable s" by (rule lframe_fields)
  show "loggable s n \<Longrightarrow> n < 2 ^ 31" by (simp add: loggable_def)
  show "lframe p s t \<Longrightarrow> set (logged t) = set (logged s) \<Longrightarrow> room t k = room s k" using lframe_fields(2) [of p s t] by (simp add: room_def)
  assume t: "tx p s H"
  have c: "cst p s (set (logged s)) H" using t by (simp add: tx_def)
  have keep: "tx p t H' \<and> logged t = logged s \<and> lframe p s t"
    if "cst p t (set (logged s)) H'" "cframe p s t" "platter t = platter s" for t :: "'a logst_scheme" and H'
    using that t cframe_log [OF that(2)] by (simp add: tx_def cframe_lframe)
  show "length (blk s n) = BSIZE" by (rule bc.size [OF c])
  show "m \<notin> set (logged s) \<Longrightarrow> m \<notin> H \<Longrightarrow> blk s m = disk_block (platter s) m" by (rule cst_clean [OF c])
  show "returns (bread ROOTDEV n s) (\<lambda>(b, t). tx p t (insert n H) \<and> holds p t b n \<and> blk t = blk s \<and> set (logged t) = set (logged s) \<and>
      lframe p s t \<and> (\<forall>c m. holds p s c m \<longrightarrow> holds p t c m))"
    if "n \<notin> H" "n < 2 ^ 31" "n \<in> set (logged s) \<or> card (set (logged s) \<union> H) < NBUF"
    using bc.rd [OF c that] by (auto elim!: returns_mono dest: keep)
  assume h: "holds p s b n"
  show "b_data (bf s b) = blk s n \<and> n \<in> H" by (rule bc.data [OF c h])
  show "returns (brelse b s) (\<lambda>t. tx p t (H - {n}) \<and> blk t = blk s \<and> set (logged t) = set (logged s) \<and> lframe p s t \<and>
      (\<forall>c m. holds p s c m \<longrightarrow> m \<noteq> n \<longrightarrow> holds p t c m))" if "n \<in> set (logged s) \<or> blk s n = disk_block (platter s) n"
    using bc.rel [OF c h that] by (auto elim!: returns_mono dest: keep)
  show "returns (log_write b (put_data b d s)) (\<lambda>t. tx p t H \<and> blk t = (blk s)(n := d) \<and> set (logged t) = insert n (set (logged s)) \<and>
      lframe p s t \<and> (\<forall>c m. holds p s c m \<longrightarrow> holds p t c m))" if "loggable s n" "room s 1" "length d = BSIZE"
  proof -
    let ?u = "put_data b d s"
    have u: "cst p ?u (set (logged s)) H" "blk ?u = (blk s)(n := d)" "platter ?u = platter s" "cframe p s ?u" "\<forall>c m. holds p s c m \<longrightarrow> holds p ?u c m"
      using bc.put [OF c h that(3)] by simp_all
    have k: "tx p ?u H" "logged ?u = logged s" "lframe p s ?u" using keep [OF u(1,4,3)] by simp_all
    have "loggable ?u n" "room ?u 1" "holds p ?u b n" using that u(5) h lframe_fields(2,7) [OF k(3)] k(2) by (simp_all add: room_def)
    from log_write_spec [OF k(1) this(3,1,2)] show ?thesis
      using u(2,5) k(2,3) by (auto elim!: returns_mono intro: lframe_trans)
  qed
qed

subsection \<open>The end of the last operation\<close>

lemma commit_durable:
  assumes ok: "log_ok p s"
  shows "returns (commit s) (\<lambda>t. log_ok p t \<and> lh_n t = 0 \<and> cframe p (s\<lparr>lh_n := 0\<rparr>) t \<and>
    (\<forall>m. m \<notin> log_area s \<longrightarrow> disk_block (platter t) m = blk s m \<and> blk t m = blk s m))"
proof (cases "0 < lh_n s")
  case True
  have sh: "log_shape s" using ok by (simp add: log_ok_def)
  from commit_spec [OF ok True] show ?thesis
  proof (rule returns_mono)
    fix t assume t: "cst p t {} {} \<and> lh_n t = 0 \<and> cframe p (s\<lparr>lh_n := 0\<rparr>) t \<and>
      platter t = platter s @ commit_writes s \<and> blk t = apply_writes (blk s) (commit_writes s)"
    then have e: "l_start t = l_start s" "l_size t = l_size s" "l_dev t = l_dev s" "lh_block t = lh_block s" using cframe_log [of p "s\<lparr>lh_n := 0\<rparr>" t] by simp_all
    define f where "f = disk_block (platter s @ take (length (commit_writes s)) (commit_writes s))"
    have "f (l_start s) = hdr 0 (lh_block s) (head_block s)" by (simp add: f_def disk_block_writes commit_writes_def)
    then have z: "hdr_n (f (l_start s)) = 0" using head_block_fields(3) [OF ok] by simp
    have "nat (lh_n s) < length (commit_writes s)" by (simp add: commit_writes_def log_writes_def)
    then have f: "f m = blk s m" if "m \<notin> log_area s" for m
      using commit_prefix [OF ok f_def] that header_empty(2) [of f, OF z] by simp
    have ft: "f = disk_block (platter t)" using t by (simp add: f_def)
    have lt: "logged t = []" using t by (simp add: logged_def)
    then have "log_shape t" using sh t by (simp add: log_shape_def e)
    then have "log_ok p t" using t z lt by (simp add: log_ok_def e ft)
    moreover have "blk t m = disk_block (platter t) m" for m using cst_clean [of p t "{}" "{}" m] t by simp
    ultimately show "log_ok p t \<and> lh_n t = 0 \<and> cframe p (s\<lparr>lh_n := 0\<rparr>) t \<and>
      (\<forall>m. m \<notin> log_area s \<longrightarrow> disk_block (platter t) m = blk s m \<and> blk t m = blk s m)" using t f ft by simp
  qed
next
  case False
  then have n: "lh_n s = 0" "logged s = []" using ok by (auto simp: log_ok_def log_shape_def logged_def)
  have "blk s m = disk_block (platter s) m" for m using ok cst_clean [of p s "{}" "{}" m] n by (simp add: log_ok_def)
  moreover have "cframe p (s\<lparr>lh_n := 0\<rparr>) s" by (rule cframeI) (use n in simp_all)
  ultimately show ?thesis using False ok n by (simp add: commit_def)
qed

lemma cst_woken:
  assumes "cst p s L H"
  shows "cst p (s\<lparr>ptable := woken ch p (ptable s)\<rparr>) L H"
proof -
  let ?t = "s\<lparr>ptable := woken ch p (ptable s)\<rparr>"
  have "in_proc p ?t" using assms in_proc_woken [of p s ch] by (simp add: cst_def io_ok_def)
  moreover have "refs ?t = refs s" "blk_locked ?t = blk_locked s" "bcache_ok ?t = bcache_ok s" by (rule cache_cong; simp)+
  ultimately show ?thesis using assms by (simp add: cst_def io_ok_def)
qed

lemma wakeup_log:
  assumes "in_proc p s"
  shows "wakeup ChanLog (s\<lparr>held := [LogLock]\<rparr>) = Inr (s\<lparr>held := [LogLock], ptable := woken ChanLog p (ptable s)\<rparr>)"
proof -
  let ?s = "s\<lparr>held := [LogLock]\<rparr>"
  have "no_plock ?s" "length (ptable ?s) = NPROC" using assms by (simp_all add: in_proc_def no_plock_def)
  from wakeup_eq [OF this, of ChanLog] assms show ?thesis by (simp add: in_proc_def woken_def)
qed

lemma end_op_last:
  assumes "tx p s {}" "l_outstanding s = 1" "\<not> l_committing s"
  shows "returns (end_op s) (\<lambda>t. log_ok p t \<and> lh_n t = 0 \<and> l_outstanding t = 0 \<and> \<not> l_committing t \<and> l_size t = l_size s \<and>
    (\<forall>m. m \<notin> log_area s \<longrightarrow> disk_block (platter t) m = blk s m \<and> blk t m = blk s m) \<and>
    (\<forall>q < NPROC. q \<noteq> p \<longrightarrow> \<not> (p_state (pr t q) = SLEEPING \<and> p_chan (pr t q) = Some ChanLog)))"
proof -
  define s' where "s' = s\<lparr>l_outstanding := 0, l_committing := True\<rparr>"
  have e: "log_area s' = log_area s" "blk s' = blk s" by (simp_all add: s'_def log_area_def)
  have "log_ok p s'" using assms(1) by (simp add: tx_def log_ok_def s'_def log_shape_def logged_def log_area_def)
  from commit_durable [OF this] obtain u where u: "commit s' = Inr u" "log_ok p u" "lh_n u = 0" "cframe p (s'\<lparr>lh_n := 0\<rparr>) u"
    "\<forall>m. m \<notin> log_area s \<longrightarrow> disk_block (platter u) m = blk s m \<and> blk u m = blk s m" by (auto simp: returns_iff e)
  have hd: "held s = []" "in_proc p u" "held u = []" using assms(1) u(2) by (simp_all add: tx_def log_ok_def cst_def io_ok_def in_proc_def)
  define t where "t = u\<lparr>l_committing := False, ptable := woken ChanLog p (ptable u)\<rparr>"
  have iu: "in_proc p (u\<lparr>l_committing := False\<rparr>)" using hd(2) by (simp add: in_proc_def pr_def)
  have r: "s\<lparr>l_outstanding := 0, l_committing := True, held := []\<rparr> = s'" using hd(1) by (simp add: s'_def)
  have q: "u\<lparr>held := [LogLock], l_committing := False\<rparr> = u\<lparr>l_committing := False, held := [LogLock]\<rparr>"
    "u\<lparr>l_committing := False, held := [LogLock], ptable := woken ChanLog p (ptable (u\<lparr>l_committing := False\<rparr>))\<rparr> = t\<lparr>held := [LogLock]\<rparr>"
    by (simp_all add: t_def)
  have w: "wakeup ChanLog (u\<lparr>held := [LogLock], l_committing := False\<rparr>) = Inr (t\<lparr>held := [LogLock]\<rparr>)"
    using wakeup_log [OF iu] unfolding q .
  have "release LogLock (t\<lparr>held := [LogLock]\<rparr>) = Inr t" using hd(3) by (simp add: lock_simps t_def)
  then have "end_op s = Inr t"
    using assms(2,3) hd u(1) w by (simp add: end_op_def lock_simps r)
  moreover have "cst p t {} {}"
    using cst_woken [of p "u\<lparr>l_committing := False\<rparr>" "{}" "{}" ChanLog] u(2,3) by (simp add: t_def log_ok_def logged_def)
  then have "log_ok p t" using u(2,3) by (simp add: log_ok_def log_shape_def logged_def log_area_def t_def)
  moreover have "blk t = blk u" by (rule cache_cong) (simp_all add: t_def)
  moreover have "l_outstanding t = 0" "l_size t = l_size s" using cframe_log(2,3) [OF u(4)] by (simp_all add: t_def s'_def)
  moreover have "\<not> (p_state (pr t q) = SLEEPING \<and> p_chan (pr t q) = Some ChanLog)" if "q < NPROC" "q \<noteq> p" for q
    using that by (auto simp: t_def pr_def woken_def wake_entry_def)
  ultimately show ?thesis using u(3,5) by (simp add: t_def)
qed

text \<open>
  C2: the end of the last running operation makes its transaction durable. \<^verbatim>\<open>end_op\<close> returns, and every
  block outside the log has on the disk the contents the operations left in the cache; the log is
  empty again, in memory and on the disk, and nobody waits for it any more.
\<close>

theorem end_op_durable:
  assumes "tx p s {}" "l_outstanding s = 1" "\<not> l_committing s"
  shows "returns (end_op s) (\<lambda>t. log_ok p t \<and> lh_n t = 0 \<and> l_outstanding t = 0 \<and> \<not> l_committing t \<and>
    (\<forall>m. m \<notin> log_area s \<longrightarrow> disk_block (platter t) m = blk s m \<and> blk t m = blk s m) \<and>
    (\<forall>q < NPROC. q \<noteq> p \<longrightarrow> \<not> (p_state (pr t q) = SLEEPING \<and> p_chan (pr t q) = Some ChanLog)))"
  using end_op_last [OF assms] by (rule returns_mono) blast

subsection \<open>A machine with a transaction under way\<close>

definition demo_log :: "platter \<Rightarrow> logst" where
  "demo_log pl = storage.extend (demo_boot pl) (logst.fields 2 30 1 False ROOTDEV 0 (replicate LOGSIZE 0))"

lemma demo_log_simps:
  "bufs (demo_log pl) = replicate (Suc NBUF) demo_buf" "platter (demo_log pl) = pl" "held (demo_log pl) = []" "curproc (demo_log pl) = Some 2"
  "ptable (demo_log pl) = replicate NPROC (demo_proc RUNNING None)" "vd (demo_log pl) = vd (demo_boot pl)" "vdev (demo_log pl) = vdev (demo_boot pl)"
  "l_start (demo_log pl) = 2" "l_size (demo_log pl) = 30" "l_outstanding (demo_log pl) = 1" "\<not> l_committing (demo_log pl)" "l_dev (demo_log pl) = ROOTDEV"
  "lh_n (demo_log pl) = 0" "lh_block (demo_log pl) = replicate LOGSIZE 0"
  by (simp_all add: demo_log_def storage.extend_def logst.fields_def demo_boot_def)

lemma getn_zero: "getn k off (replicate n 0) = 0"
proof -
  have "le_num (replicate m 0) = 0" for m by (induction m) (simp_all add: le_num_def)
  then show ?thesis by (simp add: getn_def get_at_def)
qed

lemma demo_log_zero: "\<forall>i < NBUF. zero_buf (bf (demo_log pl) i)"
  by (simp add: bf_def demo_log_simps zero_buf_def demo_buf_def del: replicate_Suc)

lemma demo_log_cst: "cst 2 (binit (demo_log [])) {} {}"
proof (rule binit_cst)
  show "length (bufs (demo_log [])) = Suc NBUF" by (simp add: demo_log_simps)
  show "\<forall>i < NBUF. zero_buf (bf (demo_log []) i)" by (rule demo_log_zero)
  show "in_proc 2 (demo_log [])" by (simp add: in_proc_def pr_def demo_log_simps demo_proc_def)
  show "vd_idle (vd (demo_log []))" "device_ok (vdev (demo_log []))" by (simp_all add: demo_log_simps demo_boot_def)
qed (simp add: demo_log_simps)

lemma demo_log_tx: "\<exists>s :: logst. tx 2 s {} \<and> ptable s = replicate NPROC (demo_proc RUNNING None) \<and> logged s = [] \<and> l_outstanding s = 1 \<and> \<not> l_committing s \<and> l_start s = 2 \<and> l_size s = 30"
proof -
  define s where "s = binit (demo_log [])"
  have "length (bufs (demo_log [])) = Suc NBUF" by (simp add: demo_log_simps)
  from binit_spec [OF this demo_log_zero] obtain bs sl where s: "s = (demo_log [])\<lparr>bufs := bs, slk := sl\<rparr>" unfolding s_def by blast
  have f: "ptable s = replicate NPROC (demo_proc RUNNING None)" "platter s = []" "l_start s = 2" "l_size s = 30" "l_outstanding s = 1" "\<not> l_committing s" "l_dev s = ROOTDEV" "lh_n s = 0" "lh_block s = replicate LOGSIZE 0"
    by (simp_all add: s demo_log_simps)
  then have lg: "logged s = []" by (simp add: logged_def)
  have "hdr_n (disk_block [] 2) = 0" by (simp add: hdr_n_def disk_block_def getn_zero)
  then have "tx 2 s {}" using demo_log_cst f lg by (simp add: tx_def log_shape_def s_def [symmetric])
  then show ?thesis using f lg by blast
qed

lemma demo_logged:
  "\<exists>s :: logst. tx 2 s {} \<and> set (logged s) = {40} \<and> blk s 40 = replicate BSIZE 9 \<and> l_outstanding s = 1 \<and> \<not> l_committing s \<and> log_area s = {2..<32} \<and> log_ok 2 s \<and> 0 < lh_n s"
proof -
  obtain s :: logst where s: "tx 2 s {}" "logged s = []" "l_outstanding s = 1" "\<not> l_committing s" "l_start s = 2" "l_size s = 30" using demo_log_tx by blast
  have lg: "loggable s 40" and rm: "room s 1" using s by (simp_all add: loggable_def room_def log_area_def)
  obtain b t u v where "bread ROOTDEV 40 s = Inr (b, t)" "holds 2 t b 40" "tx 2 t (insert 40 {})" "b_data (bf t b) = blk s 40" "blk t = blk s"
    "set (logged t) = set (logged s)" "lframe 2 s t" "log_write b (put_data b (replicate BSIZE 9) t) = Inr u" "brelse b u = Inr v"
    and v: "tx 2 v {}" "blk v = (blk s)(40 := replicate BSIZE 9)" "set (logged v) = insert 40 (set (logged s))" "lframe 2 s v"
    by (rule bt.modify [OF s(1) _ lg _ rm, of "replicate BSIZE 9"]) (use s(2) in simp_all)
  note e = lframe_fields [OF v(4)]
  have n: "0 < lh_n v" using v(1,3) length_logged [of v] by (cases "lh_n v = 0") (auto simp: tx_def log_shape_def logged_def)
  have "log_ok 2 v" using v(1) by (simp add: tx_def log_ok_def)
  moreover have "log_area v = {2..<32}" using s e by (simp add: log_area_def)
  ultimately show ?thesis using v s(2-4) e n by (intro exI [of _ v]) simp
qed

theorem end_op_durable_witness:
  "\<exists>s :: logst. returns (end_op s) (\<lambda>t. disk_block (platter t) 40 = replicate BSIZE 9 \<and> lh_n t = 0)"
proof -
  obtain s :: logst where s: "tx 2 s {}" "l_outstanding s = 1" "\<not> l_committing s" "blk s 40 = replicate BSIZE 9" "log_area s = {2..<32}" using demo_logged by blast
  from end_op_durable [OF s(1-3)] have "returns (end_op s) (\<lambda>t. disk_block (platter t) 40 = replicate BSIZE 9 \<and> lh_n t = 0)"
    by (rule returns_mono) (use s(4,5) in simp)
  then show ?thesis by blast
qed

subsection \<open>Crashes\<close>

text \<open>
  C1: a commit is atomic. Whatever the commit of a transaction has written to the disk when the machine
  stops, recovery at the next start returns, and outside the log area it leaves either every
  block as it was before the transaction or every block with the transaction's contents. It is the
  latter exactly from the write of the header block on.
\<close>

theorem commit_crash_safe:
  fixes s :: "'a logst_scheme"
  assumes "log_ok p s" "0 < lh_n s"
  shows "returns (commit s) (\<lambda>t. \<exists>ws. platter t = platter s @ ws \<and>
    (\<forall>k q (r :: 'a logst_scheme). restarted q r \<and> l_start r = l_start s \<and> l_size r = l_size s \<and> platter r = platter s @ take k ws \<longrightarrow>
      returns (recover_from_log r) (\<lambda>u. \<forall>m. m \<notin> log_area s \<longrightarrow>
        disk_block (platter u) m = (if k \<le> nat (lh_n s) then disk_block (platter s) m else blk s m))))"
proof -
  have "returns (recover_from_log r) (\<lambda>u. \<forall>m. m \<notin> log_area s \<longrightarrow>
        disk_block (platter u) m = (if k \<le> nat (lh_n s) then disk_block (platter s) m else blk s m))"
    if r: "restarted q r" "l_start r = l_start s" "l_size r = l_size s" "platter r = platter s @ take k (commit_writes s)" for k q and r :: "'a logst_scheme"
  proof -
    note cp = commit_prefix [OF assms(1) refl, of k]
    have ar: "log_area r = log_area s" using r by (simp add: log_area_def)
    have "header_ok r (disk_block (platter r) (l_start r))" using cp r ar by (simp add: header_ok_def)
    from recover_spec [OF r(1) this] show ?thesis
    proof (rule returns_mono)
      fix u assume "cst q u {} {} \<and> lh_n u = 0 \<and> (\<exists>d. hdr_n d = 0 \<and>
        platter u = platter r @ recovery_writes (l_start r) (disk_block (platter r)) @ [(l_start r, d)])"
      then obtain d where u: "platter u = (platter s @ take k (commit_writes s)) @ recovery_writes (l_start s) (disk_block (platter s @ take k (commit_writes s))) @ [(l_start s, d)]"
        using r by auto
      have "l_start s \<in> log_area s" using assms by (simp add: log_ok_def log_shape_def log_area_def)
      then show "\<forall>m. m \<notin> log_area s \<longrightarrow> disk_block (platter u) m = (if k \<le> nat (lh_n s) then disk_block (platter s) m else blk s m)"
        using cp unfolding u disk_block_writes [of "platter s @ take k (commit_writes s)"] apply_writes_simps by auto
    qed
  qed
  with commit_spec [OF assms] show ?thesis by (elim returns_mono) blast
qed

theorem commit_crash_safe_witness:
  "\<exists>s :: logst. blk s 40 = replicate BSIZE 9 \<and> returns (commit s) (\<lambda>t. \<exists>ws. platter t = platter s @ ws \<and>
    (\<forall>k q (r :: logst). restarted q r \<and> l_start r = l_start s \<and> l_size r = l_size s \<and> platter r = platter s @ take k ws \<longrightarrow>
      returns (recover_from_log r) (\<lambda>u. \<forall>m. m \<notin> log_area s \<longrightarrow>
        disk_block (platter u) m = (if k \<le> nat (lh_n s) then disk_block (platter s) m else blk s m))))"
proof -
  obtain s :: logst where "log_ok 2 s" "0 < lh_n s" "blk s 40 = replicate BSIZE 9" using demo_logged by blast
  with commit_crash_safe [of 2 s] show ?thesis by blast
qed

subsection \<open>Log space\<close>

text \<open>
  \<^verbatim>\<open>begin_op\<close> lets an operation in exactly when no commit is running and the log can take the blocks
  logged so far and \<^verbatim>\<open>MAXOPBLOCKS\<close> for every operation, the new one included; otherwise the
  caller sleeps.
\<close>

lemma begin_op_reserves:
  assumes "in_proc p s"
  shows "begin_op s = (if \<not> l_committing s \<and> lh_n s + (l_outstanding s + 1) * int MAXOPBLOCKS \<le> int LOGSIZE
    then Inr (s\<lparr>l_outstanding := l_outstanding s + 1\<rparr>) else Inl (Sleeping ChanLog))"
proof -
  have hd: "held s = []" using assms by (simp add: in_proc_def)
  have sl: "sleep ChanLog LogLock (s\<lparr>held := [LogLock]\<rparr>) = Inl (Sleeping ChanLog)"
    using assms by (simp add: sleep_def sleep_enter_def sched_def myproc_def lock_simps holding_def pr_upd_proc in_proc_def Let_def)
  have "s\<lparr>l_outstanding := l_outstanding s + 1, held := []\<rparr> = s\<lparr>l_outstanding := l_outstanding s + 1\<rparr>" using hd by simp
  then show ?thesis using hd sl by (auto simp: begin_op_def lock_simps)
qed

text \<open>
  The states a log of \<^verbatim>\<open>LOGSIZE\<close> blocks can reach, with the number of blocks each running operation
  may still log: an operation gets \<^verbatim>\<open>MAXOPBLOCKS\<close> of them when \<^verbatim>\<open>begin_op\<close> lets it in, and
  spends one with each \<^verbatim>\<open>log_write\<close>. Between these calls anything may happen that leaves the
  counters of the log alone.
\<close>

inductive log_ops :: "nat list \<Rightarrow> 'a logst_scheme \<Rightarrow> bool" where
  start: "lh_n s = 0 \<Longrightarrow> l_outstanding s = 0 \<Longrightarrow> l_size s = LOGSIZE \<Longrightarrow> log_ops [] s"
| admit: "log_ops cs s \<Longrightarrow> in_proc p s \<Longrightarrow> begin_op s = Inr t \<Longrightarrow> log_ops (MAXOPBLOCKS # cs) t"
| logs: "log_ops (cs @ Suc c # ds) s \<Longrightarrow> log_write b s = Inr t \<Longrightarrow> log_ops (cs @ c # ds) t"
| finish: "log_ops (cs @ c # ds) s \<Longrightarrow> in_proc p s \<Longrightarrow> cs @ ds \<noteq> [] \<Longrightarrow> end_op s = Inr t \<Longrightarrow> log_ops (cs @ ds) t"
| commits: "log_ops [c] s \<Longrightarrow> tx p s {} \<Longrightarrow> end_op s = Inr t \<Longrightarrow> log_ops [] t"
| other: "log_ops cs s \<Longrightarrow> lh_n t = lh_n s \<Longrightarrow> l_outstanding t = l_outstanding s \<Longrightarrow> l_size t = l_size s \<Longrightarrow> log_ops cs t"

lemma log_write_step:
  assumes "log_write b s = Inr t"
  shows "lh_n s \<le> lh_n t \<and> lh_n t \<le> lh_n s + 1 \<and> l_outstanding t = l_outstanding s \<and> l_size t = l_size s"
  using assms
  by (auto simp: log_write_def bpin_def andthen_eq_Inr acquire_def release_def upd_buf_def Let_def split: if_splits)

lemma end_op_step:
  assumes "in_proc p s" "l_outstanding s \<noteq> 1" "end_op s = Inr t"
  shows "lh_n t = lh_n s \<and> l_outstanding t = l_outstanding s - 1 \<and> l_size t = l_size s"
proof -
  let ?s = "s\<lparr>l_outstanding := l_outstanding s - 1\<rparr>"
  have i: "in_proc p ?s" "held s = []" using assms(1) by (simp_all add: in_proc_def pr_def)
  have e: "s\<lparr>held := [LogLock], l_outstanding := l_outstanding s - 1\<rparr> = ?s\<lparr>held := [LogLock]\<rparr>" by simp
  show ?thesis
    using assms(2,3) i(2) wakeup_log [OF i(1)] by (auto simp: end_op_def lock_simps e Let_def split: if_splits)
qed

lemma credits_bound: "\<forall>c \<in> set cs. c \<le> m \<Longrightarrow> sum_list cs \<le> length cs * m" for m :: nat
  by (induction cs) auto

lemma log_ops_inv:
  "log_ops cs s \<Longrightarrow> 0 \<le> lh_n s \<and> l_outstanding s = int (length cs) \<and> l_size s = LOGSIZE \<and>
     lh_n s + int (sum_list cs) \<le> int LOGSIZE \<and> (\<forall>c \<in> set cs. c \<le> MAXOPBLOCKS)"
proof (induction rule: log_ops.induct)
  case (admit cs s p t)
  then have t: "t = s\<lparr>l_outstanding := l_outstanding s + 1\<rparr>" "lh_n s + (l_outstanding s + 1) * int MAXOPBLOCKS \<le> int LOGSIZE"
    by (auto simp: begin_op_reserves split: if_splits)
  have "int (sum_list cs) \<le> int (length cs) * int MAXOPBLOCKS"
    using credits_bound [of cs MAXOPBLOCKS] admit.IH by (metis of_nat_le_iff of_nat_mult)
  then show ?case using admit.IH t by (simp add: algebra_simps)
next
  case (logs cs c ds s b t)
  then show ?case using log_write_step [OF logs.hyps(2)] by auto
next
  case (finish cs c ds s p t)
  then have "l_outstanding s \<noteq> 1" by (cases cs; cases ds) auto
  then show ?case using end_op_step [OF finish.hyps(2) _ finish.hyps(4)] finish.IH by auto
next
  case (commits c s p t)
  have "\<not> l_committing s"
    using commits.hyps(3) by (auto simp: end_op_def andthen_eq_Inr acquire_def Let_def split: if_splits)
  then show ?case using end_op_last [OF commits.hyps(2)] commits.IH commits.hyps(3) by (auto simp: returns_iff)
qed auto

text \<open>
  C24: the reservation of log space works up to its last block. Whatever operations begin, log blocks and
  end on a log of \<^verbatim>\<open>LOGSIZE\<close> blocks, as long as each logs at most \<^verbatim>\<open>MAXOPBLOCKS\<close> blocks, the
  blocks logged and the blocks still reserved fit in \<^verbatim>\<open>LOGSIZE\<close>, and a \<^verbatim>\<open>log_write\<close> returns
  whenever two of the reserved blocks or more are unused.
\<close>

theorem log_write_reserved:
  assumes "log_ops cs s" "2 \<le> sum_list cs" "held s = []"
  shows "returns (log_write b s) (\<lambda>t. lh_n s \<le> lh_n t \<and> lh_n t \<le> lh_n s + 1 \<and> l_outstanding t = l_outstanding s) \<and>
    l_outstanding s = int (length cs) \<and> lh_n s + int (sum_list cs) \<le> int LOGSIZE"
proof -
  note inv = log_ops_inv [OF assms(1)]
  have "cs \<noteq> []" using assms(2) by auto
  then have "1 \<le> l_outstanding s" "\<not> (int LOGSIZE \<le> lh_n s \<or> int (l_size s) - 1 \<le> lh_n s)"
    using inv assms(2) by (auto simp: Suc_le_eq)
  then have "\<exists>t. log_write b s = Inr t"
    using assms(3) by (auto simp: log_write_def bpin_def lock_simps upd_buf_def Let_def)
  then show ?thesis using log_write_step [of b s] inv by (auto simp: returns_iff)
qed

theorem log_write_reserved_witness:
  "returns (log_write 0 ((demo_log [])\<lparr>l_outstanding := 1\<rparr>)) (\<lambda>t. lh_n t \<le> 1 \<and> l_outstanding t = 1)"
proof -
  let ?s = "(demo_log [])\<lparr>l_outstanding := 0\<rparr>" and ?t = "(demo_log [])\<lparr>l_outstanding := 1\<rparr>"
  have i: "in_proc 2 ?s" by (simp add: in_proc_def pr_def demo_log_simps demo_proc_def)
  have "log_ops [] ?s" by (rule log_ops.start) (simp_all add: demo_log_simps)
  moreover have "begin_op ?s = Inr ?t" using begin_op_reserves [OF i] by (simp add: demo_log_simps)
  ultimately have "log_ops [MAXOPBLOCKS] ?t" using i by (blast intro: log_ops.admit)
  from log_write_reserved [OF this, of 0] show ?thesis by (auto simp: demo_log_simps returns_iff)
qed

text \<open>Another process gets a hart, as the scheduler hands it one, and writes a block through the log.\<close>

definition on_proc :: "nat \<Rightarrow> 'a procs_scheme \<Rightarrow> 'a procs_scheme" where
  "on_proc q s = (upd_proc q (\<lambda>e. e\<lparr>p_state := RUNNING\<rparr>) s)\<lparr>curproc := Some q\<rparr>"

definition log_update :: "nat \<Rightarrow> nat \<Rightarrow> block \<Rightarrow> 'a logst_scheme \<Rightarrow> exn + 'a logst_scheme" where
  "log_update q n d s =
     andthen (bread ROOTDEV n (on_proc q s)) (\<lambda>(b, s).
     andthen (log_write b (put_data b d s)) (\<lambda>s. brelse b s))"

lemma on_proc_fields [simp]:
  "logged (on_proc q s) = logged s" "lh_n (on_proc q s) = lh_n s" "l_size (on_proc q s) = l_size s" "log_area (on_proc q s) = log_area s"
  "l_outstanding (on_proc q s) = l_outstanding s" "l_committing (on_proc q s) = l_committing s" "log_shape (on_proc q s) = log_shape s"
  "l_start (on_proc q s) = l_start s" "loggable (on_proc q s) = loggable s" "room (on_proc q s) k = room s k"
  by (simp_all add: on_proc_def upd_proc_def logged_def log_area_def log_shape_def loggable_def room_def fun_eq_iff)

lemma on_proc_storage [simp]:
  "platter (on_proc q s) = platter s" "vd (on_proc q s) = vd s" "vdev (on_proc q s) = vdev s" "bufs (on_proc q s) = bufs s" "slk (on_proc q s) = slk s"
  by (simp_all add: on_proc_def upd_proc_def)

lemma on_proc_chan [simp]: "p_chan (pr (on_proc q s) i) = p_chan (pr s i)"
  by (cases "q < length (ptable s)") (auto simp: on_proc_def upd_proc_def pr_def nth_list_update list_update_beyond)

lemma on_proc_in_proc: "in_proc p s \<Longrightarrow> q < NPROC \<Longrightarrow> p_chan (pr s q) = None \<Longrightarrow> in_proc q (on_proc q s)"
  by (simp add: in_proc_def on_proc_def upd_proc_def pr_def)

lemma on_proc_cst:
  assumes "cst p s L {}" "q < NPROC" "p_chan (pr s q) = None"
  shows "cst q (on_proc q s) L {}"
  using assms on_proc_in_proc [of p s q] cache_cong [of "on_proc q s" s] by (simp add: cst_def io_ok_def)

lemma lframe_chan: "lframe p s t \<Longrightarrow> r < length (ptable s) \<Longrightarrow> p_chan (pr t r) = p_chan (pr s r)"
  by (auto simp: lframe_def cframe_def tb_le_def pr_def)

lemma tx_procs: "tx p s H \<Longrightarrow> length (ptable s) = NPROC"
  by (simp add: tx_def cst_def io_ok_def in_proc_def)

lemma tx_lh_n: "tx p s H \<Longrightarrow> lh_n s = int (card (set (logged s)))"
  using length_logged [of s] distinct_card [of "logged s"] by (auto simp: tx_def log_shape_def)

lemma log_update_spec:
  assumes t: "tx p s {}" and q: "q < NPROC" "p_chan (pr s q) = None" and n: "loggable s n" "room s 1" and d: "length d = BSIZE"
  shows "returns (log_update q n d s) (\<lambda>t. tx q t {} \<and> set (logged t) = insert n (set (logged s)) \<and> l_size t = l_size s \<and>
     loggable t = loggable s \<and> (\<forall>r < NPROC. p_chan (pr t r) = p_chan (pr s r)))"
proof -
  let ?s = "on_proc q s"
  have tq: "tx q ?s {}" using t on_proc_cst [OF _ q, of p] by (simp add: tx_def)
  have "l_size s \<le> LOGSIZE" using t by (simp add: tx_def log_shape_def)
  then have "card (set (logged ?s) \<union> {}) < NBUF" using n(2) by (simp add: room_def)
  then obtain b t u v where w: "bread ROOTDEV n ?s = Inr (b, t)" "log_write b (put_data b d t) = Inr u" "brelse b u = Inr v"
    and v: "tx q v {}" "set (logged v) = insert n (set (logged ?s))" "lframe q ?s v"
    by (rule bt.modify [OF tq _ _ disjI2 _ d, of n, rotated 2]) (use n in simp_all)
  have "p_chan (pr v r) = p_chan (pr s r)" if "r < NPROC" for r
    using lframe_chan [OF v(3), of r] tx_procs [OF tq] that by simp
  then show ?thesis using w v lframe_fields(2,7) [OF v(3)] by (simp add: log_update_def)
qed

lemma log_update_full:
  assumes t: "tx p s {}" and q: "q < NPROC" "p_chan (pr s q) = None" and n: "n < 2 ^ 31" and s: "l_size s = LOGSIZE" "lh_n s = 29"
  shows "log_update q n d s = Inl (Panic ''too big a transaction'')"
proof -
  let ?s = "on_proc q s"
  have tq: "tx q ?s {}" using t on_proc_cst [OF _ q, of p] by (simp add: tx_def)
  have "card (set (logged ?s) \<union> {}) < NBUF" using tx_lh_n [OF t] s(2) by simp
  then obtain b t where b: "bread ROOTDEV n ?s = Inr (b, t)" "tx q t (insert n {})" "set (logged t) = set (logged ?s)" "lframe q ?s t"
    by (rule bt.rdE [OF tq _ n disjI2, rotated]) simp_all
  have "lh_n t = 29" using tx_lh_n [OF t] tx_lh_n [OF b(2)] b(3) s(2) by simp
  moreover have "l_size t = LOGSIZE" using lframe_fields(2) [OF b(4)] s(1) by simp
  moreover have "held t = []" using b(2) by (simp add: tx_def cst_def io_ok_def in_proc_def)
  ultimately have "log_write b (put_data b d t) = Inl (Panic ''too big a transaction'')"
    by (simp add: log_write_def put_data_def upd_buf_def lock_simps)
  then show ?thesis using b(1) by (simp add: log_update_def)
qed

lemma begin_on:
  assumes "cst p s {} {}" "q < NPROC" "p_chan (pr s q) = None" "lh_n s = 0" "l_outstanding s \<le> 2" "\<not> l_committing s"
  shows "returns (begin_op (on_proc q s)) (\<lambda>t. cst q t {} {} \<and> lh_n t = 0 \<and> l_outstanding t = l_outstanding s + 1 \<and>
     \<not> l_committing t \<and> l_size t = l_size s \<and> loggable t = loggable s \<and> log_shape t = log_shape s \<and>
     platter t = platter s \<and> l_start t = l_start s \<and> (\<forall>r. p_chan (pr t r) = p_chan (pr s r)))"
proof -
  define t where "t = (on_proc q s)\<lparr>l_outstanding := l_outstanding s + 1\<rparr>"
  have cq: "cst q (on_proc q s) {} {}" by (rule on_proc_cst [OF assms(1-3)])
  then have "in_proc q (on_proc q s)" by (simp add: cst_def io_ok_def)
  from begin_op_reserves [OF this] assms(4-6) have "begin_op (on_proc q s) = Inr t" by (simp add: t_def)
  moreover have "cst q t {} {}"
    using cq cache_cong [of t "on_proc q s"] by (simp add: t_def cst_def io_ok_def in_proc_def pr_def)
  moreover have "p_chan (pr t r) = p_chan (pr s r)" for r using on_proc_chan [of q s r] by (simp add: t_def pr_def)
  moreover have "loggable t = loggable (on_proc q s)" "log_shape t = log_shape (on_proc q s)"
    by (simp_all add: t_def loggable_def log_area_def log_shape_def logged_def fun_eq_iff)
  ultimately show ?thesis using assms(4,6) by (simp add: t_def)
qed

lemma begin_three:
  fixes s :: "'a logst_scheme"
  assumes ok: "log_ok p s" and z: "lh_n s = 0" "l_outstanding s = 0" "\<not> l_committing s"
    and q: "length qs = 3" "\<forall>q \<in> set qs. q < NPROC \<and> p_chan (pr s q) = None"
  shows "returns (for_each qs (\<lambda>q s. begin_op (on_proc q s)) s) (\<lambda>t. (\<exists>p. tx p t {}) \<and> logged t = [] \<and> l_outstanding t = 3 \<and>
     l_size t = l_size s \<and> loggable t = loggable s \<and> (\<forall>r. p_chan (pr t r) = p_chan (pr s r)))"
proof -
  have c0: "cst p s {} {}" using ok z(1) by (simp add: log_ok_def logged_def)
  define I where "I js t \<longleftrightarrow> (\<exists>p. cst p t {} {}) \<and> lh_n t = 0 \<and> l_outstanding t = int (length js) \<and> \<not> l_committing t \<and>
     l_size t = l_size s \<and> loggable t = loggable s \<and> log_shape t = log_shape s \<and> platter t = platter s \<and> l_start t = l_start s \<and>
     (\<forall>r. p_chan (pr t r) = p_chan (pr s r))" for js :: "nat list" and t :: "'a logst_scheme"
  have "returns (for_each qs (\<lambda>q s. begin_op (on_proc q s)) s) (I qs)"
  proof (rule for_each_returns)
    show "I [] s" using c0 z by (auto simp: I_def)
    fix js q ks u
    assume h: "qs = js @ q # ks" "I js u"
    then obtain p' where u: "cst p' u {} {}" by (auto simp: I_def)
    have "length js \<le> 2" using h(1) q(1) by simp
    then have "returns (begin_op (on_proc q u)) (\<lambda>t. cst q t {} {} \<and> lh_n t = 0 \<and> l_outstanding t = l_outstanding u + 1 \<and>
       \<not> l_committing t \<and> l_size t = l_size u \<and> loggable t = loggable u \<and> log_shape t = log_shape u \<and>
       platter t = platter u \<and> l_start t = l_start u \<and> (\<forall>r. p_chan (pr t r) = p_chan (pr u r)))"
      using h q(2) by (intro begin_on [OF u]) (auto simp: I_def)
    then show "returns (begin_op (on_proc q u)) (I (js @ [q]))"
      by (rule returns_mono) (use h(2) in \<open>auto simp: I_def\<close>)
  qed
  then show ?thesis
  proof (rule returns_mono)
    fix t assume t: "I qs t"
    have "logged t = []" using t by (simp add: I_def logged_def)
    then have "(\<exists>p. tx p t {})" using t ok q(1) unfolding tx_def I_def log_ok_def by auto
    then show "(\<exists>p. tx p t {}) \<and> logged t = [] \<and> l_outstanding t = 3 \<and>
     l_size t = l_size s \<and> loggable t = loggable s \<and> (\<forall>r. p_chan (pr t r) = p_chan (pr s r))"
      using t q(1) \<open>logged t = []\<close> by (simp add: I_def)
  qed
qed

lemma log_updates:
  fixes s :: "'a logst_scheme"
  assumes t: "tx p s {}" "logged s = []" "l_size s = LOGSIZE"
    and q: "length qs = 3" "\<forall>q \<in> set qs. q < NPROC \<and> p_chan (pr s q) = None"
    and n: "length ns = 30" "distinct ns" "\<forall>n \<in> set ns. loggable s n" "length d = BSIZE"
  shows "returns (for_each [0..<29] (\<lambda>i. log_update (qs ! (i div 10)) (ns ! i) d) s)
     (\<lambda>u. (\<exists>p. tx p u {}) \<and> lh_n u = 29 \<and> l_size u = LOGSIZE \<and> p_chan (pr u (qs ! 2)) = None)"
proof -
  define I where "I js u \<longleftrightarrow> (\<exists>p. tx p u {}) \<and> set (logged u) = (!) ns ` set js \<and> l_size u = LOGSIZE \<and> loggable u = loggable s \<and>
    (\<forall>q \<in> set qs. p_chan (pr u q) = None)" for js :: "nat list" and u :: "'a logst_scheme"
  have "returns (for_each [0..<29] (\<lambda>i. log_update (qs ! (i div 10)) (ns ! i) d) s) (I [0..<29])"
  proof (rule for_each_returns)
    show "I [] s" using t q by (auto simp: I_def)
    fix js i ks u
    assume h: "[0..<29] = js @ i # ks" "I js u"
    have "js = [0..<i]" "i < 29" using upt_split [OF h(1)] by blast+
    then have c: "card (set (logged u)) \<le> i" using h(2) card_image_le [of "set js" "(!) ns"] by (simp add: I_def)
    obtain p' where p': "tx p' u {}" using h(2) by (auto simp: I_def)
    have j: "qs ! (i div 10) \<in> set qs" using \<open>i < 29\<close> q(1) by (intro nth_mem) simp
    have "returns (log_update (qs ! (i div 10)) (ns ! i) d u) (\<lambda>t. tx (qs ! (i div 10)) t {} \<and>
       set (logged t) = insert (ns ! i) (set (logged u)) \<and> l_size t = l_size u \<and>
       loggable t = loggable u \<and> (\<forall>r < NPROC. p_chan (pr t r) = p_chan (pr u r)))"
      using h(2) j q n c \<open>i < 29\<close> by (intro log_update_spec [OF p']) (auto simp: I_def room_def)
    then show "returns (log_update (qs ! (i div 10)) (ns ! i) d u) (I (js @ [i]))"
      by (rule returns_mono) (use h(2) q(2) in \<open>auto simp: I_def\<close>)
  qed
  then show ?thesis
  proof (rule returns_mono)
    fix u assume u: "I [0..<29] u"
    then obtain p' where p': "tx p' u {}" by (auto simp: I_def)
    have "card ((!) ns ` {0..<29}) = 29"
      using n(1,2) by (subst card_image) (auto simp: inj_on_def nth_eq_iff_index_eq)
    then have "lh_n u = 29" using tx_lh_n [OF p'] u by (simp add: I_def del: upt_rec_numeral)
    moreover have "qs ! 2 \<in> set qs" using q(1) by simp
    ultimately show "(\<exists>p. tx p u {}) \<and> lh_n u = 29 \<and> l_size u = LOGSIZE \<and> p_chan (pr u (qs ! 2)) = None"
      using u by (simp add: I_def)
  qed
qed

text \<open>
  C25: the reservation is one block short. The log that \<^verbatim>\<open>mkfs\<close> lays out has \<^verbatim>\<open>LOGSIZE\<close> blocks with
  its header, so it holds \<^verbatim>\<open>LOGSIZE - 1\<close> data blocks, but \<^verbatim>\<open>begin_op\<close> counts on
  \<^verbatim>\<open>LOGSIZE\<close>. On an empty log the operations of three processes are let in. The first two write ten
  distinct blocks each through the log and the third nine, and all that returns. When the third
  process writes its tenth block, which is within \<^verbatim>\<open>MAXOPBLOCKS\<close>, \<^verbatim>\<open>log_write\<close> panics.
\<close>

theorem log_reservation_short:
  assumes "log_ok p s" "lh_n s = 0" "l_outstanding s = 0" "\<not> l_committing s" "l_size s = LOGSIZE"
    "length qs = 3" "\<forall>q \<in> set qs. q < NPROC \<and> p_chan (pr s q) = None"
    "length ns = 3 * MAXOPBLOCKS" "distinct ns" "\<forall>n \<in> set ns. loggable s n" "length d = BSIZE"
  shows "returns (for_each qs (\<lambda>q s. begin_op (on_proc q s)) s) (\<lambda>t.
    returns (for_each [0..<29] (\<lambda>i. log_update (qs ! (i div MAXOPBLOCKS)) (ns ! i) d) t) (\<lambda>u.
      l_outstanding t = 3 \<and> lh_n u = 29 \<and> log_update (qs ! 2) (ns ! 29) d u = Inl (Panic ''too big a transaction'')))"
  using begin_three [OF assms(1-4,6,7)]
proof (rule returns_mono)
  fix t
  assume t: "(\<exists>p. tx p t {}) \<and> logged t = [] \<and> l_outstanding t = 3 \<and>
     l_size t = l_size s \<and> loggable t = loggable s \<and> (\<forall>r. p_chan (pr t r) = p_chan (pr s r))"
  then obtain p' where p': "tx p' t {}" by blast
  have "ns ! 29 \<in> set ns" "qs ! 2 \<in> set qs" using assms(6,8) by simp_all
  then have m: "ns ! 29 < 2 ^ 31" "qs ! 2 < NPROC" using assms(7,10) by (auto simp: loggable_def)
  have "returns (for_each [0..<29] (\<lambda>i. log_update (qs ! (i div 10)) (ns ! i) d) t)
     (\<lambda>u. (\<exists>p. tx p u {}) \<and> lh_n u = 29 \<and> l_size u = LOGSIZE \<and> p_chan (pr u (qs ! 2)) = None)"
    using t assms(5-) by (intro log_updates [OF p']) auto
  then show "returns (for_each [0..<29] (\<lambda>i. log_update (qs ! (i div MAXOPBLOCKS)) (ns ! i) d) t) (\<lambda>u.
      l_outstanding t = 3 \<and> lh_n u = 29 \<and> log_update (qs ! 2) (ns ! 29) d u = Inl (Panic ''too big a transaction''))"
    using t m log_update_full [where d = d] by (auto simp del: upt_rec_numeral elim!: returns_mono)
qed

theorem log_reservation_short_witness:
  "\<exists>s :: logst. lh_n s = 0 \<and> returns (for_each [3, 4, 5] (\<lambda>q s. begin_op (on_proc q s)) s) (\<lambda>t.
    returns (for_each [0..<29] (\<lambda>i. log_update ([3, 4, 5] ! (i div MAXOPBLOCKS)) ([40..<70] ! i) (replicate BSIZE 9)) t) (\<lambda>u.
      log_update 5 69 (replicate BSIZE 9) u = Inl (Panic ''too big a transaction'')))"
proof -
  obtain s :: logst where s: "tx 2 s {}" "logged s = []" "\<not> l_committing s" "l_start s = 2" "l_size s = 30"
    "ptable s = replicate NPROC (demo_proc RUNNING None)" using demo_log_tx by blast
  define u where "u = s\<lparr>l_outstanding := 0\<rparr>"
  have "cst 2 u (set (logged u)) {}"
    using s(1) cache_cong [of u s] by (simp add: u_def tx_def cst_def io_ok_def in_proc_def pr_def logged_def)
  then have ok: "log_ok 2 u" using s(1) by (simp add: u_def tx_def log_ok_def log_shape_def logged_def log_area_def)
  have z: "lh_n u = 0" "l_outstanding u = 0" "\<not> l_committing u" "l_size u = LOGSIZE"
    using s tx_lh_n [OF s(1)] by (simp_all add: u_def)
  have q: "\<forall>q \<in> set [3, 4, 5]. q < NPROC \<and> p_chan (pr u q) = None" using s(6) by (simp add: u_def pr_def demo_proc_def)
  have n: "\<forall>n \<in> set [40..<70]. loggable u n" using s(4,5) by (simp add: u_def loggable_def log_area_def)
  have "length [3, 4, 5 :: nat] = 3" "length [40..<70] = 3 * MAXOPBLOCKS" "length (replicate BSIZE (9 :: uchar)) = BSIZE" by simp_all
  from log_reservation_short [OF ok z this(1) q this(2) _ n this(3)] z(1) show ?thesis
    by (intro exI [of _ u]) (simp del: upt_rec_numeral, elim returns_mono, auto simp del: upt_rec_numeral elim!: returns_mono)
qed

end
