(* ===== verification/Ring.thy ===== *)
theory Ring
  imports Xv6_Prelude
begin

section \<open>Ring buffers\<close>

text \<open>
  The kernel has three ring buffers with free-running indices: the UART's transmit buffer, the console's
  input buffer and the pipes. An index is a machine word that wraps around, and position
  \<open>i\<close> is slot \<open>i mod n\<close> of an array whose size divides the range of the word. \<open>ring_q\<close> is
  the queue such a buffer stands for. The locale \<open>bounded_fifo\<close> is what the drivers and the
  pipes promise as queues, with the order of the bytes derived from it.
\<close>

definition ring_q :: "'a list \<Rightarrow> 'w::len word \<Rightarrow> 'w word \<Rightarrow> 'a list" where
  "ring_q buf r w = map (\<lambda>i. buf ! (unat (r + of_nat i) mod length buf)) [0..<unat (w - r)]"

lemma length_ring_q [simp]: "length (ring_q buf r w) = unat (w - r)"
  by (simp add: ring_q_def)

lemma ring_q_empty [simp]: "ring_q buf r r = []"
  by (simp add: ring_q_def)

lemma ring_diff_Suc:
  fixes r w :: "'w::len word"
  assumes "unat (w - r) < 2 ^ LENGTH('w) - 1"
  shows "unat (w + 1 - r) = Suc (unat (w - r))"
proof -
  have "unat ((w - r) + 1) = unat (w - r) + unat (1 :: 'w word)"
    by (rule unat_add_small) (use assms in simp)
  then show ?thesis by (simp add: add_diff_eq diff_add_eq)
qed

text \<open>Two positions less than the size apart have different slots.\<close>

lemma ring_slot_eq:
  fixes r :: "'w::len word"
  assumes n: "n dvd 2 ^ LENGTH('w)" and i: "i < n" "j < n" and e: "unat (r + of_nat i) mod n = unat (r + of_nat j) mod n"
  shows "i = j"
proof -
  have s: "unat (r + of_nat k :: 'w word) mod n = (unat r + k) mod n" for k
  proof -
    have "unat (r + of_nat k :: 'w word) = (unat r + k) mod 2 ^ LENGTH('w)"
      by (simp add: unat_word_ariths unat_of_nat mod_simps)
    then show ?thesis using n by (simp add: mod_mod_cancel)
  qed
  have m: "(unat r + i) mod n = (unat r + j) mod n" using e by (simp add: s)
  have d: "n dvd j - i" if "i \<le> j" "(a + i) mod n = (a + j) mod n" for a i j :: nat
  proof -
    have "n dvd (a + j) - (a + i)"
      by (rule mod_eq_dvd_iff_nat [THEN iffD1]) (use that(1) in simp, rule that(2) [symmetric])
    then show ?thesis by simp
  qed
  show ?thesis
  proof (cases "i \<le> j")
    case True
    from d [OF this m] show ?thesis using i True by (auto dest!: dvd_imp_le)
  next
    case False
    then have "j \<le> i" by simp
    from d [OF this m [symmetric]] show ?thesis using i False by (auto dest!: dvd_imp_le)
  qed
qed

lemma ring_put:
  fixes r w :: "'w::len word"
  assumes n: "length buf dvd 2 ^ LENGTH('w)" and f: "unat (w - r) < length buf" "length buf < 2 ^ LENGTH('w)"
  shows "ring_q (buf[unat w mod length buf := c]) r (w + 1) = ring_q buf r w @ [c]"
proof -
  have w: "w = r + of_nat (unat (w - r))" by simp
  have u: "unat (w + 1 - r) = Suc (unat (w - r))" by (rule ring_diff_Suc) (use f in simp)
  have l: "unat w mod length buf < length buf" by (rule mod_less_divisor) (use f(1) in linarith)
  have "buf[unat w mod length buf := c] ! (unat (r + of_nat i) mod length buf) = buf ! (unat (r + of_nat i) mod length buf)"
    if "i < unat (w - r)" for i
  proof -
    have "unat (r + of_nat i) mod length buf \<noteq> unat w mod length buf"
      using ring_slot_eq [OF n, of i "unat (w - r)" r] that f w by auto
    then show ?thesis by simp
  qed
  moreover have "buf[unat w mod length buf := c] ! (unat (r + of_nat (unat (w - r))) mod length buf) = c"
    unfolding w [symmetric] using l by simp
  ultimately show ?thesis by (simp add: ring_q_def u)
qed

lemma ring_get:
  fixes r w :: "'w::len word"
  assumes "r \<noteq> w"
  shows "ring_q buf r w = buf ! (unat r mod length buf) # ring_q buf (r + 1) w"
proof -
  have "w - r \<noteq> 0" using assms by simp
  then have u: "unat (w - r) = Suc (unat (w - (r + 1)))"
    using unat_minus_one [of "w - r"] unat_gt_0 [of "w - r"] by (simp add: diff_diff_eq)
  show ?thesis
    unfolding ring_q_def u
    by (simp add: upt_conv_Cons map_Suc_upt [symmetric] add.assoc del: upt_Suc)
qed

lemma ring_get_length: "r \<noteq> w \<Longrightarrow> unat (w - (r + 1)) < unat (w - (r :: 'w::len word))"
  using arg_cong [OF ring_get, of r w length "[]"] by simp

lemma ring_q_append:
  fixes r w e :: "'w::len word"
  assumes "unat (w - r) + unat (e - w) = unat (e - r)"
  shows "ring_q buf r e = ring_q buf r w @ ring_q buf w e"
proof -
  have "w = r + of_nat (unat (w - r))" by simp
  then have "r + of_nat (unat (w - r) + i) = w + of_nat i" for i by (metis add.assoc of_nat_add)
  then have "map (\<lambda>i. buf ! (unat (r + of_nat i) mod length buf)) [unat (w - r)..<unat (w - r) + unat (e - w)] = ring_q buf w e"
    unfolding ring_q_def by (intro nth_equalityI) simp_all
  then show ?thesis
    unfolding ring_q_def [of buf r] assms [symmetric] upt_add_eq_append [OF le0] map_append by simp
qed

text \<open>Taking back the last item.\<close>

lemma ring_unput:
  fixes w e :: "'w::len word"
  assumes "e \<noteq> w"
  shows "ring_q buf w e = ring_q buf w (e - 1) @ [buf ! (unat (e - 1) mod length buf)]"
    and "unat (e - w) = Suc (unat (e - 1 - w))"
proof -
  have "e - w \<noteq> 0" using assms by simp
  then show u: "unat (e - w) = Suc (unat (e - 1 - w))"
    using unat_minus_one [of "e - w"] unat_gt_0 [of "e - w"] by (simp add: diff_right_commute)
  have "w + of_nat (unat (e - 1 - w)) = e - 1" by simp
  then show "ring_q buf w e = ring_q buf w (e - 1) @ [buf ! (unat (e - 1) mod length buf)]"
    unfolding ring_q_def u by simp
qed

subsection \<open>The contract of a queue\<close>

text \<open>
  A bounded first-in first-out queue: what it holds, how much it can hold, and the operations, which do
  nothing on a full and on an empty queue. A run of operations delivers what was
  accepted, in order and without loss or duplication.
\<close>

datatype 'a qop = Put 'a | Get

locale bounded_fifo =
  fixes queue :: "'s \<Rightarrow> 'a list" and cap :: nat and ok :: "'s \<Rightarrow> bool"
    and enq :: "'a \<Rightarrow> 's \<Rightarrow> 's" and deq :: "'s \<Rightarrow> 'a option \<times> 's"
  assumes room: "ok s \<Longrightarrow> length (queue s) \<le> cap"
    and enq: "ok s \<Longrightarrow> ok (enq a s) \<and> queue (enq a s) = (if length (queue s) < cap then queue s @ [a] else queue s)"
    and deq: "ok s \<Longrightarrow> ok (snd (deq s)) \<and> (case queue s of
        [] \<Rightarrow> fst (deq s) = None \<and> queue (snd (deq s)) = []
      | a # q \<Rightarrow> fst (deq s) = Some a \<and> queue (snd (deq s)) = q)"
begin

text \<open>The bytes a run accepts and the bytes it delivers.\<close>

fun run :: "'a qop list \<Rightarrow> 's \<Rightarrow> 'a list \<times> 'a list \<times> 's" where
  "run [] s = ([], [], s)"
| "run (Put a # ops) s =
     (let (i, d, t) = run ops (enq a s) in (if length (queue s) < cap then a # i else i, d, t))"
| "run (Get # ops) s =
     (let (i, d, t) = run ops (snd (deq s)) in (i, (case fst (deq s) of None \<Rightarrow> d | Some a \<Rightarrow> a # d), t))"

lemma fifo: "ok s \<Longrightarrow> run ops s = (i, d, t) \<Longrightarrow> ok t \<and> d @ queue t = queue s @ i"
proof (induction ops arbitrary: s i d)
  case (Cons p ops)
  show ?case
  proof (cases p)
    case (Put a)
    obtain i' d' t' where r: "run ops (enq a s) = (i', d', t')" by (cases "run ops (enq a s)")
    with Cons.IH [of "enq a s" i' d'] Cons.prems enq [OF Cons.prems(1), of a] Put show ?thesis
      by (auto split: if_splits)
  next
    case Get
    obtain i' d' t' where r: "run ops (snd (deq s)) = (i', d', t')" by (cases "run ops (snd (deq s))")
    with Cons.IH [of "snd (deq s)" i' d'] Cons.prems deq [OF Cons.prems(1)] Get show ?thesis
      by (auto split: list.splits)
  qed
qed simp

text \<open>A batch of items put in while there is room, and a batch taken out.\<close>

lemma enq_all:
  "ok s \<Longrightarrow> length (queue s) + length as \<le> cap \<Longrightarrow> ok (fold enq as s) \<and> queue (fold enq as s) = queue s @ as"
proof (induction as arbitrary: s)
  case (Cons a as)
  then have "ok (enq a s)" "queue (enq a s) = queue s @ [a]" using enq [OF Cons.prems(1), of a] by simp_all
  then show ?case using Cons.IH [of "enq a s"] Cons.prems(2) by simp
qed simp

lemma deq_Nil: "ok s \<Longrightarrow> queue s = [] \<Longrightarrow> fst (deq s) = None"
  using deq [of s] by simp

lemma deq_Cons: "ok s \<Longrightarrow> queue s = a # q \<Longrightarrow> fst (deq s) = Some a \<and> ok (snd (deq s)) \<and> queue (snd (deq s)) = q"
  using deq [of s] by simp

end

end
