(* ===== verification/Uart.thy ===== *)
theory Uart
  imports Transaction Ring
begin

section \<open>The UART driver and kernel printing\<close>

text \<open>
  \<^verbatim>\<open>kernel/uart.c\<close>, \<^verbatim>\<open>kernel/printf.c\<close> and \<^verbatim>\<open>consputc\<close>. The device is not part of the
  sources: \<open>uart_lsr\<close> lists the values its line status register will show at the reads to come
  (afterwards it shows 0, neither ready for output nor with input), \<open>uart_rhr\<close> the bytes it has received,
  and \<open>uart_out\<close> the register writes of the driver. \<^verbatim>\<open>uartputc_sync\<close> spins until the device can take
  a byte; where that never happens it hangs. \<open>panicked\<close> and \<open>pr_locking\<close> are
  the globals of \<^verbatim>\<open>printf.c\<close>.
\<close>

definition UART_TX_BUF_SIZE :: nat where [simp, code_unfold]: "UART_TX_BUF_SIZE = 32"
definition THR :: nat where [simp, code_unfold]: "THR = 0"
definition IER :: nat where [simp, code_unfold]: "IER = 1"
definition FCR :: nat where [simp, code_unfold]: "FCR = 2"
definition LCR :: nat where [simp, code_unfold]: "LCR = 3"
definition IER_RX_ENABLE :: uchar where [simp, code_unfold]: "IER_RX_ENABLE = 1"
definition IER_TX_ENABLE :: uchar where [simp, code_unfold]: "IER_TX_ENABLE = 2"
definition FCR_FIFO_ENABLE :: uchar where [simp, code_unfold]: "FCR_FIFO_ENABLE = 1"
definition FCR_FIFO_CLEAR :: uchar where [simp, code_unfold]: "FCR_FIFO_CLEAR = 6"
definition LCR_EIGHT_BITS :: uchar where [simp, code_unfold]: "LCR_EIGHT_BITS = 3"
definition LCR_BAUD_LATCH :: uchar where [simp, code_unfold]: "LCR_BAUD_LATCH = 0x80"
definition LSR_RX_READY :: uchar where [simp, code_unfold]: "LSR_RX_READY = 1"
definition LSR_TX_IDLE :: uchar where [simp, code_unfold]: "LSR_TX_IDLE = 0x20"
definition BACKSPACE :: nat where [simp, code_unfold]: "BACKSPACE = 0x100"

record uartst = logst +
  uart_tx_buf :: "uchar list"
  uart_tx_w :: uint64
  uart_tx_r :: uint64
  uart_lsr :: "uchar list"
  uart_rhr :: "uchar list"
  uart_out :: "(nat \<times> uchar) list"
  panicked :: bool
  pr_locking :: bool

definition WriteReg :: "nat \<Rightarrow> uchar \<Rightarrow> 'a uartst_scheme \<Rightarrow> 'a uartst_scheme" where
  "WriteReg r v s = s\<lparr>uart_out := uart_out s @ [(r, v)]\<rparr>"

definition read_lsr :: "'a uartst_scheme \<Rightarrow> uchar \<times> 'a uartst_scheme" where
  "read_lsr s = (case uart_lsr s of [] \<Rightarrow> (0, s) | v # vs \<Rightarrow> (v, s\<lparr>uart_lsr := vs\<rparr>))"

definition uartinit :: "'a uartst_scheme \<Rightarrow> 'a uartst_scheme" where
  "uartinit s =
     (let s = WriteReg IER 0 s;
          s = WriteReg LCR LCR_BAUD_LATCH s;
          s = WriteReg 0 3 s;
          s = WriteReg 1 0 s;
          s = WriteReg LCR LCR_EIGHT_BITS s;
          s = WriteReg FCR (FCR_FIFO_ENABLE OR FCR_FIFO_CLEAR) s
      in WriteReg IER (IER_TX_ENABLE OR IER_RX_ENABLE) s)"

subsection \<open>Sending\<close>

text \<open>The ring buffer of bytes to send: whether it is full, and putting in and taking out one byte.\<close>

definition uart_full :: "'a uartst_scheme \<Rightarrow> bool" where
  "uart_full s \<longleftrightarrow> uart_tx_w s = uart_tx_r s + of_nat UART_TX_BUF_SIZE"

definition uart_put :: "uchar \<Rightarrow> 'a uartst_scheme \<Rightarrow> 'a uartst_scheme" where
  "uart_put c s =
     (if uart_full s then s
      else s\<lparr>uart_tx_buf := (uart_tx_buf s)[unat (uart_tx_w s) mod UART_TX_BUF_SIZE := c],
              uart_tx_w := uart_tx_w s + 1\<rparr>)"

definition uart_get :: "'a uartst_scheme \<Rightarrow> uchar option \<times> 'a uartst_scheme" where
  "uart_get s =
     (if uart_tx_w s = uart_tx_r s then (None, s)
      else (Some (uart_tx_buf s ! (unat (uart_tx_r s) mod UART_TX_BUF_SIZE)), s\<lparr>uart_tx_r := uart_tx_r s + 1\<rparr>))"

function uartstart :: "'a uartst_scheme \<Rightarrow> exn + 'a uartst_scheme" where
  "uartstart s =
     (if uart_tx_w s = uart_tx_r s then Inr s
      else
        (case uart_lsr s of
           [] \<Rightarrow> Inr s
         | v # vs \<Rightarrow>
             let s = s\<lparr>uart_lsr := vs\<rparr> in
             if v AND LSR_TX_IDLE = 0 then Inr s
             else
               case uart_get s of
                 (None, s) \<Rightarrow> Inr s
               | (Some c, s) \<Rightarrow>
                   andthen (wakeup ChanUartR s) (\<lambda>s.
                   uartstart (WriteReg THR c s))))"
  by pat_completeness auto
termination
proof (relation "measure (\<lambda>s. length (uart_lsr s))")
  fix s t u w :: "'a uartst_scheme" and v vs x y c
  assume l: "uart_lsr s = v # vs" and d: "t = s\<lparr>uart_lsr := vs\<rparr>" "(x, y) = uart_get t"
    and w: "wakeup ChanUartR y = Inr w"
  have "uart_lsr w = vs"
    using arg_cong [OF wakeup_frame [OF w], of uart_lsr] d by (auto simp: uart_get_def split: if_splits)
  then show "(WriteReg THR c w, s) \<in> measure (\<lambda>s. length (uart_lsr s))" using l by (simp add: WriteReg_def)
qed simp

declare uartstart.simps [simp del]

definition uartputc :: "uchar \<Rightarrow> 'a uartst_scheme \<Rightarrow> exn + 'a uartst_scheme" where
  "uartputc c s =
     andthen (acquire UartLock s) (\<lambda>s.
     if panicked s then Inl Hang
     else if uart_full s then sleep ChanUartR UartLock s
     else
       andthen (uartstart (uart_put c s)) (\<lambda>s.
       release UartLock s))"

text \<open>Spinning on the line status register.\<close>

fun wait_idle :: "uchar list \<Rightarrow> uchar list option" where
  "wait_idle [] = None"
| "wait_idle (v # vs) = (if v AND LSR_TX_IDLE = 0 then wait_idle vs else Some vs)"

definition uartputc_sync :: "uchar \<Rightarrow> 'a uartst_scheme \<Rightarrow> exn + 'a uartst_scheme" where
  "uartputc_sync c s =
     (if panicked s then Inl Hang
      else case wait_idle (uart_lsr s) of
             None \<Rightarrow> Inl Hang
           | Some vs \<Rightarrow> Inr (WriteReg THR c (s\<lparr>uart_lsr := vs\<rparr>)))"

definition uartgetc :: "'a uartst_scheme \<Rightarrow> uchar option \<times> 'a uartst_scheme" where
  "uartgetc s =
     (let (v, s) = read_lsr s in
      if v AND LSR_RX_READY \<noteq> 0
      then (case uart_rhr s of [] \<Rightarrow> (Some 0, s) | c # cs \<Rightarrow> (Some c, s\<lparr>uart_rhr := cs\<rparr>))
      else (None, s))"

definition consputc :: "nat \<Rightarrow> 'a uartst_scheme \<Rightarrow> exn + 'a uartst_scheme" where
  "consputc c s =
     (if c = BACKSPACE
      then andthen (uartputc_sync 8 s) (\<lambda>s. andthen (uartputc_sync 32 s) (\<lambda>s. uartputc_sync 8 s))
      else uartputc_sync (of_nat c) s)"

subsection \<open>printf\<close>

text \<open>The characters of a C string literal.\<close>

definition bytes :: "string \<Rightarrow> uchar list" where
  "bytes cs = map of_char cs"

definition digit :: "nat \<Rightarrow> uchar" where
  "digit d = bytes ''0123456789abcdef'' ! d"

text \<open>The digits in the order the loop stores them, the last one first.\<close>

function digits_rev :: "nat \<Rightarrow> nat \<Rightarrow> nat list" where
  "digits_rev base x = x mod base # (if x div base = 0 \<or> base < 2 then [] else digits_rev base (x div base))"
  by pat_completeness auto
termination
proof (relation "measure snd")
  fix base x :: nat
  assume "\<not> (x div base = 0 \<or> base < 2)"
  then have "0 < x" "1 < base" by (auto intro: gr0I)
  then show "((base, x div base), (base, x)) \<in> measure snd" by simp
qed simp

declare digits_rev.simps [simp del]

definition consputs :: "uchar list \<Rightarrow> 'a uartst_scheme \<Rightarrow> exn + 'a uartst_scheme" where
  "consputs cs s = for_each cs (\<lambda>c s. consputc (unat c) s) s"

definition int_bytes :: "uint \<Rightarrow> nat \<Rightarrow> bool \<Rightarrow> uchar list" where
  "int_bytes xx base sign =
     (let neg = (sign \<and> sint xx < 0);
          x = (if neg then - xx else xx);
          buf = map digit (digits_rev base (unat x)) @ (if neg then bytes ''-'' else [])
      in rev buf)"

definition printint :: "uint \<Rightarrow> nat \<Rightarrow> bool \<Rightarrow> 'a uartst_scheme \<Rightarrow> exn + 'a uartst_scheme" where
  "printint xx base sign s = consputs (int_bytes xx base sign) s"

definition ptr_bytes :: "uint64 \<Rightarrow> uchar list" where
  "ptr_bytes x = bytes ''0x'' @ map (\<lambda>i. digit (unat (drop_bit 60 (push_bit (4 * i) x)))) [0..<16]"

definition printptr :: "uint64 \<Rightarrow> 'a uartst_scheme \<Rightarrow> exn + 'a uartst_scheme" where
  "printptr x s = consputs (ptr_bytes x) s"

text \<open>The arguments of a call; a string argument can be the null pointer.\<close>

datatype varg = ArgInt uint | ArgPtr uint64 | ArgStr "uchar list option"

text \<open>
  The loop over the format. An argument of the wrong type or a missing one is undefined behaviour.
\<close>

fun printf_loop :: "uchar list \<Rightarrow> varg list \<Rightarrow> 'a uartst_scheme \<Rightarrow> exn + 'a uartst_scheme" where
  "printf_loop [] ap s = Inr s"
| "printf_loop (c # fmt) ap s =
     (if c = 0 then Inr s
      else if c \<noteq> of_char CHR ''%'' then andthen (consputc (unat c) s) (printf_loop fmt ap)
      else case fmt of
             [] \<Rightarrow> Inr s
           | d # fmt \<Rightarrow>
               if d = 0 then Inr s
               else if d = of_char CHR ''d'' then
                 (case ap of ArgInt x # ap \<Rightarrow> andthen (printint x 10 True s) (printf_loop fmt ap) | _ \<Rightarrow> Inl OutOfBounds)
               else if d = of_char CHR ''x'' then
                 (case ap of ArgInt x # ap \<Rightarrow> andthen (printint x 16 True s) (printf_loop fmt ap) | _ \<Rightarrow> Inl OutOfBounds)
               else if d = of_char CHR ''p'' then
                 (case ap of ArgPtr x # ap \<Rightarrow> andthen (printptr x s) (printf_loop fmt ap) | _ \<Rightarrow> Inl OutOfBounds)
               else if d = of_char CHR ''s'' then
                 (case ap of
                    ArgStr x # ap \<Rightarrow>
                      andthen (consputs (case x of None \<Rightarrow> bytes ''(null)'' | Some cs \<Rightarrow> takeWhile (\<lambda>c. c \<noteq> 0) cs) s) (printf_loop fmt ap)
                  | _ \<Rightarrow> Inl OutOfBounds)
               else if d = of_char CHR ''%'' then andthen (consputc (unat d) s) (printf_loop fmt ap)
               else andthen (consputc (unat (of_char CHR ''%'' :: uchar)) s) (\<lambda>s.
                    andthen (consputc (unat d) s) (printf_loop fmt ap)))"

definition printf :: "string \<Rightarrow> varg list \<Rightarrow> 'a uartst_scheme \<Rightarrow> exn + 'a uartst_scheme" where
  "printf fmt ap s =
     (let locking = pr_locking s in
      andthen (if locking then acquire PrLock s else Inr s) (\<lambda>s.
      andthen (printf_loop (bytes fmt) ap s) (\<lambda>s.
      if locking then release PrLock s else Inr s)))"

text \<open>What \<^verbatim>\<open>panic\<close> does before its endless loop.\<close>

definition panic :: "string \<Rightarrow> 'a uartst_scheme \<Rightarrow> exn + 'a uartst_scheme" where
  "panic msg s =
     (let s = s\<lparr>pr_locking := False\<rparr> in
      andthen (printf ''panic: '' [] s) (\<lambda>s.
      andthen (printf msg [] s) (\<lambda>s.
      andthen (printf [CHR 10] [] s) (\<lambda>s.
      Inr (s\<lparr>panicked := True\<rparr>)))))"

definition printfinit :: "'a uartst_scheme \<Rightarrow> 'a uartst_scheme" where
  "printfinit s = s\<lparr>pr_locking := True\<rparr>"

subsection \<open>The transmit queue\<close>

definition uart_q :: "'a uartst_scheme \<Rightarrow> uchar list" where
  "uart_q s = ring_q (uart_tx_buf s) (uart_tx_r s) (uart_tx_w s)"

definition uart_ok :: "'a uartst_scheme \<Rightarrow> bool" where
  "uart_ok s \<longleftrightarrow> length (uart_tx_buf s) = UART_TX_BUF_SIZE \<and> unat (uart_tx_w s - uart_tx_r s) \<le> UART_TX_BUF_SIZE"

text \<open>The bytes given to the device.\<close>

definition sent :: "'a uartst_scheme \<Rightarrow> uchar list" where
  "sent s = map snd (filter (\<lambda>(r, v). r = THR) (uart_out s))"

lemma uart_full_iff: "uart_full s \<longleftrightarrow> unat (uart_tx_w s - uart_tx_r s) = 32"
proof -
  have "uart_full s \<longleftrightarrow> uart_tx_w s - uart_tx_r s = 32" by (auto simp: uart_full_def algebra_simps)
  then show ?thesis by (simp add: word_unat_eq_iff)
qed

interpretation uartq: bounded_fifo uart_q UART_TX_BUF_SIZE uart_ok uart_put uart_get
proof
  fix s :: "'a uartst_scheme" and a
  assume o: "uart_ok s"
  show "length (uart_q s) \<le> UART_TX_BUF_SIZE" using o by (simp add: uart_q_def uart_ok_def)
  show "uart_ok (uart_put a s) \<and> uart_q (uart_put a s) = (if length (uart_q s) < UART_TX_BUF_SIZE then uart_q s @ [a] else uart_q s)"
  proof (cases "uart_full s")
    case True
    then show ?thesis using o by (simp add: uart_put_def uart_q_def uart_full_iff)
  next
    case False
    then have f: "unat (uart_tx_w s - uart_tx_r s) < 32" using o by (simp add: uart_full_iff uart_ok_def)
    have l: "length (uart_tx_buf s) = 32" using o by (simp add: uart_ok_def)
    have "unat (uart_tx_w s + 1 - uart_tx_r s) = Suc (unat (uart_tx_w s - uart_tx_r s))"
      by (rule ring_diff_Suc) (use f in simp)
    then show ?thesis
      using False f l ring_put [of "uart_tx_buf s" "uart_tx_w s" "uart_tx_r s" a] by (simp add: uart_put_def uart_q_def uart_ok_def)
  qed
  show "uart_ok (snd (uart_get s)) \<and> (case uart_q s of
        [] \<Rightarrow> fst (uart_get s) = None \<and> uart_q (snd (uart_get s)) = []
      | a # q \<Rightarrow> fst (uart_get s) = Some a \<and> uart_q (snd (uart_get s)) = q)"
    using o ring_get [of "uart_tx_r s" "uart_tx_w s" "uart_tx_buf s"] ring_get_length [of "uart_tx_r s" "uart_tx_w s"]
    by (auto simp: uart_get_def uart_q_def uart_ok_def)
qed

text \<open>What the driver needs of the state, and what a step of it keeps besides.\<close>

definition uart_env :: "'a uartst_scheme \<Rightarrow> bool" where
  "uart_env s \<longleftrightarrow> uart_ok s \<and> no_plock s \<and> length (ptable s) = NPROC \<and> \<not> panicked s"

text \<open>
  The driver read the values \<open>rs\<close> of the line status register and sent one byte for each of them that
  shows an idle transmitter; and it came to rest: the buffer is empty, or the last
  value it saw, or the value the device shows from now on, is not an idle one.
\<close>

definition uart_reads :: "'a uartst_scheme \<Rightarrow> uchar list \<Rightarrow> 'a uartst_scheme \<Rightarrow> bool" where
  "uart_reads s rs t \<longleftrightarrow> uart_lsr s = rs @ uart_lsr t \<and>
     length (sent t) = length (sent s) + length (filter (\<lambda>v. v AND LSR_TX_IDLE \<noteq> 0) rs)"

definition uart_rest :: "uchar list \<Rightarrow> 'a uartst_scheme \<Rightarrow> bool" where
  "uart_rest rs t \<longleftrightarrow> uart_q t = [] \<or> uart_lsr t = [] \<or> rs \<noteq> [] \<and> last rs AND LSR_TX_IDLE = 0"

definition uart_step :: "bool \<Rightarrow> 'a uartst_scheme \<Rightarrow> uchar list \<Rightarrow> 'a uartst_scheme \<Rightarrow> bool" where
  "uart_step rest s cs t \<longleftrightarrow> uart_env t \<and> held t = held s \<and> sent t @ uart_q t = sent s @ uart_q s @ cs \<and>
     length (uart_q t) \<le> length (uart_q s) + length cs \<and> (\<exists>rs. uart_reads s rs t \<and> (rest \<longrightarrow> uart_rest rs t))"

lemma uart_reads_trans: "uart_reads s rs t \<Longrightarrow> uart_reads t rs' u \<Longrightarrow> uart_reads s (rs @ rs') u"
  by (simp add: uart_reads_def)

lemma uart_rest_append: "uart_rest rs' u \<Longrightarrow> uart_rest (rs @ rs') u"
  by (auto simp: uart_rest_def)

lemma uart_step_trans:
  assumes "uart_step b s cs t" "uart_step b' t ds u"
  shows "uart_step b' s (cs @ ds) u"
proof -
  obtain rs rs' where "uart_reads s rs t" "uart_reads t rs' u" "b' \<longrightarrow> uart_rest rs' u"
    using assms by (auto simp: uart_step_def)
  then have "\<exists>rs. uart_reads s rs u \<and> (b' \<longrightarrow> uart_rest rs u)"
    using uart_reads_trans [of s rs t rs' u] uart_rest_append [of rs' u rs] by blast
  then show ?thesis using assms by (auto simp: uart_step_def)
qed

lemma uart_env_fields [simp]:
  "uart_env (s\<lparr>held := h\<rparr>) \<longleftrightarrow> uart_ok s \<and> no_plock (s\<lparr>held := h\<rparr>) \<and> length (ptable s) = NPROC \<and> \<not> panicked s"
  "uart_env (s\<lparr>uart_lsr := l\<rparr>) = uart_env s" "uart_q (s\<lparr>uart_lsr := l\<rparr>) = uart_q s" "uart_q (s\<lparr>held := h\<rparr>) = uart_q s"
  "sent (s\<lparr>uart_lsr := l\<rparr>) = sent s" "sent (s\<lparr>held := h\<rparr>) = sent s" "sent (s\<lparr>ptable := tb\<rparr>) = sent s"
  "uart_q (s\<lparr>ptable := tb\<rparr>) = uart_q s" "uart_ok (s\<lparr>ptable := tb\<rparr>) = uart_ok s"
  "uart_ok (s\<lparr>held := h\<rparr>) = uart_ok s"
  by (simp_all add: uart_env_def uart_ok_def uart_q_def sent_def no_plock_def)

lemma uart_write_THR:
  "uart_env (WriteReg THR c s) = uart_env s" "uart_q (WriteReg THR c s) = uart_q s"
  "sent (WriteReg THR c s) = sent s @ [c]" "held (WriteReg THR c s) = held s"
  by (simp_all add: WriteReg_def uart_env_def uart_ok_def uart_q_def sent_def no_plock_def)

lemma uart_get_some:
  assumes "uart_env s" "uart_get s = (Some c, t)"
  shows "uart_env t \<and> uart_q s = c # uart_q t \<and> sent t = sent s \<and> held t = held s"
proof -
  have "uart_ok s" using assms(1) by (simp add: uart_env_def)
  then show ?thesis using uartq.deq [of s] assms
    by (auto simp: uart_get_def uart_env_def sent_def no_plock_def split: list.splits if_splits)
qed

lemma uartstart_stop:
  assumes "uart_env s" "uart_tx_w s = uart_tx_r s \<or> uart_lsr s = [] \<or> hd (uart_lsr s) AND LSR_TX_IDLE = 0"
  shows "returns (uartstart s) (uart_step True s [])"
proof (cases "uart_tx_w s = uart_tx_r s \<or> uart_lsr s = []")
  case True
  then have "uartstart s = Inr s" unfolding uartstart.simps [of s] by auto
  moreover have "uart_reads s [] s \<and> uart_rest [] s" using True by (auto simp: uart_reads_def uart_rest_def uart_q_def)
  ultimately show ?thesis using assms(1) by (auto simp: uart_step_def)
next
  case False
  then obtain v vs where l: "uart_lsr s = v # vs" "v AND LSR_TX_IDLE = 0" using assms(2) by (cases "uart_lsr s") auto
  then have "uartstart s = Inr (s\<lparr>uart_lsr := vs\<rparr>)" using False unfolding uartstart.simps [of s] by (simp add: Let_def)
  moreover have "uart_reads s [v] (s\<lparr>uart_lsr := vs\<rparr>) \<and> uart_rest [v] (s\<lparr>uart_lsr := vs\<rparr>)"
    using l by (simp add: uart_reads_def uart_rest_def)
  ultimately show ?thesis using assms(1) by (auto simp: uart_step_def)
qed

lemma uartstart_step:
  "uart_tx_w s \<noteq> uart_tx_r s \<Longrightarrow> uart_lsr s = v # vs \<Longrightarrow> v AND LSR_TX_IDLE \<noteq> 0 \<Longrightarrow>
   uart_get (s\<lparr>uart_lsr := vs\<rparr>) = (Some c, u) \<Longrightarrow>
   uartstart s = andthen (wakeup ChanUartR u) (\<lambda>s. uartstart (WriteReg THR c s))"
  unfolding uartstart.simps [of s] by simp

lemma uartstart_fifo: "uart_env s \<Longrightarrow> returns (uartstart s) (uart_step True s [])"
proof (induction "length (uart_lsr s)" arbitrary: s rule: less_induct)
  case less
  show ?case
  proof (cases "uart_tx_w s = uart_tx_r s \<or> uart_lsr s = [] \<or> hd (uart_lsr s) AND LSR_TX_IDLE = 0")
    case True
    then show ?thesis by (rule uartstart_stop [OF less.prems])
  next
    case False
    obtain v vs where l: "uart_lsr s = v # vs" using False by (cases "uart_lsr s") auto
    let ?s = "s\<lparr>uart_lsr := vs\<rparr>"
    obtain c u where g: "uart_get ?s = (Some c, u)" using False by (simp add: uart_get_def)
    have u: "uart_env u" "uart_q s = c # uart_q u" "sent u = sent s" "held u = held s" "uart_lsr u = vs"
      using uart_get_some [OF _ g] less.prems g by (auto simp: uart_get_def split: if_splits)
    define w where "w = u\<lparr>ptable := map (\<lambda>i. wake_entry ChanUartR (curproc u) i (ptable u ! i)) [0..<NPROC]\<rparr>"
    have "wakeup ChanUartR u = Inr w" unfolding w_def by (rule wakeup_eq) (use u(1) in \<open>simp_all add: uart_env_def\<close>)
    then have e: "uartstart s = uartstart (WriteReg THR c w)" using uartstart_step [OF _ l _ g] False l by simp
    have w: "uart_env w" "uart_q w = uart_q u" "sent w = sent u" "held w = held u" "uart_lsr w = vs"
      using u(1,5) by (simp_all add: w_def uart_env_def no_plock_def)
    have "returns (uartstart (WriteReg THR c w)) (uart_step True (WriteReg THR c w) [])"
      by (rule less.hyps) (use w l in \<open>simp_all add: uart_write_THR WriteReg_def uart_env_def uart_ok_def no_plock_def\<close>)
    moreover have "uart_reads s [v] (WriteReg THR c w)"
      using u w l False uart_write_THR(3) [of c w] by (simp add: uart_reads_def WriteReg_def)
    then have "uart_step False s [] (WriteReg THR c w)"
      using u w uart_write_THR [of c w] by (auto simp: uart_step_def)
    from uart_step_trans [OF this] have "uart_step True (WriteReg THR c w) [] t \<Longrightarrow> uart_step True s [] t" for t by simp
    ultimately show ?thesis unfolding e by (rule returns_mono)
  qed
qed

lemma uartputc_fifo:
  assumes "uart_env s" "UartLock \<notin> set (held s)" "length (uart_q s) < UART_TX_BUF_SIZE"
  shows "returns (uartputc c s) (uart_step True s [c])"
proof -
  let ?s = "s\<lparr>held := UartLock # held s\<rparr>"
  have o: "uart_ok ?s" using assms(1) by (simp add: uart_env_def uart_ok_def)
  have f: "\<not> uart_full ?s" using assms(3) by (simp add: uart_full_iff uart_q_def)
  have p: "uart_env (uart_put c ?s)" "uart_q (uart_put c ?s) = uart_q s @ [c]" "sent (uart_put c ?s) = sent s"
    "held (uart_put c ?s) = UartLock # held s" "uart_lsr (uart_put c ?s) = uart_lsr s"
    using uartq.enq [OF o, of c] assms by (simp_all add: uart_env_def no_plock_def uart_put_def sent_def)
  have "returns (uartstart (uart_put c ?s)) (\<lambda>t. returns (release UartLock t) (uart_step True s [c]))"
    by (rule returns_mono [OF uartstart_fifo [OF p(1)]])
      (use p assms in \<open>auto simp: uart_step_def uart_reads_def uart_rest_def lock_simps uart_env_def no_plock_def\<close>)
  then show ?thesis
    using assms f by (simp add: uartputc_def lock_simps uart_env_def returns_andthen)
qed

lemma uartputc_all:
  assumes "uart_env s" "UartLock \<notin> set (held s)" "length (uart_q s) + length cs \<le> UART_TX_BUF_SIZE"
  shows "returns (for_each cs uartputc s) (uart_step (cs \<noteq> []) s cs)"
  using assms
proof (induction cs rule: rev_induct)
  case Nil
  have "uart_reads s [] s" by (simp add: uart_reads_def)
  then show ?case using Nil by (auto simp: uart_step_def)
next
  case (snoc c cs)
  then have "returns (for_each cs uartputc s) (uart_step (cs \<noteq> []) s cs)" by simp
  then have "returns (for_each cs uartputc s) (\<lambda>u. returns (uartputc c u) (uart_step True s (cs @ [c])))"
  proof (rule returns_mono)
    fix u assume u: "uart_step (cs \<noteq> []) s cs u"
    have "returns (uartputc c u) (uart_step True u [c])"
      by (rule uartputc_fifo) (use u snoc.prems in \<open>auto simp: uart_step_def\<close>)
    then show "returns (uartputc c u) (uart_step True s (cs @ [c]))"
      by (rule returns_mono) (rule uart_step_trans [OF u])
  qed
  then show ?case by (simp add: for_each_append returns_andthen)
qed

text \<open>
  C35: the transmit path is a queue that feeds the device. Bytes that fit into the ring buffer are taken by
  \<open>uartputc\<close>, one call after the other, without blocking, and none is lost, duplicated or reordered: what
  the device was given followed by what waits in the buffer grows by exactly those bytes, wherever
  the free-running indices wrap around. The device gets one byte for each value of the line
  status register the driver read that shows it idle, and none otherwise. The driver
  stops only when the buffer is empty or the device is not idle; when enough idle values are
  to come, everything is sent.
\<close>

theorem uart_transmits_in_order:
  assumes "uart_env s" "UartLock \<notin> set (held s)" "length (uart_q s) + length cs \<le> UART_TX_BUF_SIZE" "cs \<noteq> []"
  shows "returns (for_each cs uartputc s) (\<lambda>t. uart_env t \<and> sent t @ uart_q t = sent s @ uart_q s @ cs \<and>
    (\<exists>rs. uart_lsr s = rs @ uart_lsr t \<and>
       length (sent t) = length (sent s) + length (filter (\<lambda>v. v AND LSR_TX_IDLE \<noteq> 0) rs) \<and>
       (uart_q t = [] \<or> uart_lsr t = [] \<or> rs \<noteq> [] \<and> last rs AND LSR_TX_IDLE = 0)) \<and>
    (length (uart_q s) + length cs \<le> length (uart_lsr s) \<and> (\<forall>v \<in> set (uart_lsr s). v AND LSR_TX_IDLE \<noteq> 0) \<longrightarrow>
       sent t = sent s @ uart_q s @ cs))"
  using uartputc_all [OF assms(1-3)]
proof (rule returns_mono)
  fix t
  assume t: "uart_step (cs \<noteq> []) s cs t"
  then obtain rs where rs: "uart_reads s rs t" "uart_rest rs t" using assms(4) by (auto simp: uart_step_def)
  have q: "sent t @ uart_q t = sent s @ uart_q s @ cs" using t by (simp add: uart_step_def)
  have "sent t = sent s @ uart_q s @ cs"
    if h: "length (uart_q s) + length cs \<le> length (uart_lsr s)" "\<forall>v \<in> set (uart_lsr s). v AND LSR_TX_IDLE \<noteq> 0"
  proof -
    have l: "uart_lsr s = rs @ uart_lsr t" using rs(1) by (simp add: uart_reads_def)
    then have i: "\<forall>v \<in> set rs. v AND LSR_TX_IDLE \<noteq> 0" using h(2) by simp
    then have "filter (\<lambda>v. v AND LSR_TX_IDLE \<noteq> 0) rs = rs" by (simp only: filter_id_conv)
    then have s: "length (sent t) = length (sent s) + length rs" using rs(1) by (simp add: uart_reads_def)
    have "uart_q t = [] \<or> uart_lsr t = []" using rs(2) i last_in_set [of rs] by (auto simp: uart_rest_def)
    then have "uart_q t = []"
    proof
      assume "uart_lsr t = []"
      then have "length (sent t) \<ge> length (sent s @ uart_q s @ cs)" using s l h(1) by simp
      then have "length (uart_q t) = 0" using arg_cong [OF q, of length] unfolding length_append by linarith
      then show ?thesis by simp
    qed
    then show ?thesis using q by simp
  qed
  then show "uart_env t \<and> sent t @ uart_q t = sent s @ uart_q s @ cs \<and>
    (\<exists>rs. uart_lsr s = rs @ uart_lsr t \<and>
       length (sent t) = length (sent s) + length (filter (\<lambda>v. v AND LSR_TX_IDLE \<noteq> 0) rs) \<and>
       (uart_q t = [] \<or> uart_lsr t = [] \<or> rs \<noteq> [] \<and> last rs AND LSR_TX_IDLE = 0)) \<and>
    (length (uart_q s) + length cs \<le> length (uart_lsr s) \<and> (\<forall>v \<in> set (uart_lsr s). v AND LSR_TX_IDLE \<noteq> 0) \<longrightarrow>
       sent t = sent s @ uart_q s @ cs)"
    using t q rs unfolding uart_reads_def uart_rest_def uart_step_def by blast
qed

definition demo_uart :: "uint64 \<Rightarrow> uchar list \<Rightarrow> uartst" where
  "demo_uart i l = logst.extend (demo_log []) (uartst.fields (replicate UART_TX_BUF_SIZE 0) i i l [] [] False True)"

lemma demo_uart_env: "uart_env (demo_uart i l)" "held (demo_uart i l) = []" "uart_q (demo_uart i l) = []" "sent (demo_uart i l) = []"
  "uart_lsr (demo_uart i l) = l"
  by (simp_all add: demo_uart_def logst.extend_def uartst.fields_def uart_env_def uart_ok_def uart_q_def sent_def no_plock_def
      demo_log_simps del: replicate_Suc)

theorem uart_transmits_in_order_witness:
  "returns (for_each [104, 105] uartputc (demo_uart 0xffffffffffffffff [0x60, 0x20])) (\<lambda>t. sent t = [104, 105])"
  by (rule returns_mono [OF uart_transmits_in_order [of "demo_uart 0xffffffffffffffff [0x60, 0x20]" "[104, 105]"]])
    (simp_all add: demo_uart_env)

subsection \<open>What is printed\<close>

text \<open>The number a list of digits denotes, the most significant first.\<close>

definition num_val :: "nat \<Rightarrow> nat list \<Rightarrow> nat" where
  "num_val base ds = foldl (\<lambda>a d. a * base + d) 0 ds"

lemma digits_rev_val: "1 < base \<Longrightarrow> num_val base (rev (digits_rev base x)) = x"
proof (induction base x rule: digits_rev.induct)
  case (1 base x)
  then show ?case
    using div_mult_mod_eq [of x base] by (cases "x div base = 0") (simp_all add: digits_rev.simps [of base x] num_val_def)
qed

lemma digits_rev_digits: "1 < base \<Longrightarrow> \<forall>d \<in> set (digits_rev base x). d < base"
proof (induction base x rule: digits_rev.induct)
  case (1 base x)
  then show ?case by (cases "x div base = 0") (simp_all add: digits_rev.simps [of base x])
qed

lemma digits_rev_last: "1 < base \<Longrightarrow> 0 < x \<Longrightarrow> 0 < last (digits_rev base x)"
proof (induction base x rule: digits_rev.induct)
  case (1 base x)
  have n: "digits_rev base (x div base) \<noteq> []" by (subst digits_rev.simps) simp
  show ?case
    using 1 n div_mult_mod_eq [of x base] by (cases "x div base = 0") (simp_all add: digits_rev.simps [of base x])
qed

lemma digits_rev_length: "x < base ^ n \<Longrightarrow> 0 < n \<Longrightarrow> 1 < base \<Longrightarrow> length (digits_rev base x) \<le> n"
proof (induction n arbitrary: x)
  case (Suc n)
  show ?case
  proof (cases "x div base = 0")
    case False
    have "x div base < base ^ n" using Suc.prems by (simp add: less_mult_imp_div_less mult.commute)
    moreover have "0 < n" using False calculation by (cases n) auto
    ultimately show ?thesis using Suc.IH [of "x div base"] Suc.prems by (subst digits_rev.simps) simp
  qed (subst digits_rev.simps, simp)
qed simp

lemma unat_abs: "unat (if sint (x :: uint) < 0 then - x else x) = nat \<bar>sint x\<bar>"
proof -
  have r: "- (2 ^ 31) \<le> sint x" "sint x < 2 ^ 31" using sint_range_size [of x] by (simp_all add: word_size)
  have "(if sint x < 0 then - x else x) = of_int \<bar>sint x\<bar>" by auto
  moreover have "uint (of_int \<bar>sint x\<bar> :: uint) = \<bar>sint x\<bar>" using r by (simp add: unsigned_of_int take_bit_int_eq_self)
  ultimately show ?thesis by (simp add: unat_eq_nat_uint)
qed

text \<open>
  \<open>printint\<close> prints the value of its argument: a minus sign exactly where the 32-bit number is
  negative (the smallest number included, whose negation overflows), then digits of the base that denote its magnitude,
  without leading zeros. The digits and the sign fit into the 16 bytes of \<open>buf\<close>.
\<close>

lemma printint_correct:
  assumes "base = 10 \<or> base = 16"
  shows "\<exists>ds. int_bytes xx base True = (if sint xx < 0 then bytes ''-'' else []) @ map digit ds \<and>
     num_val base ds = nat \<bar>sint xx\<bar> \<and> (\<forall>d \<in> set ds. d < base) \<and> (ds = [0] \<or> 0 < hd ds) \<and>
     length (int_bytes xx base True) \<le> 16"
proof -
  define x where "x = nat \<bar>sint xx\<bar>"
  let ?ds = "rev (digits_rev base x)"
  have b: "1 < base" using assms by auto
  have n: "digits_rev base x \<noteq> []" by (subst digits_rev.simps) simp
  have e: "int_bytes xx base True = (if sint xx < 0 then bytes ''-'' else []) @ map digit ?ds"
    using unat_abs [of xx] by (simp add: x_def int_bytes_def Let_def rev_map bytes_def)
  have "x < 2 ^ 32" using unat_abs [of xx] unsigned_less [of "if sint xx < 0 then - xx else xx", where 'a = nat] by (simp add: x_def)
  then have "x < base ^ 10" using assms by auto
  then have "length ?ds \<le> 10" using digits_rev_length [of x base 10] b by simp
  moreover have "?ds = [0] \<or> 0 < hd ?ds"
    using digits_rev_last [OF b, of x] n by (cases "x = 0") (auto simp: hd_rev digits_rev.simps [of base 0])
  ultimately show ?thesis
    using digits_rev_val [OF b, of x] digits_rev_digits [OF b, of x]
    by (intro exI [of _ ?ds]) (simp add: e bytes_def x_def [symmetric])
qed

subsection \<open>What printing leaves alone\<close>

text \<open>Printing changes nothing but the device; every byte takes at least one read of the status register.\<close>

definition out_frame :: "'a uartst_scheme \<Rightarrow> 'a uartst_scheme \<Rightarrow> bool" where
  "out_frame s t \<longleftrightarrow> t = s\<lparr>uart_lsr := uart_lsr t, uart_out := uart_out t\<rparr> \<and> length (uart_lsr t) \<le> length (uart_lsr s)"

lemma out_frameE:
  assumes "out_frame s t"
  obtains l out where "t = s\<lparr>uart_lsr := l, uart_out := out\<rparr>" "length l \<le> length (uart_lsr s)"
  using assms unfolding out_frame_def by blast

lemma out_frame_refl [simp]: "out_frame s s"
  by (simp add: out_frame_def)

lemma out_frame_trans: "out_frame s t \<Longrightarrow> out_frame t u \<Longrightarrow> out_frame s u"
  by (erule out_frameE, erule out_frameE) (simp add: out_frame_def)

lemma wait_idle_length: "wait_idle l = Some l' \<Longrightarrow> length l' < length l"
  by (induction l) (auto split: if_splits)

lemma uartputc_sync_frame: "uartputc_sync c s = Inr t \<Longrightarrow> out_frame s t"
  by (auto simp: uartputc_sync_def out_frame_def WriteReg_def dest: wait_idle_length split: if_splits option.splits)

lemma consputc_frame: "consputc c s = Inr t \<Longrightarrow> out_frame s t"
  by (auto simp: consputc_def andthen_eq_Inr split: if_splits intro: out_frame_trans dest!: uartputc_sync_frame)

lemma consputs_frame: "consputs cs s = Inr t \<Longrightarrow> out_frame s t"
  unfolding consputs_def
  by (induction cs arbitrary: s) (auto simp: andthen_eq_Inr intro: out_frame_trans dest!: consputc_frame)

lemma printf_loop_frame: "printf_loop fmt ap s = Inr t \<Longrightarrow> out_frame s t"
proof (induction "length fmt" arbitrary: fmt ap s rule: less_induct)
  case less
  have ih: "out_frame s t" if "printf_loop fs as a = Inr t" "out_frame s a" "length fs < length fmt" for fs as a
    using less.hyps that out_frame_trans by blast
  show ?case
  proof (cases fmt)
    case (Cons c fs)
    show ?thesis
      using less.prems Cons
      by (auto simp: andthen_eq_Inr printint_def printptr_def split: if_splits list.splits varg.splits
          dest!: consputc_frame consputs_frame) (auto elim!: ih intro: out_frame_trans)
  qed (use less.prems in simp)
qed

lemma printf_frame:
  assumes "printf fmt ap s = Inr t"
  shows "out_frame s t"
proof (cases "pr_locking s")
  case True
  let ?s = "s\<lparr>held := PrLock # held s\<rparr>"
  from assms True obtain u where u: "printf_loop (bytes fmt) ap ?s = Inr u" "release PrLock u = Inr t" and n: "PrLock \<notin> set (held s)"
    by (auto simp: printf_def Let_def andthen_eq_Inr acquire_def holding_def split: if_splits)
  from printf_loop_frame [OF u(1)] obtain l out where "u = ?s\<lparr>uart_lsr := l, uart_out := out\<rparr>" "length l \<le> length (uart_lsr s)"
    by (auto elim: out_frameE)
  then show ?thesis using u(2) n by (auto simp: release_def holding_def out_frame_def)
next
  case False
  then show ?thesis using assms printf_loop_frame by (auto simp: printf_def Let_def)
qed

text \<open>How many more bytes the device will take.\<close>

definition idle :: "uchar list \<Rightarrow> nat" where
  "idle l = length (filter (\<lambda>v. v AND LSR_TX_IDLE \<noteq> 0) l)"

lemma wait_idle_idle: "0 < idle l \<Longrightarrow> \<exists>l'. wait_idle l = Some l' \<and> Suc (idle l') = idle l"
  by (induction l) (auto simp: idle_def)

definition echo :: "nat \<Rightarrow> uchar list" where
  "echo c = (if c = BACKSPACE then [8, 32, 8] else [of_nat c])"

lemma uartputc_sync_idle:
  assumes "\<not> panicked s" "0 < idle (uart_lsr s)"
  shows "\<exists>l. uartputc_sync c s = Inr (s\<lparr>uart_lsr := l, uart_out := uart_out s @ [(THR, c)]\<rparr>) \<and> Suc (idle l) = idle (uart_lsr s)"
proof -
  obtain l where "wait_idle (uart_lsr s) = Some l" "Suc (idle l) = idle (uart_lsr s)" using wait_idle_idle [OF assms(2)] by blast
  then show ?thesis using assms(1) by (intro exI [of _ l]) (simp add: uartputc_sync_def WriteReg_def)
qed

lemma consputc_idle:
  assumes "\<not> panicked s" "length (echo c) \<le> idle (uart_lsr s)"
  shows "\<exists>l. consputc c s = Inr (s\<lparr>uart_lsr := l, uart_out := uart_out s @ map (Pair THR) (echo c)\<rparr>) \<and>
     idle l + length (echo c) = idle (uart_lsr s)"
proof (cases "c = BACKSPACE")
  case True
  let ?a = "\<lambda>l out. s\<lparr>uart_lsr := l, uart_out := uart_out s @ out\<rparr>"
  have i: "3 \<le> idle (uart_lsr s)" using assms(2) True by (simp add: echo_def)
  obtain l1 where 1: "uartputc_sync 8 s = Inr (?a l1 [(THR, 8)])" "Suc (idle l1) = idle (uart_lsr s)"
    using uartputc_sync_idle [of s 8] assms(1) i by auto
  obtain l2 where 2: "uartputc_sync 32 (?a l1 [(THR, 8)]) = Inr (?a l2 [(THR, 8), (THR, 32)])" "Suc (idle l2) = idle l1"
    using uartputc_sync_idle [of "?a l1 [(THR, 8)]" 32] assms(1) i 1(2) by auto
  obtain l3 where 3: "uartputc_sync 8 (?a l2 [(THR, 8), (THR, 32)]) = Inr (?a l3 [(THR, 8), (THR, 32), (THR, 8)])" "Suc (idle l3) = idle l2"
    using uartputc_sync_idle [of "?a l2 [(THR, 8), (THR, 32)]" 8] assms(1) i 1(2) 2(2) by auto
  show ?thesis using True 1 2 3 by (intro exI [of _ l3]) (simp add: consputc_def echo_def)
next
  case False
  then show ?thesis using uartputc_sync_idle [of s "of_nat c"] assms by (auto simp: consputc_def echo_def)
qed

lemma echo_byte [simp]: "echo (unat (c :: uchar)) = [c]"
proof -
  have "unat c \<noteq> BACKSPACE" unfolding BACKSPACE_def using unat_less_exp8 [of c] by linarith
  then show ?thesis by (simp add: echo_def)
qed

text \<open>A message without conversions.\<close>

definition plain :: "uchar list \<Rightarrow> bool" where
  "plain cs \<longleftrightarrow> (\<forall>c \<in> set cs. c \<noteq> 0 \<and> c \<noteq> of_char CHR ''%'')"

lemma printf_loop_plain:
  "plain cs \<Longrightarrow> \<not> panicked s \<Longrightarrow> length cs \<le> idle (uart_lsr s) \<Longrightarrow> returns (printf_loop cs ap s) (out_frame s)"
proof (induction cs arbitrary: s)
  case (Cons c cs)
  obtain l where l: "consputc (unat c) s = Inr (s\<lparr>uart_lsr := l, uart_out := uart_out s @ [(THR, c)]\<rparr>)" "idle l + 1 = idle (uart_lsr s)"
    using consputc_idle [of s "unat c"] Cons.prems by auto
  let ?u = "s\<lparr>uart_lsr := l, uart_out := uart_out s @ [(THR, c)]\<rparr>"
  have "returns (printf_loop cs ap ?u) (out_frame ?u)"
    by (rule Cons.IH) (use Cons.prems l(2) in \<open>auto simp: plain_def\<close>)
  then show ?case
    using Cons.prems(1) l(1) out_frame_trans [OF consputc_frame [OF l(1)]] by (auto simp: plain_def elim!: returns_mono)
qed simp

lemma printf_plain:
  assumes "plain (bytes fmt)" "\<not> panicked s" "length fmt \<le> idle (uart_lsr s)" "PrLock \<notin> set (held s)"
  shows "returns (printf fmt [] s) (out_frame s)"
proof -
  let ?s = "if pr_locking s then s\<lparr>held := PrLock # held s\<rparr> else s"
  have "returns (printf_loop (bytes fmt) [] ?s) (out_frame ?s)"
    by (rule printf_loop_plain) (use assms in \<open>simp_all add: bytes_def\<close>)
  then obtain t where t: "printf_loop (bytes fmt) [] ?s = Inr t" "out_frame ?s t" by (auto simp: returns_iff)
  from t(2) obtain l out where u: "t = ?s\<lparr>uart_lsr := l, uart_out := out\<rparr>" by (rule out_frameE)
  have "\<exists>u. printf fmt [] s = Inr u" using t(1) u assms(4) by (auto simp: printf_def Let_def lock_simps)
  then show ?thesis using printf_frame by (auto simp: returns_iff)
qed

end
