(* ===== verification/Console.thy ===== *)
theory Console
  imports Uart
begin

section \<open>The console\<close>

text \<open>
  \<^verbatim>\<open>kernel/console.c\<close>, with \<^verbatim>\<open>procdump\<close> of \<^verbatim>\<open>kernel/proc.c\<close> and the interrupt handler of
  \<^verbatim>\<open>kernel/uart.c\<close>. \<open>cons_r\<close>, \<open>cons_w\<close> and \<open>cons_e\<close> are the free-running
  32-bit indices of the input buffer. The specification is a line editor on two lists, the input that is ready
  to be read and the line being typed.
\<close>

definition INPUT_BUF_SIZE :: nat where [simp, code_unfold]: "INPUT_BUF_SIZE = 128"
definition CONSOLE :: nat where [simp, code_unfold]: "CONSOLE = 1"

definition Ctrl :: "char \<Rightarrow> uchar" where
  "Ctrl x = of_char x - of_char CHR ''@''"

lemma Ctrl_values [simp]: "Ctrl CHR ''P'' = 16" "Ctrl CHR ''U'' = 21" "Ctrl CHR ''H'' = 8" "Ctrl CHR ''D'' = 4"
  by (simp_all add: Ctrl_def)

text \<open>The functions a driver can enter into the device switch table.\<close>

datatype devread = ConsoleRead
datatype devwrite = ConsoleWrite

record devsw =
  dv_read :: "devread option"
  dv_write :: "devwrite option"

record consst = uartst +
  cons_buf :: "uchar list"
  cons_r :: uint
  cons_w :: uint
  cons_e :: uint
  devsws :: "nat \<Rightarrow> devsw"

subsection \<open>Reading and writing\<close>

fun consolewrite_loop :: "nat \<Rightarrow> source \<Rightarrow> nat \<Rightarrow> 'a uartst_scheme \<Rightarrow> exn + (nat \<times> 'a uartst_scheme)" where
  "consolewrite_loop 0 src i s = Inr (i, s)"
| "consolewrite_loop (Suc n) src i s =
     andthen (either_copyin (source_add src i) 1 s) (\<lambda>(r, cs, s).
     if r = - 1 then Inr (i, s)
     else andthen (uartputc (hd cs) s) (\<lambda>s. consolewrite_loop n src (Suc i) s))"

definition consolewrite :: "source \<Rightarrow> int \<Rightarrow> 'a uartst_scheme \<Rightarrow> exn + (int \<times> 'a uartst_scheme)" where
  "consolewrite src n s = andthen (consolewrite_loop (nat n) src 0 s) (\<lambda>(i, s). Inr (int i, s))"

text \<open>
  The loop of \<^verbatim>\<open>consoleread\<close> with the number of bytes still wanted; the result is that number at the end,
  or nothing where the process was killed and the lock is already released.
\<close>

fun consoleread_loop :: "nat \<Rightarrow> nat \<Rightarrow> dest \<Rightarrow> 'a consst_scheme \<Rightarrow> exn + (nat option \<times> 'a consst_scheme)" where
  "consoleread_loop target 0 dst s = Inr (Some 0, s)"
| "consoleread_loop target (Suc n) dst s =
     (if cons_r s = cons_w s
      then andthen (myproc s) (\<lambda>p.
           andthen (killed p s) (\<lambda>(k, s).
           if k \<noteq> 0 then andthen (release ConsLock s) (\<lambda>s. Inr (None, s))
           else sleep ChanConsR ConsLock s))
      else
        let c = cons_buf s ! (unat (cons_r s) mod INPUT_BUF_SIZE);
            s = s\<lparr>cons_r := cons_r s + 1\<rparr> in
        if c = Ctrl CHR ''D''
        then Inr (Some (Suc n), if Suc n < target then s\<lparr>cons_r := cons_r s - 1\<rparr> else s)
        else
          andthen (either_copyout dst [c] s) (\<lambda>(r, s).
          if r = - 1 then Inr (Some (Suc n), s)
          else if c = 10 then Inr (Some n, s)
          else consoleread_loop target n (dest_add dst 1) s))"

definition consoleread :: "dest \<Rightarrow> int \<Rightarrow> 'a consst_scheme \<Rightarrow> exn + (int \<times> 'a consst_scheme)" where
  "consoleread dst n s =
     andthen (acquire ConsLock s) (\<lambda>s.
     andthen (consoleread_loop (nat n) (nat n) dst s) (\<lambda>(r, s).
     case r of
       None \<Rightarrow> Inr (- 1, s)
     | Some m \<Rightarrow> andthen (release ConsLock s) (\<lambda>s. Inr (int (nat n - m), s))))"

subsection \<open>Interrupts\<close>

fun state_name :: "procstate \<Rightarrow> string" where
  "state_name UNUSED = ''unused''"
| "state_name USED = ''used''"
| "state_name SLEEPING = ''sleep ''"
| "state_name RUNNABLE = ''runble''"
| "state_name RUNNING = ''run   ''"
| "state_name ZOMBIE = ''zombie''"

definition procdump :: "'a uartst_scheme \<Rightarrow> exn + 'a uartst_scheme" where
  "procdump s =
     andthen (printf [CHR 10] [] s) (\<lambda>s.
     for_each [0..<NPROC] (\<lambda>p s.
       if p_state (pr s p) = UNUSED then Inr s
       else
         andthen (printf ''%d %s %s''
             [ArgInt (of_int (p_pid (pr s p))), ArgStr (Some (bytes (state_name (p_state (pr s p))))), ArgStr (Some (p_name (pr s p)))] s) (\<lambda>s.
         printf [CHR 10] [] s)) s)"

text \<open>Control-U: back to the start of the line.\<close>

function kill_line :: "'a consst_scheme \<Rightarrow> exn + 'a consst_scheme" where
  "kill_line s =
     (if cons_e s \<noteq> cons_w s \<and> cons_buf s ! (unat (cons_e s - 1) mod INPUT_BUF_SIZE) \<noteq> 10
      then andthen (consputc BACKSPACE (s\<lparr>cons_e := cons_e s - 1\<rparr>)) (\<lambda>s.
           kill_line s)
      else Inr s)"
  by pat_completeness auto
termination
proof (relation "measure (\<lambda>s. unat (cons_e s - cons_w s))")
  fix s t :: "'a consst_scheme"
  assume e: "cons_e s \<noteq> cons_w s \<and> cons_buf s ! (unat (cons_e s - 1) mod INPUT_BUF_SIZE) \<noteq> 10"
    and t: "consputc BACKSPACE (s\<lparr>cons_e := cons_e s - 1\<rparr>) = Inr t"
  from consputc_frame [OF t] have "cons_e t = cons_e s - 1" "cons_w t = cons_w s" by (auto elim: out_frameE)
  moreover have "unat (cons_e s - 1 - cons_w s) < unat (cons_e s - cons_w s)"
    using e unat_minus_one [of "cons_e s - cons_w s"] unat_gt_0 [of "cons_e s - cons_w s"] by (simp add: diff_right_commute)
  ultimately show "(t, s) \<in> measure (\<lambda>s. unat (cons_e s - cons_w s))" by simp
qed simp

declare kill_line.simps [simp del]

text \<open>An ordinary character: echo it, store it, and wake up the reader at the end of a line.\<close>

definition cons_append :: "uchar \<Rightarrow> 'a consst_scheme \<Rightarrow> exn + 'a consst_scheme" where
  "cons_append c s =
     (let s = s\<lparr>cons_buf := (cons_buf s)[unat (cons_e s) mod INPUT_BUF_SIZE := c], cons_e := cons_e s + 1\<rparr> in
      if c = 10 \<or> c = Ctrl CHR ''D'' \<or> unat (cons_e s - cons_r s) = INPUT_BUF_SIZE
      then wakeup ChanConsR (s\<lparr>cons_w := cons_e s\<rparr>)
      else Inr s)"

definition cons_store :: "uchar \<Rightarrow> 'a consst_scheme \<Rightarrow> exn + 'a consst_scheme" where
  "cons_store c s =
     (if c \<noteq> 0 \<and> unat (cons_e s - cons_r s) < INPUT_BUF_SIZE then
        (let c = (if c = 13 then 10 else c) in
         andthen (consputc (unat c) s) (\<lambda>s.
         cons_append c s))
      else Inr s)"

definition consoleintr :: "uchar \<Rightarrow> 'a consst_scheme \<Rightarrow> exn + 'a consst_scheme" where
  "consoleintr c s =
     andthen (acquire ConsLock s) (\<lambda>s.
     andthen
       (if c = Ctrl CHR ''P'' then procdump s
        else if c = Ctrl CHR ''U'' then kill_line s
        else if c = Ctrl CHR ''H'' \<or> c = 127 then
          (if cons_e s \<noteq> cons_w s then consputc BACKSPACE (s\<lparr>cons_e := cons_e s - 1\<rparr>) else Inr s)
        else cons_store c s) (\<lambda>s.
     release ConsLock s))"

definition consoleinit :: "'a consst_scheme \<Rightarrow> 'a consst_scheme" where
  "consoleinit s =
     (let s = uartinit s in
      s\<lparr>devsws := (devsws s)(CONSOLE := \<lparr>dv_read = Some ConsoleRead, dv_write = Some ConsoleWrite\<rparr>)\<rparr>)"

text \<open>The handler of the UART takes input for as long as the device has some.\<close>

lemma procdump_lsr: "procdump s = Inr t \<Longrightarrow> out_frame s t"
proof -
  have "out_frame a b" if "for_each ps (\<lambda>p s.
       if p_state (pr s p) = UNUSED then Inr s
       else
         andthen (printf ''%d %s %s''
             [ArgInt (of_int (p_pid (pr s p))), ArgStr (Some (bytes (state_name (p_state (pr s p))))), ArgStr (Some (p_name (pr s p)))] s) (\<lambda>s.
         printf [CHR 10] [] s)) a = Inr b" for ps and a b :: "'a uartst_scheme"
    using that by (induction ps arbitrary: a)
      (auto simp: andthen_eq_Inr split: if_splits dest!: printf_frame intro: out_frame_trans)
  then show "procdump s = Inr t \<Longrightarrow> out_frame s t"
    by (auto simp: procdump_def andthen_eq_Inr dest!: printf_frame intro: out_frame_trans)
qed

lemma kill_line_lsr: "kill_line s = Inr t \<Longrightarrow> length (uart_lsr t) \<le> length (uart_lsr s)"
proof (induction s rule: kill_line.induct)
  case (1 s)
  show ?case
  proof (cases "cons_e s \<noteq> cons_w s \<and> cons_buf s ! (unat (cons_e s - 1) mod INPUT_BUF_SIZE) \<noteq> 10")
    case True
    then obtain u where u: "consputc BACKSPACE (s\<lparr>cons_e := cons_e s - 1\<rparr>) = Inr u" "kill_line u = Inr t"
      using "1.prems" by (auto simp: kill_line.simps [of s] andthen_eq_Inr)
    then show ?thesis using "1.IH" [OF True u] consputc_frame [OF u(1)] by (simp add: out_frame_def)
  next
    case False
    then show ?thesis using "1.prems" by (auto simp: kill_line.simps [of s] split: if_splits)
  qed
qed

lemma cons_append_lsr: "cons_append c s = Inr t \<Longrightarrow> uart_lsr t = uart_lsr s"
  unfolding cons_append_def Let_def
  by (auto simp del: Ctrl_values split: if_splits dest: arg_cong [OF wakeup_frame, of _ _ _ uart_lsr])

lemma cons_store_lsr:
  assumes "cons_store c s = Inr t"
  shows "length (uart_lsr t) \<le> length (uart_lsr s)"
proof (cases "c \<noteq> 0 \<and> unat (cons_e s - cons_r s) < INPUT_BUF_SIZE")
  case True
  obtain d u where u: "consputc (unat d) s = Inr u" and v: "cons_append d u = Inr t"
    using assms True by (auto simp: cons_store_def andthen_eq_Inr Let_def)
  then show ?thesis using consputc_frame [OF u] cons_append_lsr [OF v] by (simp add: out_frame_def)
qed (use assms in \<open>auto simp: cons_store_def\<close>)

lemma consoleintr_lsr:
  assumes "consoleintr c s = Inr t"
  shows "length (uart_lsr t) \<le> length (uart_lsr s)"
proof -
  obtain a b where a: "acquire ConsLock s = Inr a" and b: "release ConsLock b = Inr t"
    and ab: "procdump a = Inr b \<or> kill_line a = Inr b \<or> consputc BACKSPACE (a\<lparr>cons_e := cons_e a - 1\<rparr>) = Inr b \<or>
      cons_store c a = Inr b \<or> b = a"
    using assms by (auto simp: consoleintr_def andthen_eq_Inr split: if_splits)
  from ab have "length (uart_lsr b) \<le> length (uart_lsr a)"
  proof (elim disjE)
    assume "consputc BACKSPACE (a\<lparr>cons_e := cons_e a - 1\<rparr>) = Inr b"
    from consputc_frame [OF this] show ?thesis by (simp add: out_frame_def)
  qed (auto simp: out_frame_def dest: procdump_lsr kill_line_lsr cons_store_lsr)
  moreover have "uart_lsr a = uart_lsr s" using a by (auto simp: acquire_def split: if_splits)
  moreover have "uart_lsr t = uart_lsr b" using b by (auto simp: release_def split: if_splits)
  ultimately show ?thesis by simp
qed

function uartintr_input :: "'a consst_scheme \<Rightarrow> exn + 'a consst_scheme" where
  "uartintr_input s =
     (case uartgetc s of
        (None, s) \<Rightarrow> Inr s
      | (Some c, s) \<Rightarrow> andthen (consoleintr c s) (\<lambda>s. uartintr_input s))"
  by pat_completeness auto
termination
proof (relation "measure (\<lambda>s. length (uart_lsr s))")
  fix s t u :: "'a consst_scheme" and x c
  assume g: "(x, t) = uartgetc s" "x = Some c" and i: "consoleintr c t = Inr u"
  have "length (uart_lsr t) < length (uart_lsr s)"
    using g by (cases "uart_lsr s") (auto simp: uartgetc_def read_lsr_def split: if_splits list.splits)
  then show "(u, s) \<in> measure (\<lambda>s. length (uart_lsr s))" using consoleintr_lsr [OF i] by simp
qed simp

definition uartintr :: "'a consst_scheme \<Rightarrow> exn + 'a consst_scheme" where
  "uartintr s =
     andthen (uartintr_input s) (\<lambda>s.
     andthen (acquire UartLock s) (\<lambda>s.
     andthen (uartstart s) (\<lambda>s.
     release UartLock s)))"

subsection \<open>The line discipline\<close>

text \<open>The specification: what is ready to be read, and the line that can still be edited.\<close>

fun line_edit :: "uchar \<Rightarrow> uchar list \<times> uchar list \<Rightarrow> uchar list \<times> uchar list" where
  "line_edit c (ready, line) =
     (if c = Ctrl CHR ''P'' then (ready, line)
      else if c = Ctrl CHR ''U'' then (ready, [])
      else if c = Ctrl CHR ''H'' \<or> c = 127 then (ready, butlast line)
      else if c \<noteq> 0 \<and> length ready + length line < INPUT_BUF_SIZE then
        (let c = (if c = 13 then 10 else c); line = line @ [c] in
         if c = 10 \<or> c = Ctrl CHR ''D'' \<or> length ready + length line = INPUT_BUF_SIZE then (ready @ line, []) else (ready, line))
      else (ready, line))"

definition cons_abs :: "'a consst_scheme \<Rightarrow> uchar list \<times> uchar list" where
  "cons_abs s = (ring_q (cons_buf s) (cons_r s) (cons_w s), ring_q (cons_buf s) (cons_w s) (cons_e s))"

text \<open>
  The invariant: the indices are in order and at most a buffer apart, and the line being typed has no newline.
\<close>

definition cons_ok :: "'a consst_scheme \<Rightarrow> bool" where
  "cons_ok s \<longleftrightarrow> length (cons_buf s) = INPUT_BUF_SIZE \<and> unat (cons_e s - cons_r s) \<le> INPUT_BUF_SIZE \<and>
     unat (cons_w s - cons_r s) + unat (cons_e s - cons_w s) = unat (cons_e s - cons_r s) \<and> 10 \<notin> set (snd (cons_abs s))"

definition cons_env :: "'a consst_scheme \<Rightarrow> bool" where
  "cons_env s \<longleftrightarrow> cons_ok s \<and> no_plock s \<and> length (ptable s) = NPROC \<and> \<not> panicked s"

lemma cons_fields [simp]:
  "cons_ok (s\<lparr>held := h\<rparr>) = cons_ok s" "cons_ok (s\<lparr>uart_lsr := l\<rparr>) = cons_ok s" "cons_ok (s\<lparr>uart_out := out\<rparr>) = cons_ok s"
  "cons_ok (s\<lparr>ptable := tb\<rparr>) = cons_ok s"
  "cons_abs (s\<lparr>held := h\<rparr>) = cons_abs s" "cons_abs (s\<lparr>uart_lsr := l\<rparr>) = cons_abs s" "cons_abs (s\<lparr>uart_out := out\<rparr>) = cons_abs s"
  "cons_abs (s\<lparr>ptable := tb\<rparr>) = cons_abs s"
  by (simp_all add: cons_ok_def cons_abs_def)

lemma cons_abs_lengths: "length (fst (cons_abs s)) = unat (cons_w s - cons_r s)" "length (snd (cons_abs s)) = unat (cons_e s - cons_w s)"
  by (simp_all add: cons_abs_def)

lemma cons_back:
  assumes "cons_ok s" "cons_e s \<noteq> cons_w s"
  shows "cons_ok (s\<lparr>cons_e := cons_e s - 1\<rparr>)" "cons_abs (s\<lparr>cons_e := cons_e s - 1\<rparr>) = (fst (cons_abs s), butlast (snd (cons_abs s)))"
    "last (snd (cons_abs s)) = cons_buf s ! (unat (cons_e s - 1) mod INPUT_BUF_SIZE)"
proof -
  have l: "length (cons_buf s) = INPUT_BUF_SIZE" using assms(1) by (simp add: cons_ok_def)
  have ne: "cons_e s \<noteq> cons_r s" 
    using assms ring_unput(2) [OF assms(2)] by (auto simp: cons_ok_def)
  note u = ring_unput(1) [OF assms(2), of "cons_buf s"] ring_unput(2) [OF assms(2)] ring_unput(2) [OF ne]
  show "cons_ok (s\<lparr>cons_e := cons_e s - 1\<rparr>)" using assms(1) u by (simp add: cons_ok_def cons_abs_def)
  show "cons_abs (s\<lparr>cons_e := cons_e s - 1\<rparr>) = (fst (cons_abs s), butlast (snd (cons_abs s)))" using u by (simp add: cons_abs_def)
  show "last (snd (cons_abs s)) = cons_buf s ! (unat (cons_e s - 1) mod INPUT_BUF_SIZE)" using u l by (simp add: cons_abs_def)
qed

text \<open>What a step of the handler, run with the lock held, has to establish.\<close>

definition cons_step :: "(uchar list \<times> uchar list \<Rightarrow> uchar list \<times> uchar list) \<Rightarrow> 'a consst_scheme \<Rightarrow> 'a consst_scheme \<Rightarrow> bool" where
  "cons_step f s t \<longleftrightarrow> cons_env t \<and> held t = held s \<and> cons_abs t = f (cons_abs s)"

lemma echo_backspace [simp]: "length (echo BACKSPACE) = 3"
  by (simp add: echo_def)

lemma backspace_step:
  assumes "cons_env s" "cons_e s \<noteq> cons_w s" "3 \<le> idle (uart_lsr s)"
  shows "returns (consputc BACKSPACE (s\<lparr>cons_e := cons_e s - 1\<rparr>)) (\<lambda>t.
     cons_step (\<lambda>(ready, line). (ready, butlast line)) s t \<and> idle (uart_lsr t) + 3 = idle (uart_lsr s))"
proof -
  let ?s = "s\<lparr>cons_e := cons_e s - 1\<rparr>"
  have o: "cons_ok s" using assms(1) by (simp add: cons_env_def)
  obtain l where l: "consputc BACKSPACE ?s = Inr (?s\<lparr>uart_lsr := l, uart_out := uart_out s @ map (Pair THR) (echo BACKSPACE)\<rparr>)"
    "idle l + 3 = idle (uart_lsr s)"
    using consputc_idle [of ?s BACKSPACE] assms unfolding echo_backspace by (auto simp: cons_env_def)
  show ?thesis
    unfolding l(1) using assms(1) l(2) cons_back [OF o assms(2)]
    by (simp add: cons_step_def cons_env_def no_plock_def case_prod_unfold)
qed

lemma kill_line_step:
  "cons_env s \<Longrightarrow> 3 * length (snd (cons_abs s)) \<le> idle (uart_lsr s) \<Longrightarrow>
   returns (kill_line s) (cons_step (\<lambda>(ready, line). (ready, [])) s)"
proof (induction s rule: kill_line.induct)
  case (1 s)
  have o: "cons_ok s" using "1.prems" by (simp add: cons_env_def)
  show ?case
  proof (cases "cons_e s = cons_w s")
    case True
    then show ?thesis using "1.prems" by (simp add: kill_line.simps [of s] cons_step_def cons_abs_def)
  next
    case False
    have n: "snd (cons_abs s) \<noteq> []" using False by (simp add: cons_abs_def ring_unput(1))
    have g: "cons_e s \<noteq> cons_w s \<and> cons_buf s ! (unat (cons_e s - 1) mod INPUT_BUF_SIZE) \<noteq> 10"
      using False o cons_back(3) [OF o False] last_in_set [OF n] by (auto simp: cons_ok_def)
    have "3 \<le> idle (uart_lsr s)" using "1.prems"(2) n by (cases "snd (cons_abs s)") auto
    from backspace_step [OF "1.prems"(1) False this] obtain t where t: "consputc BACKSPACE (s\<lparr>cons_e := cons_e s - 1\<rparr>) = Inr t"
      "cons_step (\<lambda>(ready, line). (ready, butlast line)) s t" "idle (uart_lsr t) + 3 = idle (uart_lsr s)"
      by (auto simp: returns_iff)
    have "returns (kill_line t) (cons_step (\<lambda>(ready, line). (ready, [])) t)"
      by (rule "1.IH" [OF g t(1)]) (use t "1.prems" n in \<open>auto simp: cons_step_def case_prod_unfold\<close>)
    then show ?thesis
      unfolding kill_line.simps [of s] using g t(1,2)
      by (auto simp: cons_step_def case_prod_unfold elim!: returns_mono)
  qed
qed

text \<open>Storing a character at the end of the line.\<close>

lemma cons_put:
  fixes c :: uchar
  assumes o: "cons_ok s" and f: "unat (cons_e s - cons_r s) < INPUT_BUF_SIZE"
  defines "t \<equiv> s\<lparr>cons_buf := (cons_buf s)[unat (cons_e s) mod INPUT_BUF_SIZE := c], cons_e := cons_e s + 1\<rparr>"
  shows "cons_abs t = (fst (cons_abs s), snd (cons_abs s) @ [c])" "c \<noteq> 10 \<Longrightarrow> cons_ok t"
    "cons_ok (t\<lparr>cons_w := cons_e t\<rparr>)" "cons_abs (t\<lparr>cons_w := cons_e t\<rparr>) = (fst (cons_abs s) @ snd (cons_abs s) @ [c], [])"
    "unat (cons_e t - cons_r t) = Suc (unat (cons_e s - cons_r s))"
proof -
  let ?b = "cons_buf s" and ?r = "cons_r s" and ?w = "cons_w s" and ?e = "cons_e s"
  let ?c = "?b[unat ?e mod INPUT_BUF_SIZE := c]"
  have l: "length ?b = 128" and i: "unat (?w - ?r) + unat (?e - ?w) = unat (?e - ?r)" and nl: "10 \<notin> set (ring_q ?b ?w ?e)"
    using o by (simp_all add: cons_ok_def cons_abs_def)
  have ur: "unat (?e + 1 - ?r) = Suc (unat (?e - ?r))" by (rule ring_diff_Suc) (use f in simp)
  have uw: "unat (?e + 1 - ?w) = Suc (unat (?e - ?w))" by (rule ring_diff_Suc) (use f i in simp)
  have i': "unat (?w - ?r) + unat (?e + 1 - ?w) = unat (?e + 1 - ?r)" using ur uw i by simp
  have p: "ring_q ?c ?r (?e + 1) = ring_q ?b ?r ?e @ [c]" using ring_put [of ?b ?e ?r c] l f by simp
  have "ring_q ?c ?r ?w @ ring_q ?c ?w (?e + 1) = ring_q ?b ?r ?w @ (ring_q ?b ?w ?e @ [c])"
    using p ring_q_append [OF i, of ?b] ring_q_append [OF i', of ?c] by simp
  then have q: "ring_q ?c ?r ?w = ring_q ?b ?r ?w" "ring_q ?c ?w (?e + 1) = ring_q ?b ?w ?e @ [c]"
    by (simp_all add: append_eq_append_conv)
  show "cons_abs t = (fst (cons_abs s), snd (cons_abs s) @ [c])" using q by (simp add: t_def cons_abs_def)
  show "c \<noteq> 10 \<Longrightarrow> cons_ok t" using q l f i' ur nl by (simp add: t_def cons_ok_def cons_abs_def)
  show "cons_ok (t\<lparr>cons_w := cons_e t\<rparr>)" using l f ur by (simp add: t_def cons_ok_def cons_abs_def)
  show "cons_abs (t\<lparr>cons_w := cons_e t\<rparr>) = (fst (cons_abs s) @ snd (cons_abs s) @ [c], [])"
    using p ring_q_append [OF i, of ?b] by (simp add: t_def cons_abs_def)
  show "unat (cons_e t - cons_r t) = Suc (unat (cons_e s - cons_r s))" using ur by (simp add: t_def)
qed

lemma cons_append_step:
  assumes "cons_env s" "unat (cons_e s - cons_r s) < INPUT_BUF_SIZE"
  shows "returns (cons_append c s) (cons_step (\<lambda>(ready, line).
     if c = 10 \<or> c = Ctrl CHR ''D'' \<or> Suc (length ready + length line) = INPUT_BUF_SIZE then (ready @ line @ [c], []) else (ready, line @ [c])) s)"
proof -
  define t where "t = s\<lparr>cons_buf := (cons_buf s)[unat (cons_e s) mod INPUT_BUF_SIZE := c], cons_e := cons_e s + 1\<rparr>"
  have o: "cons_ok s" using assms(1) by (simp add: cons_env_def)
  note p = cons_put [OF o assms(2), of c, folded t_def]
  have n: "no_plock t" "length (ptable t) = NPROC" "\<not> panicked t" "held t = held s" "cons_r t = cons_r s"
    using assms(1) by (simp_all add: t_def cons_env_def no_plock_def)
  have len: "length (fst (cons_abs s)) + length (snd (cons_abs s)) = unat (cons_e s - cons_r s)"
    using o unfolding cons_abs_lengths by (simp add: cons_ok_def)
  let ?g = "c = 10 \<or> c = Ctrl CHR ''D'' \<or> unat (cons_e t - cons_r t) = INPUT_BUF_SIZE"
  have e: "cons_append c s = (if ?g then wakeup ChanConsR (t\<lparr>cons_w := cons_e t\<rparr>) else Inr t)"
    unfolding cons_append_def t_def [symmetric] Let_def by (simp add: t_def)
  show ?thesis
  proof (cases ?g)
    case True
    have "wakeup ChanConsR (t\<lparr>cons_w := cons_e t\<rparr>) = Inr (t\<lparr>cons_w := cons_e t\<rparr>\<lparr>ptable :=
        map (\<lambda>i. wake_entry ChanConsR (curproc (t\<lparr>cons_w := cons_e t\<rparr>)) i (ptable (t\<lparr>cons_w := cons_e t\<rparr>) ! i)) [0..<NPROC]\<rparr>)"
      by (rule wakeup_eq) (use n in \<open>simp_all add: no_plock_def\<close>)
    then show ?thesis unfolding e using True n p len
      by (simp add: cons_step_def cons_env_def no_plock_def case_prod_unfold)
  next
    case False
    then show ?thesis unfolding e using n p len
      by (simp add: cons_step_def cons_env_def case_prod_unfold)
  qed
qed

lemma cons_store_step:
  assumes "cons_env s" "0 < idle (uart_lsr s)" "c \<noteq> Ctrl CHR ''P''" "c \<noteq> Ctrl CHR ''U''" "c \<noteq> Ctrl CHR ''H''" "c \<noteq> 127"
  shows "returns (cons_store c s) (cons_step (line_edit c) s)"
proof (cases "c \<noteq> 0 \<and> unat (cons_e s - cons_r s) < INPUT_BUF_SIZE")
  case True
  define d where "d = (if c = 13 then 10 else c)"
  have o: "cons_ok s" using assms(1) by (simp add: cons_env_def)
  have len: "length (fst (cons_abs s)) + length (snd (cons_abs s)) = unat (cons_e s - cons_r s)"
    using o unfolding cons_abs_lengths by (simp add: cons_ok_def)
  obtain l where l: "consputc (unat d) s = Inr (s\<lparr>uart_lsr := l, uart_out := uart_out s @ [(THR, d)]\<rparr>)"
    using consputc_idle [of s "unat d"] assms(1,2) by (auto simp: cons_env_def)
  let ?u = "s\<lparr>uart_lsr := l, uart_out := uart_out s @ [(THR, d)]\<rparr>"
  have u: "cons_env ?u" using assms(1) by (simp add: cons_env_def no_plock_def)
  have "cons_store c s = cons_append d ?u" using True l by (simp add: cons_store_def d_def)
  then show ?thesis
    using cons_append_step [OF u, of d] True assms(3-) len
    by (cases "cons_abs s") (auto simp: cons_step_def Let_def d_def elim!: returns_mono)
next
  case False
  have "length (fst (cons_abs s)) + length (snd (cons_abs s)) = unat (cons_e s - cons_r s)"
    using assms(1) unfolding cons_abs_lengths by (simp add: cons_ok_def cons_env_def)
  then show ?thesis using False assms by (cases "cons_abs s") (auto simp: cons_store_def cons_step_def)
qed

text \<open>
  C34: the console's input handler refines the line editor. On every input byte but control-P, with a
  device that takes the echo, it returns with its lock released, keeps the order of the three
  indices, and does to the circular buffer exactly what the line editor does to its two lists: backspace
  and kill-line affect the unfinished line only, a full buffer drops the byte, and a line becomes readable
  at a newline, at control-D and when the buffer is full, wherever the 32-bit indices wrap around.
\<close>

theorem consoleintr_refines:
  assumes "cons_env s" "ConsLock \<notin> set (held s)" "c \<noteq> Ctrl CHR ''P''" "3 * INPUT_BUF_SIZE \<le> idle (uart_lsr s)"
  shows "returns (consoleintr c s) (\<lambda>t. cons_env t \<and> held t = held s \<and> cons_abs t = line_edit c (cons_abs s))"
proof -
  let ?s = "s\<lparr>held := ConsLock # held s\<rparr>"
  have e: "cons_env ?s" using assms(1) by (simp add: cons_env_def no_plock_def)
  have "length (snd (cons_abs ?s)) \<le> INPUT_BUF_SIZE" using assms(1) unfolding cons_abs_lengths by (simp add: cons_env_def cons_ok_def)
  then have i: "3 * length (snd (cons_abs ?s)) \<le> idle (uart_lsr ?s)" using assms(4) by simp
  let ?body = "if c = Ctrl CHR ''P'' then procdump ?s
        else if c = Ctrl CHR ''U'' then kill_line ?s
        else if c = Ctrl CHR ''H'' \<or> c = 127 then
          (if cons_e ?s \<noteq> cons_w ?s then consputc BACKSPACE (?s\<lparr>cons_e := cons_e ?s - 1\<rparr>) else Inr ?s)
        else cons_store c ?s"
  have r: "returns ?body (cons_step (line_edit c) ?s)"
  proof (cases "c = Ctrl CHR ''U'' \<or> c = Ctrl CHR ''H'' \<or> c = 127")
    case True
    then show ?thesis
    proof (cases "c = Ctrl CHR ''U''")
      case True
      then show ?thesis using kill_line_step [OF e i] assms(3) by (cases "cons_abs s") (auto simp: cons_step_def elim!: returns_mono)
    next
      case False
      then have "c = 8 \<or> c = 127" using True by simp
      then show ?thesis using backspace_step [OF e] assms(4) e
        by (cases "cons_abs s") (auto simp: cons_step_def cons_abs_def elim!: returns_mono)
    qed
  next
    case False
    then show ?thesis using cons_store_step [OF e] assms(3,4) by auto
  qed
  have "returns ?body (\<lambda>t. returns (release ConsLock t) (\<lambda>t. cons_env t \<and> held t = held s \<and> cons_abs t = line_edit c (cons_abs s)))"
    by (rule returns_mono [OF r]) (use assms in \<open>auto simp: cons_step_def lock_simps cons_env_def no_plock_def\<close>)
  then show ?thesis
    unfolding consoleintr_def acquire_free [OF assms(2)] andthen.simps returns_andthen .
qed

definition demo_cons :: "uint \<Rightarrow> uchar list \<Rightarrow> consst" where
  "demo_cons i l = uartst.extend (demo_uart 0 l) (consst.fields (replicate INPUT_BUF_SIZE 0) i i i (\<lambda>_. \<lparr>dv_read = None, dv_write = None\<rparr>))"

lemma demo_cons_env: "cons_env (demo_cons i l)" "held (demo_cons i l) = []" "cons_abs (demo_cons i l) = ([], [])" "uart_lsr (demo_cons i l) = l"
  by (simp_all add: demo_cons_def uartst.extend_def consst.fields_def cons_env_def cons_ok_def cons_abs_def
      demo_uart_def logst.extend_def uartst.fields_def no_plock_def demo_log_simps del: replicate_Suc)

theorem consoleintr_refines_witness:
  "returns (consoleintr 97 (demo_cons 0xffffffff (replicate 400 0x20))) (\<lambda>t. cons_env t \<and> cons_abs t = ([], [97]))"
  by (rule returns_mono [OF consoleintr_refines [of "demo_cons 0xffffffff (replicate 400 0x20)" 97]])
    (simp_all add: demo_cons_env idle_def)

end
