(* ===== verification/Fs.thy ===== *)
theory Fs
  imports Console
begin

section \<open>The file system\<close>

text \<open>
  \<^verbatim>\<open>kernel/fs.c\<close>, with \<^verbatim>\<open>struct inode\<close> of \<^verbatim>\<open>kernel/file.h\<close>: the block allocator, the inode table,
  the contents of inodes, directories and path names. An in-memory inode is named by its index in the table, and a null
  pointer is \<open>None\<close>. Block numbers, offsets and sizes are natural numbers below \<open>2 ^ 32\<close>, with the
  wrap-around of their sums written out. Reading gives back the bytes that were read besides storing them, for
  the callers that read into a structure of their own. Strings are lists of bytes in which the first 0,
  or the end of the list, is the terminator.
\<close>

subsection \<open>Data\<close>

record inode =
  i_dev :: nat
  i_inum :: nat
  i_ref :: int
  i_valid :: bool
  i_type :: ushort
  i_major :: ushort
  i_minor :: ushort
  i_nlink :: ushort
  i_size :: nat
  i_addrs :: "nat list"

record stat =
  st_dev :: nat
  st_ino :: nat
  st_type :: ushort
  st_nlink :: ushort
  st_size :: nat

text \<open>The modes of \<^verbatim>\<open>kernel/fcntl.h\<close>.\<close>

definition O_RDONLY :: uint where [simp, code_unfold]: "O_RDONLY = 0"
definition O_WRONLY :: uint where [simp, code_unfold]: "O_WRONLY = 1"
definition O_RDWR :: uint where [simp, code_unfold]: "O_RDWR = 2"
definition O_CREATE :: uint where [simp, code_unfold]: "O_CREATE = 0x200"
definition O_TRUNC :: uint where [simp, code_unfold]: "O_TRUNC = 0x400"

record fsst = consst +
  sb :: superblock
  itable :: "inode list"

definition ino :: "'a fsst_scheme \<Rightarrow> nat \<Rightarrow> inode" where
  "ino s i = itable s ! i"

definition upd_ino :: "nat \<Rightarrow> (inode \<Rightarrow> inode) \<Rightarrow> 'a fsst_scheme \<Rightarrow> 'a fsst_scheme" where
  "upd_ino i f s = s\<lparr>itable := (itable s)[i := f (itable s ! i)]\<rparr>"

definition add32 :: "nat \<Rightarrow> nat \<Rightarrow> nat" where
  "add32 a b = (a + b) mod 2 ^ 32"

subsection \<open>Blocks\<close>

definition readsb :: "nat \<Rightarrow> 'a fsst_scheme \<Rightarrow> exn + 'a fsst_scheme" where
  "readsb dev s =
     andthen (bread dev 1 s) (\<lambda>(bp, s).
     let s = s\<lparr>sb := get_superblock (b_data (bf s bp))\<rparr> in
     brelse bp s)"

definition fsinit :: "nat \<Rightarrow> 'a fsst_scheme \<Rightarrow> exn + 'a fsst_scheme" where
  "fsinit dev s =
     andthen (readsb dev s) (\<lambda>s.
     if sb_magic (sb s) \<noteq> FSMAGIC then Inl (Panic ''invalid file system'')
     else initlog dev (sb s) s)"

definition bzero :: "nat \<Rightarrow> nat \<Rightarrow> 'a fsst_scheme \<Rightarrow> exn + 'a fsst_scheme" where
  "bzero dev bno s =
     andthen (bread dev bno s) (\<lambda>(bp, s).
     let s = put_data bp (replicate BSIZE 0) s in
     andthen (log_write bp s) (\<lambda>s.
     brelse bp s))"

text \<open>The bits of a bitmap block.\<close>

definition bmask :: "nat \<Rightarrow> uchar" where
  "bmask bi = push_bit (bi mod 8) 1"

definition bit_free :: "block \<Rightarrow> nat \<Rightarrow> bool" where
  "bit_free d bi \<longleftrightarrow> d ! (bi div 8) AND bmask bi = 0"

definition bit_set :: "nat \<Rightarrow> block \<Rightarrow> block" where
  "bit_set bi d = d[bi div 8 := d ! (bi div 8) OR bmask bi]"

definition bit_clear :: "nat \<Rightarrow> block \<Rightarrow> block" where
  "bit_clear bi d = d[bi div 8 := d ! (bi div 8) AND NOT (bmask bi)]"

fun balloc_scan :: "nat \<Rightarrow> nat list \<Rightarrow> 'a fsst_scheme \<Rightarrow> exn + (nat \<times> 'a fsst_scheme)" where
  "balloc_scan dev [] s = andthen (printf (''balloc: out of blocks'' @ [CHR 10]) [] s) (\<lambda>s. Inr (0, s))"
| "balloc_scan dev (b # bs) s =
     andthen (bread dev (BBLOCK b (sb s)) s) (\<lambda>(bp, s).
     case find (bit_free (b_data (bf s bp))) [0..<min BPB (sb_size (sb s) - b)] of
       Some bi \<Rightarrow>
         let s = put_data bp (bit_set bi (b_data (bf s bp))) s in
         andthen (log_write bp s) (\<lambda>s.
         andthen (brelse bp s) (\<lambda>s.
         andthen (bzero dev (b + bi) s) (\<lambda>s.
         Inr (b + bi, s))))
     | None \<Rightarrow> andthen (brelse bp s) (balloc_scan dev bs))"

definition balloc :: "nat \<Rightarrow> 'a fsst_scheme \<Rightarrow> exn + (nat \<times> 'a fsst_scheme)" where
  "balloc dev s = balloc_scan dev (map (\<lambda>k. k * BPB) [0..<(sb_size (sb s) + BPB - 1) div BPB]) s"

definition bfree :: "nat \<Rightarrow> nat \<Rightarrow> 'a fsst_scheme \<Rightarrow> exn + 'a fsst_scheme" where
  "bfree dev b s =
     andthen (bread dev (BBLOCK b (sb s)) s) (\<lambda>(bp, s).
     let bi = b mod BPB in
     if bit_free (b_data (bf s bp)) bi then Inl (Panic ''freeing free block'')
     else
       let s = put_data bp (bit_clear bi (b_data (bf s bp))) s in
       andthen (log_write bp s) (\<lambda>s.
       brelse bp s))"

subsection \<open>Inodes\<close>

definition iinit :: "'a fsst_scheme \<Rightarrow> 'a fsst_scheme" where
  "iinit s = fold (\<lambda>i. initsleeplock (InodeLock i)) [0..<NINODE] s"

text \<open>One pass over the table: the entry that matches, or else the first free one.\<close>

fun iget_scan :: "nat \<Rightarrow> nat \<Rightarrow> nat list \<Rightarrow> nat option \<Rightarrow> 'a fsst_scheme \<Rightarrow> nat option \<times> nat option" where
  "iget_scan dev inum [] free s = (None, free)"
| "iget_scan dev inum (ip # ips) free s =
     (if i_ref (ino s ip) > 0 \<and> i_dev (ino s ip) = dev \<and> i_inum (ino s ip) = inum then (Some ip, free)
      else iget_scan dev inum ips (if free = None \<and> i_ref (ino s ip) = 0 then Some ip else free) s)"

definition iget :: "nat \<Rightarrow> nat \<Rightarrow> 'a fsst_scheme \<Rightarrow> exn + (nat \<times> 'a fsst_scheme)" where
  "iget dev inum s =
     andthen (acquire ItableLock s) (\<lambda>s.
     case iget_scan dev inum [0..<NINODE] None s of
       (Some ip, _) \<Rightarrow>
         let s = upd_ino ip (\<lambda>q. q\<lparr>i_ref := i_ref q + 1\<rparr>) s in
         andthen (release ItableLock s) (\<lambda>s. Inr (ip, s))
     | (None, None) \<Rightarrow> Inl (Panic ''iget: no inodes'')
     | (None, Some ip) \<Rightarrow>
         let s = upd_ino ip (\<lambda>q. q\<lparr>i_dev := dev, i_inum := inum, i_ref := 1, i_valid := False\<rparr>) s in
         andthen (release ItableLock s) (\<lambda>s. Inr (ip, s)))"

fun ialloc_scan :: "nat \<Rightarrow> ushort \<Rightarrow> nat list \<Rightarrow> 'a fsst_scheme \<Rightarrow> exn + (nat option \<times> 'a fsst_scheme)" where
  "ialloc_scan dev ty [] s = andthen (printf (''ialloc: no inodes'' @ [CHR 10]) [] s) (\<lambda>s. Inr (None, s))"
| "ialloc_scan dev ty (inum # inums) s =
     andthen (bread dev (IBLOCK inum (sb s)) s) (\<lambda>(bp, s).
     let off = 64 * (inum mod IPB) in
     if di_type (get_dinode off (b_data (bf s bp))) = 0 then
       let d = \<lparr>di_type = ty, di_major = 0, di_minor = 0, di_nlink = 0, di_size = 0, di_addrs = replicate (NDIRECT + 1) 0\<rparr>;
           s = put_data bp (put_dinode off d (b_data (bf s bp))) s in
       andthen (log_write bp s) (\<lambda>s.
       andthen (brelse bp s) (\<lambda>s.
       andthen (iget dev inum s) (\<lambda>(ip, s). Inr (Some ip, s))))
     else andthen (brelse bp s) (ialloc_scan dev ty inums))"

definition ialloc :: "nat \<Rightarrow> ushort \<Rightarrow> 'a fsst_scheme \<Rightarrow> exn + (nat option \<times> 'a fsst_scheme)" where
  "ialloc dev ty s = ialloc_scan dev ty [1..<sb_ninodes (sb s)] s"

text \<open>What \<^verbatim>\<open>iupdate\<close> stores of an inode and what \<^verbatim>\<open>ilock\<close> loads into it.\<close>

definition dinode_of :: "inode \<Rightarrow> dinode" where
  "dinode_of q = \<lparr>di_type = i_type q, di_major = i_major q, di_minor = i_minor q, di_nlink = i_nlink q, di_size = i_size q, di_addrs = i_addrs q\<rparr>"

definition load_dinode :: "dinode \<Rightarrow> inode \<Rightarrow> inode" where
  "load_dinode d q = q\<lparr>i_type := di_type d, i_major := di_major d, i_minor := di_minor d, i_nlink := di_nlink d, i_size := di_size d, i_addrs := di_addrs d\<rparr>"

definition iupdate :: "nat \<Rightarrow> 'a fsst_scheme \<Rightarrow> exn + 'a fsst_scheme" where
  "iupdate ip s =
     andthen (bread (i_dev (ino s ip)) (IBLOCK (i_inum (ino s ip)) (sb s)) s) (\<lambda>(bp, s).
     let s = put_data bp (put_dinode (64 * (i_inum (ino s ip) mod IPB)) (dinode_of (ino s ip)) (b_data (bf s bp))) s in
     andthen (log_write bp s) (\<lambda>s.
     brelse bp s))"

definition idup :: "nat \<Rightarrow> 'a fsst_scheme \<Rightarrow> exn + (nat \<times> 'a fsst_scheme)" where
  "idup ip s =
     andthen (acquire ItableLock s) (\<lambda>s.
     let s = upd_ino ip (\<lambda>q. q\<lparr>i_ref := i_ref q + 1\<rparr>) s in
     andthen (release ItableLock s) (\<lambda>s.
     Inr (ip, s)))"

definition ilock :: "nat \<Rightarrow> 'a fsst_scheme \<Rightarrow> exn + 'a fsst_scheme" where
  "ilock ip s =
     (if i_ref (ino s ip) < 1 then Inl (Panic ''ilock'')
      else
        andthen (acquiresleep (InodeLock ip) s) (\<lambda>s.
        if \<not> i_valid (ino s ip) then
          andthen (bread (i_dev (ino s ip)) (IBLOCK (i_inum (ino s ip)) (sb s)) s) (\<lambda>(bp, s).
          let s = upd_ino ip (load_dinode (get_dinode (64 * (i_inum (ino s ip) mod IPB)) (b_data (bf s bp)))) s in
          andthen (brelse bp s) (\<lambda>s.
          let s = upd_ino ip (\<lambda>q. q\<lparr>i_valid := True\<rparr>) s in
          if i_type (ino s ip) = 0 then Inl (Panic ''ilock: no type'') else Inr s))
        else Inr s))"

definition iunlock :: "nat \<Rightarrow> 'a fsst_scheme \<Rightarrow> exn + 'a fsst_scheme" where
  "iunlock ip s =
     andthen (holdingsleep (InodeLock ip) s) (\<lambda>(r, s).
     if \<not> r \<or> i_ref (ino s ip) < 1 then Inl (Panic ''iunlock'')
     else releasesleep (InodeLock ip) s)"

subsection \<open>The blocks of an inode\<close>

text \<open>
  An entry of \<^verbatim>\<open>ip->addrs\<close>, with a block allocated for it if it has none, and an entry of the indirect block likewise.
\<close>

definition bmap_slot :: "nat \<Rightarrow> nat \<Rightarrow> 'a fsst_scheme \<Rightarrow> exn + (nat \<times> 'a fsst_scheme)" where
  "bmap_slot ip i s =
     (if i_addrs (ino s ip) ! i = 0 then
        andthen (balloc (i_dev (ino s ip)) s) (\<lambda>(addr, s).
        if addr = 0 then Inr (0, s)
        else Inr (addr, upd_ino ip (\<lambda>q. q\<lparr>i_addrs := (i_addrs q)[i := addr]\<rparr>) s))
      else Inr (i_addrs (ino s ip) ! i, s))"

definition bmap_entry :: "nat \<Rightarrow> nat \<Rightarrow> nat \<Rightarrow> 'a fsst_scheme \<Rightarrow> exn + (nat \<times> 'a fsst_scheme)" where
  "bmap_entry ip j addr s =
     andthen (bread (i_dev (ino s ip)) addr s) (\<lambda>(bp, s).
     andthen
       (if getn 4 (4 * j) (b_data (bf s bp)) = 0 then
          andthen (balloc (i_dev (ino s ip)) s) (\<lambda>(addr, s).
          if addr \<noteq> 0 then
            andthen (log_write bp (put_data bp (putn 4 (4 * j) addr (b_data (bf s bp))) s)) (\<lambda>s. Inr (addr, s))
          else Inr (addr, s))
        else Inr (getn 4 (4 * j) (b_data (bf s bp)), s)) (\<lambda>(addr, s).
     andthen (brelse bp s) (\<lambda>s.
     Inr (addr, s))))"

definition bmap :: "nat \<Rightarrow> nat \<Rightarrow> 'a fsst_scheme \<Rightarrow> exn + (nat \<times> 'a fsst_scheme)" where
  "bmap ip bn s =
     (if bn < NDIRECT then bmap_slot ip bn s
      else if bn - NDIRECT < NINDIRECT then
        andthen (bmap_slot ip NDIRECT s) (\<lambda>(addr, s).
        if addr = 0 then Inr (0, s) else bmap_entry ip (bn - NDIRECT) addr s)
      else Inl (Panic ''bmap: out of range''))"

definition itrunc :: "nat \<Rightarrow> 'a fsst_scheme \<Rightarrow> exn + 'a fsst_scheme" where
  "itrunc ip s =
     andthen (for_each [0..<NDIRECT] (\<lambda>i s.
       if i_addrs (ino s ip) ! i \<noteq> 0 then
         andthen (bfree (i_dev (ino s ip)) (i_addrs (ino s ip) ! i) s) (\<lambda>s.
         Inr (upd_ino ip (\<lambda>q. q\<lparr>i_addrs := (i_addrs q)[i := 0]\<rparr>) s))
       else Inr s) s) (\<lambda>s.
     andthen
       (if i_addrs (ino s ip) ! NDIRECT \<noteq> 0 then
          andthen (bread (i_dev (ino s ip)) (i_addrs (ino s ip) ! NDIRECT) s) (\<lambda>(bp, s).
          andthen (for_each [0..<NINDIRECT] (\<lambda>j s.
            if getn 4 (4 * j) (b_data (bf s bp)) \<noteq> 0
            then bfree (i_dev (ino s ip)) (getn 4 (4 * j) (b_data (bf s bp))) s else Inr s) s) (\<lambda>s.
          andthen (brelse bp s) (\<lambda>s.
          andthen (bfree (i_dev (ino s ip)) (i_addrs (ino s ip) ! NDIRECT) s) (\<lambda>s.
          Inr (upd_ino ip (\<lambda>q. q\<lparr>i_addrs := (i_addrs q)[NDIRECT := 0]\<rparr>) s)))))
        else Inr s) (\<lambda>s.
     let s = upd_ino ip (\<lambda>q. q\<lparr>i_size := 0\<rparr>) s in
     iupdate ip s))"

definition iput :: "nat \<Rightarrow> 'a fsst_scheme \<Rightarrow> exn + 'a fsst_scheme" where
  "iput ip s =
     andthen (acquire ItableLock s) (\<lambda>s.
     andthen
       (if i_ref (ino s ip) = 1 \<and> i_valid (ino s ip) \<and> i_nlink (ino s ip) = 0 then
          andthen (acquiresleep (InodeLock ip) s) (\<lambda>s.
          andthen (release ItableLock s) (\<lambda>s.
          andthen (itrunc ip s) (\<lambda>s.
          let s = upd_ino ip (\<lambda>q. q\<lparr>i_type := 0\<rparr>) s in
          andthen (iupdate ip s) (\<lambda>s.
          let s = upd_ino ip (\<lambda>q. q\<lparr>i_valid := False\<rparr>) s in
          andthen (releasesleep (InodeLock ip) s) (\<lambda>s.
          acquire ItableLock s)))))
        else Inr s) (\<lambda>s.
     let s = upd_ino ip (\<lambda>q. q\<lparr>i_ref := i_ref q - 1\<rparr>) s in
     release ItableLock s))"

definition iunlockput :: "nat \<Rightarrow> 'a fsst_scheme \<Rightarrow> exn + 'a fsst_scheme" where
  "iunlockput ip s = andthen (iunlock ip s) (\<lambda>s. iput ip s)"

definition stati :: "nat \<Rightarrow> 'a fsst_scheme \<Rightarrow> stat" where
  "stati ip s = \<lparr>st_dev = i_dev (ino s ip), st_ino = i_inum (ino s ip), st_type = i_type (ino s ip), st_nlink = i_nlink (ino s ip), st_size = i_size (ino s ip)\<rparr>"

subsection \<open>Reading and writing\<close>

text \<open>
  The loops of \<^verbatim>\<open>readi\<close> and \<^verbatim>\<open>writei\<close> with the number of bytes still to be transferred. The reading loop gives
  the number of bytes read (or -1) and the bytes; the writing loop the number of bytes written.
\<close>

definition seg :: "nat \<Rightarrow> nat \<Rightarrow> nat" where
  "seg n off = min n (BSIZE - off mod BSIZE)"

lemma seg_pos: "0 < n \<Longrightarrow> 0 < seg n off"
  by (simp add: seg_def)

function readi_loop :: "nat \<Rightarrow> dest \<Rightarrow> nat \<Rightarrow> nat \<Rightarrow> nat \<Rightarrow> 'a fsst_scheme \<Rightarrow> exn + (int \<times> uchar list \<times> 'a fsst_scheme)" where
  "readi_loop ip dst off n tot s =
     (if n = 0 then Inr (int tot, [], s)
      else
        andthen (bmap ip (off div BSIZE) s) (\<lambda>(addr, s).
        if addr = 0 then Inr (int tot, [], s)
        else
          andthen (bread (i_dev (ino s ip)) addr s) (\<lambda>(bp, s).
          let m = seg n off; bs = get_at (off mod BSIZE) m (b_data (bf s bp)) in
          andthen (either_copyout dst bs s) (\<lambda>(r, s).
          if r = - 1 then andthen (brelse bp s) (\<lambda>s. Inr (- 1, [], s))
          else
            andthen (brelse bp s) (\<lambda>s.
            andthen (readi_loop ip (dest_add dst m) (off + m) (n - m) (tot + m) s) (\<lambda>(r, bs', s).
            Inr (r, bs @ bs', s)))))))"
  by pat_completeness auto
termination
  by (relation "measure (\<lambda>(ip, dst, off, n, tot, s). n)") (auto simp: seg_pos)

definition readi :: "nat \<Rightarrow> dest \<Rightarrow> nat \<Rightarrow> nat \<Rightarrow> 'a fsst_scheme \<Rightarrow> exn + (int \<times> uchar list \<times> 'a fsst_scheme)" where
  "readi ip dst off n s =
     (let sz = i_size (ino s ip) in
      if off > sz \<or> add32 off n < off then Inr (0, [], s)
      else
        let n = (if add32 off n > sz then sz - off else n) in
        readi_loop ip dst off n 0 s)"

function writei_loop :: "nat \<Rightarrow> source \<Rightarrow> nat \<Rightarrow> nat \<Rightarrow> nat \<Rightarrow> 'a fsst_scheme \<Rightarrow> exn + (nat \<times> nat \<times> 'a fsst_scheme)" where
  "writei_loop ip src off n tot s =
     (if n = 0 then Inr (tot, off, s)
      else
        andthen (bmap ip (off div BSIZE) s) (\<lambda>(addr, s).
        if addr = 0 then Inr (tot, off, s)
        else
          andthen (bread (i_dev (ino s ip)) addr s) (\<lambda>(bp, s).
          let m = seg n off in
          andthen (either_copyin src m s) (\<lambda>(r, bs, s).
          let s = put_data bp (put_at (off mod BSIZE) bs (b_data (bf s bp))) s in
          if r = - 1 then andthen (brelse bp s) (\<lambda>s. Inr (tot, off, s))
          else
            andthen (log_write bp s) (\<lambda>s.
            andthen (brelse bp s) (\<lambda>s.
            writei_loop ip (source_add src m) (off + m) (n - m) (tot + m) s))))))"
  by pat_completeness auto
termination
  by (relation "measure (\<lambda>(ip, src, off, n, tot, s). n)") (auto simp: seg_pos)

declare readi_loop.simps [simp del] writei_loop.simps [simp del]

definition writei :: "nat \<Rightarrow> source \<Rightarrow> nat \<Rightarrow> nat \<Rightarrow> 'a fsst_scheme \<Rightarrow> exn + (int \<times> 'a fsst_scheme)" where
  "writei ip src off n s =
     (if off > i_size (ino s ip) \<or> add32 off n < off then Inr (- 1, s)
      else if add32 off n > MAXFILE * BSIZE then Inr (- 1, s)
      else
        andthen (writei_loop ip src off n 0 s) (\<lambda>(tot, off, s).
        let s = (if off > i_size (ino s ip) then upd_ino ip (\<lambda>q. q\<lparr>i_size := off\<rparr>) s else s) in
        andthen (iupdate ip s) (\<lambda>s.
        Inr (int tot, s))))"

subsection \<open>Directories\<close>

definition namecmp :: "uchar list \<Rightarrow> uchar list \<Rightarrow> int" where
  "namecmp s t = strncmp s t DIRSIZ"

text \<open>The offsets of the entries of a directory of a given size.\<close>

definition dirent_offs :: "nat \<Rightarrow> nat list" where
  "dirent_offs sz = map (\<lambda>k. 16 * k) [0..<(sz + 15) div 16]"

fun dirlookup_scan :: "nat \<Rightarrow> uchar list \<Rightarrow> nat list \<Rightarrow> 'a fsst_scheme \<Rightarrow> exn + ((nat \<times> nat) option \<times> 'a fsst_scheme)" where
  "dirlookup_scan dp name [] s = Inr (None, s)"
| "dirlookup_scan dp name (off # offs) s =
     andthen (readi dp ObjectDst off 16 s) (\<lambda>(r, bs, s).
     if r \<noteq> 16 then Inl (Panic ''dirlookup read'')
     else
       let de = get_dirent bs in
       if de_inum de = 0 then dirlookup_scan dp name offs s
       else if namecmp name (de_name de) = 0 then
         andthen (iget (i_dev (ino s dp)) (de_inum de) s) (\<lambda>(ip, s). Inr (Some (ip, off), s))
       else dirlookup_scan dp name offs s)"

definition dirlookup :: "nat \<Rightarrow> uchar list \<Rightarrow> 'a fsst_scheme \<Rightarrow> exn + ((nat \<times> nat) option \<times> 'a fsst_scheme)" where
  "dirlookup dp name s =
     (if i_type (ino s dp) \<noteq> T_DIR then Inl (Panic ''dirlookup not DIR'')
      else dirlookup_scan dp name (dirent_offs (i_size (ino s dp))) s)"

fun dirlink_scan :: "nat \<Rightarrow> nat list \<Rightarrow> 'a fsst_scheme \<Rightarrow> exn + (nat option \<times> 'a fsst_scheme)" where
  "dirlink_scan dp [] s = Inr (None, s)"
| "dirlink_scan dp (off # offs) s =
     andthen (readi dp ObjectDst off 16 s) (\<lambda>(r, bs, s).
     if r \<noteq> 16 then Inl (Panic ''dirlink read'')
     else if de_inum (get_dirent bs) = 0 then Inr (Some off, s)
     else dirlink_scan dp offs s)"

definition dirlink :: "nat \<Rightarrow> uchar list \<Rightarrow> nat \<Rightarrow> 'a fsst_scheme \<Rightarrow> exn + (int \<times> 'a fsst_scheme)" where
  "dirlink dp name inum s =
     andthen (dirlookup dp name s) (\<lambda>(r, s).
     case r of
       Some (ip, _) \<Rightarrow> andthen (iput ip s) (\<lambda>s. Inr (- 1, s))
     | None \<Rightarrow>
         andthen (dirlink_scan dp (dirent_offs (i_size (ino s dp))) s) (\<lambda>(r, s).
         let off = (case r of Some off \<Rightarrow> off | None \<Rightarrow> 16 * length (dirent_offs (i_size (ino s dp))));
             de = \<lparr>de_inum = inum mod 2 ^ 16, de_name = strncpy name DIRSIZ\<rparr> in
         andthen (writei dp (KernelSrc (dirent_bytes de)) off 16 s) (\<lambda>(r, s).
         if r \<noteq> 16 then Inr (- 1, s) else Inr (0, s))))"

subsection \<open>Paths\<close>

text \<open>
  \<open>skipelem path name\<close>: the rest of the path and the contents of the array \<^verbatim>\<open>name\<close> afterwards.
\<close>

definition skipelem :: "uchar list \<Rightarrow> uchar list \<Rightarrow> (uchar list \<times> uchar list) option" where
  "skipelem path name =
     (let path = dropWhile (\<lambda>c. c = 47) path in
      if deref path = 0 then None
      else
        let s = takeWhile (\<lambda>c. c \<noteq> 47 \<and> c \<noteq> 0) path;
            path = dropWhile (\<lambda>c. c \<noteq> 47 \<and> c \<noteq> 0) path;
            len = length s;
            name = (if len \<ge> DIRSIZ then take DIRSIZ s @ drop DIRSIZ name
                    else s @ [0] @ drop (len + 1) name)
        in Some (dropWhile (\<lambda>c. c = 47) path, name))"

lemma length_dropWhile_less: "xs \<noteq> [] \<Longrightarrow> P (hd xs) \<Longrightarrow> length (dropWhile P xs) < length xs"
  using length_dropWhile_le [of P "tl xs"] by (cases xs) auto

lemma skipelem_shorter:
  assumes "skipelem path name = Some (path', name')"
  shows "length path' < length path"
proof -
  let ?p = "dropWhile (\<lambda>c. c = 47) path" and ?P = "\<lambda>c :: uchar. c \<noteq> 47 \<and> c \<noteq> 0"
  have d: "deref ?p \<noteq> 0" and p: "path' = dropWhile (\<lambda>c. c = 47) (dropWhile ?P ?p)"
    using assms by (simp_all add: skipelem_def Let_def split: if_splits)
  obtain c cs where c: "?p = c # cs" using d by (cases ?p) (simp_all add: deref_def)
  then have n: "?p \<noteq> []" by simp
  have "?P (hd ?p)" using d hd_dropWhile [OF n] unfolding c by (simp add: deref_def)
  then have "length (dropWhile ?P ?p) < length ?p" by (rule length_dropWhile_less [OF n])
  then show ?thesis
    unfolding p using length_dropWhile_le [of "\<lambda>c. c = 47" path] length_dropWhile_le [of "\<lambda>c. c = 47" "dropWhile ?P ?p"] by linarith
qed

function namex_loop :: "bool \<Rightarrow> uchar list \<Rightarrow> uchar list \<Rightarrow> nat \<Rightarrow> 'a fsst_scheme \<Rightarrow> exn + (nat option \<times> uchar list \<times> 'a fsst_scheme)" where
  "namex_loop nameiparent path name ip s =
     (case skipelem path name of
        None \<Rightarrow>
          if nameiparent then andthen (iput ip s) (\<lambda>s. Inr (None, name, s))
          else Inr (Some ip, name, s)
      | Some (path, name) \<Rightarrow>
          andthen (ilock ip s) (\<lambda>s.
          if i_type (ino s ip) \<noteq> T_DIR then andthen (iunlockput ip s) (\<lambda>s. Inr (None, name, s))
          else if nameiparent \<and> deref path = 0 then andthen (iunlock ip s) (\<lambda>s. Inr (Some ip, name, s))
          else
            andthen (dirlookup ip name s) (\<lambda>(r, s).
            case r of
              None \<Rightarrow> andthen (iunlockput ip s) (\<lambda>s. Inr (None, name, s))
            | Some (next, _) \<Rightarrow>
                andthen (iunlockput ip s) (\<lambda>s.
                namex_loop nameiparent path name next s))))"
  by pat_completeness auto
termination
  by (relation "measure (\<lambda>(par, path, name, ip, s). length path)") (auto dest: skipelem_shorter)

declare namex_loop.simps [simp del]

definition namex :: "uchar list \<Rightarrow> bool \<Rightarrow> uchar list \<Rightarrow> 'a fsst_scheme \<Rightarrow> exn + (nat option \<times> uchar list \<times> 'a fsst_scheme)" where
  "namex path nameiparent name s =
     andthen
       (if deref path = 47 then iget ROOTDEV ROOTINO s
        else andthen (myproc s) (\<lambda>p. case p_cwd (pr s p) of None \<Rightarrow> Inl (Panic ''kerneltrap'') | Some ip \<Rightarrow> idup ip s)) (\<lambda>(ip, s).
     namex_loop nameiparent path name ip s)"

definition namei :: "uchar list \<Rightarrow> 'a fsst_scheme \<Rightarrow> exn + (nat option \<times> 'a fsst_scheme)" where
  "namei path s = andthen (namex path False (replicate DIRSIZ 0) s) (\<lambda>(ip, name, s). Inr (ip, s))"

definition nameiparent :: "uchar list \<Rightarrow> uchar list \<Rightarrow> 'a fsst_scheme \<Rightarrow> exn + (nat option \<times> uchar list \<times> 'a fsst_scheme)" where
  "nameiparent path name s = namex path True name s"

end
