(* ===== verification/Fsblocks.thy ===== *)
theory Fsblocks
  imports Fs
begin

section \<open>Blocks and inodes within a transaction\<close>

text \<open>
  The lower half of \<^verbatim>\<open>fs.c\<close> on top of the contract of \<open>Transaction\<close>: what the block allocator and the inode
  update do to the contents of the disk blocks. \<open>fsx p K k s H\<close> says that process \<open>p\<close> is in a transaction, holds the
  buffers of the blocks \<open>H\<close>, and that the log has room for all blocks of \<open>K\<close> and \<open>k\<close> more.
\<close>

lemma lframe_fs:
  assumes "lframe p s t"
  shows "sb t = sb s" "itable t = itable s" "mem t = mem s" "uart_lsr t = uart_lsr s" "panicked t = panicked s" "pr_locking t = pr_locking s"
    "ino t = ino s"
  using assms unfolding lframe_def cframe_def by (auto simp: ino_def fun_eq_iff)

definition fsx :: "nat \<Rightarrow> nat set \<Rightarrow> nat \<Rightarrow> 'a fsst_scheme \<Rightarrow> nat set \<Rightarrow> bool" where
  "fsx p K k s H \<longleftrightarrow> tx p s H \<and> finite K \<and> H \<subseteq> K \<and> card (set (logged s) \<union> K) + k + 1 < l_size s"

lemma fsx_tx: "fsx p K k s H \<Longrightarrow> tx p s H"
  by (simp add: fsx_def)

lemma fsx_room:
  assumes "fsx p K k s H"
  shows "room s 1" "card (set (logged s) \<union> H) < NBUF"
proof -
  have f: "finite K" "H \<subseteq> K" and c: "card (set (logged s) \<union> K) + k + 1 < l_size s" and l: "l_size s \<le> LOGSIZE"
    using assms by (simp_all add: fsx_def tx_def log_shape_def)
  have "card (set (logged s)) \<le> card (set (logged s) \<union> K)" by (rule card_mono) (use f in auto)
  then show "room s 1" using c by (simp add: room_def)
  have "card (set (logged s) \<union> H) \<le> card (set (logged s) \<union> K)" by (rule card_mono) (use f in auto)
  then show "card (set (logged s) \<union> H) < NBUF" using c l by simp
qed

text \<open>Counting one more block among the known ones.\<close>

lemma fsx_insert:
  assumes "fsx p K (Suc k) s H"
  shows "fsx p (insert n K) k s H"
proof -
  have "card (set (logged s) \<union> insert n K) \<le> Suc (card (set (logged s) \<union> K))"
    using assms by (simp add: fsx_def card_insert_if)
  then show ?thesis using assms by (auto simp: fsx_def)
qed

lemma fsx_mono: "fsx p K k s H \<Longrightarrow> j \<le> k \<Longrightarrow> fsx p K j s H"
  by (simp add: fsx_def)

lemma fsx_subset:
  assumes "fsx p K k s H" "K' \<subseteq> K \<union> set (logged s)" "H \<subseteq> K'"
  shows "fsx p K' k s H"
proof -
  have f: "finite K" using assms(1) by (simp add: fsx_def)
  then have "finite K'" using assms(2) by (auto intro: finite_subset)
  moreover have "card (set (logged s) \<union> K') \<le> card (set (logged s) \<union> K)" by (rule card_mono) (use f assms(2) in auto)
  ultimately show ?thesis using assms by (simp add: fsx_def)
qed

lemma fsx_step:
  assumes "fsx p K k s H" "tx p t H'" "lframe p s t" "set (logged t) \<subseteq> set (logged s) \<union> K" "H' \<subseteq> K"
  shows "fsx p K k t H'"
proof -
  have "card (set (logged t) \<union> K) \<le> card (set (logged s) \<union> K)" by (rule card_mono) (use assms in \<open>auto simp: fsx_def\<close>)
  then show ?thesis using assms lframe_fields(2) [OF assms(3)] by (simp add: fsx_def)
qed

text \<open>Reading a block into a buffer, giving a buffer back, and changing a block.\<close>

lemma fs_read:
  assumes "fsx p K k s H" "n \<notin> H" "n < 2 ^ 31" "n \<in> K"
  obtains b t where "bread ROOTDEV n s = Inr (b, t)" "fsx p K k t (insert n H)" "holds p t b n" "b_data (bf t b) = blk s n"
    "blk t = blk s" "set (logged t) = set (logged s)" "lframe p s t" "\<forall>c m. holds p s c m \<longrightarrow> holds p t c m"
    "n \<in> set (logged t) \<or> blk t n = disk_block (platter t) n"
proof -
  have x: "tx p s H" using assms(1) by (rule fsx_tx)
  obtain b t where t: "bread ROOTDEV n s = Inr (b, t)" "tx p t (insert n H)" "holds p t b n" "blk t = blk s" "set (logged t) = set (logged s)" "lframe p s t"
    "\<forall>c m. holds p s c m \<longrightarrow> holds p t c m" "b_data (bf t b) = blk s n"
    by (rule bt.rdE [OF x assms(2,3)]) (use fsx_room(2) [OF assms(1)] in auto)
  have "fsx p K k t (insert n H)"
    by (rule fsx_step [OF assms(1) t(2,6)]) (use t(5) assms in \<open>auto simp: fsx_def\<close>)
  moreover have "n \<in> set (logged t) \<or> blk t n = disk_block (platter t) n"
    using bt.clean [OF x _ assms(2)] t lframe_fields(8) [OF t(6)] by auto
  ultimately show thesis by (rule that [OF t(1) _ t(3,8,4,5,6,7)])
qed

lemma fs_look:
  assumes "fsx p K k s H" "n \<notin> H" "n < 2 ^ 31"
  obtains b t u where "bread ROOTDEV n s = Inr (b, t)" "b_data (bf t b) = blk s n" "blk t = blk s" "lframe p s t" "set (logged t) = set (logged s)"
    "brelse b t = Inr u" "fsx p K k u H" "blk u = blk s" "set (logged u) = set (logged s)" "lframe p s u" "\<forall>c m. holds p s c m \<longrightarrow> holds p u c m"
proof -
  have x: "tx p s H" using assms(1) by (rule fsx_tx)
  obtain b t u where t: "bread ROOTDEV n s = Inr (b, t)" "holds p t b n" "tx p t (insert n H)" "b_data (bf t b) = blk s n" "blk t = blk s"
    "set (logged t) = set (logged s)" "lframe p s t" "brelse b t = Inr u" "tx p u H" "blk u = blk s" "set (logged u) = set (logged s)" "lframe p s u"
    "\<forall>c m. holds p s c m \<longrightarrow> holds p u c m"
    by (rule bt.look [OF x assms(2,3)]) (use fsx_room(2) [OF assms(1)] in auto)
  have "fsx p K k u H" by (rule fsx_step [OF assms(1) t(9,12)]) (use t(11) assms in \<open>auto simp: fsx_def\<close>)
  then show thesis by (rule that [OF t(1,4,5,7,6,8) _ t(10,11,12,13)])
qed

lemma fs_modify:
  assumes "fsx p K k s H" "n \<notin> H" "loggable s n" "n \<in> K" "length d = BSIZE"
  obtains b t u v where "bread ROOTDEV n s = Inr (b, t)" "b_data (bf t b) = blk s n" "blk t = blk s" "lframe p s t"
    "log_write b (put_data b d t) = Inr u" "brelse b u = Inr v" "fsx p K k v H" "blk v = (blk s)(n := d)" "set (logged v) = insert n (set (logged s))" "lframe p s v"
    "\<forall>c m. holds p s c m \<longrightarrow> holds p v c m"
proof -
  have x: "tx p s H" using assms(1) by (rule fsx_tx)
  obtain b t u v where t: "bread ROOTDEV n s = Inr (b, t)" "holds p t b n" "tx p t (insert n H)" "b_data (bf t b) = blk s n" "blk t = blk s" "set (logged t) = set (logged s)" "lframe p s t"
    "log_write b (put_data b d t) = Inr u" "brelse b u = Inr v" "tx p v H" "blk v = (blk s)(n := d)" "set (logged v) = insert n (set (logged s))" "lframe p s v"
    "\<forall>c m. holds p s c m \<longrightarrow> holds p v c m"
    by (rule bt.modify [OF x assms(2,3) _ fsx_room(1) [OF assms(1)] assms(5)]) (use fsx_room(2) [OF assms(1)] in auto)
  have "fsx p K k v H" by (rule fsx_step [OF assms(1) t(10,13)]) (use t(12) assms in \<open>auto simp: fsx_def\<close>)
  then show thesis by (rule that [OF t(1,4,5,7,8,9) _ t(11,12,13,14)])
qed

text \<open>Changing a block that is held.\<close>

lemma fs_change:
  assumes "fsx p K k s H" "holds p s b n" "loggable s n" "length d = BSIZE"
  obtains u where "log_write b (put_data b d s) = Inr u" "fsx p K k u H" "blk u = (blk s)(n := d)" "set (logged u) = insert n (set (logged s))" "lframe p s u"
    "\<forall>c m. holds p s c m \<longrightarrow> holds p u c m"
proof -
  have x: "tx p s H" using assms(1) by (rule fsx_tx)
  have h: "n \<in> K" using bt.data [OF x assms(2)] assms(1) by (auto simp: fsx_def)
  obtain u where u: "log_write b (put_data b d s) = Inr u" "tx p u H" "blk u = (blk s)(n := d)" "set (logged u) = insert n (set (logged s))" "lframe p s u"
    "\<forall>c m. holds p s c m \<longrightarrow> holds p u c m"
    using bt.change [OF x assms(2,3) fsx_room(1) [OF assms(1)] assms(4)] by (auto simp: returns_iff)
  have "fsx p K k u H" by (rule fsx_step [OF assms(1) u(2,5)]) (use u(4) h assms in \<open>auto simp: fsx_def\<close>)
  then show thesis by (rule that [OF u(1) _ u(3-)])
qed

lemma fs_release:
  assumes "fsx p K k s H" "holds p s b n" "n \<in> set (logged s) \<or> blk s n = disk_block (platter s) n"
  obtains u where "brelse b s = Inr u" "fsx p K k u (H - {n})" "blk u = blk s" "set (logged u) = set (logged s)" "lframe p s u"
proof -
  have x: "tx p s H" using assms(1) by (rule fsx_tx)
  obtain u where u: "brelse b s = Inr u" "tx p u (H - {n})" "blk u = blk s" "set (logged u) = set (logged s)" "lframe p s u"
    using bt.rel [OF x assms(2,3)] by (auto simp: returns_iff)
  have "fsx p K k u (H - {n})" by (rule fsx_step [OF assms(1) u(2,5)]) (use u(4) assms in \<open>auto simp: fsx_def\<close>)
  then show thesis by (rule that [OF u(1) _ u(3-)])
qed

subsection \<open>The inode table aside\<close>

lemma fs_itable [simp]:
  "blk (s\<lparr>itable := x\<rparr>) = blk s" "logged (s\<lparr>itable := x\<rparr>) = logged s" "holds p (s\<lparr>itable := x\<rparr>) = holds p s"
  "tx p (s\<lparr>itable := x\<rparr>) H = tx p s H" "fsx p K k (s\<lparr>itable := x\<rparr>) H = fsx p K k s H" "loggable (s\<lparr>itable := x\<rparr>) = loggable s"
  "bf (s\<lparr>itable := x\<rparr>) = bf s"
proof -
  show b: "blk (s\<lparr>itable := x\<rparr>) = blk s" by (rule cache_cong) simp_all
  show l: "logged (s\<lparr>itable := x\<rparr>) = logged s" by (simp add: logged_def)
  show "holds p (s\<lparr>itable := x\<rparr>) = holds p s" by (simp add: fun_eq_iff holds_def cached_def bf_def buf_locked_def pr_def)
  have "cst p (s\<lparr>itable := x\<rparr>) = cst p s" by (rule cst_cong) simp_all
  then show t: "tx p (s\<lparr>itable := x\<rparr>) H = tx p s H" by (simp add: tx_def log_shape_def l log_area_def)
  show "fsx p K k (s\<lparr>itable := x\<rparr>) H = fsx p K k s H" by (simp add: fsx_def t l)
  show "loggable (s\<lparr>itable := x\<rparr>) = loggable s" by (simp add: loggable_def log_area_def fun_eq_iff)
  show "bf (s\<lparr>itable := x\<rparr>) = bf s" by (simp add: bf_def fun_eq_iff)
qed

lemma upd_ino_fields [simp]:
  "blk (upd_ino i f s) = blk s" "logged (upd_ino i f s) = logged s" "holds p (upd_ino i f s) = holds p s" "fsx p K k (upd_ino i f s) H = fsx p K k s H"
  "loggable (upd_ino i f s) = loggable s" "sb (upd_ino i f s) = sb s" "bf (upd_ino i f s) = bf s" "platter (upd_ino i f s) = platter s"
  "length (itable (upd_ino i f s)) = length (itable s)"
  by (simp_all add: upd_ino_def)

lemma ino_upd_ino: "i < length (itable s) \<Longrightarrow> ino (upd_ino i f s) j = (if j = i then f (ino s i) else ino s j)"
  by (simp add: ino_def upd_ino_def)

text \<open>The frame of an operation that may also change the inode table.\<close>

definition fframe :: "nat \<Rightarrow> 'a fsst_scheme \<Rightarrow> 'a fsst_scheme \<Rightarrow> bool" where
  "fframe p s t \<longleftrightarrow> lframe p (s\<lparr>itable := itable t\<rparr>) t"

lemma lframe_itable: "lframe p s t \<Longrightarrow> lframe p (s\<lparr>itable := x\<rparr>) (t\<lparr>itable := x\<rparr>)"
proof -
  assume "lframe p s t"
  then obtain a b tb sl bs v pl out where t: "t = s\<lparr>lh_n := a, lh_block := b\<rparr>\<lparr>ptable := tb, slk := sl, bufs := bs, vd := v, platter := pl, mmio_out := out\<rparr>"
    "tb_le p (ptable s) tb" "\<forall>i. sl (InodeLock i) = slk s (InodeLock i)" "platter t = platter s"
    unfolding lframe_def cframe_def by auto
  then show ?thesis
    unfolding lframe_def cframe_def by (intro conjI exI [of _ a] exI [of _ b] exI [of _ tb] exI [of _ sl] exI [of _ bs] exI [of _ v] exI [of _ pl] exI [of _ out]) simp_all
qed

lemma fframe_lframe: "lframe p s t \<Longrightarrow> fframe p s t"
  using lframe_fs(2) [of p s t] by (simp add: fframe_def)

lemma fframe_refl [simp]: "fframe p s s"
  by (simp add: fframe_lframe lframe_refl)

lemma fframe_upd_ino [simp]: "fframe p s (upd_ino i f s)"
  by (simp add: fframe_def upd_ino_def lframe_refl)

lemma fframe_trans: "fframe p s t \<Longrightarrow> fframe p t u \<Longrightarrow> fframe p s u"
  unfolding fframe_def using lframe_itable [of p "s\<lparr>itable := itable t\<rparr>" t "itable u"] by (auto intro: lframe_trans)

lemma fframe_fields:
  assumes "fframe p s t"
  shows "sb t = sb s" "loggable t = loggable s" "platter t = platter s" "l_size t = l_size s" "mem t = mem s" "curproc t = curproc s"
    "held t = held s" "uart_lsr t = uart_lsr s" "panicked t = panicked s" "pr t p = pr s p" "\<And>i. slk t (InodeLock i) = slk s (InodeLock i)"
  using assms lframe_fs [of p "s\<lparr>itable := itable t\<rparr>" t] lframe_fields [of p "s\<lparr>itable := itable t\<rparr>" t]
  by (simp_all add: fframe_def pr_def)

subsection \<open>Bitmaps\<close>

lemma bit_bmask: "bit (bmask i) j \<longleftrightarrow> j = i mod 8"
  by (auto simp: bmask_def bit_simps)

lemma bit_free_iff: "bit_free d i \<longleftrightarrow> \<not> bit (d ! (i div 8)) (i mod 8)"
proof -
  have "d ! (i div 8) AND bmask i = 0 \<longleftrightarrow> (\<forall>j < 8. \<not> (bit (d ! (i div 8)) j \<and> j = i mod 8))"
    by (auto simp: bit_eq_iff bit_and_iff bit_bmask)
  moreover have "i mod 8 < 8" by simp
  ultimately show ?thesis unfolding bit_free_def by blast
qed

lemma div8_eq: "i div 8 = j div 8 \<Longrightarrow> i mod 8 = j mod 8 \<Longrightarrow> i = (j :: nat)"
  by (metis div_mult_mod_eq)

lemma bit_set_clear:
  assumes "length d = BSIZE" "i < BPB" "j < BPB"
  shows "bit_free (bit_set i d) j \<longleftrightarrow> bit_free d j \<and> j \<noteq> i" "bit_free (bit_clear i d) j \<longleftrightarrow> bit_free d j \<or> j = i"
    "length (bit_set i d) = BSIZE" "length (bit_clear i d) = BSIZE"
proof -
  have l: "i div 8 < length d" using assms by auto
  have ij: "i = j \<longleftrightarrow> i div 8 = j div 8 \<and> i mod 8 = j mod 8" using div8_eq by blast
  have e: "d[i div 8 := v] ! (j div 8) = (if i div 8 = j div 8 then v else d ! (j div 8))" for v
    using l by (simp add: nth_list_update)
  have "bit (d ! (i div 8) OR bmask i) (j mod 8) \<longleftrightarrow> bit (d ! (i div 8)) (j mod 8) \<or> i mod 8 = j mod 8"
    by (auto simp: bit_or_iff bit_bmask)
  then show "bit_free (bit_set i d) j \<longleftrightarrow> bit_free d j \<and> j \<noteq> i"
    unfolding bit_free_iff bit_set_def e using ij by (cases "i div 8 = j div 8") auto
  have "bit (d ! (i div 8) AND NOT (bmask i)) (j mod 8) \<longleftrightarrow> bit (d ! (i div 8)) (j mod 8) \<and> i mod 8 \<noteq> j mod 8"
    by (auto simp: bit_and_iff bit_not_iff bit_bmask)
  then show "bit_free (bit_clear i d) j \<longleftrightarrow> bit_free d j \<or> j = i"
    unfolding bit_free_iff bit_clear_def e using ij by (cases "i div 8 = j div 8") auto
  show "length (bit_set i d) = BSIZE" "length (bit_clear i d) = BSIZE" using assms(1) by (simp_all add: bit_set_def bit_clear_def)
qed

subsection \<open>The block allocator\<close>

definition free_block :: "'a fsst_scheme \<Rightarrow> nat \<Rightarrow> bool" where
  "free_block s b \<longleftrightarrow> b < sb_size (sb s) \<and> bit_free (blk s (BBLOCK b (sb s))) (b mod BPB)"

definition bitmap_blocks :: "'a fsst_scheme \<Rightarrow> nat set" where
  "bitmap_blocks s = (\<lambda>b. BBLOCK b (sb s)) ` {..<sb_size (sb s)}"

text \<open>What the layout of the disk promises of the bitmap: it is logged, and its own blocks are not free.\<close>

definition map_ok :: "'a fsst_scheme \<Rightarrow> bool" where
  "map_ok s \<longleftrightarrow> (\<forall>n \<in> bitmap_blocks s. loggable s n \<and> \<not> free_block s n) \<and> (\<forall>b. free_block s b \<longrightarrow> loggable s b \<and> 0 < b)"

lemma free_block_cong: "blk t = blk s \<Longrightarrow> sb t = sb s \<Longrightarrow> free_block t = free_block s \<and> bitmap_blocks t = bitmap_blocks s"
  by (simp add: free_block_def bitmap_blocks_def fun_eq_iff)

lemma map_ok_cong: "blk t = blk s \<Longrightarrow> sb t = sb s \<Longrightarrow> loggable t = loggable s \<Longrightarrow> map_ok t = map_ok s"
  using free_block_cong [of t s] by (simp add: map_ok_def)

lemma BBLOCK_add: "j < BPB \<Longrightarrow> BBLOCK (i * BPB + j) x = i + sb_bmapstart x" "BBLOCK (i * BPB) x = i + sb_bmapstart x"
  by (simp_all add: BBLOCK_def)

text \<open>The state after block \<open>b\<close> was allocated.\<close>

definition alloc_blk :: "nat \<Rightarrow> 'a fsst_scheme \<Rightarrow> nat \<Rightarrow> block" where
  "alloc_blk b s = (blk s)(BBLOCK b (sb s) := bit_set (b mod BPB) (blk s (BBLOCK b (sb s))), b := replicate BSIZE 0)"

lemma bzero_spec:
  assumes "fsx p K k s H" "b \<notin> H" "loggable s b" "b \<in> K"
  shows "returns (bzero ROOTDEV b s) (\<lambda>t. fsx p K k t H \<and> blk t = (blk s)(b := replicate BSIZE 0) \<and> lframe p s t \<and>
     (\<forall>c m. holds p s c m \<longrightarrow> holds p t c m))"
proof -
  obtain c t u v where "bread ROOTDEV b s = Inr (c, t)" "log_write c (put_data c (replicate BSIZE 0) t) = Inr u" "brelse c u = Inr v"
    "fsx p K k v H" "blk v = (blk s)(b := replicate BSIZE 0)" "lframe p s v" "\<forall>c m. holds p s c m \<longrightarrow> holds p v c m"
    by (rule fs_modify [OF assms, of "replicate BSIZE 0"]) simp_all
  then show ?thesis by (simp add: bzero_def Let_def)
qed

lemma balloc_scan_spec:
  assumes "fsx p K (Suc k) s H" "bitmap_blocks s \<subseteq> K - H" "map_ok s" "\<forall>b \<in> H. \<not> free_block s b" "m = (sb_size (sb s) + BPB - 1) div BPB"
    "free_block s b" "i * BPB \<le> b" "\<forall>c. free_block s c \<and> i * BPB \<le> c \<longrightarrow> b \<le> c"
  shows "returns (balloc_scan ROOTDEV (map (\<lambda>k. k * BPB) [i..<m]) s) (\<lambda>(c, t). c = b \<and> blk t = alloc_blk b s \<and> fsx p (insert b K) k t H \<and> lframe p s t \<and>
     (\<forall>c m. holds p s c m \<longrightarrow> holds p t c m))"
  using assms
proof (induction "m - i" arbitrary: i s)
  case 0
  have "b < m * BPB" using "0.prems"(5,6) by (auto simp: free_block_def)
  then show ?case using 0 by (auto dest: mult_le_mono1 [of m i BPB])
next
  case (Suc d)
  let ?n = "i + sb_bmapstart (sb s)" and ?z = "sb_size (sb s)"
  have im: "[i..<m] = i # [Suc i..<m]" using Suc.hyps(2) by (simp add: upt_conv_Cons)
  have "i * BPB < ?z" using Suc.prems(6,7) by (auto simp: free_block_def)
  then have nb: "?n \<in> bitmap_blocks s" unfolding bitmap_blocks_def using BBLOCK_add(2) [of i "sb s"] by (auto intro!: rev_image_eqI)
  then have n: "?n \<notin> H" "?n \<in> K" "loggable s ?n" "\<not> free_block s ?n" using Suc.prems(2,3) by (auto simp: map_ok_def)
  then have n31: "?n < 2 ^ 31" by (simp add: loggable_def)
  define dat where "dat = blk s ?n"
  have fr: "free_block s (i * BPB + j) \<longleftrightarrow> i * BPB + j < ?z \<and> bit_free dat j" if "j < BPB" for j
    using that BBLOCK_add(1) [OF that, of i "sb s"] by (simp add: free_block_def dat_def)
  have len: "length dat = BSIZE" unfolding dat_def by (rule bt.size [OF fsx_tx [OF Suc.prems(1)]])
  show ?case
  proof (cases "find (bit_free dat) [0..<min BPB (?z - i * BPB)]")
    case None
    obtain c t u where t: "bread ROOTDEV ?n s = Inr (c, t)" "b_data (bf t c) = blk s ?n" "blk t = blk s" "lframe p s t" "set (logged t) = set (logged s)"
      "brelse c t = Inr u" "fsx p K (Suc k) u H" "blk u = blk s" "set (logged u) = set (logged s)" "lframe p s u" "\<forall>c m. holds p s c m \<longrightarrow> holds p u c m"
      by (rule fs_look [OF Suc.prems(1) n(1) n31])
    have same: "sb t = sb s" "sb u = sb s" "free_block u = free_block s" "bitmap_blocks u = bitmap_blocks s" "map_ok u = map_ok s" "alloc_blk b u = alloc_blk b s"
      using lframe_fs(1) [OF t(4)] lframe_fs(1) [OF t(10)] lframe_fields(7) [OF t(10)] t(8) free_block_cong [of u s] map_ok_cong [of u s]
      by (simp_all add: alloc_blk_def)
    have no: "\<not> free_block s (i * BPB + j)" if "j < BPB" for j
      using None that fr [OF that] by (auto simp: find_None_iff)
    have b': "Suc i * BPB \<le> b"
    proof (rule ccontr)
      assume "\<not> Suc i * BPB \<le> b"
      then have "b - i * BPB < BPB" using Suc.prems(7) by simp
      from no [OF this] show False using Suc.prems(6,7) by simp
    qed
    have "returns (balloc_scan ROOTDEV (map (\<lambda>k. k * BPB) [Suc i..<m]) u) (\<lambda>(c, t). c = b \<and> blk t = alloc_blk b u \<and> fsx p (insert b K) k t H \<and> lframe p u t \<and>
     (\<forall>c m. holds p u c m \<longrightarrow> holds p t c m))"
    proof (rule Suc.hyps(1) [OF _ t(7)], unfold same)
      show "d = m - Suc i" using Suc.hyps(2) by simp
      show "\<forall>c. free_block s c \<and> Suc i * BPB \<le> c \<longrightarrow> b \<le> c" 
      proof (intro allI impI)
        fix c assume c: "free_block s c \<and> Suc i * BPB \<le> c"
        then have "i * BPB \<le> c" by simp
        then show "b \<le> c" using Suc.prems(8) c by blast
      qed
    qed (fact Suc.prems b')+
    then have "returns (balloc_scan ROOTDEV (map (\<lambda>k. k * BPB) [Suc i..<m]) u) (\<lambda>(c, t). c = b \<and> blk t = alloc_blk b s \<and> fsx p (insert b K) k t H \<and> lframe p s t \<and>
     (\<forall>c m. holds p s c m \<longrightarrow> holds p t c m))"
      by (rule returns_mono) (use t(11) in \<open>auto simp: same(6) intro: lframe_trans [OF t(10)]\<close>)
    then show ?thesis
      using None t by (simp add: im BBLOCK_def dat_def same)
  next
    case (Some bi)
    then have bi: "bi < BPB" "i * BPB + bi < ?z" "bit_free dat bi" "\<forall>j < bi. \<not> bit_free dat j"
      by (auto simp: find_Some_iff)
    have "free_block s (i * BPB + bi)" using bi fr [OF bi(1)] by simp
    moreover have "i * BPB + bi \<le> b"
    proof (rule ccontr)
      assume "\<not> i * BPB + bi \<le> b"
      then have "b - i * BPB < bi" "b = i * BPB + (b - i * BPB)" using Suc.prems(7) by linarith+
      then show False using bi fr [of "b - i * BPB"] Suc.prems(6) by simp
    qed
    ultimately have b: "b = i * BPB + bi" using Suc.prems(8) by force
    then have b8: "i * 8192 + bi = b" by simp
    have lb: "loggable s b" "b \<notin> H" "b \<noteq> ?n" using Suc.prems(3,4,6) n(4) by (auto simp: map_ok_def)
    have bb: "BBLOCK b (sb s) = ?n" "b mod BPB = bi" using bi(1) BBLOCK_add(1) by (simp_all add: b)
    obtain c t u v where t: "bread ROOTDEV ?n s = Inr (c, t)" "b_data (bf t c) = blk s ?n" "blk t = blk s" "lframe p s t"
      "log_write c (put_data c (bit_set bi dat) t) = Inr u" "brelse c u = Inr v" "fsx p K (Suc k) v H" "blk v = (blk s)(?n := bit_set bi dat)"
      "set (logged v) = insert ?n (set (logged s))" "lframe p s v" "\<forall>c m. holds p s c m \<longrightarrow> holds p v c m"
      by (rule fs_modify [OF Suc.prems(1) n(1,3,2) bit_set_clear(3) [OF len bi(1,1)]])
    have "returns (bzero ROOTDEV b v) (\<lambda>w. fsx p (insert b K) k w H \<and> blk w = (blk v)(b := replicate BSIZE 0) \<and> lframe p v w \<and>
        (\<forall>c m. holds p v c m \<longrightarrow> holds p w c m))"
      by (rule bzero_spec) (use fsx_insert [OF t(7)] lb lframe_fields(7) [OF t(10)] in auto)
    then obtain w where w: "bzero ROOTDEV b v = Inr w" "fsx p (insert b K) k w H" "blk w = (blk v)(b := replicate BSIZE 0)" "lframe p v w" "\<forall>c m. holds p v c m \<longrightarrow> holds p w c m"
      by (auto simp: returns_iff)
    have "blk w = alloc_blk b s" unfolding w(3) t(8) alloc_blk_def bb dat_def ..
    then show ?thesis
      using Some t w lframe_fs(1) [OF t(4)] lframe_trans [OF t(10) w(4)]
      by (simp add: im BBLOCK_def dat_def Let_def b8)
  qed
qed

text \<open>Allocating takes exactly one block out of the free ones.\<close>

lemma BBLOCK_eq: "BBLOCK b x = BBLOCK c x \<Longrightarrow> b mod BPB = c mod BPB \<Longrightarrow> b = c"
  unfolding BBLOCK_def by (metis add_right_cancel div_mult_mod_eq)

lemma bitmap_change:
  assumes m: "map_ok s" and e: "sb t = sb s" and l: "\<And>n. length (blk s n) = BSIZE" and b: "b < sb_size (sb s)"
    and d: "d = bit_set (b mod BPB) (blk s (BBLOCK b (sb s))) \<or> d = bit_clear (b mod BPB) (blk s (BBLOCK b (sb s)))"
    and t: "\<And>n. n \<in> bitmap_blocks s \<Longrightarrow> blk t n = ((blk s)(BBLOCK b (sb s) := d)) n"
  shows "free_block t c \<longleftrightarrow> (if c = b then d = bit_clear (b mod BPB) (blk s (BBLOCK b (sb s))) else free_block s c)"
proof (cases "c < sb_size (sb s)")
  case True
  let ?n = "BBLOCK b (sb s)" and ?m = "BBLOCK c (sb s)"
  have mb: "?m \<in> bitmap_blocks s" using True by (simp add: bitmap_blocks_def)
  have c: "c mod BPB < BPB" "b mod BPB < BPB" by simp_all
  note sc = bit_set_clear [OF l [of ?n] c(2,1)] bit_set_clear [OF l [of ?n] c(2,2)]
  show ?thesis
  proof (cases "?m = ?n")
    case True
    then have "c = b \<longleftrightarrow> c mod BPB = b mod BPB" using BBLOCK_eq by metis
    moreover have "bit_clear (b mod BPB) (blk s ?n) \<noteq> bit_set (b mod BPB) (blk s ?n)" using sc by metis
    ultimately show ?thesis using t [OF mb] True \<open>c < _\<close> d sc e b by (auto simp: free_block_def simp del: BPB_def)
  next
    case False
    then have "c \<noteq> b" by auto
    then show ?thesis using t [OF mb] False e by (simp add: free_block_def)
  qed
next
  case False
  then show ?thesis using b e by (auto simp: free_block_def)
qed

lemma alloc_blk_free:
  assumes "map_ok s" "sb t = sb s" "loggable t = loggable s" "\<And>n. length (blk s n) = BSIZE" "free_block s b" "blk t = alloc_blk b s"
  shows "free_block t c \<longleftrightarrow> free_block s c \<and> c \<noteq> b" "map_ok t" "blk t b = replicate BSIZE 0"
    "m \<noteq> b \<Longrightarrow> m \<notin> bitmap_blocks s \<Longrightarrow> blk t m = blk s m" "bitmap_blocks t = bitmap_blocks s"
proof -
  let ?n = "BBLOCK b (sb s)"
  have b: "b < sb_size (sb s)" using assms(5) by (simp add: free_block_def)
  then have nb: "?n \<in> bitmap_blocks s" by (simp add: bitmap_blocks_def)
  have nf: "n \<noteq> b" if "n \<in> bitmap_blocks s" for n using assms(1,5) that by (auto simp: map_ok_def)
  have cl: "bit_clear (b mod BPB) (blk s ?n) \<noteq> bit_set (b mod BPB) (blk s ?n)"
    using bit_set_clear [OF assms(4) [of ?n], of "b mod BPB" "b mod BPB"] by auto
  have f: "free_block t c \<longleftrightarrow> free_block s c \<and> c \<noteq> b" for c
    using bitmap_change [OF assms(1,2,4) b, of "bit_set (b mod BPB) (blk s ?n)" c] nf assms(6) cl by (auto simp: alloc_blk_def)
  then show "free_block t c \<longleftrightarrow> free_block s c \<and> c \<noteq> b" .
  show bm: "bitmap_blocks t = bitmap_blocks s" using assms(2) by (simp add: bitmap_blocks_def)
  show "map_ok t" using assms(1,3) f bm by (auto simp: map_ok_def)
  show "blk t b = replicate BSIZE 0" "m \<noteq> b \<Longrightarrow> m \<notin> bitmap_blocks s \<Longrightarrow> blk t m = blk s m" using nb assms(6) by (auto simp: alloc_blk_def)
qed

lemma balloc_spec:
  assumes "fsx p K (Suc k) s H" "bitmap_blocks s \<subseteq> K - H" "map_ok s" "\<forall>b \<in> H. \<not> free_block s b" "\<exists>b. free_block s b"
  obtains b t where "balloc ROOTDEV s = Inr (b, t)" "free_block s b" "blk t = alloc_blk b s" "fsx p (insert b K) k t H" "lframe p s t"
    "\<forall>c m. holds p s c m \<longrightarrow> holds p t c m"
proof -
  define b where "b = (LEAST b. free_block s b)"
  have b: "free_block s b" "\<forall>c. free_block s c \<and> 0 * BPB \<le> c \<longrightarrow> b \<le> c"
    using assms(5) unfolding b_def by (auto intro: LeastI_ex Least_le)
  have "returns (balloc ROOTDEV s) (\<lambda>(c, t). c = b \<and> blk t = alloc_blk b s \<and> fsx p (insert b K) k t H \<and> lframe p s t \<and>
     (\<forall>c m. holds p s c m \<longrightarrow> holds p t c m))"
    unfolding balloc_def by (rule balloc_scan_spec [OF assms(1-4) refl b(1) _ b(2)]) simp
  then obtain t where "balloc ROOTDEV s = Inr (b, t)" "blk t = alloc_blk b s" "fsx p (insert b K) k t H" "lframe p s t" "\<forall>c m. holds p s c m \<longrightarrow> holds p t c m"
    by (auto simp: returns_iff)
  then show thesis using that b(1) by blast
qed

lemma fs_uart [simp]:
  "blk (s\<lparr>uart_lsr := x, uart_out := y\<rparr>) = blk s" "fsx p K k (s\<lparr>uart_lsr := x, uart_out := y\<rparr>) H = fsx p K k s H"
proof -
  let ?t = "s\<lparr>uart_lsr := x, uart_out := y\<rparr>"
  show "blk ?t = blk s" by (rule cache_cong) simp_all
  have l: "logged ?t = logged s" by (simp add: logged_def)
  have "cst p ?t = cst p s" by (rule cst_cong) simp_all
  then have "tx p ?t H = tx p s H" by (simp add: tx_def log_shape_def l log_area_def)
  then show "fsx p K k ?t H = fsx p K k s H" by (simp add: fsx_def l)
qed

lemma balloc_scan_none:
  assumes "fsx p K k s H" "bitmap_blocks s \<subseteq> K - H" "map_ok s" "\<forall>b. \<not> free_block s b" "m = (sb_size (sb s) + BPB - 1) div BPB"
    "\<not> panicked s" "22 \<le> idle (uart_lsr s)"
  shows "returns (balloc_scan ROOTDEV (map (\<lambda>k. k * BPB) [i..<m]) s) (\<lambda>(c, t). c = 0 \<and> blk t = blk s \<and> sb t = sb s \<and> fsx p K k t H)"
  using assms
proof (induction "m - i" arbitrary: i s)
  case 0
  have "held s = []" using "0.prems"(1) by (simp add: fsx_def tx_def cst_def io_ok_def in_proc_def)
  then have "returns (printf (''balloc: out of blocks'' @ [CHR 10]) [] s) (out_frame s)"
    by (intro printf_plain) (use "0.prems"(6,7) in \<open>simp_all add: plain_def bytes_def\<close>)
  then show ?case using 0 by (auto simp: returns_andthen elim!: returns_mono out_frameE)
next
  case (Suc d)
  let ?n = "i + sb_bmapstart (sb s)" and ?z = "sb_size (sb s)"
  have im: "[i..<m] = i # [Suc i..<m]" and "i < m" using Suc.hyps(2) by (simp_all add: upt_conv_Cons)
  then have "i * BPB < ?z" using Suc.prems(5) by (auto simp: less_eq_div_iff_mult_less_eq Suc_le_eq [symmetric])
  then have "?n \<in> bitmap_blocks s" unfolding bitmap_blocks_def using BBLOCK_add(2) [of i "sb s"] by (auto intro!: rev_image_eqI)
  then have n: "?n \<notin> H" "?n < 2 ^ 31" using Suc.prems(2,3) by (auto simp: map_ok_def loggable_def)
  obtain c t u where t: "bread ROOTDEV ?n s = Inr (c, t)" "b_data (bf t c) = blk s ?n" "blk t = blk s" "lframe p s t" "set (logged t) = set (logged s)"
    "brelse c t = Inr u" "fsx p K k u H" "blk u = blk s" "set (logged u) = set (logged s)" "lframe p s u"
    by (rule fs_look [OF Suc.prems(1) n])
  have same: "sb t = sb s" "sb u = sb s" "free_block u = free_block s" "bitmap_blocks u = bitmap_blocks s" "map_ok u = map_ok s"
    using lframe_fs(1) [OF t(4)] lframe_fs(1) [OF t(10)] lframe_fields(7) [OF t(10)] t(8) free_block_cong [of u s] map_ok_cong [of u s] by simp_all
  have "\<not> bit_free (blk s ?n) j" if "j < min BPB (?z - i * BPB)" for j
    using Suc.prems(4) that BBLOCK_add(1) [of j i "sb s"] by (auto simp: free_block_def dest: spec [of _ "i * BPB + j"])
  then have f: "find (bit_free (blk s ?n)) [0..<min BPB (?z - i * BPB)] = None" by (auto simp: find_None_iff)
  have "returns (balloc_scan ROOTDEV (map (\<lambda>k. k * BPB) [Suc i..<m]) u) (\<lambda>(c, t). c = 0 \<and> blk t = blk u \<and> sb t = sb u \<and> fsx p K k t H)"
    by (rule Suc.hyps(1) [OF _ t(7)], unfold same)
      (use Suc.prems Suc.hyps(2) lframe_fs(4,5) [OF t(10)] in simp_all)
  then show ?case using f t same by (simp add: im BBLOCK_def)
qed

text \<open>
  C7: the block allocator. Within a transaction with log space for the bitmap and one more block, \<open>balloc\<close> returns.
  If some block of the disk is free, it returns a free block that is then no longer free and reads as zeros, while
  every other block keeps its state in the bitmap and every block outside the bitmap its contents; if none is,
  it returns 0 and no block changes.
\<close>

theorem balloc_correct:
  assumes "fsx p K (Suc k) s H" "bitmap_blocks s \<subseteq> K - H" "map_ok s" "\<forall>b \<in> H. \<not> free_block s b"
    "\<not> panicked s" "22 \<le> idle (uart_lsr s)"
  shows "returns (balloc ROOTDEV s) (\<lambda>(b, t).
     if \<exists>c. free_block s c
     then free_block s b \<and> blk t b = replicate BSIZE 0 \<and> (\<forall>c. free_block t c \<longleftrightarrow> free_block s c \<and> c \<noteq> b) \<and>
       (\<forall>m. m \<noteq> b \<and> m \<notin> bitmap_blocks s \<longrightarrow> blk t m = blk s m) \<and> map_ok t
     else b = 0 \<and> blk t = blk s)"
proof (cases "\<exists>c. free_block s c")
  case True
  from balloc_spec [OF assms(1-4) True] obtain b t where t: "balloc ROOTDEV s = Inr (b, t)" "free_block s b" "blk t = alloc_blk b s" "lframe p s t"
    by metis
  have "length (blk s n) = BSIZE" for n by (rule bt.size [OF fsx_tx [OF assms(1)]])
  then show ?thesis
    using True t alloc_blk_free [OF assms(3) lframe_fs(1) [OF t(4)] lframe_fields(7) [OF t(4)] _ t(2,3)] by simp
next
  case False
  then have "returns (balloc ROOTDEV s) (\<lambda>(c, t). c = 0 \<and> blk t = blk s \<and> sb t = sb s \<and> fsx p K (Suc k) t H)"
    unfolding balloc_def by (intro balloc_scan_none [OF assms(1-3) _ refl assms(5,6)]) simp
  then show ?thesis using False by (auto elim!: returns_mono)
qed

text \<open>
  A small disk: 48 blocks, of which all but the last are in use, with the log, the inodes and the bitmap where \<^verbatim>\<open>mkfs\<close> puts them.
\<close>

definition demo_sb :: superblock where
  "demo_sb = \<lparr>sb_magic = FSMAGIC, sb_size = 48, sb_nblocks = 2, sb_ninodes = 200, sb_nlog = 30, sb_logstart = 2, sb_inodestart = 32, sb_bmapstart = 45\<rparr>"

definition demo_bitmap :: block where
  "demo_bitmap = replicate 5 0xff @ [0x7f] @ replicate 1018 0"

definition demo_fs :: "platter \<Rightarrow> inode list \<Rightarrow> fsst" where
  "demo_fs pl it = consst.extend (uartst.extend (logst.extend (demo_log pl)
       (uartst.fields (replicate UART_TX_BUF_SIZE 0) 0 0 (replicate 400 0x20) [] [] False True))
       (consst.fields (replicate INPUT_BUF_SIZE 0) 0 0 0 (\<lambda>_. \<lparr>dv_read = None, dv_write = None\<rparr>)))
     (fsst.fields demo_sb it)"

lemma demo_fs_simps:
  "bufs (demo_fs pl it) = replicate (Suc NBUF) demo_buf" "platter (demo_fs pl it) = pl" "held (demo_fs pl it) = []" "curproc (demo_fs pl it) = Some 2"
  "ptable (demo_fs pl it) = replicate NPROC (demo_proc RUNNING None)" "vd (demo_fs pl it) = vd (demo_boot pl)" "vdev (demo_fs pl it) = vdev (demo_boot pl)"
  "l_start (demo_fs pl it) = 2" "l_size (demo_fs pl it) = 30" "l_outstanding (demo_fs pl it) = 1" "\<not> l_committing (demo_fs pl it)" "l_dev (demo_fs pl it) = ROOTDEV"
  "lh_n (demo_fs pl it) = 0" "lh_block (demo_fs pl it) = replicate LOGSIZE 0" "sb (demo_fs pl it) = demo_sb" "itable (demo_fs pl it) = it"
  "uart_lsr (demo_fs pl it) = replicate 400 0x20" "\<not> panicked (demo_fs pl it)" "sl_locked (slk (demo_fs pl it) l) = 0"
  by (simp_all add: demo_fs_def consst.extend_def uartst.extend_def logst.extend_def uartst.fields_def consst.fields_def fsst.fields_def
      demo_log_simps demo_log_def storage.extend_def logst.fields_def demo_boot_def del: replicate_Suc)

lemma binit_inode_locks: "slk (binit s) (InodeLock i) = slk s (InodeLock i)"
proof -
  have "slk (fold (\<lambda>b s. link_front b (initsleeplock (BufLock b) s)) bs s) (InodeLock i) = slk s (InodeLock i)" for bs and s :: "'a storage_scheme"
    by (induction bs arbitrary: s) (simp_all add: link_front_def upd_buf_def initsleeplock_def upd_slk_def Let_def)
  then show ?thesis by (simp add: binit_def upd_buf_def Let_def)
qed

lemma demo_fs_tx:
  assumes "\<forall>w \<in> set pl. length (snd w) = BSIZE" "\<forall>w \<in> set pl. fst w \<noteq> 2"
  obtains s :: fsst where "tx 2 s {}" "logged s = []" "l_start s = 2" "l_size s = 30" "blk s = disk_block pl" "sb s = demo_sb" "itable s = it"
    "\<not> panicked s" "uart_lsr s = replicate 400 0x20" "\<forall>i. sl_locked (slk s (InodeLock i)) = 0"
proof -
  define s where "s = binit (demo_fs pl it)"
  have z: "length (bufs (demo_fs pl it)) = Suc NBUF" "\<forall>i < NBUF. zero_buf (bf (demo_fs pl it) i)"
    by (simp_all add: bf_def demo_fs_simps zero_buf_def demo_buf_def del: replicate_Suc)
  from binit_spec [OF z] obtain bs sl where s: "s = (demo_fs pl it)\<lparr>bufs := bs, slk := sl\<rparr>" unfolding s_def by blast
  have c: "cst 2 s {} {}" unfolding s_def
  proof (rule binit_cst [OF z])
    show "in_proc 2 (demo_fs pl it)" by (simp add: in_proc_def pr_def demo_fs_simps demo_proc_def)
    show "vd_idle (vd (demo_fs pl it))" "device_ok (vdev (demo_fs pl it))" by (simp_all add: demo_fs_simps demo_boot_def)
  qed (use assms(1) in \<open>simp add: demo_fs_simps\<close>)
  have f: "platter s = pl" "l_start s = 2" "l_size s = 30" "l_outstanding s = 1" "l_dev s = ROOTDEV" "lh_n s = 0" "lh_block s = replicate LOGSIZE 0"
    "sb s = demo_sb" "itable s = it" "uart_lsr s = replicate 400 0x20" "\<not> panicked s"
    by (simp_all add: s demo_fs_simps)
  have "disk_block pl 2 = replicate BSIZE 0" using assms(2)
    unfolding disk_block_def by (induction pl rule: rev_induct) auto
  then have h: "hdr_n (disk_block pl 2) = 0" by (simp add: hdr_n_def getn_zero)
  have lg: "logged s = []" using f by (simp add: logged_def)
  have "tx 2 s {}" using c f lg h by (simp add: tx_def log_shape_def)
  moreover have "blk s = disk_block pl" using cst_clean [OF c] f by auto
  moreover have "\<forall>i. sl_locked (slk s (InodeLock i)) = 0" by (simp add: s_def binit_inode_locks demo_fs_simps)
  ultimately show thesis using that f lg by blast
qed

lemma demo_bitmap_free: "b < 48 \<Longrightarrow> bit_free demo_bitmap b \<longleftrightarrow> b = 47"
proof -
  assume b: "b < 48"
  have n: "demo_bitmap ! i = (if i < 5 then 0xff else if i = 5 then 0x7f else 0)" if "i < 6" for i
    using that by (simp add: demo_bitmap_def nth_append)
  have m: "(0xff :: uchar) = mask 8" "(0x7f :: uchar) = mask 7" by (simp_all add: mask_eq_exp_minus_1)
  have "b div 8 < 6" using b by simp
  then show "bit_free demo_bitmap b \<longleftrightarrow> b = 47"
    unfolding bit_free_iff n [OF \<open>b div 8 < 6\<close>] using b by (auto simp: m bit_mask_iff) presburger
qed

lemma demo_fs_map:
  assumes "sb s = demo_sb" "blk s 45 = demo_bitmap" "l_start s = 2" "l_size s = 30"
  shows "bitmap_blocks s = {45}" "free_block s b \<longleftrightarrow> b = 47" "map_ok s"
proof -
  have B: "BBLOCK b demo_sb = 45" if "b < 48" for b using that by (simp add: BBLOCK_def demo_sb_def)
  have z: "sb_size demo_sb = 48" by (simp add: demo_sb_def)
  show bm: "bitmap_blocks s = {45}" using B by (auto simp: bitmap_blocks_def assms(1) z intro!: rev_image_eqI [of 0])
  have f: "free_block s b \<longleftrightarrow> b = 47" for b using B [of b] demo_bitmap_free [of b] assms(2) by (auto simp: free_block_def assms(1) z)
  then show "free_block s b \<longleftrightarrow> b = 47" .
  show "map_ok s" using assms(3,4) by (auto simp: map_ok_def bm f loggable_def log_area_def)
qed

theorem balloc_correct_witness:
  "\<exists>s :: fsst. returns (balloc ROOTDEV s) (\<lambda>(b, t). b = 47 \<and> blk t 47 = replicate BSIZE 0 \<and> (\<forall>c. \<not> free_block t c))"
proof -
  have pl: "\<forall>w \<in> set [(45, demo_bitmap)]. length (snd w) = BSIZE" "\<forall>w \<in> set [(45 :: nat, demo_bitmap)]. fst w \<noteq> 2"
    by (simp_all add: demo_bitmap_def)
  obtain s :: fsst where s: "tx 2 s {}" "logged s = []" "l_start s = 2" "l_size s = 30" "blk s = disk_block [(45, demo_bitmap)]" "sb s = demo_sb" "itable s = []"
    "\<not> panicked s" "uart_lsr s = replicate 400 0x20" "\<forall>i. sl_locked (slk s (InodeLock i)) = 0"
    by (rule demo_fs_tx [OF pl])
  have "blk s 45 = demo_bitmap" by (simp add: s(5) disk_block_def)
  note m = demo_fs_map [OF s(6) this s(3,4)]
  have "fsx 2 {45} (Suc 0) s {}" using s by (simp add: fsx_def)
  from balloc_correct [OF this _ m(3) _ s(8)] show ?thesis
    by (intro exI [of _ s]) (auto simp: m s(9) idle_def elim!: returns_mono)
qed

subsection \<open>Freeing a block\<close>

lemma bfree_spec:
  assumes "fsx p K k s H" "bitmap_blocks s \<subseteq> K - H" "map_ok s" "b < sb_size (sb s)" "\<not> free_block s b"
  obtains t where "bfree ROOTDEV b s = Inr t" "blk t = (blk s)(BBLOCK b (sb s) := bit_clear (b mod BPB) (blk s (BBLOCK b (sb s))))"
    "fsx p K k t H" "lframe p s t"
proof -
  let ?n = "BBLOCK b (sb s)"
  have "?n \<in> bitmap_blocks s" using assms(4) by (simp add: bitmap_blocks_def)
  then have n: "?n \<notin> H" "loggable s ?n" "?n \<in> K" using assms(2,3) by (auto simp: map_ok_def)
  have len: "length (blk s ?n) = BSIZE" by (rule bt.size [OF fsx_tx [OF assms(1)]])
  have m: "b mod BPB < BPB" by simp
  obtain c t u v where t: "bread ROOTDEV ?n s = Inr (c, t)" "b_data (bf t c) = blk s ?n" "blk t = blk s" "lframe p s t"
    "log_write c (put_data c (bit_clear (b mod BPB) (blk s ?n)) t) = Inr u" "brelse c u = Inr v" "fsx p K k v H"
    "blk v = (blk s)(?n := bit_clear (b mod BPB) (blk s ?n))" "set (logged v) = insert ?n (set (logged s))" "lframe p s v"
    by (rule fs_modify [OF assms(1) n bit_set_clear(4) [OF len m m]])
  have "\<not> bit_free (blk s ?n) (b mod BPB)" using assms(4,5) by (simp add: free_block_def)
  then have "bfree ROOTDEV b s = Inr v" using t by (simp add: bfree_def Let_def)
  then show thesis using that t by blast
qed

text \<open>
  C8: freeing a block. \<open>bfree\<close> of a block that is free already panics; of a block in use it makes exactly that block
  free and changes no block outside the bitmap.
\<close>

theorem bfree_correct:
  assumes "fsx p K k s H" "bitmap_blocks s \<subseteq> K - H" "map_ok s" "b < sb_size (sb s)"
  shows "if free_block s b then bfree ROOTDEV b s = Inl (Panic ''freeing free block'')
     else returns (bfree ROOTDEV b s) (\<lambda>t. (\<forall>c. free_block t c \<longleftrightarrow> free_block s c \<or> c = b) \<and>
       (\<forall>m. m \<notin> bitmap_blocks s \<longrightarrow> blk t m = blk s m))"
proof (cases "free_block s b")
  case True
  let ?n = "BBLOCK b (sb s)"
  have "?n \<in> bitmap_blocks s" using assms(4) by (simp add: bitmap_blocks_def)
  then have n: "?n \<notin> H" "?n < 2 ^ 31" "?n \<in> K" using assms(2,3) by (auto simp: map_ok_def loggable_def)
  obtain c t where t: "bread ROOTDEV ?n s = Inr (c, t)" "b_data (bf t c) = blk s ?n"
    by (rule fs_read [OF assms(1) n])
  then have "bfree ROOTDEV b s = Inl (Panic ''freeing free block'')" using True by (simp add: bfree_def Let_def free_block_def)
  then show ?thesis using True by simp
next
  case False
  obtain t where t: "bfree ROOTDEV b s = Inr t" "blk t = (blk s)(BBLOCK b (sb s) := bit_clear (b mod BPB) (blk s (BBLOCK b (sb s))))"
    "fsx p K k t H" "lframe p s t"
    by (rule bfree_spec [OF assms False])
  have l: "\<And>n. length (blk s n) = BSIZE" by (rule bt.size [OF fsx_tx [OF assms(1)]])
  have "free_block t c \<longleftrightarrow> free_block s c \<or> c = b" for c
    using bitmap_change [OF assms(3) lframe_fs(1) [OF t(4)] l assms(4), of "bit_clear (b mod BPB) (blk s (BBLOCK b (sb s)))" c] t(2) by auto
  moreover have "BBLOCK b (sb s) \<in> bitmap_blocks s" using assms(4) by (simp add: bitmap_blocks_def)
  ultimately show ?thesis using False t(1,2) by auto
qed

theorem bfree_correct_witness:
  "\<exists>s :: fsst. returns (bfree ROOTDEV 46 s) (\<lambda>t. free_block t 46) \<and> bfree ROOTDEV 47 s = Inl (Panic ''freeing free block'')"
proof -
  have pl: "\<forall>w \<in> set [(45, demo_bitmap)]. length (snd w) = BSIZE" "\<forall>w \<in> set [(45 :: nat, demo_bitmap)]. fst w \<noteq> 2"
    by (simp_all add: demo_bitmap_def)
  obtain s :: fsst where s: "tx 2 s {}" "logged s = []" "l_start s = 2" "l_size s = 30" "blk s = disk_block [(45, demo_bitmap)]" "sb s = demo_sb" "itable s = []"
    "\<not> panicked s" "uart_lsr s = replicate 400 0x20" "\<forall>i. sl_locked (slk s (InodeLock i)) = 0"
    by (rule demo_fs_tx [OF pl])
  have "blk s 45 = demo_bitmap" by (simp add: s(5) disk_block_def)
  note m = demo_fs_map [OF s(6) this s(3,4)]
  have f: "fsx 2 {45} 0 s {}" using s by (simp add: fsx_def)
  have z: "sb_size (sb s) = 48" by (simp add: s(6) demo_sb_def)
  show ?thesis using bfree_correct [OF f _ m(3), of 46] bfree_correct [OF f _ m(3), of 47]
    by (intro exI [of _ s]) (auto simp: m z elim!: returns_mono)
qed

end
