(* ===== verification/Pipe.thy ===== *)
theory Pipe
  imports Fsblocks
begin

section \<open>Pipes\<close>

text \<open>
  The operations of \<^verbatim>\<open>kernel/pipe.c\<close> on an existing pipe. \<open>pipes\<close> maps the address of the page
  a pipe lives in to its \<^verbatim>\<open>struct pipe\<close>. A routine that has to wait ends with \<open>Sleeping\<close>. A write may
  wait in the middle: \<open>pipewrite_run\<close> ends with the state in which the process sleeps, and
  \<open>pipewrite_resume\<close> goes on from the state in which it was woken.
\<close>

definition PIPESIZE :: nat where [simp, code_unfold]: "PIPESIZE = 512"

record pipe =
  pi_data :: "uchar list"
  pi_nread :: uint
  pi_nwrite :: uint
  pi_readopen :: bool
  pi_writeopen :: bool

record pipest = fsst +
  pipes :: "uint64 \<Rightarrow> pipe"

definition upd_pipe :: "uint64 \<Rightarrow> (pipe \<Rightarrow> pipe) \<Rightarrow> 'a pipest_scheme \<Rightarrow> 'a pipest_scheme" where
  "upd_pipe pi f s = s\<lparr>pipes := (pipes s)(pi := f (pipes s pi))\<rparr>"

text \<open>The buffer: whether it is full, and putting in and taking out one byte.\<close>

definition pipe_full :: "pipe \<Rightarrow> bool" where
  "pipe_full q \<longleftrightarrow> pi_nwrite q = pi_nread q + of_nat PIPESIZE"

definition pipe_put :: "uchar \<Rightarrow> pipe \<Rightarrow> pipe" where
  "pipe_put ch q =
     (if pipe_full q then q
      else q\<lparr>pi_data := (pi_data q)[unat (pi_nwrite q) mod PIPESIZE := ch], pi_nwrite := pi_nwrite q + 1\<rparr>)"

definition pipe_get :: "pipe \<Rightarrow> uchar option \<times> pipe" where
  "pipe_get q =
     (if pi_nread q = pi_nwrite q then (None, q)
      else (Some (pi_data q ! (unat (pi_nread q) mod PIPESIZE)), q\<lparr>pi_nread := pi_nread q + 1\<rparr>))"

definition pipeclose :: "uint64 \<Rightarrow> bool \<Rightarrow> 'a pipest_scheme \<Rightarrow> exn + 'a pipest_scheme" where
  "pipeclose pi writable s =
     andthen (acquire (PipeLock pi) s) (\<lambda>s.
     andthen
       (if writable then wakeup (ChanPipeRead pi) (upd_pipe pi (\<lambda>q. q\<lparr>pi_writeopen := False\<rparr>) s)
        else wakeup (ChanPipeWrite pi) (upd_pipe pi (\<lambda>q. q\<lparr>pi_readopen := False\<rparr>) s)) (\<lambda>s.
     if \<not> pi_readopen (pipes s pi) \<and> \<not> pi_writeopen (pipes s pi)
     then andthen (release (PipeLock pi) s) (\<lambda>s. kfree pi s)
     else release (PipeLock pi) s))"

text \<open>
  The writing loop with the number of bytes left. It ends because the call has failed and the lock is
  released, because \<open>i\<close> bytes are written, or because the process sleeps with \<open>i\<close> bytes written.
\<close>

datatype wend = Failed | Wrote nat | Asleep nat

fun pipewrite_loop :: "nat \<Rightarrow> uint64 \<Rightarrow> nat \<Rightarrow> uint64 \<Rightarrow> nat \<Rightarrow> 'a pipest_scheme \<Rightarrow> exn + (wend \<times> 'a pipest_scheme)" where
  "pipewrite_loop 0 pi p addr i s = Inr (Wrote i, s)"
| "pipewrite_loop (Suc n) pi p addr i s =
     andthen (if \<not> pi_readopen (pipes s pi) then Inr (1, s) else killed p s) (\<lambda>(k, s).
     if k \<noteq> 0 then andthen (release (PipeLock pi) s) (\<lambda>s. Inr (Failed, s))
     else if pipe_full (pipes s pi) then
       andthen (wakeup (ChanPipeRead pi) s) (\<lambda>s.
       andthen (sleep_enter (ChanPipeWrite pi) (PipeLock pi) s) (\<lambda>s.
       Inr (Asleep i, s)))
     else
       andthen (copyin (p_pagetable (pr s p)) (addr + of_nat i) 1 s) (\<lambda>(r, bs, s).
       if r = - 1 then Inr (Wrote i, s)
       else pipewrite_loop n pi p addr (Suc i) (upd_pipe pi (pipe_put (hd bs)) s)))"

text \<open>From the loop on, with \<open>i\<close> bytes written: the result, or the number of bytes written so far.\<close>

definition pipewrite_from :: "uint64 \<Rightarrow> nat \<Rightarrow> uint64 \<Rightarrow> int \<Rightarrow> nat \<Rightarrow> 'a pipest_scheme \<Rightarrow> exn + ((nat + int) \<times> 'a pipest_scheme)" where
  "pipewrite_from pi p addr n i s =
     andthen (pipewrite_loop (nat n - i) pi p addr i s) (\<lambda>(r, s).
     case r of
       Failed \<Rightarrow> Inr (Inr (- 1), s)
     | Asleep i \<Rightarrow> Inr (Inl i, s)
     | Wrote i \<Rightarrow>
         andthen (wakeup (ChanPipeRead pi) s) (\<lambda>s.
         andthen (release (PipeLock pi) s) (\<lambda>s.
         Inr (Inr (int i), s))))"

definition pipewrite_run :: "uint64 \<Rightarrow> uint64 \<Rightarrow> int \<Rightarrow> 'a pipest_scheme \<Rightarrow> exn + ((nat + int) \<times> 'a pipest_scheme)" where
  "pipewrite_run pi addr n s =
     andthen (myproc s) (\<lambda>p.
     andthen (acquire (PipeLock pi) s) (\<lambda>s.
     pipewrite_from pi p addr n 0 s))"

definition pipewrite_resume :: "uint64 \<Rightarrow> uint64 \<Rightarrow> int \<Rightarrow> nat \<Rightarrow> 'a pipest_scheme \<Rightarrow> exn + ((nat + int) \<times> 'a pipest_scheme)" where
  "pipewrite_resume pi addr n i s =
     andthen (myproc s) (\<lambda>p.
     andthen (sleep_return (PipeLock pi) s) (\<lambda>s.
     pipewrite_from pi p addr n i s))"

definition pipewrite :: "uint64 \<Rightarrow> uint64 \<Rightarrow> int \<Rightarrow> 'a pipest_scheme \<Rightarrow> exn + (int \<times> 'a pipest_scheme)" where
  "pipewrite pi addr n s =
     andthen (pipewrite_run pi addr n s) (\<lambda>(r, s).
     case r of Inl _ \<Rightarrow> Inl (Sleeping (ChanPipeWrite pi)) | Inr r \<Rightarrow> Inr (r, s))"

fun piperead_loop :: "nat \<Rightarrow> uint64 \<Rightarrow> nat \<Rightarrow> uint64 \<Rightarrow> nat \<Rightarrow> 'a pipest_scheme \<Rightarrow> exn + (nat \<times> 'a pipest_scheme)" where
  "piperead_loop 0 pi p addr i s = Inr (i, s)"
| "piperead_loop (Suc n) pi p addr i s =
     (case pipe_get (pipes s pi) of
        (None, _) \<Rightarrow> Inr (i, s)
      | (Some ch, q) \<Rightarrow>
          let s = upd_pipe pi (\<lambda>_. q) s in
          andthen (copyout (p_pagetable (pr s p)) (addr + of_nat i) [ch] s) (\<lambda>(r, s).
          if r = - 1 then Inr (i, s)
          else piperead_loop n pi p addr (Suc i) s))"

definition piperead :: "uint64 \<Rightarrow> uint64 \<Rightarrow> int \<Rightarrow> 'a pipest_scheme \<Rightarrow> exn + (int \<times> 'a pipest_scheme)" where
  "piperead pi addr n s =
     andthen (myproc s) (\<lambda>p.
     andthen (acquire (PipeLock pi) s) (\<lambda>s.
     if pi_nread (pipes s pi) = pi_nwrite (pipes s pi) \<and> pi_writeopen (pipes s pi) then
       andthen (killed p s) (\<lambda>(k, s).
       if k \<noteq> 0 then andthen (release (PipeLock pi) s) (\<lambda>s. Inr (- 1, s))
       else sleep (ChanPipeRead pi) (PipeLock pi) s)
     else
       andthen (piperead_loop (nat n) pi p addr 0 s) (\<lambda>(i, s).
       andthen (wakeup (ChanPipeWrite pi) s) (\<lambda>s.
       andthen (release (PipeLock pi) s) (\<lambda>s.
       Inr (int i, s))))))"

subsection \<open>A pipe is a queue\<close>

definition pipe_q :: "pipe \<Rightarrow> uchar list" where
  "pipe_q q = ring_q (pi_data q) (pi_nread q) (pi_nwrite q)"

definition pipe_ok :: "pipe \<Rightarrow> bool" where
  "pipe_ok q \<longleftrightarrow> length (pi_data q) = PIPESIZE \<and> unat (pi_nwrite q - pi_nread q) \<le> PIPESIZE"

lemma pipe_full_iff: "pipe_full q \<longleftrightarrow> length (pipe_q q) = PIPESIZE"
proof -
  have "pipe_full q \<longleftrightarrow> pi_nwrite q - pi_nread q = 512" by (auto simp: pipe_full_def algebra_simps)
  also have "\<dots> \<longleftrightarrow> unat (pi_nwrite q - pi_nread q) = unat (512 :: uint)" by (simp only: word_unat_eq_iff)
  finally show ?thesis by (simp add: pipe_q_def)
qed

interpretation pipeq: bounded_fifo pipe_q PIPESIZE pipe_ok pipe_put pipe_get
proof
  fix q :: pipe and a
  assume o: "pipe_ok q"
  show "length (pipe_q q) \<le> PIPESIZE" using o by (simp add: pipe_q_def pipe_ok_def)
  show "pipe_ok (pipe_put a q) \<and> pipe_q (pipe_put a q) = (if length (pipe_q q) < PIPESIZE then pipe_q q @ [a] else pipe_q q)"
  proof (cases "pipe_full q")
    case True
    then show ?thesis using o by (simp add: pipe_put_def pipe_full_iff)
  next
    case False
    then have f: "unat (pi_nwrite q - pi_nread q) < 512" using o by (simp add: pipe_full_iff pipe_q_def pipe_ok_def)
    have l: "length (pi_data q) = 512" using o by (simp add: pipe_ok_def)
    have "ring_q ((pi_data q)[unat (pi_nwrite q) mod 512 := a]) (pi_nread q) (pi_nwrite q + 1) = ring_q (pi_data q) (pi_nread q) (pi_nwrite q) @ [a]"
      using ring_put [of "pi_data q" "pi_nwrite q" "pi_nread q" a] f l by simp
    moreover have "unat (pi_nwrite q + 1 - pi_nread q) = Suc (unat (pi_nwrite q - pi_nread q))" by (rule ring_diff_Suc) (use f in simp)
    ultimately show ?thesis using False f l by (simp add: pipe_put_def pipe_q_def pipe_ok_def)
  qed
  show "pipe_ok (snd (pipe_get q)) \<and> (case pipe_q q of [] \<Rightarrow> fst (pipe_get q) = None \<and> pipe_q (snd (pipe_get q)) = []
      | a # x \<Rightarrow> fst (pipe_get q) = Some a \<and> pipe_q (snd (pipe_get q)) = x)"
  proof (cases "pi_nread q = pi_nwrite q")
    case True
    then show ?thesis using o by (simp add: pipe_get_def pipe_q_def)
  next
    case False
    have l: "length (pi_data q) = 512" using o by (simp add: pipe_ok_def)
    show ?thesis
      using False o ring_get [OF False, of "pi_data q"] ring_get_length [OF False] l by (simp add: pipe_get_def pipe_q_def pipe_ok_def)
  qed
qed

lemma pipe_q_empty: "pipe_q q = [] \<longleftrightarrow> pi_nread q = pi_nwrite q"
  using length_ring_q [of "pi_data q" "pi_nread q" "pi_nwrite q"] by (auto simp: pipe_q_def unat_eq_zero simp flip: length_0_conv)

subsection \<open>Writing and reading\<close>

lemma upd_pipe_fields [simp]:
  "pipes (upd_pipe pi f s) pi = f (pipes s pi)" "mem (upd_pipe pi f s) = mem s" "held (upd_pipe pi f s) = held s" "pr (upd_pipe pi f s) = pr s"
  "curproc (upd_pipe pi f s) = curproc s" "ptable (upd_pipe pi f s) = ptable s" "upd_pipe pi f (upd_pipe pi g s) = upd_pipe pi (\<lambda>q. f (g q)) s"
  "upd_pipe pi (\<lambda>q. q) s = s" "no_plock (upd_pipe pi f s) = no_plock s"
  by (simp_all add: upd_pipe_def pr_def fun_eq_iff no_plock_def)

lemma killed_eq: "ProcLock p \<notin> set (held s) \<Longrightarrow> killed p s = Inr (p_killed (pr s p), s)"
  by (simp add: killed_def lock_simps Let_def)

lemma sleep_eq:
  "curproc s = Some p \<Longrightarrow> p < length (ptable s) \<Longrightarrow> held s = [lk] \<Longrightarrow> lk \<noteq> ProcLock p \<Longrightarrow> sleep ch lk s = Inl (Sleeping ch)"
  by (simp add: sleep_def sleep_enter_def sched_def myproc_def lock_simps holding_def pr_upd_proc Let_def)

lemma ubytes_Suc: "ubytes m pt va (Suc n) = umem m pt va # ubytes m pt (va + 1) n"
  by (simp add: ubytes_def upt_conv_Cons map_Suc_upt [symmetric] add.assoc del: upt_Suc)

lemma mapped_prefix_Cons [simp]: "mapped_prefix (None # us) = []" "mapped_prefix (Some b # us) = b # mapped_prefix us"
  by (simp_all add: mapped_prefix_def)

lemma copyin_one:
  "pt_good (mem s) pt \<Longrightarrow> copyin pt va 1 s = Inr (case umem (mem s) pt va of None \<Rightarrow> (- 1, [], s) | Some b \<Rightarrow> (0, [b], s))"
  using copyin_spec [of s pt va 1] ubytes_Suc [of "mem s" pt va 0] by (simp add: ubytes_def mapped_prefix_def split: option.splits)

definition pending :: "uint64 \<Rightarrow> nat \<Rightarrow> nat \<Rightarrow> 'a procs_scheme \<Rightarrow> uchar list" where
  "pending addr n p s = mapped_prefix (ubytes (mem s) (p_pagetable (pr s p)) addr n)"

lemma length_pending: "length (pending addr n p s) \<le> n"
  using length_takeWhile_le [of "\<lambda>u. u \<noteq> None" "ubytes (mem s) (p_pagetable (pr s p)) addr n"] by (simp add: pending_def mapped_prefix_def ubytes_def)

text \<open>The state in which a writer sleeps: the readers are woken, and only the lock of the process is held.\<close>

definition pipe_sleep :: "uint64 \<Rightarrow> nat \<Rightarrow> 'a pipest_scheme \<Rightarrow> 'a pipest_scheme" where
  "pipe_sleep pi p s = upd_proc p (\<lambda>q. q\<lparr>p_chan := Some (ChanPipeWrite pi), p_state := SLEEPING\<rparr>)
     (s\<lparr>ptable := woken (ChanPipeRead pi) p (ptable s), held := [ProcLock p]\<rparr>)"

definition pipe_env :: "nat \<Rightarrow> uint64 \<Rightarrow> 'a pipest_scheme \<Rightarrow> bool" where
  "pipe_env p pi s \<longleftrightarrow> held s = [PipeLock pi] \<and> curproc s = Some p \<and> p < NPROC \<and> length (ptable s) = NPROC \<and>
     pipe_ok (pipes s pi) \<and> pt_good (mem s) (p_pagetable (pr s p))"

lemma pipe_env_wakeup:
  "pipe_env p pi s \<Longrightarrow> wakeup (ChanPipeRead pi) s = Inr (s\<lparr>ptable := woken (ChanPipeRead pi) p (ptable s)\<rparr>)"
  using wakeup_eq [of s "ChanPipeRead pi"] by (simp add: pipe_env_def no_plock_def woken_def)

lemma pipe_env_sleep:
  assumes "pipe_env p pi s"
  shows "andthen (wakeup (ChanPipeRead pi) s) (sleep_enter (ChanPipeWrite pi) (PipeLock pi)) = Inr (pipe_sleep pi p s)"
proof -
  have "held s = [PipeLock pi]" "curproc s = Some p" "p < NPROC" using assms by (simp_all add: pipe_env_def)
  then show ?thesis
    by (simp add: pipe_env_wakeup [OF assms] sleep_enter_def sched_def myproc_def lock_simps holding_def pr_upd_proc Let_def
        pipe_sleep_def upd_proc_def woken_def pr_def)
qed

lemma pipewrite_loop_eq:
  assumes "pipe_env p pi s" "pi_readopen (pipes s pi)" "p_killed (pr s p) = 0" "bs = pending (addr + of_nat i) n p s"
    "k = PIPESIZE - length (pipe_q (pipes s pi))"
  shows "pipewrite_loop n pi p addr i s = Inr (if n \<le> k \<or> length bs < k
     then (Wrote (i + length bs), upd_pipe pi (fold pipe_put bs) s)
     else (Asleep (i + k), pipe_sleep pi p (upd_pipe pi (fold pipe_put (take k bs)) s)))"
  using assms
proof (induction n arbitrary: i s bs k)
  case 0
  then show ?case by (simp add: pending_def ubytes_def mapped_prefix_def id_def)
next
  case (Suc n)
  let ?pt = "p_pagetable (pr s p)" and ?a = "addr + of_nat i" and ?q = "pipe_q (pipes s pi)"
  have g: "pt_good (mem s) ?pt" "pipe_ok (pipes s pi)" "held s = [PipeLock pi]" using Suc.prems(1) by (simp_all add: pipe_env_def)
  have kl: "killed p s = Inr (0, s)" using g(3) Suc.prems(3) by (simp add: killed_eq)
  have ql: "length ?q \<le> PIPESIZE" using g(2) by (simp add: pipe_q_def pipe_ok_def)
  show ?case
  proof (cases "pipe_full (pipes s pi)")
    case True
    then have "k = 0" using Suc.prems(5) by (simp add: pipe_full_iff)
    moreover have "andthen (wakeup (ChanPipeRead pi) s) (\<lambda>s. andthen (sleep_enter (ChanPipeWrite pi) (PipeLock pi) s) (\<lambda>s. Inr (Asleep i, s))) =
        Inr (Asleep i, pipe_sleep pi p s)"
      using pipe_env_sleep [OF Suc.prems(1)] by (simp add: andthen_assoc [symmetric])
    ultimately show ?thesis using Suc.prems(2) kl True by (simp add: id_def)
  next
    case False
    then have k: "0 < k" using Suc.prems(5) ql by (simp add: pipe_full_iff)
    show ?thesis
    proof (cases "umem (mem s) ?pt ?a")
      case None
      then have "bs = []" using Suc.prems(4) by (simp add: pending_def ubytes_Suc)
      then show ?thesis using Suc.prems(2) kl False None k copyin_one [OF g(1), of ?a] by (simp add: id_def)
    next
      case (Some b)
      let ?t = "upd_pipe pi (pipe_put b) s"
      have q: "pipe_ok (pipes ?t pi)" "pipe_q (pipes ?t pi) = ?q @ [b]" using pipeq.enq_all [OF g(2), of "[b]"] k Suc.prems(5) by simp_all
      have t: "pipe_env p pi ?t" "pi_readopen (pipes ?t pi)" "p_killed (pr ?t p) = 0" "k - 1 = PIPESIZE - length (pipe_q (pipes ?t pi))"
        using Suc.prems q by (simp_all add: pipe_env_def pipe_put_def)
      define cs where "cs = pending (addr + of_nat (Suc i)) n p ?t"
      have bs: "bs = b # cs" using Some Suc.prems(4) by (simp add: cs_def pending_def ubytes_Suc add.assoc add.commute [of 1])
      have tk: "take k bs = b # take (k - 1) cs" using k by (cases k) (simp_all add: bs)
      have "pipewrite_loop (Suc n) pi p addr i s = pipewrite_loop n pi p addr (Suc i) ?t"
        using Suc.prems(2) kl False Some copyin_one [OF g(1), of ?a] by simp
      then show ?thesis
        unfolding Suc.IH [OF t(1-3) cs_def t(4)] using k tk by (auto simp: bs comp_def simp del: pipewrite_loop.simps)
    qed
  qed
qed

lemma fold_put_ok: "pipe_ok q \<Longrightarrow> length (pipe_q q) + length bs \<le> PIPESIZE \<Longrightarrow>
   pipe_ok (fold pipe_put bs q) \<and> pipe_q (fold pipe_put bs q) = pipe_q q @ bs"
  by (rule pipeq.enq_all)

text \<open>
  What a write does from the loop on, with \<open>i\<close> bytes written: \<open>bs\<close> are the bytes of the caller up to the first address that
  is not mapped, \<open>k\<close> is the room in the buffer.
\<close>

definition pipewrite_post :: "uint64 \<Rightarrow> nat \<Rightarrow> nat \<Rightarrow> nat \<Rightarrow> uchar list \<Rightarrow> 'a pipest_scheme \<Rightarrow> (nat + int) \<times> 'a pipest_scheme \<Rightarrow> bool" where
  "pipewrite_post pi p i n bs s = (\<lambda>(r, t). let k = PIPESIZE - length (pipe_q (pipes s pi)) in
     pipe_ok (pipes t pi) \<and> mem t = mem s \<and>
     (if n \<le> k \<or> length bs < k
      then r = Inr (int (i + length bs)) \<and> pipe_q (pipes t pi) = pipe_q (pipes s pi) @ bs \<and>
        ptable t = woken (ChanPipeRead pi) p (ptable s) \<and> held t = []
      else r = Inl (i + k) \<and> pipe_q (pipes t pi) = pipe_q (pipes s pi) @ take k bs \<and>
        ptable t = (woken (ChanPipeRead pi) p (ptable s))[p := (pr s p)\<lparr>p_chan := Some (ChanPipeWrite pi), p_state := SLEEPING\<rparr>] \<and>
        held t = [ProcLock p]))"

lemma woken_self: "p < NPROC \<Longrightarrow> woken ch p tb ! p = tb ! p"
  by (simp add: woken_def wake_entry_def)

lemma pipewrite_from_spec:
  assumes env: "pipe_env p pi s" and o: "pi_readopen (pipes s pi)" "p_killed (pr s p) = 0"
  shows "returns (pipewrite_from pi p addr n i s) (pipewrite_post pi p i (nat n - i) (pending (addr + of_nat i) (nat n - i) p s) s)"
proof -
  define bs k where "bs = pending (addr + of_nat i) (nat n - i) p s" and "k = PIPESIZE - length (pipe_q (pipes s pi))"
  note l = pipewrite_loop_eq [OF env o bs_def k_def]
  have e: "pipe_ok (pipes s pi)" "p < NPROC" "length (ptable s) = NPROC" "held s = [PipeLock pi]" using env by (simp_all add: pipe_env_def)
  have ql: "length (pipe_q (pipes s pi)) + k = PIPESIZE" using e(1) by (simp add: k_def pipe_q_def pipe_ok_def)
  have bl: "length bs \<le> nat n - i" unfolding bs_def by (rule length_pending)
  show ?thesis
  proof (cases "nat n - i \<le> k \<or> length bs < k")
    case True
    let ?t = "upd_pipe pi (fold pipe_put bs) s"
    have q: "pipe_ok (fold pipe_put bs (pipes s pi)) \<and> pipe_q (fold pipe_put bs (pipes s pi)) = pipe_q (pipes s pi) @ bs"
      using fold_put_ok [OF e(1), of bs] True ql bl by auto
    then have "pipe_env p pi ?t" using env by (simp add: pipe_env_def)
    from pipe_env_wakeup [OF this] have "pipewrite_from pi p addr n i s =
        Inr (Inr (int (i + length bs)), ?t\<lparr>ptable := woken (ChanPipeRead pi) p (ptable s), held := []\<rparr>)"
      using True e(4) by (simp add: pipewrite_from_def l lock_simps)
    then show ?thesis unfolding pipewrite_post_def bs_def [symmetric] k_def [symmetric] Let_def using True q by simp
  next
    case False
    let ?t = "upd_pipe pi (fold pipe_put (take k bs)) s"
    have q: "pipe_ok (fold pipe_put (take k bs) (pipes s pi)) \<and> pipe_q (fold pipe_put (take k bs) (pipes s pi)) = pipe_q (pipes s pi) @ take k bs"
      using fold_put_ok [OF e(1), of "take k bs"] ql by simp
    have "pipewrite_from pi p addr n i s = Inr (Inl (i + k), pipe_sleep pi p ?t)"
      using False by (simp add: pipewrite_from_def l)
    then show ?thesis unfolding pipewrite_post_def bs_def [symmetric] k_def [symmetric] Let_def
      using False q e(2,3) woken_self [OF e(2)] by (simp add: pipe_sleep_def upd_proc_def pr_def)
  qed
qed

text \<open>A process that was woken goes on with the bytes that are left.\<close>

lemma pipewrite_resume_spec:
  assumes "held s = [ProcLock p]" "curproc s = Some p" "p < NPROC" "length (ptable s) = NPROC" "pipe_ok (pipes s pi)"
    "pt_good (mem s) (p_pagetable (pr s p))" "pi_readopen (pipes s pi)" "p_killed (pr s p) = 0"
  shows "returns (pipewrite_resume pi addr n i s)
    (pipewrite_post pi p i (nat n - i) (pending (addr + of_nat i) (nat n - i) p s) (upd_proc p (\<lambda>q. q\<lparr>p_chan := None\<rparr>) s))"
proof -
  let ?s = "(upd_proc p (\<lambda>q. q\<lparr>p_chan := None\<rparr>) s)\<lparr>held := [PipeLock pi]\<rparr>"
  have r: "sleep_return (PipeLock pi) s = Inr ?s" using assms(1,2) by (simp add: sleep_return_def myproc_def lock_simps Let_def)
  have e: "pipes ?s = pipes s" "mem ?s = mem s" "pr ?s p = (pr s p)\<lparr>p_chan := None\<rparr>" "ptable ?s = ptable (upd_proc p (\<lambda>q. q\<lparr>p_chan := None\<rparr>) s)"
    "pr (upd_proc p (\<lambda>q. q\<lparr>p_chan := None\<rparr>) s) p = (pr s p)\<lparr>p_chan := None\<rparr>"
    using assms(3,4) by (simp_all add: upd_proc_def pr_def)
  have "pipe_env p pi ?s" using assms e by (simp add: pipe_env_def upd_proc_def)
  from pipewrite_from_spec [OF this, of addr n i] have
    "returns (pipewrite_from pi p addr n i ?s) (pipewrite_post pi p i (nat n - i) (pending (addr + of_nat i) (nat n - i) p ?s) ?s)"
    using assms(7,8) e by simp
  moreover have "pending (addr + of_nat i) (nat n - i) p ?s = pending (addr + of_nat i) (nat n - i) p s" using e by (simp add: pending_def)
  moreover have "pipewrite_post pi p i m bs ?s = pipewrite_post pi p i m bs (upd_proc p (\<lambda>q. q\<lparr>p_chan := None\<rparr>) s)" for m bs
    using e by (simp add: pipewrite_post_def upd_proc_def)
  ultimately show ?thesis using r assms(2) by (simp add: pipewrite_resume_def myproc_def)
qed

text \<open>
  C15: writing to a pipe. Let \<open>bs\<close> be the bytes the caller wants to write, up to the first address that is not mapped, and \<open>k\<close> the room in
  the buffer. If all fits, or the hole comes before the buffer is full, the bytes are appended to the queue in order, the
  result is their number, the readers that sleep on the pipe are runnable and the lock is released. Otherwise the first \<open>k\<close>
  bytes are appended, the readers are woken all the same, the lock of the pipe is released and the process sleeps until there is room.
  If no reader is left or the caller was killed, the result is \<open>-1\<close> and nothing changes.
\<close>

theorem pipewrite_correct:
  assumes "in_proc p s" "pipe_ok (pipes s pi)" "pt_good (mem s) (p_pagetable (pr s p))" "0 < n"
    "bs = pending addr (nat n) p s" "k = PIPESIZE - length (pipe_q (pipes s pi))"
  shows "if \<not> pi_readopen (pipes s pi) \<or> p_killed (pr s p) \<noteq> 0 then pipewrite pi addr n s = Inr (- 1, s)
     else if nat n \<le> k \<or> length bs < k then
       returns (pipewrite pi addr n s) (\<lambda>(r, t). r = int (length bs) \<and> pipe_ok (pipes t pi) \<and>
         pipe_q (pipes t pi) = pipe_q (pipes s pi) @ bs \<and> ptable t = woken (ChanPipeRead pi) p (ptable s) \<and>
         mem t = mem s \<and> held t = [])
     else pipewrite pi addr n s = Inl (Sleeping (ChanPipeWrite pi)) \<and>
       returns (pipewrite_run pi addr n s) (\<lambda>(r, t). r = Inl k \<and> pipe_ok (pipes t pi) \<and>
         pipe_q (pipes t pi) = pipe_q (pipes s pi) @ take k bs \<and>
         ptable t = (woken (ChanPipeRead pi) p (ptable s))[p := (pr s p)\<lparr>p_chan := Some (ChanPipeWrite pi), p_state := SLEEPING\<rparr>] \<and>
         mem t = mem s \<and> held t = [ProcLock p])"
proof -
  let ?s = "s\<lparr>held := [PipeLock pi]\<rparr>"
  have h: "held s = []" "curproc s = Some p" using assms(1) by (simp_all add: in_proc_def)
  have a: "pipewrite_run pi addr n s = pipewrite_from pi p addr n 0 ?s" using h by (simp add: pipewrite_run_def myproc_def lock_simps)
  have fail: "pipewrite pi addr n s = Inr (- 1, s)" if "\<not> pi_readopen (pipes s pi) \<or> p_killed (pr s p) \<noteq> 0"
  proof -
    obtain m where m: "nat n = Suc m" using assms(4) by (cases "nat n") auto
    have k: "killed p ?s = Inr (p_killed (pr s p), ?s)" by (simp add: killed_eq)
    have "s\<lparr>held := []\<rparr> = s" using h(1) by simp
    then show ?thesis using that k by (auto simp: pipewrite_def a pipewrite_from_def m lock_simps)
  qed
  have b: "pending (addr + of_nat 0) (nat n - 0) p ?s = bs" by (simp add: assms(5) pending_def)
  have env: "pipe_env p pi ?s" using assms(1-3) by (simp add: pipe_env_def in_proc_def)
  have "returns (pipewrite_run pi addr n s) (pipewrite_post pi p 0 (nat n) bs ?s)"
    if "pi_readopen (pipes s pi)" "p_killed (pr s p) = 0"
    using pipewrite_from_spec [OF env, of addr n 0] that unfolding a b by simp
  then show ?thesis
    using fail assms(6) by (auto simp: pipewrite_def pipewrite_post_def returns_iff Let_def)
qed


text \<open>One byte to user memory, and a run of bytes.\<close>

definition upt_ok :: "memory \<Rightarrow> uint64 \<Rightarrow> uint64 \<Rightarrow> nat \<Rightarrow> bool" where
  "upt_ok m pt addr n \<longleftrightarrow> pt_good m pt \<and> user_inj m pt \<and> (\<forall>i < n. umem m pt (addr + of_nat i) \<noteq> None)"

lemma copyout_one:
  assumes "pt_good (mem s) pt" "user_inj (mem s) pt" "umem (mem s) pt va \<noteq> None"
  obtains m where "copyout pt va [b] s = Inr (0, s\<lparr>mem := m\<rparr>)" "umem m pt = upd_bytes (umem (mem s) pt) va [b]" "pt_good m pt" "user_inj m pt"
    "\<forall>x. PGROUNDDOWN x \<notin> user_pages (mem s) pt \<longrightarrow> m x = mem s x" "user_pages m pt = user_pages (mem s) pt"
proof -
  obtain c where c: "umem (mem s) pt va = Some c" using assms(3) by auto
  have u: "ubytes (mem s) pt va (length [b]) = [Some c]" using c by (simp add: ubytes_def)
  obtain m where m: "copyout pt va [b] s = Inr (0, s\<lparr>mem := m\<rparr>)" "\<forall>x. PGROUNDDOWN x \<notin> user_pages (mem s) pt \<longrightarrow> m x = mem s x"
    "umem m pt = upd_bytes (umem (mem s) pt) va [b]"
    using copyout_spec [OF assms(1,2), of "[b]" va] unfolding u by (auto simp: mapped_prefix_def)
  show thesis by (rule that [OF m(1,3) user_cong(2,3) [OF assms(1,2) m(2)] m(2) user_cong(4) [OF assms(1,2) m(2)]])
qed

lemma piperead_loop_eq:
  assumes "pipe_ok (pipes s pi)" "upt_ok (mem s) (p_pagetable (pr s p)) addr (i + n)" "i + n < 2 ^ 64"
  obtains m q where "piperead_loop n pi p addr i s = Inr (i + min n (length (pipe_q (pipes s pi))), (upd_pipe pi (\<lambda>_. q) s)\<lparr>mem := m\<rparr>)"
    "pipe_ok q" "pipe_q q = drop n (pipe_q (pipes s pi))" "pi_readopen q = pi_readopen (pipes s pi)" "pi_writeopen q = pi_writeopen (pipes s pi)"
    "umem m (p_pagetable (pr s p)) = upd_bytes (umem (mem s) (p_pagetable (pr s p))) (addr + of_nat i) (take n (pipe_q (pipes s pi)))"
    "\<forall>x. PGROUNDDOWN x \<notin> user_pages (mem s) (p_pagetable (pr s p)) \<longrightarrow> m x = mem s x"
  using assms
proof (induction n arbitrary: i s thesis)
  case 0
  have "s = (upd_pipe pi (\<lambda>_. pipes s pi) s)\<lparr>mem := mem s\<rparr>" by (simp add: upd_pipe_def)
  then show ?case using 0(1) [of "mem s" "pipes s pi"] 0(2) by simp
next
  case (Suc n)
  let ?pt = "p_pagetable (pr s p)" and ?a = "addr + of_nat i"
  show ?case
  proof (cases "pipe_q (pipes s pi)")
    case Nil
    have "s = (upd_pipe pi (\<lambda>_. pipes s pi) s)\<lparr>mem := mem s\<rparr>" by (simp add: upd_pipe_def)
    then show ?thesis
      using Suc.prems(1) [of "mem s" "pipes s pi"] Suc.prems(2) Nil pipeq.deq_Nil [OF Suc.prems(2) Nil] by (cases "pipe_get (pipes s pi)") simp
  next
    case (Cons b qs)
    obtain q where q: "pipe_get (pipes s pi) = (Some b, q)" "pipe_ok q" "pipe_q q = qs"
      using pipeq.deq_Cons [OF Suc.prems(2) Cons] by (cases "pipe_get (pipes s pi)") auto
    have o: "pi_readopen q = pi_readopen (pipes s pi)" "pi_writeopen q = pi_writeopen (pipes s pi)" using q(1) by (auto simp: pipe_get_def split: if_splits)
    let ?t = "upd_pipe pi (\<lambda>_. q) s"
    have g: "pt_good (mem ?t) ?pt" "user_inj (mem ?t) ?pt" "umem (mem ?t) ?pt ?a \<noteq> None" using Suc.prems(3) by (auto simp: upt_ok_def)
    obtain m where m: "copyout ?pt ?a [b] ?t = Inr (0, ?t\<lparr>mem := m\<rparr>)" "umem m ?pt = upd_bytes (umem (mem ?t) ?pt) ?a [b]" "pt_good m ?pt" "user_inj m ?pt"
      "\<forall>x. PGROUNDDOWN x \<notin> user_pages (mem ?t) ?pt \<longrightarrow> m x = mem ?t x" "user_pages m ?pt = user_pages (mem ?t) ?pt"
      by (rule copyout_one [OF g])
    let ?u = "?t\<lparr>mem := m\<rparr>"
    have u: "pipes ?u pi = q" "pr ?u = pr s" "mem ?u = m" by (simp_all add: pr_def fun_eq_iff)
    have up: "upt_ok m ?pt addr (Suc i + n)" using Suc.prems(3) m by (auto simp: upt_ok_def upd_bytes_def)
    obtain m' q' where r: "piperead_loop n pi p addr (Suc i) ?u = Inr (Suc i + min n (length qs), (upd_pipe pi (\<lambda>_. q') ?u)\<lparr>mem := m'\<rparr>)"
      "pipe_ok q'" "pipe_q q' = drop n qs" "pi_readopen q' = pi_readopen q" "pi_writeopen q' = pi_writeopen q"
      "umem m' ?pt = upd_bytes (umem m ?pt) (addr + of_nat (Suc i)) (take n qs)" "\<forall>x. PGROUNDDOWN x \<notin> user_pages m ?pt \<longrightarrow> m' x = m x"
      by (rule Suc.IH [where s = ?u and i = "Suc i", unfolded u q(3)]) (use q(2) up Suc.prems(4) in simp_all)
    have f: "(upd_pipe pi (\<lambda>_. q') ?u)\<lparr>mem := m'\<rparr> = (upd_pipe pi (\<lambda>_. q') s)\<lparr>mem := m'\<rparr>" by (simp add: upd_pipe_def)
    have x: "umem m' ?pt = upd_bytes (umem (mem s) ?pt) ?a (take (Suc n) (pipe_q (pipes s pi)))"
      using upd_bytes_append [of "[b]" "take n qs" 1 "umem (mem s) ?pt" ?a] Suc.prems(4) by (simp add: r(6) m(2) Cons add.assoc add.commute [of 1])
    have y: "\<forall>x. PGROUNDDOWN x \<notin> user_pages (mem s) ?pt \<longrightarrow> m' x = mem s x" using r(7) m(5,6) by simp
    show ?thesis
      by (rule Suc.prems(1) [of m' q']) (use q m(1) r(1-5) o x y Cons f in \<open>simp_all add: Let_def\<close>)
  qed
qed


text \<open>
  C16: reading from a pipe. If the pipe holds bytes, or nobody can write to it any more, \<open>piperead\<close> takes the first
  \<open>min n (length q)\<close> bytes \<open>q\<close> off the queue, delivers them at the caller's address, in order, and returns their
  number; no memory outside of the caller's pages changes, sleeping writers are woken and the lock is released. On an empty
  pipe with a writer it sleeps, unless the caller was killed.
\<close>

theorem piperead_correct:
  assumes "in_proc p s" "pipe_ok (pipes s pi)" "upt_ok (mem s) (p_pagetable (pr s p)) addr (nat n)" "0 \<le> n" "n < 2 ^ 31"
  shows "if pipe_q (pipes s pi) = [] \<and> pi_writeopen (pipes s pi)
     then piperead pi addr n s = (if p_killed (pr s p) \<noteq> 0 then Inr (- 1, s) else Inl (Sleeping (ChanPipeRead pi)))
     else returns (piperead pi addr n s) (\<lambda>(r, t). r = int (min (nat n) (length (pipe_q (pipes s pi)))) \<and> pipe_ok (pipes t pi) \<and>
       pipe_q (pipes t pi) = drop (nat n) (pipe_q (pipes s pi)) \<and>
       umem (mem t) (p_pagetable (pr s p)) = upd_bytes (umem (mem s) (p_pagetable (pr s p))) addr (take (nat n) (pipe_q (pipes s pi))) \<and>
       (\<forall>x. PGROUNDDOWN x \<notin> user_pages (mem s) (p_pagetable (pr s p)) \<longrightarrow> mem t x = mem s x) \<and>
       ptable t = woken (ChanPipeWrite pi) p (ptable s) \<and> held t = [])"
proof (cases "pipe_q (pipes s pi) = [] \<and> pi_writeopen (pipes s pi)")
  case True
  let ?s = "s\<lparr>held := [PipeLock pi]\<rparr>"
  have k: "killed p ?s = Inr (p_killed (pr s p), ?s)" by (simp add: killed_eq)
  have "piperead pi addr n s = (if p_killed (pr s p) \<noteq> 0 then Inr (- 1, s) else Inl (Sleeping (ChanPipeRead pi)))"
    using True assms(1) k by (simp add: piperead_def myproc_def lock_simps in_proc_def pipe_q_empty sleep_eq)
  then show ?thesis using True by simp
next
  case False
  let ?s = "s\<lparr>held := [PipeLock pi]\<rparr>" and ?pt = "p_pagetable (pr s p)" and ?q = "pipe_q (pipes s pi)"
  have e: "pr ?s = pr s" "pipes ?s = pipes s" "mem ?s = mem s" by simp_all
  obtain m q where l: "piperead_loop (nat n) pi p addr 0 ?s = Inr (0 + min (nat n) (length ?q), (upd_pipe pi (\<lambda>_. q) ?s)\<lparr>mem := m\<rparr>)"
    "pipe_ok q" "pipe_q q = drop (nat n) ?q" "pi_readopen q = pi_readopen (pipes s pi)" "pi_writeopen q = pi_writeopen (pipes s pi)"
    "umem m ?pt = upd_bytes (umem (mem s) ?pt) (addr + of_nat 0) (take (nat n) ?q)" "\<forall>x. PGROUNDDOWN x \<notin> user_pages (mem s) ?pt \<longrightarrow> m x = mem s x"
    by (rule piperead_loop_eq [where s = ?s and n = "nat n" and i = 0, unfolded e]) (use assms in simp_all)
  let ?t = "(upd_pipe pi (\<lambda>_. q) ?s)\<lparr>mem := m\<rparr>"
  have "wakeup (ChanPipeWrite pi) ?t = Inr (?t\<lparr>ptable := woken (ChanPipeWrite pi) p (ptable s)\<rparr>)"
    using wakeup_eq [of ?t "ChanPipeWrite pi"] assms(1) by (simp add: woken_def in_proc_def no_plock_def)
  moreover have "\<not> (pi_nread (pipes s pi) = pi_nwrite (pipes s pi) \<and> pi_writeopen (pipes s pi))" using False by (simp add: pipe_q_empty)
  ultimately have "piperead pi addr n s = Inr (int (min (nat n) (length ?q)), ?t\<lparr>ptable := woken (ChanPipeWrite pi) p (ptable s), held := []\<rparr>)"
    using assms(1) l(1) by (auto simp: piperead_def myproc_def lock_simps in_proc_def)
  then show ?thesis using False l by simp
qed

subsection \<open>A pipe at work\<close>

definition demo_pipe :: "uchar list \<Rightarrow> pipest" where
  "demo_pipe q = fsst.extend ((demo_fs [] [])\<lparr>mem := demo_mem, ptable := replicate NPROC ((demo_proc RUNNING None)\<lparr>p_pagetable := 0x80001000\<rparr>)\<rparr>)
     (pipest.fields (\<lambda>_. \<lparr>pi_data = q @ replicate (PIPESIZE - length q) 0, pi_nread = 0, pi_nwrite = of_nat (length q), pi_readopen = True, pi_writeopen = True\<rparr>))"

lemma demo_pipe_simps:
  "held (demo_pipe q) = []" "curproc (demo_pipe q) = Some 2" "mem (demo_pipe q) = demo_mem" "pr (demo_pipe q) 2 = (demo_proc RUNNING None)\<lparr>p_pagetable := 0x80001000\<rparr>"
  "length (ptable (demo_pipe q)) = NPROC" "pipes (demo_pipe q) pi = \<lparr>pi_data = q @ replicate (PIPESIZE - length q) 0, pi_nread = 0, pi_nwrite = of_nat (length q), pi_readopen = True, pi_writeopen = True\<rparr>"
proof -
  have h: "held (demo_fs [] []) = []" "curproc (demo_fs [] []) = Some 2" by (rule demo_fs_simps)+
  show "held (demo_pipe q) = []" "curproc (demo_pipe q) = Some 2" "mem (demo_pipe q) = demo_mem" "pr (demo_pipe q) 2 = (demo_proc RUNNING None)\<lparr>p_pagetable := 0x80001000\<rparr>"
    "length (ptable (demo_pipe q)) = NPROC" "pipes (demo_pipe q) pi = \<lparr>pi_data = q @ replicate (PIPESIZE - length q) 0, pi_nread = 0, pi_nwrite = of_nat (length q), pi_readopen = True, pi_writeopen = True\<rparr>"
    using h by (simp_all add: demo_pipe_def fsst.extend_def pipest.fields_def pr_def del: replicate_Suc)
qed

lemma demo_pipe_ok: "in_proc 2 (demo_pipe q)" "length q \<le> PIPESIZE \<Longrightarrow> pipe_ok (pipes (demo_pipe q) pi)" "length q \<le> PIPESIZE \<Longrightarrow> pipe_q (pipes (demo_pipe q) pi) = q"
proof -
  show "in_proc 2 (demo_pipe q)" by (simp add: in_proc_def demo_pipe_simps demo_proc_def)
  assume l: "length q \<le> PIPESIZE"
  have u: "unat (of_nat (length q) :: uint) = length q" using l by (simp add: unat_of_nat)
  then show "pipe_ok (pipes (demo_pipe q) pi)" using l by (simp add: pipe_ok_def demo_pipe_simps)
  have "unat (of_nat i :: uint) = i" if "i < length q" for i using that l by (simp add: unat_of_nat)
  then show "pipe_q (pipes (demo_pipe q) pi) = q" using l u by (intro nth_equalityI) (simp_all add: pipe_q_def ring_q_def demo_pipe_simps nth_append)
qed

theorem pipewrite_correct_witness:
  "returns (pipewrite 0x80009000 0xffe 2 (demo_pipe [7])) (\<lambda>(r, t). r = 2 \<and> pipe_q (pipes t 0x80009000) = [7, 0, 0]) \<and>
   returns (pipewrite_run 0x80009000 0xffe 2 (demo_pipe (replicate 511 7)))
     (\<lambda>(r, t). r = Inl 1 \<and> held t = [ProcLock 2] \<and> p_state (pr t 2) = SLEEPING \<and> length (pipe_q (pipes t 0x80009000)) = 512)"
proof -
  have b: "demo_mem 0x80004ffe = 0" "demo_mem 0x80004fff = 0" using demo_byte [of "0xffe"] demo_byte [of "0xfff"] by simp_all
  have p: "[0, 0] = pending 0xffe (nat 2) 2 (demo_pipe q)" for q
    by (simp add: pending_def ubytes_def upt_rec demo_pipe_simps demo_umem b mapped_prefix_def)
  have k: "p_killed (pr (demo_pipe q) 2) = 0" "pt_good (mem (demo_pipe q)) (p_pagetable (pr (demo_pipe q) 2))"
    "pi_readopen (pipes (demo_pipe q) 0x80009000)" "length (ptable (demo_pipe q)) = NPROC" for q
    using demo_good by (simp_all add: demo_pipe_simps demo_proc_def)
  note w = pipewrite_correct [OF demo_pipe_ok(1,2) k(2) _ p refl, where pi = "0x80009000"]
  have "returns (pipewrite 0x80009000 0xffe 2 (demo_pipe [7])) (\<lambda>(r, t). r = 2 \<and> pipe_q (pipes t 0x80009000) = [7, 0, 0])"
    using w [of "[7]"] demo_pipe_ok(3) [of "[7]" "0x80009000"] k by (auto elim!: returns_mono)
  moreover have "returns (pipewrite_run 0x80009000 0xffe 2 (demo_pipe (replicate 511 7)))
     (\<lambda>(r, t). r = Inl 1 \<and> held t = [ProcLock 2] \<and> p_state (pr t 2) = SLEEPING \<and> length (pipe_q (pipes t 0x80009000)) = 512)"
    using w [of "replicate 511 7"] demo_pipe_ok(3) [of "replicate 511 7" "0x80009000"] k
    by (auto simp: pr_def woken_def elim!: returns_mono)
  ultimately show ?thesis by blast
qed

theorem piperead_correct_witness:
  "returns (piperead 0x80009000 0x10 5 (demo_pipe [7, 8])) (\<lambda>(r, t). r = 2 \<and> umem (mem t) 0x80001000 0x11 = Some 8 \<and> pipe_q (pipes t 0x80009000) = [])"
proof -
  have pt: "p_pagetable (pr (demo_pipe [7, 8]) 2) = 0x80001000" by (simp add: demo_pipe_simps)
  have a: "\<exists>y. umem demo_mem 0x80001000 (0x10 + of_nat i) = Some y" if "i < 5" for i
  proof -
    have "i \<in> {0, 1, 2, 3, 4}" using that by auto
    then show ?thesis by (auto simp: demo_umem)
  qed
  have u: "upt_ok (mem (demo_pipe [7, 8])) (p_pagetable (pr (demo_pipe [7, 8]) 2)) 0x10 (nat 5)"
    unfolding pt using demo_good demo_inj a by (simp add: upt_ok_def demo_pipe_simps(3))
  show ?thesis
    using piperead_correct [OF demo_pipe_ok(1,2) u, where pi = "0x80009000"] demo_pipe_ok(3) [of "[7, 8]" "0x80009000"] pt
    by (auto simp: upd_bytes_def elim!: returns_mono)
qed

end
