(* ===== verification/File.thy ===== *)
theory File
  imports Pipe
begin

section \<open>Open files\<close>

text \<open>
  \<^verbatim>\<open>kernel/file.c\<close>, and \<^verbatim>\<open>pipealloc\<close> of \<^verbatim>\<open>kernel/pipe.c\<close>. An open file (\<^verbatim>\<open>struct file\<close>, here \<open>kfile\<close>) is named by its index in the table.
  \<open>stat_pad\<close> is what the four padding bytes of the local \<^verbatim>\<open>struct stat\<close> in \<^verbatim>\<open>filestat\<close> happen to hold.
\<close>

datatype ftype = FD_NONE | FD_PIPE | FD_INODE | FD_DEVICE

record kfile =
  f_type :: ftype
  f_ref :: int
  f_readable :: bool
  f_writable :: bool
  f_pipe :: uint64
  f_ip :: "nat option"
  f_off :: nat
  f_major :: ushort

record filest = pipest +
  ftable :: "kfile list"
  stat_pad :: "uchar list"

definition fl :: "'a filest_scheme \<Rightarrow> nat \<Rightarrow> kfile" where
  "fl s i = ftable s ! i"

definition upd_file :: "nat \<Rightarrow> (kfile \<Rightarrow> kfile) \<Rightarrow> 'a filest_scheme \<Rightarrow> 'a filest_scheme" where
  "upd_file i f s = s\<lparr>ftable := (ftable s)[i := f (ftable s ! i)]\<rparr>"

definition filealloc :: "'a filest_scheme \<Rightarrow> exn + (nat option \<times> 'a filest_scheme)" where
  "filealloc s =
     andthen (acquire FtableLock s) (\<lambda>s.
     case find (\<lambda>f. f_ref (fl s f) = 0) [0..<NFILE] of
       Some f \<Rightarrow>
         let s = upd_file f (\<lambda>q. q\<lparr>f_ref := 1\<rparr>) s in
         andthen (release FtableLock s) (\<lambda>s. Inr (Some f, s))
     | None \<Rightarrow> andthen (release FtableLock s) (\<lambda>s. Inr (None, s)))"

definition filedup :: "nat \<Rightarrow> 'a filest_scheme \<Rightarrow> exn + (nat \<times> 'a filest_scheme)" where
  "filedup f s =
     andthen (acquire FtableLock s) (\<lambda>s.
     if f_ref (fl s f) < 1 then Inl (Panic ''filedup'')
     else
       let s = upd_file f (\<lambda>q. q\<lparr>f_ref := f_ref q + 1\<rparr>) s in
       andthen (release FtableLock s) (\<lambda>s.
       Inr (f, s)))"

text \<open>Using a null inode pointer faults in the kernel, and \<^verbatim>\<open>ilock\<close> checks for it.\<close>

definition deref_ip :: "nat option \<Rightarrow> exn + nat" where
  "deref_ip ip = (case ip of None \<Rightarrow> Inl (Panic ''kerneltrap'') | Some ip \<Rightarrow> Inr ip)"

definition lockable :: "nat option \<Rightarrow> exn + nat" where
  "lockable ip = (case ip of None \<Rightarrow> Inl (Panic ''ilock'') | Some ip \<Rightarrow> Inr ip)"

definition fileclose :: "nat \<Rightarrow> 'a filest_scheme \<Rightarrow> exn + 'a filest_scheme" where
  "fileclose f s =
     andthen (acquire FtableLock s) (\<lambda>s.
     if f_ref (fl s f) < 1 then Inl (Panic ''fileclose'')
     else
       let s = upd_file f (\<lambda>q. q\<lparr>f_ref := f_ref q - 1\<rparr>) s in
       if f_ref (fl s f) > 0 then release FtableLock s
       else
         let ff = fl s f;
             s = upd_file f (\<lambda>q. q\<lparr>f_ref := 0, f_type := FD_NONE\<rparr>) s in
         andthen (release FtableLock s) (\<lambda>s.
         if f_type ff = FD_PIPE then pipeclose (f_pipe ff) (f_writable ff) s
         else if f_type ff = FD_INODE \<or> f_type ff = FD_DEVICE then
           andthen (begin_op s) (\<lambda>s.
           andthen (deref_ip (f_ip ff)) (\<lambda>ip.
           andthen (iput ip s) (\<lambda>s.
           end_op s)))
         else Inr s))"

text \<open>\<^verbatim>\<open>struct stat\<close> in memory, with its padding.\<close>

definition stat_bytes :: "uchar list \<Rightarrow> stat \<Rightarrow> uchar list" where
  "stat_bytes pad st = le_bytes 4 (st_dev st) @ le_bytes 4 (st_ino st) @ le_bytes 2 (unat (st_type st)) @ le_bytes 2 (unat (st_nlink st)) @
     pad @ le_bytes 8 (st_size st)"

definition filestat :: "nat \<Rightarrow> uint64 \<Rightarrow> 'a filest_scheme \<Rightarrow> exn + (int \<times> 'a filest_scheme)" where
  "filestat f addr s =
     andthen (myproc s) (\<lambda>p.
     if f_type (fl s f) = FD_INODE \<or> f_type (fl s f) = FD_DEVICE then
       andthen (lockable (f_ip (fl s f))) (\<lambda>ip.
       andthen (ilock ip s) (\<lambda>s.
       let st = stati ip s in
       andthen (iunlock ip s) (\<lambda>s.
       andthen (copyout (p_pagetable (pr s p)) addr (stat_bytes (stat_pad s) st) s) (\<lambda>(r, s).
       if r < 0 then Inr (- 1, s) else Inr (0, s)))))
     else Inr (- 1, s))"

definition dev_ok :: "ushort \<Rightarrow> bool" where
  "dev_ok m \<longleftrightarrow> \<not> (sint m < 0 \<or> sint m \<ge> int NDEV)"

definition fileread :: "nat \<Rightarrow> uint64 \<Rightarrow> int \<Rightarrow> 'a filest_scheme \<Rightarrow> exn + (int \<times> 'a filest_scheme)" where
  "fileread f addr n s =
     (if \<not> f_readable (fl s f) then Inr (- 1, s)
      else case f_type (fl s f) of
        FD_PIPE \<Rightarrow> piperead (f_pipe (fl s f)) addr n s
      | FD_DEVICE \<Rightarrow>
          (if \<not> dev_ok (f_major (fl s f)) then Inr (- 1, s)
           else case dv_read (devsws s (unat (f_major (fl s f)))) of
                  None \<Rightarrow> Inr (- 1, s)
                | Some ConsoleRead \<Rightarrow> consoleread (UserDst addr) n s)
      | FD_INODE \<Rightarrow>
          andthen (lockable (f_ip (fl s f))) (\<lambda>ip.
          andthen (ilock ip s) (\<lambda>s.
          andthen (readi ip (UserDst addr) (f_off (fl s f)) (nat (n mod 2 ^ 32)) s) (\<lambda>(r, _, s).
          let s = (if r > 0 then upd_file f (\<lambda>q. q\<lparr>f_off := add32 (f_off q) (nat r)\<rparr>) s else s) in
          andthen (iunlock ip s) (\<lambda>s.
          Inr (r, s)))))
      | FD_NONE \<Rightarrow> Inl (Panic ''fileread''))"

text \<open>The number of bytes a single transaction of \<^verbatim>\<open>filewrite\<close> writes at most.\<close>

definition write_max :: nat where
  "write_max = (MAXOPBLOCKS - 1 - 1 - 2) div 2 * BSIZE"

function filewrite_loop :: "nat \<Rightarrow> uint64 \<Rightarrow> nat \<Rightarrow> nat \<Rightarrow> 'a filest_scheme \<Rightarrow> exn + (nat \<times> 'a filest_scheme)" where
  "filewrite_loop f addr n i s =
     (if i < n then
        let n1 = min (n - i) write_max in
        andthen (begin_op s) (\<lambda>s.
        andthen (lockable (f_ip (fl s f))) (\<lambda>ip.
        andthen (ilock ip s) (\<lambda>s.
        andthen (writei ip (UserSrc (addr + of_nat i)) (f_off (fl s f)) n1 s) (\<lambda>(r, s).
        let s = (if r > 0 then upd_file f (\<lambda>q. q\<lparr>f_off := add32 (f_off q) (nat r)\<rparr>) s else s) in
        andthen (iunlock ip s) (\<lambda>s.
        andthen (end_op s) (\<lambda>s.
        if r \<noteq> int n1 then Inr (i, s)
        else filewrite_loop f addr n (i + nat r) s))))))
      else Inr (i, s))"
  by pat_completeness auto
termination
  by (relation "measure (\<lambda>(f, addr, n, i, s). n - i)") (auto simp: write_max_def)

declare filewrite_loop.simps [simp del]

definition filewrite :: "nat \<Rightarrow> uint64 \<Rightarrow> int \<Rightarrow> 'a filest_scheme \<Rightarrow> exn + (int \<times> 'a filest_scheme)" where
  "filewrite f addr n s =
     (if \<not> f_writable (fl s f) then Inr (- 1, s)
      else case f_type (fl s f) of
        FD_PIPE \<Rightarrow> pipewrite (f_pipe (fl s f)) addr n s
      | FD_DEVICE \<Rightarrow>
          (if \<not> dev_ok (f_major (fl s f)) then Inr (- 1, s)
           else case dv_write (devsws s (unat (f_major (fl s f)))) of
                  None \<Rightarrow> Inr (- 1, s)
                | Some ConsoleWrite \<Rightarrow> consolewrite (UserSrc addr) n s)
      | FD_INODE \<Rightarrow>
          andthen (filewrite_loop f addr (nat n) 0 s) (\<lambda>(i, s).
          Inr (if int i = n then n else - 1, s))
      | FD_NONE \<Rightarrow> Inl (Panic ''filewrite''))"

subsection \<open>Making a pipe\<close>

definition close_opt :: "nat option \<Rightarrow> 'a filest_scheme \<Rightarrow> exn + 'a filest_scheme" where
  "close_opt f s = (case f of None \<Rightarrow> Inr s | Some f \<Rightarrow> fileclose f s)"

definition pipealloc :: "'a filest_scheme \<Rightarrow> exn + ((nat \<times> nat) option \<times> 'a filest_scheme)" where
  "pipealloc s =
     andthen (filealloc s) (\<lambda>(f0, s).
     andthen (if f0 = None then Inr (None, s) else filealloc s) (\<lambda>(f1, s).
     let bad = (\<lambda>s. andthen (close_opt f0 s) (\<lambda>s. andthen (close_opt f1 s) (\<lambda>s. Inr (None, s)))) in
     case (f0, f1) of
       (Some a, Some b) \<Rightarrow>
         andthen (kalloc s) (\<lambda>(pi, s).
         if pi = 0 then bad s
         else
           let s = s\<lparr>pipes := (pipes s)(pi := \<lparr>pi_data = load_bytes (mem s) (pi + 24) PIPESIZE, pi_nread = 0, pi_nwrite = 0,
                       pi_readopen = True, pi_writeopen = True\<rparr>)\<rparr>;
               s = upd_file a (\<lambda>q. q\<lparr>f_type := FD_PIPE, f_readable := True, f_writable := False, f_pipe := pi\<rparr>) s;
               s = upd_file b (\<lambda>q. q\<lparr>f_type := FD_PIPE, f_readable := False, f_writable := True, f_pipe := pi\<rparr>) s
           in Inr (Some (a, b), s))
     | _ \<Rightarrow> bad s))"

end
