(* ===== verification/Lifecycle.thy ===== *)
theory Lifecycle
  imports File
begin

section \<open>The life of a process\<close>

text \<open>
  The routines of \<^verbatim>\<open>kernel/proc.c\<close> that need the file system: \<^verbatim>\<open>userinit\<close>, \<^verbatim>\<open>fork\<close>, \<^verbatim>\<open>exit\<close> and \<^verbatim>\<open>wait\<close>.
  \<open>exit_enter\<close> gives the state in which a process that exits leaves the CPU for good; \<open>exit\<close> ends
  the routine that calls it with \<open>Exited\<close>.
\<close>

definition initcode :: "uchar list" where
  "initcode =
    [0x17, 0x05, 0x00, 0x00, 0x13, 0x05, 0x45, 0x02,
     0x97, 0x05, 0x00, 0x00, 0x93, 0x85, 0x35, 0x02,
     0x93, 0x08, 0x70, 0x00, 0x73, 0x00, 0x00, 0x00,
     0x93, 0x08, 0x20, 0x00, 0x73, 0x00, 0x00, 0x00,
     0xef, 0xf0, 0x9f, 0xff, 0x2f, 0x69, 0x6e, 0x69,
     0x74, 0x00, 0x00, 0x24, 0x00, 0x00, 0x00, 0x00,
     0x00, 0x00, 0x00, 0x00]"

definition userinit :: "'a filest_scheme \<Rightarrow> exn + 'a filest_scheme" where
  "userinit s =
     andthen (allocproc s) (\<lambda>(r, s).
     let s = s\<lparr>initproc := r\<rparr> in
     case r of
       None \<Rightarrow> Inl (Panic ''kerneltrap'')
     | Some p \<Rightarrow>
         andthen (uvmfirst (p_pagetable (pr s p)) initcode s) (\<lambda>s.
         let s = upd_proc p (\<lambda>q. q\<lparr>p_sz := PGSIZE\<rparr>) s;
             s = tf_set p TF_epc 0 s;
             s = tf_set p TF_sp PGSIZE s;
             s = upd_proc p (\<lambda>q. q\<lparr>p_name := safestrcpy (p_name q) (bytes ''initcode'') 16\<rparr>) s in
         andthen (namei (bytes ''/'') s) (\<lambda>(ip, s).
         let s = upd_proc p (\<lambda>q. q\<lparr>p_cwd := ip\<rparr>) s;
             s = upd_proc p (\<lambda>q. q\<lparr>p_state := RUNNABLE\<rparr>) s in
         release (ProcLock p) s)))"

definition fork :: "'a filest_scheme \<Rightarrow> exn + (int \<times> 'a filest_scheme)" where
  "fork s =
     andthen (myproc s) (\<lambda>p.
     andthen (allocproc s) (\<lambda>(r, s).
     case r of
       None \<Rightarrow> Inr (- 1, s)
     | Some np \<Rightarrow>
         andthen (uvmcopy (p_pagetable (pr s p)) (p_pagetable (pr s np)) (p_sz (pr s p)) s) (\<lambda>(r, s).
         if r < 0 then
           andthen (freeproc np s) (\<lambda>s.
           andthen (release (ProcLock np) s) (\<lambda>s.
           Inr (- 1, s)))
         else
           let s = upd_proc np (\<lambda>q. q\<lparr>p_sz := p_sz (pr s p)\<rparr>) s;
               s = s\<lparr>mem := store_bytes (p_trapframe (pr s np)) (load_bytes (mem s) (p_trapframe (pr s p)) TF_size) (mem s)\<rparr>;
               s = tf_set np TF_a0 0 s in
           andthen (for_each [0..<NOFILE] (\<lambda>i s.
             case p_ofile (pr s p) ! i of
               None \<Rightarrow> Inr s
             | Some f \<Rightarrow>
                 andthen (filedup f s) (\<lambda>(f, s).
                 Inr (upd_proc np (\<lambda>q. q\<lparr>p_ofile := (p_ofile q)[i := Some f]\<rparr>) s))) s) (\<lambda>s.
           andthen (deref_ip (p_cwd (pr s p))) (\<lambda>cwd.
           andthen (idup cwd s) (\<lambda>(ip, s).
           let s = upd_proc np (\<lambda>q. q\<lparr>p_cwd := Some ip\<rparr>) s;
               s = upd_proc np (\<lambda>q. q\<lparr>p_name := safestrcpy (p_name q) (p_name (pr s p)) 16\<rparr>) s;
               pid = p_pid (pr s np) in
           andthen (release (ProcLock np) s) (\<lambda>s.
           andthen (acquire WaitLock s) (\<lambda>s.
           let s = upd_proc np (\<lambda>q. q\<lparr>p_parent := Some p\<rparr>) s in
           andthen (release WaitLock s) (\<lambda>s.
           andthen (acquire (ProcLock np) s) (\<lambda>s.
           let s = upd_proc np (\<lambda>q. q\<lparr>p_state := RUNNABLE\<rparr>) s in
           andthen (release (ProcLock np) s) (\<lambda>s.
           Inr (pid, s))))))))))))"

text \<open>Waking up on a pointer to a process; no process sleeps on the null pointer.\<close>

definition wakeup_proc :: "nat option \<Rightarrow> 'a filest_scheme \<Rightarrow> exn + 'a filest_scheme" where
  "wakeup_proc p s = (case p of None \<Rightarrow> Inr s | Some p \<Rightarrow> wakeup (ChanProc p) s)"

definition reparent :: "nat \<Rightarrow> 'a filest_scheme \<Rightarrow> exn + 'a filest_scheme" where
  "reparent p s =
     for_each [0..<NPROC] (\<lambda>pp s.
       if p_parent (pr s pp) = Some p then
         let s = upd_proc pp (\<lambda>q. q\<lparr>p_parent := initproc s\<rparr>) s in
         wakeup_proc (initproc s) s
       else Inr s) s"

definition exit_enter :: "int \<Rightarrow> 'a filest_scheme \<Rightarrow> exn + 'a filest_scheme" where
  "exit_enter status s =
     andthen (myproc s) (\<lambda>p.
     if Some p = initproc s then Inl (Panic ''init exiting'')
     else
       andthen (for_each [0..<NOFILE] (\<lambda>fd s.
         case p_ofile (pr s p) ! fd of
           None \<Rightarrow> Inr s
         | Some f \<Rightarrow>
             andthen (fileclose f s) (\<lambda>s.
             Inr (upd_proc p (\<lambda>q. q\<lparr>p_ofile := (p_ofile q)[fd := None]\<rparr>) s))) s) (\<lambda>s.
       andthen (begin_op s) (\<lambda>s.
       andthen (deref_ip (p_cwd (pr s p))) (\<lambda>cwd.
       andthen (iput cwd s) (\<lambda>s.
       andthen (end_op s) (\<lambda>s.
       let s = upd_proc p (\<lambda>q. q\<lparr>p_cwd := None\<rparr>) s in
       andthen (acquire WaitLock s) (\<lambda>s.
       andthen (reparent p s) (\<lambda>s.
       andthen (wakeup_proc (p_parent (pr s p)) s) (\<lambda>s.
       andthen (acquire (ProcLock p) s) (\<lambda>s.
       let s = upd_proc p (\<lambda>q. q\<lparr>p_xstate := status\<rparr>) s;
           s = upd_proc p (\<lambda>q. q\<lparr>p_state := ZOMBIE\<rparr>) s in
       andthen (release WaitLock s) (\<lambda>s.
       sched s)))))))))))"

definition exit :: "int \<Rightarrow> 'a filest_scheme \<Rightarrow> exn + 'b" where
  "exit status s = andthen (exit_enter status s) (\<lambda>_. Inl Exited)"

text \<open>
  One pass of \<^verbatim>\<open>wait\<close> over the table: the result of the call where it returns from the pass, with the locks released,
  and whether a child was seen.
\<close>

definition xstate_bytes :: "int \<Rightarrow> uchar list" where
  "xstate_bytes x = le_bytes 4 (nat (x mod 2 ^ 32))"

fun wait_scan :: "nat \<Rightarrow> uint64 \<Rightarrow> nat list \<Rightarrow> bool \<Rightarrow> 'a filest_scheme \<Rightarrow> exn + (int option \<times> bool \<times> 'a filest_scheme)" where
  "wait_scan p addr [] havekids s = Inr (None, havekids, s)"
| "wait_scan p addr (pp # pps) havekids s =
     (if p_parent (pr s pp) = Some p then
        andthen (acquire (ProcLock pp) s) (\<lambda>s.
        if p_state (pr s pp) = ZOMBIE then
          let pid = p_pid (pr s pp) in
          andthen (if addr \<noteq> 0 then copyout (p_pagetable (pr s p)) addr (xstate_bytes (p_xstate (pr s pp))) s else Inr (0, s)) (\<lambda>(r, s).
          if r < 0 then
            andthen (release (ProcLock pp) s) (\<lambda>s.
            andthen (release WaitLock s) (\<lambda>s.
            Inr (Some (- 1), True, s)))
          else
            andthen (freeproc pp s) (\<lambda>s.
            andthen (release (ProcLock pp) s) (\<lambda>s.
            andthen (release WaitLock s) (\<lambda>s.
            Inr (Some pid, True, s)))))
        else
          andthen (release (ProcLock pp) s) (\<lambda>s.
          wait_scan p addr pps True s))
      else wait_scan p addr pps havekids s)"

definition wait :: "uint64 \<Rightarrow> 'a filest_scheme \<Rightarrow> exn + (int \<times> 'a filest_scheme)" where
  "wait addr s =
     andthen (myproc s) (\<lambda>p.
     andthen (acquire WaitLock s) (\<lambda>s.
     andthen (wait_scan p addr [0..<NPROC] False s) (\<lambda>(r, havekids, s).
     case r of
       Some v \<Rightarrow> Inr (v, s)
     | None \<Rightarrow>
         andthen (if \<not> havekids then Inr (1, s) else killed p s) (\<lambda>(k, s).
         if k \<noteq> 0 then andthen (release WaitLock s) (\<lambda>s. Inr (- 1, s))
         else sleep (ChanProc p) WaitLock s))))"

end
