(* ===== verification/Exec.thy ===== *)
theory Exec
  imports Lifecycle
begin

section \<open>Running a program\<close>

text \<open>
  \<^verbatim>\<open>kernel/exec.c\<close> and the headers of \<^verbatim>\<open>kernel/elf.h\<close>. The argument vector is the list of the kernel
  addresses of the strings, without the null pointer that ends it. The stack array \<open>ustack\<close> has \<open>MAXARG\<close> entries,
  and storing past its end is \<open>OutOfBounds\<close>.
\<close>

definition ELF_MAGIC :: nat where [simp, code_unfold]: "ELF_MAGIC = 0x464C457F"
definition ELF_PROG_LOAD :: nat where [simp, code_unfold]: "ELF_PROG_LOAD = 1"

record elfhdr =
  e_magic :: nat
  e_entry :: uint64
  e_phoff :: nat
  e_phnum :: nat

record proghdr =
  ph_type :: nat
  ph_flags :: nat
  ph_off :: nat
  ph_vaddr :: uint64
  ph_filesz :: uint64
  ph_memsz :: uint64

definition get_elfhdr :: "uchar list \<Rightarrow> elfhdr" where
  "get_elfhdr bs = \<lparr>e_magic = getn 4 0 bs, e_entry = of_nat (getn 8 24 bs), e_phoff = getn 8 32 bs, e_phnum = getn 2 56 bs\<rparr>"

definition get_proghdr :: "uchar list \<Rightarrow> proghdr" where
  "get_proghdr bs = \<lparr>ph_type = getn 4 0 bs, ph_flags = getn 4 4 bs, ph_off = getn 8 8 bs, ph_vaddr = of_nat (getn 8 16 bs),
     ph_filesz = of_nat (getn 8 32 bs), ph_memsz = of_nat (getn 8 40 bs)\<rparr>"

definition flags2perm :: "nat \<Rightarrow> uint64" where
  "flags2perm flags = (if odd flags then PTE_X else 0) OR (if odd (flags div 2) then PTE_W else 0)"

text \<open>
  A segment is loaded page by page. The 32-bit offset into the file wraps around; the position in the segment does not reach
  \<open>2 ^ 32\<close> because no file is that long.
\<close>

function loadseg_loop :: "uint64 \<Rightarrow> uint64 \<Rightarrow> nat \<Rightarrow> nat \<Rightarrow> nat \<Rightarrow> nat \<Rightarrow> 'a filest_scheme \<Rightarrow> exn + (int \<times> 'a filest_scheme)" where
  "loadseg_loop pagetable va ip offset sz i s =
     (if i < sz then
        andthen (walkaddr pagetable (va + of_nat i) s) (\<lambda>(pa, s).
        if pa = 0 then Inl (Panic ''loadseg: address should exist'')
        else
          let n = min (sz - i) 4096 in
          andthen (readi ip (KernelDst pa) (add32 offset i) n s) (\<lambda>(r, _, s).
          if r \<noteq> int n then Inr (- 1, s)
          else loadseg_loop pagetable va ip offset sz (i + 4096) s))
      else Inr (0, s))"
  by pat_completeness auto
termination
  by (relation "measure (\<lambda>(pt, va, ip, offset, sz, i, s). sz - i)") auto

declare loadseg_loop.simps [simp del]

definition loadseg :: "uint64 \<Rightarrow> uint64 \<Rightarrow> nat \<Rightarrow> nat \<Rightarrow> nat \<Rightarrow> 'a filest_scheme \<Rightarrow> exn + (int \<times> 'a filest_scheme)" where
  "loadseg pagetable va ip offset sz s = loadseg_loop pagetable va ip offset sz 0 s"

text \<open>
  The loop over the program headers, by the number of headers left: whether all segments were loaded, and the size of
  the new image so far. The size and the offset of a segment are passed as 32-bit numbers.
\<close>

fun exec_load :: "nat \<Rightarrow> nat \<Rightarrow> uint64 \<Rightarrow> nat \<Rightarrow> uint64 \<Rightarrow> 'a filest_scheme \<Rightarrow> exn + (bool \<times> uint64 \<times> 'a filest_scheme)" where
  "exec_load 0 ip pagetable off sz s = Inr (True, sz, s)"
| "exec_load (Suc k) ip pagetable off sz s =
     andthen (readi ip ObjectDst off 56 s) (\<lambda>(r, bs, s).
     if r \<noteq> 56 then Inr (False, sz, s)
     else
       let ph = get_proghdr bs in
       if ph_type ph \<noteq> ELF_PROG_LOAD then exec_load k ip pagetable (add32 off 56) sz s
       else if ph_memsz ph < ph_filesz ph then Inr (False, sz, s)
       else if ph_vaddr ph + ph_memsz ph < ph_vaddr ph then Inr (False, sz, s)
       else if ph_vaddr ph mod PGSIZE \<noteq> 0 then Inr (False, sz, s)
       else
         andthen (uvmalloc pagetable sz (ph_vaddr ph + ph_memsz ph) (flags2perm (ph_flags ph)) s) (\<lambda>(sz1, s).
         if sz1 = 0 then Inr (False, sz, s)
         else
           andthen (loadseg pagetable (ph_vaddr ph) ip (ph_off ph mod 2 ^ 32) (unat (ph_filesz ph) mod 2 ^ 32) s) (\<lambda>(r, s).
           if r < 0 then Inr (False, sz1, s)
           else exec_load k ip pagetable (add32 off 56) sz1 s)))"

text \<open>The C string at a kernel address, which lies within a page.\<close>

definition kstr :: "'a machine_scheme \<Rightarrow> uint64 \<Rightarrow> uchar list" where
  "kstr s a = takeWhile (\<lambda>c. c \<noteq> 0) (load_bytes (mem s) a 4096)"

text \<open>Pushing the argument strings: the stack pointer and the entries of \<open>ustack\<close>, or nothing on failure.\<close>

fun exec_args :: "uint64 \<Rightarrow> uint64 list \<Rightarrow> uint64 \<Rightarrow> uint64 list \<Rightarrow> uint64 \<Rightarrow> 'a filest_scheme \<Rightarrow> exn + ((uint64 \<times> uint64 list) option \<times> 'a filest_scheme)" where
  "exec_args pagetable [] sp ustack stackbase s = Inr (Some (sp, ustack), s)"
| "exec_args pagetable (arg # argv) sp ustack stackbase s =
     (if length ustack \<ge> MAXARG then Inr (None, s)
      else
        let str = kstr s arg;
            sp = sp - (of_nat (length str) + 1);
            sp = sp - sp mod 16 in
        if sp < stackbase then Inr (None, s)
        else
          andthen (copyout pagetable sp (str @ [0]) s) (\<lambda>(r, s).
          if r < 0 then Inr (None, s)
          else exec_args pagetable argv sp (ustack @ [sp]) stackbase s))"

text \<open>The path component after the last slash.\<close>

definition last_elem :: "uchar list \<Rightarrow> uchar list" where
  "last_elem path = rev (takeWhile (\<lambda>c. c \<noteq> 47) (rev (takeWhile (\<lambda>c. c \<noteq> 0) path)))"

definition exec_bad :: "uint64 \<Rightarrow> uint64 \<Rightarrow> nat option \<Rightarrow> 'a filest_scheme \<Rightarrow> exn + (int \<times> 'a filest_scheme)" where
  "exec_bad pagetable sz ip s =
     andthen (if pagetable \<noteq> 0 then proc_freepagetable pagetable sz s else Inr s) (\<lambda>s.
     case ip of
       None \<Rightarrow> Inr (- 1, s)
     | Some ip \<Rightarrow>
         andthen (iunlockput ip s) (\<lambda>s.
         andthen (end_op s) (\<lambda>s.
         Inr (- 1, s))))"

text \<open>The part after the program has been loaded: the user stack, and switching to the new image.\<close>

definition exec_commit :: "nat \<Rightarrow> uchar list \<Rightarrow> uint64 \<Rightarrow> uint64 \<Rightarrow> uint64 \<Rightarrow> uint64 \<Rightarrow> 'a filest_scheme \<Rightarrow> exn + 'a filest_scheme" where
  "exec_commit p path entry_pc pagetable sz sp s =
     (let oldsz = p_sz (pr s p);
          s = tf_set p TF_a1 sp s;
          s = upd_proc p (\<lambda>q. q\<lparr>p_name := safestrcpy (p_name q) (last_elem path) 16\<rparr>) s;
          oldpagetable = p_pagetable (pr s p);
          s = upd_proc p (\<lambda>q. q\<lparr>p_pagetable := pagetable\<rparr>) s;
          s = upd_proc p (\<lambda>q. q\<lparr>p_sz := sz\<rparr>) s;
          s = tf_set p TF_epc entry_pc s;
          s = tf_set p TF_sp sp s in
      proc_freepagetable oldpagetable oldsz s)"

definition exec_stack :: "nat \<Rightarrow> uchar list \<Rightarrow> uint64 list \<Rightarrow> uint64 \<Rightarrow> uint64 \<Rightarrow> uint64 \<Rightarrow> 'a filest_scheme \<Rightarrow> exn + (int \<times> 'a filest_scheme)" where
  "exec_stack p path argv entry_pc pagetable sz s =
     (let sz = PGROUNDUP sz in
      andthen (uvmalloc pagetable sz (sz + 2 * PGSIZE) PTE_W s) (\<lambda>(sz1, s).
      if sz1 = 0 then exec_bad pagetable sz None s
      else
        let sz = sz1 in
        andthen (uvmclear pagetable (sz - 2 * PGSIZE) s) (\<lambda>s.
        let sp = sz; stackbase = sp - PGSIZE in
        andthen (exec_args pagetable argv sp [] stackbase s) (\<lambda>(r, s).
        case r of
          None \<Rightarrow> exec_bad pagetable sz None s
        | Some (sp, ustack) \<Rightarrow>
            let argc = length ustack in
            if argc \<ge> MAXARG then Inl OutOfBounds
            else
              let sp = sp - of_nat (argc + 1) * 8;
                  sp = sp - sp mod 16 in
              if sp < stackbase then exec_bad pagetable sz None s
              else
                andthen (copyout pagetable sp (concat (map (\<lambda>v. le_bytes 8 (unat v)) (ustack @ [0]))) s) (\<lambda>(r, s).
                if r < 0 then exec_bad pagetable sz None s
                else
                  andthen (exec_commit p path entry_pc pagetable sz sp s) (\<lambda>s.
                  Inr (int argc, s)))))))"

definition exec :: "uchar list \<Rightarrow> uint64 list \<Rightarrow> 'a filest_scheme \<Rightarrow> exn + (int \<times> 'a filest_scheme)" where
  "exec path argv s =
     andthen (myproc s) (\<lambda>p.
     andthen (begin_op s) (\<lambda>s.
     andthen (namei path s) (\<lambda>(r, s).
     case r of
       None \<Rightarrow> andthen (end_op s) (\<lambda>s. Inr (- 1, s))
     | Some ip \<Rightarrow>
         andthen (ilock ip s) (\<lambda>s.
         andthen (readi ip ObjectDst 0 64 s) (\<lambda>(r, bs, s).
         if r \<noteq> 64 then exec_bad 0 0 (Some ip) s
         else
           let elf = get_elfhdr bs in
           if e_magic elf \<noteq> ELF_MAGIC then exec_bad 0 0 (Some ip) s
           else
             andthen (proc_pagetable p s) (\<lambda>(pagetable, s).
             if pagetable = 0 then exec_bad 0 0 (Some ip) s
             else
               andthen (exec_load (e_phnum elf) ip pagetable (e_phoff elf mod 2 ^ 32) 0 s) (\<lambda>(ok, sz, s).
               if \<not> ok then exec_bad pagetable sz (Some ip) s
               else
                 andthen (iunlockput ip s) (\<lambda>s.
                 andthen (end_op s) (\<lambda>s.
                 exec_stack p path argv (e_entry elf) pagetable sz s)))))))))"

end
