(* ===== verification/Sysargs.thy ===== *)
theory Sysargs
  imports Exec
begin

section \<open>System call arguments\<close>

text \<open>
  The part of \<^verbatim>\<open>kernel/syscall.c\<close> that fetches the arguments of a system call from the registers saved in the trapframe and
  from user memory. A routine that returns through a pointer returns the value here; a string is
  returned as the bytes stored into the buffer.
\<close>

definition fetchaddr :: "uint64 \<Rightarrow> 'a procs_scheme \<Rightarrow> exn + (int \<times> uint64 \<times> 'a procs_scheme)" where
  "fetchaddr addr s =
     andthen (myproc s) (\<lambda>p.
     if addr \<ge> p_sz (pr s p) \<or> addr + 8 > p_sz (pr s p) then Inr (- 1, 0, s)
     else
       andthen (copyin (p_pagetable (pr s p)) addr 8 s) (\<lambda>(r, bs, s).
       if r \<noteq> 0 then Inr (- 1, 0, s) else Inr (0, of_nat (le_num bs), s)))"

definition fetchstr :: "uint64 \<Rightarrow> nat \<Rightarrow> 'a procs_scheme \<Rightarrow> exn + (int \<times> uchar list \<times> 'a procs_scheme)" where
  "fetchstr addr mx s =
     andthen (myproc s) (\<lambda>p.
     andthen (copyinstr (p_pagetable (pr s p)) addr mx s) (\<lambda>(r, bs, s).
     if r < 0 then Inr (- 1, bs, s)
     else Inr (int (length (takeWhile (\<lambda>c. c \<noteq> 0) bs)), bs, s)))"

definition argraw :: "nat \<Rightarrow> 'a procs_scheme \<Rightarrow> exn + uint64" where
  "argraw n s =
     andthen (myproc s) (\<lambda>p.
     if n < 6 then Inr (tf_get p (TF_a0 + 8 * of_nat n) s) else Inl (Panic ''argraw''))"

text \<open>The low 32 bits, as a signed number.\<close>

definition argint :: "nat \<Rightarrow> 'a procs_scheme \<Rightarrow> exn + int" where
  "argint n s = andthen (argraw n s) (\<lambda>v. Inr (sint (ucast v :: uint)))"

definition argaddr :: "nat \<Rightarrow> 'a procs_scheme \<Rightarrow> exn + uint64" where
  "argaddr n s = argraw n s"

definition argstr :: "nat \<Rightarrow> nat \<Rightarrow> 'a procs_scheme \<Rightarrow> exn + (int \<times> uchar list \<times> 'a procs_scheme)" where
  "argstr n mx s = andthen (argaddr n s) (\<lambda>addr. fetchstr addr mx s)"

end
