(* ===== verification/Sysfile.thy ===== *)
theory Sysfile
  imports Sysargs
begin

section \<open>File system calls\<close>

text \<open>
  \<^verbatim>\<open>kernel/sysfile.c\<close>. The result of a system call is an integer, of which
  \<^verbatim>\<open>syscall\<close> stores the 64-bit representation.
\<close>

text \<open>The descriptor and the file it stands for.\<close>

definition argfd :: "nat \<Rightarrow> 'a procs_scheme \<Rightarrow> exn + (nat \<times> nat) option" where
  "argfd n s =
     andthen (argint n s) (\<lambda>fd.
     if fd < 0 \<or> fd \<ge> int NOFILE then Inr None
     else
       andthen (myproc s) (\<lambda>p.
       case p_ofile (pr s p) ! nat fd of
         None \<Rightarrow> Inr None
       | Some f \<Rightarrow> Inr (Some (nat fd, f))))"

definition fdalloc :: "nat \<Rightarrow> 'a procs_scheme \<Rightarrow> exn + (int \<times> 'a procs_scheme)" where
  "fdalloc f s =
     andthen (myproc s) (\<lambda>p.
     case find (\<lambda>fd. p_ofile (pr s p) ! fd = None) [0..<NOFILE] of
       Some fd \<Rightarrow> Inr (int fd, upd_proc p (\<lambda>q. q\<lparr>p_ofile := (p_ofile q)[fd := Some f]\<rparr>) s)
     | None \<Rightarrow> Inr (- 1, s))"

definition clear_fd :: "nat \<Rightarrow> nat \<Rightarrow> 'a procs_scheme \<Rightarrow> 'a procs_scheme" where
  "clear_fd p fd s = upd_proc p (\<lambda>q. q\<lparr>p_ofile := (p_ofile q)[fd := None]\<rparr>) s"

definition sys_dup :: "'a filest_scheme \<Rightarrow> exn + (int \<times> 'a filest_scheme)" where
  "sys_dup s =
     andthen (argfd 0 s) (\<lambda>r.
     case r of
       None \<Rightarrow> Inr (- 1, s)
     | Some (_, f) \<Rightarrow>
         andthen (fdalloc f s) (\<lambda>(fd, s).
         if fd < 0 then Inr (- 1, s)
         else andthen (filedup f s) (\<lambda>(_, s). Inr (fd, s))))"

definition sys_read :: "'a filest_scheme \<Rightarrow> exn + (int \<times> 'a filest_scheme)" where
  "sys_read s =
     andthen (argaddr 1 s) (\<lambda>p.
     andthen (argint 2 s) (\<lambda>n.
     andthen (argfd 0 s) (\<lambda>r.
     case r of None \<Rightarrow> Inr (- 1, s) | Some (_, f) \<Rightarrow> fileread f p n s)))"

definition sys_write :: "'a filest_scheme \<Rightarrow> exn + (int \<times> 'a filest_scheme)" where
  "sys_write s =
     andthen (argaddr 1 s) (\<lambda>p.
     andthen (argint 2 s) (\<lambda>n.
     andthen (argfd 0 s) (\<lambda>r.
     case r of None \<Rightarrow> Inr (- 1, s) | Some (_, f) \<Rightarrow> filewrite f p n s)))"

definition sys_close :: "'a filest_scheme \<Rightarrow> exn + (int \<times> 'a filest_scheme)" where
  "sys_close s =
     andthen (argfd 0 s) (\<lambda>r.
     case r of
       None \<Rightarrow> Inr (- 1, s)
     | Some (fd, f) \<Rightarrow>
         andthen (myproc s) (\<lambda>p.
         let s = clear_fd p fd s in
         andthen (fileclose f s) (\<lambda>s.
         Inr (0, s))))"

definition sys_fstat :: "'a filest_scheme \<Rightarrow> exn + (int \<times> 'a filest_scheme)" where
  "sys_fstat s =
     andthen (argaddr 1 s) (\<lambda>st.
     andthen (argfd 0 s) (\<lambda>r.
     case r of None \<Rightarrow> Inr (- 1, s) | Some (_, f) \<Rightarrow> filestat f st s))"

text \<open>Ending a transaction with an error.\<close>

definition fail_op :: "'a filest_scheme \<Rightarrow> exn + (int \<times> 'a filest_scheme)" where
  "fail_op s = andthen (end_op s) (\<lambda>s. Inr (- 1, s))"

definition sys_link_bad :: "nat \<Rightarrow> 'a filest_scheme \<Rightarrow> exn + (int \<times> 'a filest_scheme)" where
  "sys_link_bad ip s =
     andthen (ilock ip s) (\<lambda>s.
     let s = upd_ino ip (\<lambda>q. q\<lparr>i_nlink := i_nlink q - 1\<rparr>) s in
     andthen (iupdate ip s) (\<lambda>s.
     andthen (iunlockput ip s) (\<lambda>s.
     fail_op s)))"

definition sys_link :: "'a filest_scheme \<Rightarrow> exn + (int \<times> 'a filest_scheme)" where
  "sys_link s =
     andthen (argstr 0 MAXPATH s) (\<lambda>(r, old, s).
     if r < 0 then Inr (- 1, s)
     else
       andthen (argstr 1 MAXPATH s) (\<lambda>(r, new, s).
       if r < 0 then Inr (- 1, s)
       else
         andthen (begin_op s) (\<lambda>s.
         andthen (namei old s) (\<lambda>(r, s).
         case r of
           None \<Rightarrow> fail_op s
         | Some ip \<Rightarrow>
             andthen (ilock ip s) (\<lambda>s.
             if i_type (ino s ip) = T_DIR then andthen (iunlockput ip s) (\<lambda>s. fail_op s)
             else
               let s = upd_ino ip (\<lambda>q. q\<lparr>i_nlink := i_nlink q + 1\<rparr>) s in
               andthen (iupdate ip s) (\<lambda>s.
               andthen (iunlock ip s) (\<lambda>s.
               andthen (nameiparent new (replicate DIRSIZ 0) s) (\<lambda>(r, name, s).
               case r of
                 None \<Rightarrow> sys_link_bad ip s
               | Some dp \<Rightarrow>
                   andthen (ilock dp s) (\<lambda>s.
                   andthen (if i_dev (ino s dp) \<noteq> i_dev (ino s ip) then Inr (- 1, s) else dirlink dp name (i_inum (ino s ip)) s) (\<lambda>(r, s).
                   if r < 0 then andthen (iunlockput dp s) (\<lambda>s. sys_link_bad ip s)
                   else
                     andthen (iunlockput dp s) (\<lambda>s.
                     andthen (iput ip s) (\<lambda>s.
                     andthen (end_op s) (\<lambda>s.
                     Inr (0, s))))))))))))))"

fun isdirempty_scan :: "nat \<Rightarrow> nat list \<Rightarrow> 'a fsst_scheme \<Rightarrow> exn + (bool \<times> 'a fsst_scheme)" where
  "isdirempty_scan dp [] s = Inr (True, s)"
| "isdirempty_scan dp (off # offs) s =
     andthen (readi dp ObjectDst off 16 s) (\<lambda>(r, bs, s).
     if r \<noteq> 16 then Inl (Panic ''isdirempty: readi'')
     else if de_inum (get_dirent bs) \<noteq> 0 then Inr (False, s)
     else isdirempty_scan dp offs s)"

definition isdirempty :: "nat \<Rightarrow> 'a fsst_scheme \<Rightarrow> exn + (bool \<times> 'a fsst_scheme)" where
  "isdirempty dp s = isdirempty_scan dp (drop 2 (dirent_offs (i_size (ino s dp)))) s"

definition sys_unlink :: "'a filest_scheme \<Rightarrow> exn + (int \<times> 'a filest_scheme)" where
  "sys_unlink s =
     andthen (argstr 0 MAXPATH s) (\<lambda>(r, path, s).
     if r < 0 then Inr (- 1, s)
     else
       andthen (begin_op s) (\<lambda>s.
       andthen (nameiparent path (replicate DIRSIZ 0) s) (\<lambda>(r, name, s).
       case r of
         None \<Rightarrow> fail_op s
       | Some dp \<Rightarrow>
           andthen (ilock dp s) (\<lambda>s.
           if namecmp name (bytes ''.'') = 0 \<or> namecmp name (bytes ''..'') = 0
           then andthen (iunlockput dp s) (\<lambda>s. fail_op s)
           else
             andthen (dirlookup dp name s) (\<lambda>(r, s).
             case r of
               None \<Rightarrow> andthen (iunlockput dp s) (\<lambda>s. fail_op s)
             | Some (ip, off) \<Rightarrow>
                 andthen (ilock ip s) (\<lambda>s.
                 if sint (i_nlink (ino s ip)) < 1 then Inl (Panic ''unlink: nlink < 1'')
                 else
                   andthen (if i_type (ino s ip) = T_DIR then isdirempty ip s else Inr (True, s)) (\<lambda>(e, s).
                   if \<not> e then
                     andthen (iunlockput ip s) (\<lambda>s.
                     andthen (iunlockput dp s) (\<lambda>s.
                     fail_op s))
                   else
                     andthen (writei dp (KernelSrc (replicate 16 0)) off 16 s) (\<lambda>(r, s).
                     if r \<noteq> 16 then Inl (Panic ''unlink: writei'')
                     else
                       andthen
                         (if i_type (ino s ip) = T_DIR
                          then iupdate dp (upd_ino dp (\<lambda>q. q\<lparr>i_nlink := i_nlink q - 1\<rparr>) s)
                          else Inr s) (\<lambda>s.
                       andthen (iunlockput dp s) (\<lambda>s.
                       let s = upd_ino ip (\<lambda>q. q\<lparr>i_nlink := i_nlink q - 1\<rparr>) s in
                       andthen (iupdate ip s) (\<lambda>s.
                       andthen (iunlockput ip s) (\<lambda>s.
                       andthen (end_op s) (\<lambda>s.
                       Inr (0, s))))))))))))))"

subsection \<open>Creating and opening\<close>

definition create_fail :: "nat \<Rightarrow> nat \<Rightarrow> 'a filest_scheme \<Rightarrow> exn + (nat option \<times> 'a filest_scheme)" where
  "create_fail ip dp s =
     (let s = upd_ino ip (\<lambda>q. q\<lparr>i_nlink := 0\<rparr>) s in
      andthen (iupdate ip s) (\<lambda>s.
      andthen (iunlockput ip s) (\<lambda>s.
      andthen (iunlockput dp s) (\<lambda>s.
      Inr (None, s)))))"

definition create :: "uchar list \<Rightarrow> ushort \<Rightarrow> ushort \<Rightarrow> ushort \<Rightarrow> 'a filest_scheme \<Rightarrow> exn + (nat option \<times> 'a filest_scheme)" where
  "create path ty major minor s =
     andthen (nameiparent path (replicate DIRSIZ 0) s) (\<lambda>(r, name, s).
     case r of
       None \<Rightarrow> Inr (None, s)
     | Some dp \<Rightarrow>
         andthen (ilock dp s) (\<lambda>s.
         andthen (dirlookup dp name s) (\<lambda>(r, s).
         case r of
           Some (ip, _) \<Rightarrow>
             andthen (iunlockput dp s) (\<lambda>s.
             andthen (ilock ip s) (\<lambda>s.
             if ty = T_FILE \<and> (i_type (ino s ip) = T_FILE \<or> i_type (ino s ip) = T_DEVICE) then Inr (Some ip, s)
             else andthen (iunlockput ip s) (\<lambda>s. Inr (None, s))))
         | None \<Rightarrow>
             andthen (ialloc (i_dev (ino s dp)) ty s) (\<lambda>(r, s).
             case r of
               None \<Rightarrow> andthen (iunlockput dp s) (\<lambda>s. Inr (None, s))
             | Some ip \<Rightarrow>
                 andthen (ilock ip s) (\<lambda>s.
                 let s = upd_ino ip (\<lambda>q. q\<lparr>i_major := major, i_minor := minor, i_nlink := 1\<rparr>) s in
                 andthen (iupdate ip s) (\<lambda>s.
                 andthen
                   (if ty = T_DIR then
                      andthen (dirlink ip (bytes ''.'') (i_inum (ino s ip)) s) (\<lambda>(r, s).
                      if r < 0 then Inr (r, s) else dirlink ip (bytes ''..'') (i_inum (ino s dp)) s)
                    else Inr (0, s)) (\<lambda>(r, s).
                 if r < 0 then create_fail ip dp s
                 else
                   andthen (dirlink dp name (i_inum (ino s ip)) s) (\<lambda>(r, s).
                   if r < 0 then create_fail ip dp s
                   else
                     andthen
                       (if ty = T_DIR then iupdate dp (upd_ino dp (\<lambda>q. q\<lparr>i_nlink := i_nlink q + 1\<rparr>) s) else Inr s) (\<lambda>s.
                     andthen (iunlockput dp s) (\<lambda>s.
                     Inr (Some ip, s)))))))))))"

text \<open>The inode \<^verbatim>\<open>sys_open\<close> is about, locked, or nothing.\<close>

definition open_ino :: "uchar list \<Rightarrow> uint \<Rightarrow> 'a filest_scheme \<Rightarrow> exn + (nat option \<times> 'a filest_scheme)" where
  "open_ino path omode s =
     (if omode AND O_CREATE \<noteq> 0 then create path T_FILE 0 0 s
      else
        andthen (namei path s) (\<lambda>(r, s).
        case r of
          None \<Rightarrow> Inr (None, s)
        | Some ip \<Rightarrow>
            andthen (ilock ip s) (\<lambda>s.
            if i_type (ino s ip) = T_DIR \<and> omode \<noteq> O_RDONLY
            then andthen (iunlockput ip s) (\<lambda>s. Inr (None, s))
            else Inr (Some ip, s))))"

definition sys_open :: "'a filest_scheme \<Rightarrow> exn + (int \<times> 'a filest_scheme)" where
  "sys_open s =
     andthen (argint 1 s) (\<lambda>om.
     let omode = (of_int om :: uint) in
     andthen (argstr 0 MAXPATH s) (\<lambda>(n, path, s).
     if n < 0 then Inr (- 1, s)
     else
       andthen (begin_op s) (\<lambda>s.
       andthen (open_ino path omode s) (\<lambda>(r, s).
       case r of
         None \<Rightarrow> fail_op s
       | Some ip \<Rightarrow>
           if i_type (ino s ip) = T_DEVICE \<and> \<not> dev_ok (i_major (ino s ip))
           then andthen (iunlockput ip s) (\<lambda>s. fail_op s)
           else
             andthen (filealloc s) (\<lambda>(f, s).
             andthen (case f of None \<Rightarrow> Inr (- 1, s) | Some f \<Rightarrow> fdalloc f s) (\<lambda>(fd, s).
             if fd < 0 then
               andthen (close_opt f s) (\<lambda>s.
               andthen (iunlockput ip s) (\<lambda>s.
               fail_op s))
             else
               let f = the f;
                   s = (if i_type (ino s ip) = T_DEVICE
                        then upd_file f (\<lambda>q. q\<lparr>f_type := FD_DEVICE, f_major := i_major (ino s ip)\<rparr>) s
                        else upd_file f (\<lambda>q. q\<lparr>f_type := FD_INODE, f_off := 0\<rparr>) s);
                   s = upd_file f (\<lambda>q. q\<lparr>f_ip := Some ip, f_readable := omode AND O_WRONLY = 0,
                         f_writable := omode AND O_WRONLY \<noteq> 0 \<or> omode AND O_RDWR \<noteq> 0\<rparr>) s in
               andthen (if omode AND O_TRUNC \<noteq> 0 \<and> i_type (ino s ip) = T_FILE then itrunc ip s else Inr s) (\<lambda>s.
               andthen (iunlock ip s) (\<lambda>s.
               andthen (end_op s) (\<lambda>s.
               Inr (fd, s))))))))))"

definition sys_mkdir :: "'a filest_scheme \<Rightarrow> exn + (int \<times> 'a filest_scheme)" where
  "sys_mkdir s =
     andthen (begin_op s) (\<lambda>s.
     andthen (argstr 0 MAXPATH s) (\<lambda>(n, path, s).
     andthen (if n < 0 then Inr (None, s) else create path T_DIR 0 0 s) (\<lambda>(r, s).
     case r of
       None \<Rightarrow> fail_op s
     | Some ip \<Rightarrow>
         andthen (iunlockput ip s) (\<lambda>s.
         andthen (end_op s) (\<lambda>s.
         Inr (0, s))))))"

definition sys_mknod :: "'a filest_scheme \<Rightarrow> exn + (int \<times> 'a filest_scheme)" where
  "sys_mknod s =
     andthen (begin_op s) (\<lambda>s.
     andthen (argint 1 s) (\<lambda>major.
     andthen (argint 2 s) (\<lambda>minor.
     andthen (argstr 0 MAXPATH s) (\<lambda>(n, path, s).
     andthen (if n < 0 then Inr (None, s) else create path T_DEVICE (of_int major) (of_int minor) s) (\<lambda>(r, s).
     case r of
       None \<Rightarrow> fail_op s
     | Some ip \<Rightarrow>
         andthen (iunlockput ip s) (\<lambda>s.
         andthen (end_op s) (\<lambda>s.
         Inr (0, s))))))))"

definition sys_chdir :: "'a filest_scheme \<Rightarrow> exn + (int \<times> 'a filest_scheme)" where
  "sys_chdir s =
     andthen (myproc s) (\<lambda>p.
     andthen (begin_op s) (\<lambda>s.
     andthen (argstr 0 MAXPATH s) (\<lambda>(n, path, s).
     andthen (if n < 0 then Inr (None, s) else namei path s) (\<lambda>(r, s).
     case r of
       None \<Rightarrow> fail_op s
     | Some ip \<Rightarrow>
         andthen (ilock ip s) (\<lambda>s.
         if i_type (ino s ip) \<noteq> T_DIR then andthen (iunlockput ip s) (\<lambda>s. fail_op s)
         else
           andthen (iunlock ip s) (\<lambda>s.
           andthen (deref_ip (p_cwd (pr s p))) (\<lambda>cwd.
           andthen (iput cwd s) (\<lambda>s.
           andthen (end_op s) (\<lambda>s.
           Inr (0, upd_proc p (\<lambda>q. q\<lparr>p_cwd := Some ip\<rparr>) s))))))))))"

subsection \<open>exec and pipe\<close>

text \<open>
  Fetching the argument vector, by the number of entries of \<open>argv\<close> left: whether it succeeded, and the pages
  allocated for the strings, also where it failed.
\<close>

fun exec_fetch :: "nat \<Rightarrow> uint64 \<Rightarrow> uint64 list \<Rightarrow> 'a filest_scheme \<Rightarrow> exn + (bool \<times> uint64 list \<times> 'a filest_scheme)" where
  "exec_fetch 0 uargv argv s = Inr (False, argv, s)"
| "exec_fetch (Suc k) uargv argv s =
     andthen (fetchaddr (uargv + 8 * of_nat (length argv)) s) (\<lambda>(r, uarg, s).
     if r < 0 then Inr (False, argv, s)
     else if uarg = 0 then Inr (True, argv, s)
     else
       andthen (kalloc s) (\<lambda>(pg, s).
       if pg = 0 then Inr (False, argv, s)
       else
         andthen (fetchstr uarg 4096 s) (\<lambda>(r, bs, s).
         let s = s\<lparr>mem := store_bytes pg bs (mem s)\<rparr> in
         if r < 0 then Inr (False, argv @ [pg], s)
         else exec_fetch k uargv (argv @ [pg]) s)))"

definition sys_exec :: "'a filest_scheme \<Rightarrow> exn + (int \<times> 'a filest_scheme)" where
  "sys_exec s =
     andthen (argaddr 1 s) (\<lambda>uargv.
     andthen (argstr 0 MAXPATH s) (\<lambda>(n, path, s).
     if n < 0 then Inr (- 1, s)
     else
       andthen (exec_fetch MAXARG uargv [] s) (\<lambda>(ok, argv, s).
       andthen (if ok then exec path argv s else Inr (- 1, s)) (\<lambda>(ret, s).
       andthen (for_each argv kfree s) (\<lambda>s.
       Inr (ret, s))))))"

definition sys_pipe :: "'a filest_scheme \<Rightarrow> exn + (int \<times> 'a filest_scheme)" where
  "sys_pipe s =
     andthen (myproc s) (\<lambda>p.
     andthen (argaddr 0 s) (\<lambda>fdarray.
     andthen (pipealloc s) (\<lambda>(r, s).
     case r of
       None \<Rightarrow> Inr (- 1, s)
     | Some (rf, wrf) \<Rightarrow>
         let close_both = (\<lambda>s. andthen (fileclose rf s) (\<lambda>s. andthen (fileclose wrf s) (\<lambda>s. Inr (- 1, s)))) in
         andthen (fdalloc rf s) (\<lambda>(fd0, s).
         andthen (if fd0 < 0 then Inr (- 1, s) else fdalloc wrf s) (\<lambda>(fd1, s).
         if fd0 < 0 \<or> fd1 < 0 then
           close_both (if fd0 \<ge> 0 then clear_fd p (nat fd0) s else s)
         else
           andthen (copyout (p_pagetable (pr s p)) fdarray (le_bytes 4 (nat fd0)) s) (\<lambda>(r, s).
           andthen (if r < 0 then Inr (r, s) else copyout (p_pagetable (pr s p)) (fdarray + 4) (le_bytes 4 (nat fd1)) s) (\<lambda>(r, s).
           if r < 0 then close_both (clear_fd p (nat fd1) (clear_fd p (nat fd0) s))
           else Inr (0, s))))))))"

end
