(* ===== verification/Syscall.thy ===== *)
theory Syscall
  imports Sysfile
begin

section \<open>System calls\<close>

text \<open>
  \<^verbatim>\<open>kernel/sysproc.c\<close> and the dispatch of \<^verbatim>\<open>kernel/syscall.c\<close> with the numbers of \<^verbatim>\<open>kernel/syscall.h\<close>.
\<close>

record tickst = filest +
  ticks :: uint

definition sys_exit :: "'a filest_scheme \<Rightarrow> exn + (int \<times> 'a filest_scheme)" where
  "sys_exit s = andthen (argint 0 s) (\<lambda>n. exit n s)"

definition sys_getpid :: "'a filest_scheme \<Rightarrow> exn + (int \<times> 'a filest_scheme)" where
  "sys_getpid s = andthen (myproc s) (\<lambda>p. Inr (p_pid (pr s p), s))"

definition sys_fork :: "'a filest_scheme \<Rightarrow> exn + (int \<times> 'a filest_scheme)" where
  "sys_fork s = fork s"

definition sys_wait :: "'a filest_scheme \<Rightarrow> exn + (int \<times> 'a filest_scheme)" where
  "sys_wait s = andthen (argaddr 0 s) (\<lambda>p. wait p s)"

definition sys_sbrk :: "'a filest_scheme \<Rightarrow> exn + (int \<times> 'a filest_scheme)" where
  "sys_sbrk s =
     andthen (argint 0 s) (\<lambda>n.
     andthen (myproc s) (\<lambda>p.
     let addr = p_sz (pr s p) in
     andthen (growproc n s) (\<lambda>(r, s).
     if r < 0 then Inr (- 1, s) else Inr (uint addr, s))))"

text \<open>The comparison is one of unsigned numbers.\<close>

definition sys_sleep :: "'a tickst_scheme \<Rightarrow> exn + (int \<times> 'a tickst_scheme)" where
  "sys_sleep s =
     andthen (argint 0 s) (\<lambda>n.
     andthen (acquire TicksLock s) (\<lambda>s.
     let ticks0 = ticks s in
     if ticks s - ticks0 < of_int n then
       andthen (myproc s) (\<lambda>p.
       andthen (killed p s) (\<lambda>(k, s).
       if k \<noteq> 0 then andthen (release TicksLock s) (\<lambda>s. Inr (- 1, s))
       else sleep ChanTicks TicksLock s))
     else
       andthen (release TicksLock s) (\<lambda>s.
       Inr (0, s))))"

definition sys_kill :: "'a filest_scheme \<Rightarrow> exn + (int \<times> 'a filest_scheme)" where
  "sys_kill s = andthen (argint 0 s) (\<lambda>pid. kill pid s)"

definition sys_uptime :: "'a tickst_scheme \<Rightarrow> exn + (int \<times> 'a tickst_scheme)" where
  "sys_uptime s =
     andthen (acquire TicksLock s) (\<lambda>s.
     let xticks = ticks s in
     andthen (release TicksLock s) (\<lambda>s.
     Inr (uint xticks, s)))"

subsection \<open>Dispatch\<close>

definition syscalls :: "('a tickst_scheme \<Rightarrow> exn + (int \<times> 'a tickst_scheme)) option list" where
  "syscalls = [None, Some sys_fork, Some sys_exit, Some sys_wait, Some sys_pipe, Some sys_read, Some sys_kill, Some sys_exec,
     Some sys_fstat, Some sys_chdir, Some sys_dup, Some sys_getpid, Some sys_sbrk, Some sys_sleep, Some sys_uptime, Some sys_open,
     Some sys_write, Some sys_mknod, Some sys_unlink, Some sys_link, Some sys_mkdir, Some sys_close]"

definition syscall :: "'a tickst_scheme \<Rightarrow> exn + 'a tickst_scheme" where
  "syscall s =
     andthen (myproc s) (\<lambda>p.
     let num = sint (ucast (tf_get p TF_a7 s) :: uint) in
     case (if num > 0 \<and> num < int (length (syscalls :: ('a tickst_scheme \<Rightarrow> exn + (int \<times> 'a tickst_scheme)) option list))
           then syscalls ! nat num else None) of
       Some f \<Rightarrow> andthen (f s) (\<lambda>(r, s). Inr (tf_set p TF_a0 (of_int r) s))
     | None \<Rightarrow>
         andthen (printf (''%d %s: unknown sys call %d'' @ [CHR 10])
             [ArgInt (of_int (p_pid (pr s p))), ArgStr (Some (p_name (pr s p))), ArgInt (of_int num)] s) (\<lambda>s.
         Inr (tf_set p TF_a0 (- 1) s)))"

end
