(* ===== verification/Trap.thy ===== *)
theory Trap
  imports Syscall
begin

section \<open>Traps and booting\<close>

text \<open>
  \<^verbatim>\<open>kernel/trap.c\<close>, \<^verbatim>\<open>kernel/plic.c\<close>, \<^verbatim>\<open>forkret\<close> of \<^verbatim>\<open>kernel/proc.c\<close> and \<^verbatim>\<open>kernel/main.c\<close>. The control registers of the
  running CPU are fields of the state. The interrupt controller is not part of the sources: \<open>plic_irqs\<close>
  lists the numbers its claim register will give (afterwards 0, no interrupt), and \<open>plic_out\<close> the writes to its registers.
  \<open>usertrapret\<close> and what ends with it return the argument that \<^verbatim>\<open>userret\<close> in the trampoline is called with.
\<close>

record trapst = tickst +
  scause :: uint64
  sepc :: uint64
  sstatus :: uint64
  stval :: uint64
  stvec :: uint64
  sip :: uint64
  cpuid :: nat
  plic_irqs :: "uint list"
  plic_out :: "(uint64 \<times> uint) list"
  fs_first :: bool
  started :: bool

definition UART0_IRQ :: uint where [simp, code_unfold]: "UART0_IRQ = 10"
definition VIRTIO0_IRQ :: uint where [simp, code_unfold]: "VIRTIO0_IRQ = 1"

definition PLIC_SENABLE :: "nat \<Rightarrow> uint64" where
  "PLIC_SENABLE hart = PLIC + 0x2080 + of_nat hart * 0x100"

definition PLIC_SPRIORITY :: "nat \<Rightarrow> uint64" where
  "PLIC_SPRIORITY hart = PLIC + 0x201000 + of_nat hart * 0x2000"

definition PLIC_SCLAIM :: "nat \<Rightarrow> uint64" where
  "PLIC_SCLAIM hart = PLIC + 0x201004 + of_nat hart * 0x2000"

subsection \<open>The interrupt controller\<close>

definition plic_write :: "uint64 \<Rightarrow> uint \<Rightarrow> 'a trapst_scheme \<Rightarrow> 'a trapst_scheme" where
  "plic_write a v s = s\<lparr>plic_out := plic_out s @ [(a, v)]\<rparr>"

definition plicinit :: "'a trapst_scheme \<Rightarrow> 'a trapst_scheme" where
  "plicinit s = plic_write (PLIC + ucast VIRTIO0_IRQ * 4) 1 (plic_write (PLIC + ucast UART0_IRQ * 4) 1 s)"

definition plicinithart :: "'a trapst_scheme \<Rightarrow> 'a trapst_scheme" where
  "plicinithart s =
     (let hart = cpuid s;
          s = plic_write (PLIC_SENABLE hart) (push_bit (unat UART0_IRQ) 1 OR push_bit (unat VIRTIO0_IRQ) 1) s
      in plic_write (PLIC_SPRIORITY hart) 0 s)"

definition plic_claim :: "'a trapst_scheme \<Rightarrow> uint \<times> 'a trapst_scheme" where
  "plic_claim s = (case plic_irqs s of [] \<Rightarrow> (0, s) | irq # irqs \<Rightarrow> (irq, s\<lparr>plic_irqs := irqs\<rparr>))"

definition plic_complete :: "uint \<Rightarrow> 'a trapst_scheme \<Rightarrow> 'a trapst_scheme" where
  "plic_complete irq s = plic_write (PLIC_SCLAIM (cpuid s)) irq s"

subsection \<open>Traps\<close>

definition trapinithart :: "'a trapst_scheme \<Rightarrow> 'a trapst_scheme" where
  "trapinithart s = s\<lparr>stvec := sym s ''kernelvec''\<rparr>"

definition clockintr :: "'a tickst_scheme \<Rightarrow> exn + 'a tickst_scheme" where
  "clockintr s =
     andthen (acquire TicksLock s) (\<lambda>s.
     let s = s\<lparr>ticks := ticks s + 1\<rparr> in
     andthen (wakeup ChanTicks s) (\<lambda>s.
     release TicksLock s))"

definition devintr :: "'a trapst_scheme \<Rightarrow> exn + (nat \<times> 'a trapst_scheme)" where
  "devintr s =
     (if scause s AND 0x8000000000000000 \<noteq> 0 \<and> scause s AND 0xff = 9 then
        let (irq, s) = plic_claim s in
        andthen
          (if irq = UART0_IRQ then uartintr s
           else if irq = VIRTIO0_IRQ then virtio_disk_intr s
           else if irq \<noteq> 0 then printf (''unexpected interrupt irq=%d'' @ [CHR 10]) [ArgInt irq] s
           else Inr s) (\<lambda>s.
        Inr (1, if irq \<noteq> 0 then plic_complete irq s else s))
      else if scause s = 0x8000000000000001 then
        andthen (if cpuid s = 0 then clockintr s else Inr s) (\<lambda>s.
        Inr (2, s\<lparr>sip := sip s AND NOT 2\<rparr>))
      else Inr (0, s))"

definition usertrapret :: "'a trapst_scheme \<Rightarrow> exn + (uint64 \<times> 'a trapst_scheme)" where
  "usertrapret s =
     andthen (myproc s) (\<lambda>p.
     let s = s\<lparr>sstatus := sstatus s AND NOT SSTATUS_SIE\<rparr>;
         s = s\<lparr>stvec := TRAMPOLINE + (sym s ''uservec'' - trampoline s)\<rparr>;
         s = tf_set p TF_kernel_satp (satp s) s;
         s = tf_set p TF_kernel_sp (p_kstack (pr s p) + PGSIZE) s;
         s = tf_set p TF_kernel_trap (sym s ''usertrap'') s;
         s = tf_set p TF_kernel_hartid (of_nat (cpuid s)) s;
         s = s\<lparr>sstatus := (sstatus s AND NOT SSTATUS_SPP) OR SSTATUS_SPIE\<rparr>;
         s = s\<lparr>sepc := tf_get p TF_epc s\<rparr>
     in Inr (MAKE_SATP (p_pagetable (pr s p)), s))"

text \<open>Leave the kernel if the process was killed.\<close>

definition exit_if_killed :: "nat \<Rightarrow> 'a trapst_scheme \<Rightarrow> exn + 'a trapst_scheme" where
  "exit_if_killed p s = andthen (killed p s) (\<lambda>(k, s). if k \<noteq> 0 then exit (- 1) s else Inr s)"

text \<open>
  Where a trap gives up the CPU, the run ends with the state in which the process waits to be scheduled again, and for
  \<^verbatim>\<open>kerneltrap\<close> with the trap registers it keeps in its local variables. The \<open>_resume\<close> part is what runs when the
  process is scheduled again. \<open>usertrap\<close> and \<open>kerneltrap\<close> are the traps that return without giving up the CPU.
\<close>

definition usertrap_run :: "'a trapst_scheme \<Rightarrow> exn + (uint64 option \<times> 'a trapst_scheme)" where
  "usertrap_run s =
     (if sstatus s AND SSTATUS_SPP \<noteq> 0 then Inl (Panic ''usertrap: not from user mode'')
      else
        let s = s\<lparr>stvec := sym s ''kernelvec''\<rparr> in
        andthen (myproc s) (\<lambda>p.
        let s = tf_set p TF_epc (sepc s) s in
        andthen
          (if scause s = 8 then
             andthen (exit_if_killed p s) (\<lambda>s.
             let s = tf_set p TF_epc (tf_get p TF_epc s + 4) s;
                 s = s\<lparr>sstatus := sstatus s OR SSTATUS_SIE\<rparr> in
             andthen (syscall s) (\<lambda>s.
             Inr (0, s)))
           else
             andthen (devintr s) (\<lambda>(which_dev, s).
             if which_dev \<noteq> 0 then Inr (which_dev, s)
             else
               andthen (printf (''usertrap(): unexpected scause %p pid=%d'' @ [CHR 10]) [ArgPtr (scause s), ArgInt (of_int (p_pid (pr s p)))] s) (\<lambda>s.
               andthen (printf (''            sepc=%p stval=%p'' @ [CHR 10]) [ArgPtr (sepc s), ArgPtr (stval s)] s) (\<lambda>s.
               andthen (setkilled p s) (\<lambda>s.
               Inr (0, s)))))) (\<lambda>(which_dev, s).
        andthen (exit_if_killed p s) (\<lambda>s.
        if which_dev = 2 then andthen (yield_enter s) (\<lambda>s. Inr (None, s))
        else andthen (usertrapret s) (\<lambda>(satp, s). Inr (Some satp, s))))))"

definition usertrap_resume :: "'a trapst_scheme \<Rightarrow> exn + (uint64 \<times> 'a trapst_scheme)" where
  "usertrap_resume s = andthen (yield_return s) (\<lambda>s. usertrapret s)"

definition usertrap :: "'a trapst_scheme \<Rightarrow> exn + (uint64 \<times> 'a trapst_scheme)" where
  "usertrap s =
     andthen (usertrap_run s) (\<lambda>(r, s).
     case r of None \<Rightarrow> Inl Yielded | Some ret \<Rightarrow> Inr (ret, s))"

definition kerneltrap_run :: "'a trapst_scheme \<Rightarrow> exn + ((uint64 \<times> uint64) option \<times> 'a trapst_scheme)" where
  "kerneltrap_run s =
     (let epc = sepc s; status = sstatus s in
      if status AND SSTATUS_SPP = 0 then Inl (Panic ''kerneltrap: not from supervisor mode'')
      else if sstatus s AND SSTATUS_SIE \<noteq> 0 then Inl (Panic ''kerneltrap: interrupts enabled'')
      else
        andthen (devintr s) (\<lambda>(which_dev, s).
        if which_dev = 0 then
          andthen (printf (''scause %p'' @ [CHR 10]) [ArgPtr (scause s)] s) (\<lambda>s.
          andthen (printf (''sepc=%p stval=%p'' @ [CHR 10]) [ArgPtr (sepc s), ArgPtr (stval s)] s) (\<lambda>s.
          Inl (Panic ''kerneltrap'')))
        else if which_dev = 2 \<and> (case curproc s of None \<Rightarrow> False | Some p \<Rightarrow> p_state (pr s p) = RUNNING)
        then andthen (yield_enter s) (\<lambda>s. Inr (Some (epc, status), s))
        else Inr (None, s\<lparr>sepc := epc, sstatus := status\<rparr>)))"

definition kerneltrap_resume :: "uint64 \<times> uint64 \<Rightarrow> 'a trapst_scheme \<Rightarrow> exn + 'a trapst_scheme" where
  "kerneltrap_resume saved s =
     andthen (yield_return s) (\<lambda>s.
     Inr (s\<lparr>sepc := fst saved, sstatus := snd saved\<rparr>))"

definition kerneltrap :: "'a trapst_scheme \<Rightarrow> exn + 'a trapst_scheme" where
  "kerneltrap s =
     andthen (kerneltrap_run s) (\<lambda>(r, s).
     case r of None \<Rightarrow> Inr s | Some _ \<Rightarrow> Inl Yielded)"

text \<open>
  On every path on which \<^verbatim>\<open>kerneltrap\<close> returns, directly or after it gave up the CPU and other traps have overwritten the
  trap registers, they are what they were when it was called.
\<close>

lemma kerneltrap_restores:
  assumes "kerneltrap_run s = Inr (r, u)" "(case r of None \<Rightarrow> Inr u | Some y \<Rightarrow> kerneltrap_resume y v) = Inr t"
  shows "sepc t = sepc s \<and> sstatus t = sstatus s"
  using assms
  by (auto simp: kerneltrap_run_def kerneltrap_resume_def Let_def andthen_eq_Inr split: if_splits prod.splits option.splits)

text \<open>A process that runs for the first time starts here.\<close>

definition forkret :: "'a trapst_scheme \<Rightarrow> exn + (uint64 \<times> 'a trapst_scheme)" where
  "forkret s =
     andthen (myproc s) (\<lambda>p.
     andthen (release (ProcLock p) s) (\<lambda>s.
     andthen (if fs_first s then fsinit ROOTDEV (s\<lparr>fs_first := False\<rparr>) else Inr s) (\<lambda>s.
     usertrapret s)))"

subsection \<open>Booting\<close>

text \<open>
  What \<^verbatim>\<open>main\<close> does before \<^verbatim>\<open>scheduler\<close>, on the first CPU and on the others, which spin until the first one is ready.
  The initialisation of the spin locks has no effect on the abstract state.
\<close>

definition main_boot :: "'a trapst_scheme \<Rightarrow> exn + 'a trapst_scheme" where
  "main_boot s =
     (if cpuid s = 0 then
        let s = printfinit (consoleinit s) in
        andthen (printf [CHR 10] [] s) (\<lambda>s.
        andthen (printf (''xv6 kernel is booting'' @ [CHR 10]) [] s) (\<lambda>s.
        andthen (printf [CHR 10] [] s) (\<lambda>s.
        andthen (kinit s) (\<lambda>s.
        andthen (kvminit s) (\<lambda>s.
        let s = iinit (binit (plicinithart (plicinit (trapinithart (procinit (kvminithart s)))))) in
        andthen (virtio_disk_init s) (\<lambda>s.
        andthen (userinit s) (\<lambda>s.
        Inr (s\<lparr>started := True\<rparr>))))))))
      else if \<not> started s then Inl Hang
      else
        andthen (printf (''hart %d starting'' @ [CHR 10]) [ArgInt (of_nat (cpuid s))] s) (\<lambda>s.
        Inr (plicinithart (trapinithart (kvminithart s)))))"

end
