(* ===== verification/Fsinode.thy ===== *)
theory Fsinode
  imports Fsblocks
begin

section \<open>The inode table\<close>

text \<open>
  The in-memory inodes of \<^verbatim>\<open>fs.c\<close>: the table holds every inode at most once, \<^verbatim>\<open>iget\<close> counts the references,
  and what \<^verbatim>\<open>iupdate\<close> writes to the disk is what \<^verbatim>\<open>ilock\<close> reads back.
\<close>

subsection \<open>References\<close>

definition is_inode :: "nat \<Rightarrow> nat \<Rightarrow> inode \<Rightarrow> bool" where
  "is_inode dev inum q \<longleftrightarrow> i_ref q > 0 \<and> i_dev q = dev \<and> i_inum q = inum"

definition itab_ok :: "'a fsst_scheme \<Rightarrow> bool" where
  "itab_ok s \<longleftrightarrow> length (itable s) = NINODE \<and> (\<forall>i < NINODE. 0 \<le> i_ref (ino s i)) \<and>
     (\<forall>i < NINODE. \<forall>j < NINODE. \<forall>dev inum. is_inode dev inum (ino s i) \<longrightarrow> is_inode dev inum (ino s j) \<longrightarrow> i = j)"

lemma iget_scan_fst: "fst (iget_scan dev inum ips fr s) = find (\<lambda>i. is_inode dev inum (ino s i)) ips"
  by (induction ips arbitrary: fr) (auto simp: is_inode_def)

lemma iget_scan_snd:
  "\<forall>i \<in> set ips. \<not> is_inode dev inum (ino s i) \<Longrightarrow>
   snd (iget_scan dev inum ips fr s) = (if fr = None then find (\<lambda>i. i_ref (ino s i) = 0) ips else fr)"
proof (induction ips arbitrary: fr)
  case (Cons ip ips)
  have "\<not> (i_ref (ino s ip) > 0 \<and> i_dev (ino s ip) = dev \<and> i_inum (ino s ip) = inum)" using Cons.prems by (simp add: is_inode_def)
  then have "iget_scan dev inum (ip # ips) fr s = iget_scan dev inum ips (if fr = None \<and> i_ref (ino s ip) = 0 then Some ip else fr) s" by (simp only: iget_scan.simps if_False)
  then show ?case using Cons.IH [of "if fr = None \<and> i_ref (ino s ip) = 0 then Some ip else fr"] Cons.prems by simp
qed simp

lemma ino_held [simp]: "ino (s\<lparr>held := h\<rparr>) = ino s"
  by (simp add: ino_def fun_eq_iff)

lemma upd_ino_held [simp]: "held (upd_ino i f s) = held s" "curproc (upd_ino i f s) = curproc s" "ptable (upd_ino i f s) = ptable s" "slk (upd_ino i f s) = slk s"
  "upd_ino i f (s\<lparr>held := h\<rparr>) = (upd_ino i f s)\<lparr>held := h\<rparr>" "(upd_ino i f s)\<lparr>held := held s\<rparr> = upd_ino i f s"
  by (simp_all add: upd_ino_def)

lemma iget_scan_held [simp]: "iget_scan dev inum ips fr (s\<lparr>held := h\<rparr>) = iget_scan dev inum ips fr s"
  by (induction ips arbitrary: fr) auto

text \<open>
  C9: one entry per inode. If the inode is in the table or some entry is unused, \<open>iget\<close> returns an entry for that inode
  with one reference more than it had, touches no other entry, and the table still has at most one entry in use per
  inode; otherwise it panics.
\<close>

theorem iget_unique:
  assumes "itab_ok s" "ItableLock \<notin> set (held s)"
  shows "if \<exists>i < NINODE. is_inode dev inum (ino s i) \<or> i_ref (ino s i) = 0
     then returns (iget dev inum s) (\<lambda>(ip, t). itab_ok t \<and> held t = held s \<and> ip < NINODE \<and> is_inode dev inum (ino t ip) \<and>
       i_ref (ino t ip) = (if is_inode dev inum (ino s ip) then i_ref (ino s ip) + 1 else 1) \<and> (\<forall>j. j \<noteq> ip \<longrightarrow> ino t j = ino s j))
     else iget dev inum s = Inl (Panic ''iget: no inodes'')"
proof -
  let ?M = "\<lambda>i. is_inode dev inum (ino s i)" and ?s = "s\<lparr>held := ItableLock # held s\<rparr>"
  have len: "length (itable s) = NINODE" using assms(1) by (simp add: itab_ok_def)
  have fin: "andthen (release ItableLock (upd_ino ip f ?s)) (\<lambda>s. Inr (ip, s)) = Inr (ip, upd_ino ip f s)" for ip f
    using assms(2) by (simp add: upd_ino_def lock_simps)
  have ok: "itab_ok (upd_ino ip f s)" if "ip < NINODE" "is_inode dev inum (f (ino s ip))" "\<forall>j < NINODE. ?M j \<longrightarrow> j = ip" "0 \<le> i_ref (f (ino s ip))" for ip f
  proof -
    let ?t = "upd_ino ip f s"
    have it: "ino ?t j = (if j = ip then f (ino s ip) else ino s j)" for j by (rule ino_upd_ino) (use that(1) len in simp)
    have "i = j" if ij: "i < NINODE" "j < NINODE" "is_inode d n (ino ?t i)" "is_inode d n (ino ?t j)" for i j d n
    proof (cases "i = ip \<or> j = ip")
      case True
      then have "d = dev" "n = inum" using ij \<open>is_inode dev inum (f (ino s ip))\<close> by (auto simp: it is_inode_def)
      then show ?thesis using True ij \<open>\<forall>j < NINODE. ?M j \<longrightarrow> j = ip\<close> by (auto simp: it split: if_splits)
    next
      case False
      then show ?thesis using ij assms(1) by (auto simp: it itab_ok_def)
    qed
    moreover have "\<forall>i < NINODE. 0 \<le> i_ref (ino ?t i)" using assms(1) that(4) by (simp add: it itab_ok_def)
    ultimately show ?thesis unfolding itab_ok_def using len by auto
  qed
  show ?thesis
  proof (cases "find ?M [0..<NINODE]")
    case (Some ip)
    then have ip: "ip < NINODE" "?M ip" by (auto simp: find_Some_iff)
    obtain x where r: "iget_scan dev inum [0..<NINODE] None s = (Some ip, x)"
      using Some iget_scan_fst [of dev inum "[0..<NINODE]" None s] by (cases "iget_scan dev inum [0..<NINODE] None s") auto
    have u: "\<forall>j < NINODE. ?M j \<longrightarrow> j = ip" using assms(1) ip by (auto simp: itab_ok_def)
    have "iget dev inum s = Inr (ip, upd_ino ip (\<lambda>q. q\<lparr>i_ref := i_ref q + 1\<rparr>) s)"
      using r assms(2) by (simp add: iget_def lock_simps Let_def fin del: upt_rec_numeral)
    then show ?thesis
      using ip ok [OF ip(1) _ u, of "\<lambda>q. q\<lparr>i_ref := i_ref q + 1\<rparr>"] len
      by (auto simp: ino_upd_ino is_inode_def)
  next
    case None
    then have nm: "\<forall>j < NINODE. \<not> ?M j" by (auto simp: find_None_iff)
    have r: "iget_scan dev inum [0..<NINODE] None s = (None, find (\<lambda>i. i_ref (ino s i) = 0) [0..<NINODE])"
      using None nm iget_scan_fst [of dev inum "[0..<NINODE]" None s] iget_scan_snd [of "[0..<NINODE]" dev inum s None]
      by (intro prod_eqI) auto
    show ?thesis
    proof (cases "find (\<lambda>i. i_ref (ino s i) = 0) [0..<NINODE]")
      case (Some ip)
      then have ip: "ip < NINODE" "i_ref (ino s ip) = 0" by (auto simp: find_Some_iff)
      let ?f = "\<lambda>q :: inode. q\<lparr>i_dev := dev, i_inum := inum, i_ref := 1, i_valid := False\<rparr>"
      have "iget dev inum s = Inr (ip, upd_ino ip ?f s)"
        using r Some assms(2) by (simp add: iget_def lock_simps Let_def fin del: upt_rec_numeral)
      moreover have "itab_ok (upd_ino ip ?f s)" 
      proof (rule ok [OF ip(1)])
        show "\<forall>j < NINODE. ?M j \<longrightarrow> j = ip" using nm by blast
      qed (simp_all add: is_inode_def)
      moreover have "\<exists>i < NINODE. ?M i \<or> i_ref (ino s i) = 0" using ip by blast
      moreover have "\<not> ?M ip" "is_inode dev inum (?f (ino s ip))" using ip(2) by (simp_all add: is_inode_def)
      ultimately show ?thesis using ip(1) len by (simp add: ino_upd_ino)
    next
      case none: None
      then have "\<not> (\<exists>i < NINODE. ?M i \<or> i_ref (ino s i) = 0)" using nm by (auto simp: find_None_iff)
      moreover have "iget dev inum s = Inl (Panic ''iget: no inodes'')"
        using r none assms(2) by (simp add: iget_def lock_simps del: upt_rec_numeral)
      ultimately show ?thesis by simp
    qed
  qed
qed

definition demo_inode :: inode where
  "demo_inode = \<lparr>i_dev = 0, i_inum = 0, i_ref = 0, i_valid = False, i_type = 0, i_major = 0, i_minor = 0, i_nlink = 0, i_size = 0, i_addrs = replicate (NDIRECT + 1) 0\<rparr>"

theorem iget_unique_witness:
  "returns (iget ROOTDEV 7 (demo_fs [] (replicate NINODE demo_inode))) (\<lambda>(ip, t). ip < NINODE \<and> i_ref (ino t ip) = 1 \<and> i_inum (ino t ip) = 7)"
proof -
  let ?s = "demo_fs [] (replicate NINODE demo_inode)"
  have i: "ino ?s i = demo_inode" if "i < NINODE" for i using that by (simp add: ino_def demo_fs_simps del: replicate_Suc)
  have d: "\<not> is_inode d n demo_inode" "i_ref demo_inode = 0" for d n by (simp_all add: is_inode_def demo_inode_def)
  have "itab_ok ?s" using i d by (simp add: itab_ok_def demo_fs_simps)
  moreover have "\<exists>i < NINODE. is_inode ROOTDEV 7 (ino ?s i) \<or> i_ref (ino ?s i) = 0" by (rule exI [of _ 0]) (use i [of 0] d in simp)
  ultimately show ?thesis
    using iget_unique [of ?s ROOTDEV 7] i d by (auto simp: demo_fs_simps is_inode_def elim!: returns_mono)
qed

subsection \<open>Inodes on the disk\<close>

definition dinode_at :: "'a fsst_scheme \<Rightarrow> nat \<Rightarrow> dinode" where
  "dinode_at s i = get_dinode (64 * (i mod IPB)) (blk s (IBLOCK i (sb s)))"

lemma iupdate_spec:
  assumes "fsx p K k s H" "i_dev (ino s ip) = ROOTDEV" "n = IBLOCK (i_inum (ino s ip)) (sb s)" "n \<notin> H" "loggable s n" "n \<in> K" "dinode_ok (dinode_of (ino s ip))"
  obtains t where "iupdate ip s = Inr t" "blk t = (blk s)(n := put_dinode (64 * (i_inum (ino s ip) mod IPB)) (dinode_of (ino s ip)) (blk s n))"
    "fsx p K k t H" "lframe p s t" "set (logged t) = insert n (set (logged s))"
proof -
  let ?off = "64 * (i_inum (ino s ip) mod IPB)" and ?d = "dinode_of (ino s ip)"
  have len: "length (blk s n) = BSIZE" by (rule bt.size [OF fsx_tx [OF assms(1)]])
  have "?off + 64 \<le> length (blk s n)" unfolding len by simp
  then have "length (put_dinode ?off ?d (blk s n)) = BSIZE" using get_put_dinode(2) [OF _ assms(7)] len by simp
  then obtain b t u v where t: "bread ROOTDEV n s = Inr (b, t)" "b_data (bf t b) = blk s n" "blk t = blk s" "lframe p s t"
    "log_write b (put_data b (put_dinode ?off ?d (blk s n)) t) = Inr u" "brelse b u = Inr v" "fsx p K k v H" "blk v = (blk s)(n := put_dinode ?off ?d (blk s n))"
    "set (logged v) = insert n (set (logged s))" "lframe p s v"
    by (rule fs_modify [OF assms(1,4,5,6)])
  have "iupdate ip s = Inr v" using t assms(2,3) lframe_fs(7) [OF t(4)] by (simp add: iupdate_def Let_def)
  then show thesis using that t by blast
qed

lemma dinode_at_update:
  assumes "blk t = (blk s)(IBLOCK i (sb s) := put_dinode (64 * (i mod IPB)) d (blk s (IBLOCK i (sb s))))" "sb t = sb s" "dinode_ok d"
    "length (blk s (IBLOCK i (sb s))) = BSIZE"
  shows "dinode_at t j = (if j = i then d else dinode_at s j)"
proof -
  let ?n = "IBLOCK i (sb s)"
  have l: "64 * (i mod IPB) + 64 \<le> length (blk s ?n)" using assms(4) by simp
  note g = get_put_dinode [OF l assms(3)]
  show ?thesis
  proof (cases "j = i")
    case True
    then show ?thesis using g(1) assms(1,2) by (simp add: dinode_at_def)
  next
    case False
    show ?thesis
    proof (cases "IBLOCK j (sb s) = ?n")
      case True
      then have "j div IPB = i div IPB" by (simp add: IBLOCK_def)
      then have "j mod IPB \<noteq> i mod IPB" using False by (metis div_mult_mod_eq)
      then have "64 * (j mod IPB) + 64 \<le> 64 * (i mod IPB) \<or> 64 * (i mod IPB) + 64 \<le> 64 * (j mod IPB)" by linarith
      from g(3) [OF this] show ?thesis using assms(1,2) True False by (simp add: dinode_at_def)
    next
      case False
      then show ?thesis using assms(1,2) \<open>j \<noteq> i\<close> by (simp add: dinode_at_def)
    qed
  qed
qed

text \<open>The locks of inodes are no part of the buffer cache.\<close>

lemma fs_slk:
  assumes "\<forall>b. sl (BufLock b) = slk s (BufLock b)"
  shows "blk (s\<lparr>slk := sl\<rparr>) = blk s" "fsx p K k (s\<lparr>slk := sl\<rparr>) H = fsx p K k s H"
proof -
  let ?t = "s\<lparr>slk := sl\<rparr>"
  have b: "bf ?t = bf s" "buf_locked ?t = buf_locked s" using assms by (simp_all add: bf_def buf_locked_def fun_eq_iff)
  then have c: "cached ?t = cached s" by (simp add: cached_def fun_eq_iff)
  then have o: "buf_of ?t = buf_of s" "once ?t = once s" by (simp_all add: buf_of_def once_def fun_eq_iff)
  have k: "blk ?t = blk s" "refs ?t = refs s" "blk_locked ?t = blk_locked s" "bcache_ok ?t = bcache_ok s"
    using b o unfolding fun_eq_iff blk_def refs_def blk_locked_def bcache_ok_def by (simp_all cong: option.case_cong if_cong)
  show "blk ?t = blk s" by (rule k)
  have l: "logged ?t = logged s" by (simp add: logged_def)
  have "cst p ?t (set (logged s)) H = cst p s (set (logged s)) H" unfolding cst_def io_ok_def in_proc_def pr_def using k by simp
  then have "tx p ?t H = tx p s H" by (simp add: tx_def log_shape_def l log_area_def)
  then show "fsx p K k ?t H = fsx p K k s H" by (simp add: fsx_def l)
qed

definition ilocked :: "nat \<Rightarrow> 'a fsst_scheme \<Rightarrow> nat \<Rightarrow> bool" where
  "ilocked p s ip \<longleftrightarrow> sl_locked (slk s (InodeLock ip)) \<noteq> 0 \<and> sl_pid (slk s (InodeLock ip)) = p_pid (pr s p)"

lemma fsx_in_proc: "fsx p K k s H \<Longrightarrow> in_proc p s"
  by (simp add: fsx_def tx_def cst_def io_ok_def)

lemma ilock_spec:
  assumes f: "fsx p K k s H" and r: "1 \<le> i_ref (ino s ip)" "ip < length (itable s)" and l: "sl_locked (slk s (InodeLock ip)) = 0" and v: "\<not> i_valid (ino s ip)"
    and n: "i_dev (ino s ip) = ROOTDEV" "n = IBLOCK (i_inum (ino s ip)) (sb s)" "n \<notin> H" "n < 2 ^ 31" "n \<in> K" and ty: "di_type (dinode_at s (i_inum (ino s ip))) \<noteq> 0"
  obtains t where "ilock ip s = Inr t" "ino t ip = (load_dinode (dinode_at s (i_inum (ino s ip))) (ino s ip))\<lparr>i_valid := True\<rparr>"
    "\<forall>j. j \<noteq> ip \<longrightarrow> ino t j = ino s j" "fsx p K k t H" "blk t = blk s" "sb t = sb s" "ilocked p t ip"
proof -
  let ?d = "dinode_at s (i_inum (ino s ip))"
  define sl where "sl = (slk s)(InodeLock ip := \<lparr>sl_locked = 1, sl_pid = p_pid (pr s p), \<dots> = sleeplock.more (slk s (InodeLock ip))\<rparr>)"
  define a where "a = s\<lparr>slk := sl\<rparr>"
  have sl: "\<forall>b. sl (BufLock b) = slk s (BufLock b)" by (simp add: sl_def)
  have a: "acquiresleep (InodeLock ip) s = Inr a" unfolding a_def sl_def by (rule acquiresleep_free [OF fsx_in_proc [OF f] l])
  have fa: "fsx p K k a H" "blk a = blk s" using fs_slk [OF sl] f by (simp_all add: a_def)
  have e: "sb a = sb s" "ino a = ino s" by (simp_all add: a_def ino_def fun_eq_iff)
  obtain b t where t: "bread ROOTDEV n a = Inr (b, t)" "fsx p K k t (insert n H)" "holds p t b n" "b_data (bf t b) = blk a n" "blk t = blk a"
    "set (logged t) = set (logged a)" "lframe p a t" "\<forall>c m. holds p a c m \<longrightarrow> holds p t c m" "n \<in> set (logged t) \<or> blk t n = disk_block (platter t) n"
    by (rule fs_read [OF fa(1) n(3,4,5)])
  let ?w = "upd_ino ip (load_dinode ?d) t"
  have te: "ino t = ino s" "sb t = sb s" "length (itable t) = length (itable s)" using lframe_fs [OF t(7)] e by (simp_all add: a_def)
  obtain u where u: "brelse b ?w = Inr u" "fsx p K k u (insert n H - {n})" "blk u = blk ?w" "set (logged u) = set (logged ?w)" "lframe p ?w u"
    by (rule fs_release [of p K k ?w "insert n H" b n]) (use t(2,3,9) in simp_all)
  have ue: "ino u = ino ?w" "sb u = sb s" "length (itable u) = length (itable s)" using lframe_fs [OF u(5)] te by simp_all
  have iu: "ino u ip = load_dinode ?d (ino s ip)" "\<forall>j. j \<noteq> ip \<longrightarrow> ino u j = ino s j" using r(2) te by (simp_all add: ue ino_upd_ino)
  let ?x = "upd_ino ip (\<lambda>q. q\<lparr>i_valid := True\<rparr>) u"
  have ix: "ino ?x ip = (load_dinode ?d (ino s ip))\<lparr>i_valid := True\<rparr>" "\<forall>j. j \<noteq> ip \<longrightarrow> ino ?x j = ino s j" using r(2) iu ue(3) by (simp_all add: ino_upd_ino)
  have d: "get_dinode (64 * (i_inum (ino s ip) mod IPB)) (b_data (bf t b)) = ?d" by (simp add: t(4) fa(2) dinode_at_def n(2))
  have "i_type (ino ?x ip) \<noteq> 0" using ty by (simp add: ix load_dinode_def)
  then have "ilock ip s = Inr ?x"
    using r(1) v a t(1) u(1) d n(1,2) by (simp add: ilock_def e te Let_def del: IPB_def)
  moreover have "insert n H - {n} = H" using n(3) by simp
  moreover have "ilocked p ?x ip"
    using lframe_fields(11,12) [OF t(7)] lframe_fields(11,12) [OF u(5)] by (simp add: ilocked_def a_def sl_def pr_def)
  ultimately show thesis using that [of ?x] ix u ue t(5) fa(2) by simp
qed

lemma dinode_of_load [simp]: "dinode_of ((load_dinode d q)\<lparr>i_valid := v\<rparr>) = d"
  by (simp add: dinode_of_def load_dinode_def)

text \<open>
  C10: the fields of an inode survive on the disk. After \<open>iupdate\<close> of an in-memory inode, locking an entry of the table that
  stands for the same inode and has not been read yet returns with the lock held and loads exactly the type, device
  numbers, link count, size and block addresses that were written; every other inode on the disk is unchanged.
\<close>

theorem inode_write_back:
  assumes "fsx p K k s H" "i_dev (ino s ip) = ROOTDEV" "n = IBLOCK (i_inum (ino s ip)) (sb s)" "n \<notin> H" "loggable s n" "n \<in> K"
    "dinode_ok (dinode_of (ino s ip))" "i_type (ino s ip) \<noteq> 0"
    "jp < length (itable s)" "1 \<le> i_ref (ino s jp)" "i_dev (ino s jp) = ROOTDEV" "i_inum (ino s jp) = i_inum (ino s ip)" "\<not> i_valid (ino s jp)"
    "sl_locked (slk s (InodeLock jp)) = 0"
  shows "returns (andthen (iupdate ip s) (ilock jp)) (\<lambda>t. dinode_of (ino t jp) = dinode_of (ino s ip) \<and> i_valid (ino t jp) \<and> ilocked p t jp \<and>
     (\<forall>i. i \<noteq> i_inum (ino s ip) \<longrightarrow> dinode_at t i = dinode_at s i))"
proof -
  let ?i = "i_inum (ino s ip)" and ?d = "dinode_of (ino s ip)"
  obtain t where t: "iupdate ip s = Inr t" "blk t = (blk s)(n := put_dinode (64 * (?i mod IPB)) ?d (blk s n))" "fsx p K k t H" "lframe p s t" "set (logged t) = insert n (set (logged s))"
    by (rule iupdate_spec [OF assms(1-7)])
  have len: "length (blk s n) = BSIZE" by (rule bt.size [OF fsx_tx [OF assms(1)]])
  have at: "dinode_at t j = (if j = ?i then ?d else dinode_at s j)" for j
    by (rule dinode_at_update [OF t(2) [unfolded assms(3)] lframe_fs(1) [OF t(4)] assms(7) len [unfolded assms(3)]])
  note e = lframe_fs(1,2,7) [OF t(4)] lframe_fields(12) [OF t(4)]
  have "di_type (dinode_at t (i_inum (ino t jp))) \<noteq> 0" using assms(8,12) at by (simp add: e dinode_of_def)
  then obtain u where u: "ilock jp t = Inr u" "ino u jp = (load_dinode (dinode_at t (i_inum (ino t jp))) (ino t jp))\<lparr>i_valid := True\<rparr>"
    "\<forall>j. j \<noteq> jp \<longrightarrow> ino u j = ino t j" "fsx p K k u H" "blk u = blk t" "sb u = sb t" "ilocked p u jp"
    by (rule ilock_spec [OF t(3), of jp n, rotated 9]) (use assms e in \<open>simp_all add: loggable_def\<close>)
  have "dinode_of (ino u jp) = ?d" unfolding u(2) dinode_of_load using at assms(12) by (simp add: e)
  moreover have "dinode_at u = dinode_at t" using u(5,6) by (simp add: dinode_at_def fun_eq_iff)
  ultimately show ?thesis using t(1) u at by simp
qed

theorem inode_write_back_witness:
  "\<exists>s :: fsst. returns (andthen (iupdate 0 s) (ilock 0)) (\<lambda>t. i_type (ino t 0) = T_FILE \<and> i_valid (ino t 0))"
proof -
  let ?q = "demo_inode\<lparr>i_dev := ROOTDEV, i_inum := 3, i_ref := 1, i_type := T_FILE\<rparr>"
  obtain s :: fsst where s: "tx 2 s {}" "logged s = []" "l_start s = 2" "l_size s = 30" "blk s = disk_block []" "sb s = demo_sb" "itable s = [?q]"
    "\<not> panicked s" "uart_lsr s = replicate 400 0x20" "\<forall>i. sl_locked (slk s (InodeLock i)) = 0"
    by (rule demo_fs_tx [of "[]" "[?q]"]) simp_all
  have i: "ino s 0 = ?q" by (simp add: ino_def s(7))
  have "fsx 2 {32} 0 s {}" using s by (simp add: fsx_def)
  moreover have "IBLOCK 3 (sb s) = 32" by (simp add: s(6) demo_sb_def IBLOCK_def)
  ultimately have "returns (andthen (iupdate 0 s) (ilock 0)) (\<lambda>t. dinode_of (ino t 0) = dinode_of (ino s 0) \<and> i_valid (ino t 0) \<and> ilocked 2 t 0 \<and>
     (\<forall>i. i \<noteq> i_inum (ino s 0) \<longrightarrow> dinode_at t i = dinode_at s i))"
    by (intro inode_write_back [of 2 "{32}" 0 s "{}" 0 32])
      (use s in \<open>simp_all add: i demo_inode_def loggable_def log_area_def dinode_ok_def dinode_of_def del: replicate_Suc\<close>)
  then show ?thesis by (intro exI [of _ s]) (auto simp: i dinode_of_def elim!: returns_mono)
qed

end
