(* ===== verification/Filedata.thy ===== *)
theory Filedata
  imports Fsinode
begin

section \<open>The contents of files\<close>

text \<open>
  A file as a function from positions to bytes, through the direct and the indirect block addresses of its inode, and the
  proofs that \<^verbatim>\<open>bmap\<close>, \<^verbatim>\<open>readi\<close> and \<^verbatim>\<open>writei\<close> work on that function. The first part is about the addresses and the block
  contents alone: \<open>fmap a f\<close> is the block map of an inode with addresses \<open>a\<close> when the blocks contain \<open>f\<close>, and
  \<open>D\<close> are the blocks that may belong to files.
\<close>

subsection \<open>Block maps\<close>

definition fmap :: "nat list \<Rightarrow> (nat \<Rightarrow> block) \<Rightarrow> nat \<Rightarrow> nat" where
  "fmap a f bn = (if bn < NDIRECT then a ! bn else if a ! NDIRECT = 0 then 0 else getn 4 (4 * (bn - NDIRECT)) (f (a ! NDIRECT)))"

definition fok :: "nat list \<Rightarrow> (nat \<Rightarrow> block) \<Rightarrow> nat set \<Rightarrow> bool" where
  "fok a f D \<longleftrightarrow> length a = NDIRECT + 1 \<and> (\<forall>x \<in> set a. x \<noteq> 0 \<longrightarrow> x \<in> D) \<and> (\<forall>m < MAXFILE. fmap a f m \<noteq> 0 \<longrightarrow> fmap a f m \<in> D \<and> fmap a f m \<noteq> a ! NDIRECT) \<and>
     (\<forall>m < MAXFILE. \<forall>n < MAXFILE. fmap a f m \<noteq> 0 \<longrightarrow> fmap a f m = fmap a f n \<longrightarrow> m = n)"

definition fbyte :: "nat list \<Rightarrow> (nat \<Rightarrow> block) \<Rightarrow> nat \<Rightarrow> uchar" where
  "fbyte a f i = (if fmap a f (i div BSIZE) = 0 then 0 else f (fmap a f (i div BSIZE)) ! (i mod BSIZE))"

lemma fok_ind: "fok a f D \<Longrightarrow> a ! NDIRECT \<noteq> 0 \<Longrightarrow> a ! NDIRECT \<in> D"
  by (auto simp: fok_def)

lemma fmap_cong: "(a ! NDIRECT \<noteq> 0 \<Longrightarrow> f' (a ! NDIRECT) = f (a ! NDIRECT)) \<Longrightarrow> fmap a f' m = fmap a f m"
  by (auto simp: fmap_def)

text \<open>Contents of other blocks, and more blocks for files.\<close>

lemma fok_cong:
  assumes "fok a f D" "\<forall>x \<in> D. f' x = f x" "D \<subseteq> D'"
  shows "fok a f' D'" "fmap a f' m = fmap a f m"
proof -
  have e: "fmap a f' m = fmap a f m" for m using assms fok_ind [OF assms(1)] by (intro fmap_cong) auto
  then show "fmap a f' m = fmap a f m" .
  show "fok a f' D'" using assms(1,3) unfolding fok_def e by blast
qed

text \<open>A block for a direct address, for the indirect block, and for an entry of the indirect block.\<close>

lemma fok_slot:
  assumes ok: "fok a f D" and i: "i < NDIRECT" "a ! i = 0" and b: "b \<notin> D" "b \<noteq> 0"
  shows "fmap (a[i := b]) f m = (if m = i then b else fmap a f m)" "fok (a[i := b]) f (insert b D)"
proof -
  have l: "length a = NDIRECT + 1" using ok by (simp add: fok_def)
  have n: "a[i := b] ! NDIRECT = a ! NDIRECT" using i by simp
  have e: "fmap (a[i := b]) f m = (if m = i then b else fmap a f m)" for m
    using i l by (auto simp: fmap_def nth_list_update)
  then show "fmap (a[i := b]) f m = (if m = i then b else fmap a f m)" .
  have "a ! NDIRECT \<noteq> b" using fok_ind [OF ok] b by auto
  moreover have "set (a[i := b]) \<subseteq> insert b (set a)" by (rule set_update_subset_insert)
  ultimately show "fok (a[i := b]) f (insert b D)"
    using ok b unfolding fok_def e n by (auto split: if_splits)
qed

lemma fok_new_ind:
  assumes ok: "fok a f D" and i: "a ! NDIRECT = 0" and b: "b \<notin> D" "b \<noteq> 0" "f b = replicate BSIZE 0"
  shows "fmap (a[NDIRECT := b]) f m = fmap a f m" "fok (a[NDIRECT := b]) f (insert b D)"
proof -
  have l: "length a = NDIRECT + 1" using ok by (simp add: fok_def)
  then have n: "a[NDIRECT := b] ! NDIRECT = b" by simp
  have e: "fmap (a[NDIRECT := b]) f m = fmap a f m" for m
    using i b l by (auto simp: fmap_def nth_list_update getn_zero)
  then show "fmap (a[NDIRECT := b]) f m = fmap a f m" .
  have "set (a[NDIRECT := b]) \<subseteq> insert b (set a)" by (rule set_update_subset_insert)
  then show "fok (a[NDIRECT := b]) f (insert b D)"
    using ok b l unfolding fok_def e n by auto
qed

lemma fok_entry:
  assumes ok: "fok a f D" and x: "x = a ! NDIRECT" "x \<noteq> 0" "length (f x) = BSIZE" and j: "j < NINDIRECT" "fmap a f (NDIRECT + j) = 0"
    and b: "b \<notin> D" "b \<noteq> 0" "b < 2 ^ 32"
  defines "f' \<equiv> f(x := putn 4 (4 * j) b (f x))"
  shows "fmap a f' m = (if m = NDIRECT + j then b else fmap a f m)" "fok a f' (insert b D)"
proof -
  have g: "getn 4 (4 * k) (putn 4 (4 * j) b (f x)) = (if k = j then b else getn 4 (4 * k) (f x))" for k
  proof (cases "k = j")
    case True
    have "4 * j + 4 \<le> length (f x)" using j x by simp
    then show ?thesis using True b(3) getn_putn [of "4 * j" 4 "f x" b] by simp
  next
    case False
    then have "4 * k + 4 \<le> 4 * j \<or> 4 * j + 4 \<le> 4 * k" by linarith
    then show ?thesis using False getn_putn_other [of "4 * j" 4 "f x" "4 * k" 4 b] j x by simp
  qed
  have e: "fmap a f' m = (if m = NDIRECT + j then b else fmap a f m)" for m
  proof (cases "m < NDIRECT")
    case False
    then have "m - NDIRECT = j \<longleftrightarrow> m = NDIRECT + j" by auto
    then show ?thesis using False x g [of "m - NDIRECT"] by (simp add: fmap_def f'_def del: NDIRECT_def)
  qed (simp add: fmap_def)
  then show "fmap a f' m = (if m = NDIRECT + j then b else fmap a f m)" .
  have "a ! NDIRECT \<noteq> b" using fok_ind [OF ok] b x by auto
  then show "fok a f' (insert b D)"
    using ok b unfolding fok_def e by (auto split: if_splits)
qed

text \<open>The blocks of a file, and an extension of the map by a new block that reads as zeros.\<close>

definition fown :: "nat list \<Rightarrow> (nat \<Rightarrow> block) \<Rightarrow> nat set" where
  "fown a f = (set a \<union> fmap a f ` {..<MAXFILE}) - {0}"

definition fstep :: "nat list \<Rightarrow> (nat \<Rightarrow> block) \<Rightarrow> nat set \<Rightarrow> nat list \<Rightarrow> (nat \<Rightarrow> block) \<Rightarrow> nat \<Rightarrow> bool" where
  "fstep a f D a' f' b \<longleftrightarrow> fok a' f' (insert b D) \<and> (\<forall>m < MAXFILE. fmap a f m \<noteq> 0 \<longrightarrow> fmap a' f' m = fmap a f m) \<and>
     (\<forall>i < MAXFILE * BSIZE. fbyte a' f' i = fbyte a f i) \<and> fown a' f' \<subseteq> insert b (fown a f) \<and> (\<forall>x \<in> D - fown a f. f' x = f x)"

lemma fok_own: "fok a f D \<Longrightarrow> fown a f \<subseteq> D"
  by (auto simp: fok_def fown_def)

lemma fbyte_same:
  assumes i: "i < MAXFILE * BSIZE" and m: "\<And>m. m < MAXFILE \<Longrightarrow> fmap a' f' m = fmap a f m \<or> fmap a f m = 0 \<and> f' (fmap a' f' m) = replicate BSIZE 0"
    and f: "\<And>m. m < MAXFILE \<Longrightarrow> fmap a f m \<noteq> 0 \<Longrightarrow> f' (fmap a f m) = f (fmap a f m)"
  shows "fbyte a' f' i = fbyte a f i"
proof -
  have d: "i div BSIZE < MAXFILE" using i by (simp add: less_mult_imp_div_less)
  have "i mod BSIZE < BSIZE" by simp
  then show ?thesis using m [OF d] f [OF d] by (auto simp: fbyte_def simp del: BSIZE_def MAXFILE_def)
qed

lemma fstep_slot:
  assumes ok: "fok a f D" and f: "\<forall>x \<in> D. f' x = f x" and i: "i \<le> NDIRECT" "a ! i = 0" and b: "b \<notin> D" "b \<noteq> 0" "f' b = replicate BSIZE 0"
  shows "fstep a f D (a[i := b]) f' b"
proof -
  have ok': "fok a f' D" and e: "fmap a f' m = fmap a f m" for m using fok_cong [OF ok f subset_refl] by blast+
  have s: "fok (a[i := b]) f' (insert b D)" and m: "fmap (a[i := b]) f' m = (if i < NDIRECT \<and> m = i then b else fmap a f m)" for m
    using fok_slot [OF ok' _ i(2) b(1,2)] fok_new_ind [OF ok' _ b] i e by (cases "i < NDIRECT"; auto)+
  have z: "i < NDIRECT \<Longrightarrow> fmap a f i = 0" using i(2) by (simp add: fmap_def)
  have fm: "m < MAXFILE \<Longrightarrow> fmap a f m \<noteq> 0 \<Longrightarrow> f' (fmap a f m) = f (fmap a f m)" for m using ok f unfolding fok_def by blast
  have "fown (a[i := b]) f' \<subseteq> insert b (fown a f)"
    using set_update_subset_insert [of a i b] by (auto simp: fown_def m split: if_splits)
  moreover have "fbyte (a[i := b]) f' j = fbyte a f j" if "j < MAXFILE * BSIZE" for j
    using fbyte_same [OF that, of "a[i := b]" f' a f] m z b(3) fm by auto
  moreover have "fmap (a[i := b]) f' j = fmap a f j" if "fmap a f j \<noteq> 0" for j using z that by (auto simp: m)
  ultimately show ?thesis using s f by (auto simp: fstep_def)
qed

lemma fstep_entry:
  assumes ok: "fok a f D" and f: "\<forall>x \<in> D. f' x = f x" and x: "x = a ! NDIRECT" "x \<noteq> 0" "length (f x) = BSIZE"
    and j: "j < NINDIRECT" "fmap a f (NDIRECT + j) = 0" and b: "b \<notin> D" "b \<noteq> 0" "b < 2 ^ 32" "f' b = replicate BSIZE 0"
  defines "f'' \<equiv> f'(x := putn 4 (4 * j) b (f x))"
  shows "fstep a f D a f'' b" "fmap a f'' (NDIRECT + j) = b"
proof -
  have ok': "fok a f' D" and e: "fmap a f' m = fmap a f m" for m using fok_cong [OF ok f subset_refl] by blast+
  have xD: "x \<in> D" using fok_ind [OF ok] x by simp
  then have fx: "f' x = f x" using f by blast
  have s: "fok a f'' (insert b D)" and m: "fmap a f'' m = (if m = NDIRECT + j then b else fmap a f m)" for m
    using fok_entry [OF ok' x(1,2) _ j(1) _ b(1-3)] x(3) j(2) unfolding f''_def fx e by blast+
  then show "fmap a f'' (NDIRECT + j) = b" by simp
  have nx: "m < MAXFILE \<Longrightarrow> fmap a f m \<noteq> 0 \<Longrightarrow> fmap a f m \<noteq> x \<and> f' (fmap a f m) = f (fmap a f m)" for m
    using ok f x unfolding fok_def by metis
  have bx: "b \<noteq> x" using xD b(1) by auto
  have "fown a f'' \<subseteq> insert b (fown a f)" by (auto simp: fown_def m)
  moreover have "x \<in> fown a f" using x ok by (auto simp: fown_def fok_def)
  moreover have "fbyte a f'' i = fbyte a f i" if "i < MAXFILE * BSIZE" for i
    by (rule fbyte_same [OF that]) (use m nx bx j(2) b(4) in \<open>auto simp: f''_def\<close>)
  moreover have "fmap a f'' i = fmap a f i" if "fmap a f i \<noteq> 0" for i using j(2) that by (auto simp: m)
  ultimately show "fstep a f D a f'' b" using s f unfolding fstep_def by (auto simp: f''_def)
qed

subsection \<open>Files in a state\<close>

definition inode_blocks :: "'a fsst_scheme \<Rightarrow> nat set" where
  "inode_blocks s = (\<lambda>i. IBLOCK i (sb s)) ` {..<sb_ninodes (sb s)}"

definition fs_ok :: "'a fsst_scheme \<Rightarrow> bool" where
  "fs_ok s \<longleftrightarrow> map_ok s \<and> (\<forall>n \<in> inode_blocks s. loggable s n \<and> \<not> free_block s n \<and> n \<notin> bitmap_blocks s)"

definition data_blocks :: "'a fsst_scheme \<Rightarrow> nat set" where
  "data_blocks s = {b. 0 < b \<and> b < sb_size (sb s) \<and> \<not> free_block s b \<and> loggable s b \<and> b \<notin> bitmap_blocks s \<and> b \<notin> inode_blocks s}"

definition baddr :: "'a fsst_scheme \<Rightarrow> nat \<Rightarrow> nat \<Rightarrow> nat" where
  "baddr s ip = fmap (i_addrs (ino s ip)) (blk s)"

definition fcont :: "'a fsst_scheme \<Rightarrow> nat \<Rightarrow> nat \<Rightarrow> uchar" where
  "fcont s ip = fbyte (i_addrs (ino s ip)) (blk s)"

definition owned :: "'a fsst_scheme \<Rightarrow> nat \<Rightarrow> nat set" where
  "owned s ip = fown (i_addrs (ino s ip)) (blk s)"

definition file_ok :: "'a fsst_scheme \<Rightarrow> nat \<Rightarrow> bool" where
  "file_ok s ip \<longleftrightarrow> fok (i_addrs (ino s ip)) (blk s) (data_blocks s) \<and> ip < length (itable s) \<and> i_dev (ino s ip) = ROOTDEV \<and> i_inum (ino s ip) < sb_ninodes (sb s)"

definition nfree :: "'a fsst_scheme \<Rightarrow> nat" where
  "nfree s = card {b. free_block s b}"

text \<open>
  The states an operation on file \<open>ip\<close> may lead to: its blocks stay where they are and blocks that belong to other files are
  untouched (\<open>touches\<close>); if it only adds blocks to it, the file also reads the same (\<open>ext\<close>).
\<close>

definition touches :: "nat \<Rightarrow> nat \<Rightarrow> 'a fsst_scheme \<Rightarrow> 'a fsst_scheme \<Rightarrow> bool" where
  "touches p ip s t \<longleftrightarrow> fframe p s t \<and> length (itable t) = length (itable s) \<and> (\<forall>j. j \<noteq> ip \<longrightarrow> ino t j = ino s j) \<and>
     (\<exists>a. ino t ip = (ino s ip)\<lparr>i_addrs := a\<rparr>) \<and> fs_ok t \<and> file_ok t ip \<and>
     (\<forall>m < MAXFILE. baddr s ip m \<noteq> 0 \<longrightarrow> baddr t ip m = baddr s ip m) \<and>
     (\<forall>b \<in> data_blocks s - owned s ip. b \<in> data_blocks t - owned t ip \<and> blk t b = blk s b) \<and> (\<forall>n \<in> inode_blocks s. blk t n = blk s n)"

definition ext :: "nat \<Rightarrow> nat \<Rightarrow> 'a fsst_scheme \<Rightarrow> 'a fsst_scheme \<Rightarrow> bool" where
  "ext p ip s t \<longleftrightarrow> touches p ip s t \<and> (\<forall>i < MAXFILE * BSIZE. fcont t ip i = fcont s ip i)"

lemma touches_refl: "fs_ok s \<Longrightarrow> file_ok s ip \<Longrightarrow> touches p ip s s"
  by (auto simp: touches_def intro: exI [of _ "i_addrs (ino s ip)"])

lemma ext_refl: "fs_ok s \<Longrightarrow> file_ok s ip \<Longrightarrow> ext p ip s s"
  by (simp add: ext_def touches_refl)

lemma touches_sb:
  assumes "touches p ip s t"
  shows "sb t = sb s" "bitmap_blocks t = bitmap_blocks s" "inode_blocks t = inode_blocks s"
proof -
  show "sb t = sb s" using assms by (intro fframe_fields(1) [of p]) (simp add: touches_def)
  then show "bitmap_blocks t = bitmap_blocks s" "inode_blocks t = inode_blocks s" by (simp_all add: bitmap_blocks_def inode_blocks_def)
qed

lemma touches_trans: "touches p ip s t \<Longrightarrow> touches p ip t u \<Longrightarrow> touches p ip s u"
  using touches_sb(3) [of p ip s t] fframe_trans [of p s t u] unfolding touches_def by auto

lemma touches_fields: "touches p ip s t \<Longrightarrow> fs_ok t" "touches p ip s t \<Longrightarrow> file_ok t ip" "touches p ip s t \<Longrightarrow> fframe p s t"
  "touches p ip s t \<Longrightarrow> i_size (ino t ip) = i_size (ino s ip)" "touches p ip s t \<Longrightarrow> i_inum (ino t ip) = i_inum (ino s ip)"
  by (auto simp: touches_def)

lemma ext_touches: "ext p ip s t \<Longrightarrow> touches p ip s t"
  by (simp add: ext_def)

lemmas ext_sb = touches_sb [OF ext_touches] and ext_fields = touches_fields [OF ext_touches]

lemma ext_trans: "ext p ip s t \<Longrightarrow> ext p ip t u \<Longrightarrow> ext p ip s u"
  by (auto simp: ext_def intro: touches_trans)

lemma finite_free: "finite {b. free_block s b}"
  by (rule finite_subset [of _ "{..<sb_size (sb s)}"]) (auto simp: free_block_def)

lemma free_block_same: "\<forall>n \<in> bitmap_blocks s. blk t n = blk s n \<Longrightarrow> sb t = sb s \<Longrightarrow> free_block t = free_block s"
  by (auto simp: free_block_def bitmap_blocks_def fun_eq_iff)

text \<open>Allocating block \<open>b\<close> and then changing blocks of data.\<close>

lemma alloc_data:
  assumes "fs_ok s" "sb t = sb s" "loggable t = loggable s" "\<And>n. length (blk s n) = BSIZE" "free_block s b" "blk t = (alloc_blk b s)(x := d)" "x \<in> insert b (data_blocks s)"
  shows "data_blocks t = insert b (data_blocks s)" "fs_ok t" "nfree s = Suc (nfree t)" "b \<notin> data_blocks s" "b \<noteq> 0" "b < 2 ^ 31"
    "\<forall>y \<in> data_blocks s. alloc_blk b s y = blk s y" "alloc_blk b s b = replicate BSIZE 0" "\<forall>n \<in> inode_blocks s. blk t n = blk s n"
    "bitmap_blocks t = bitmap_blocks s" "inode_blocks t = inode_blocks s"
proof -
  have m: "map_ok s" using assms(1) by (simp add: fs_ok_def)
  have b: "loggable s b" "0 < b" "b < sb_size (sb s)" using m assms(5) by (auto simp: map_ok_def free_block_def)
  have bm: "b \<notin> bitmap_blocks s" "b \<notin> inode_blocks s" using assms(1,5) by (auto simp: fs_ok_def map_ok_def)
  have xm: "x \<notin> bitmap_blocks s" "x \<notin> inode_blocks s" using assms(7) bm by (auto simp: data_blocks_def)
  have Bb: "BBLOCK b (sb s) \<in> bitmap_blocks s" using b(3) by (simp add: bitmap_blocks_def)
  have f: "free_block t c \<longleftrightarrow> free_block s c \<and> c \<noteq> b" for c
  proof -
    have "free_block t c \<longleftrightarrow> (if c = b then bit_set (b mod BPB) (blk s (BBLOCK b (sb s))) = bit_clear (b mod BPB) (blk s (BBLOCK b (sb s))) else free_block s c)"
      by (rule bitmap_change [OF m assms(2,4) b(3)]) (use assms(6) bm xm in \<open>auto simp: alloc_blk_def\<close>)
    moreover have "bit_set (b mod BPB) (blk s (BBLOCK b (sb s))) \<noteq> bit_clear (b mod BPB) (blk s (BBLOCK b (sb s)))"
      using bit_set_clear [OF assms(4) [of "BBLOCK b (sb s)"], of "b mod BPB" "b mod BPB"] by auto
    ultimately show ?thesis by auto
  qed
  show s: "bitmap_blocks t = bitmap_blocks s" "inode_blocks t = inode_blocks s" using assms(2) by (simp_all add: bitmap_blocks_def inode_blocks_def)
  show "data_blocks t = insert b (data_blocks s)" using b bm assms(2,3) by (auto simp: data_blocks_def f s)
  show "fs_ok t" using assms(1,3) by (auto simp: fs_ok_def map_ok_def f s)
  have "{c. free_block s c} = insert b {c. free_block t c}" using f assms(5) by auto
  then show "nfree s = Suc (nfree t)" using finite_free [of t] f by (simp add: nfree_def)
  show "b \<notin> data_blocks s" "b \<noteq> 0" "b < 2 ^ 31" using assms(5) b by (auto simp: data_blocks_def loggable_def)
  show "\<forall>y \<in> data_blocks s. alloc_blk b s y = blk s y" "alloc_blk b s b = replicate BSIZE 0"
    using Bb assms(5) by (auto simp: alloc_blk_def data_blocks_def)
  show "\<forall>n \<in> inode_blocks s. blk t n = blk s n" using Bb bm xm assms(1,6) by (auto simp: alloc_blk_def fs_ok_def)
qed


text \<open>
  One new block for a file, as a change of the addresses in the table or of the indirect block.
\<close>

lemma ext_alloc:
  assumes s: "fs_ok s" "file_ok s ip" and b: "free_block s b" and l: "\<And>n. length (blk s n) = BSIZE" and fr: "fframe p s t" "length (itable t) = length (itable s)"
    and o: "\<forall>j. j \<noteq> ip \<longrightarrow> ino t j = ino s j" "ino t ip = (ino s ip)\<lparr>i_addrs := a\<rparr>"
    and t: "blk t = (alloc_blk b s)(x := d)" "x \<in> insert b (data_blocks s)" and st: "fstep (i_addrs (ino s ip)) (blk s) (data_blocks s) a (blk t) b"
  shows "ext p ip s t" "nfree s = Suc (nfree t)"
proof -
  note e = alloc_data [OF s(1) fframe_fields(1,2) [OF fr(1)] l b t]
  then show "nfree s = Suc (nfree t)" by blast
  have "b \<notin> fown (i_addrs (ino s ip)) (blk s)" using fok_own s(2) e(4) by (auto simp: file_ok_def)
  then show "ext p ip s t"
    using s fr o st e fframe_fields(1) [OF fr(1)] unfolding ext_def touches_def file_ok_def baddr_def fcont_def owned_def fstep_def by auto
qed

lemma bmap_slot_spec:
  assumes f: "fsx p K (Suc k) s {}" and s: "fs_ok s" "file_ok s ip" and K: "bitmap_blocks s \<subseteq> K" and i: "i \<le> NDIRECT" and n: "i_addrs (ino s ip) ! i = 0 \<Longrightarrow> 0 < nfree s"
  obtains b t where "bmap_slot ip i s = Inr (b, t)" "b \<noteq> 0" "b = i_addrs (ino t ip) ! i" "fsx p (insert b K) k t {}" "ext p ip s t" "nfree s \<le> Suc (nfree t)"
proof (cases "i_addrs (ino s ip) ! i = 0")
  case True
  have l: "\<And>n. length (blk s n) = BSIZE" by (rule bt.size [OF fsx_tx [OF f]])
  have "\<exists>b. free_block s b" using n [OF True] by (auto simp: nfree_def card_gt_0_iff)
  then obtain b t where t: "balloc ROOTDEV s = Inr (b, t)" "free_block s b" "blk t = alloc_blk b s" "fsx p (insert b K) k t {}" "lframe p s t"
    by (rule balloc_spec [OF f, rotated 3]) (use K s(1) in \<open>auto simp: fs_ok_def\<close>)
  let ?a = "(i_addrs (ino s ip))[i := b]" and ?t = "upd_ino ip (\<lambda>q. q\<lparr>i_addrs := (i_addrs q)[i := b]\<rparr>) t"
  have c: "file_ok s ip" "ip < length (itable t)" "i_dev (ino s ip) = ROOTDEV" "length (i_addrs (ino s ip)) = NDIRECT + 1" "ino t = ino s"
    using s(2) lframe_fs(2,7) [OF t(5)] by (auto simp: file_ok_def fok_def)
  have e: "blk ?t = (alloc_blk b s)(b := replicate BSIZE 0)" by (simp add: t(3) alloc_blk_def)
  have fr: "fframe p s ?t" by (rule fframe_trans [OF fframe_lframe [OF t(5)]]) simp
  note d = alloc_data [OF s(1) fframe_fields(1,2) [OF fr] l t(2) e insertI1]
  have st: "fstep (i_addrs (ino s ip)) (blk s) (data_blocks s) ?a (blk ?t) b"
    by (rule fstep_slot) (use s(2) i True d in \<open>simp_all add: file_ok_def t(3)\<close>)
  have it: "length (itable ?t) = length (itable s)" "\<forall>j. j \<noteq> ip \<longrightarrow> ino ?t j = ino s j" "ino ?t ip = (ino s ip)\<lparr>i_addrs := ?a\<rparr>"
    using c lframe_fs(2) [OF t(5)] by (simp_all add: ino_upd_ino)
  note x = ext_alloc [OF s t(2) l fr it e insertI1 st]
  show thesis
    by (rule that [of b ?t]) (use True t x d(5) c i in \<open>simp_all add: bmap_slot_def ino_upd_ino\<close>)
next
  case False
  then show thesis
    using that [of "i_addrs (ino s ip) ! i" s] fsx_insert [OF f] ext_refl [OF s] by (simp add: bmap_slot_def)
qed


lemma bmap_entry_spec:
  assumes f: "fsx p K (Suc k) s {}" and s: "fs_ok s" "file_ok s ip" and K: "bitmap_blocks s \<subseteq> K" "x \<in> K" and j: "j < NINDIRECT"
    and x: "x = i_addrs (ino s ip) ! NDIRECT" "x \<noteq> 0" and n: "baddr s ip (NDIRECT + j) = 0 \<Longrightarrow> 0 < nfree s"
  obtains b t where "bmap_entry ip j x s = Inr (b, t)" "b \<noteq> 0" "b = baddr t ip (NDIRECT + j)" "fsx p (insert b K) k t {}" "ext p ip s t" "nfree s \<le> Suc (nfree t)"
proof -
  have l: "\<And>n. length (blk s n) = BSIZE" by (rule bt.size [OF fsx_tx [OF f]])
  have ok: "fok (i_addrs (ino s ip)) (blk s) (data_blocks s)" and dev: "i_dev (ino s ip) = ROOTDEV" using s(2) by (auto simp: file_ok_def)
  have xD: "x \<in> data_blocks s" using fok_ind [OF ok] x by simp
  then have x31: "loggable s x" "x < 2 ^ 31" "\<not> free_block s x" by (auto simp: data_blocks_def loggable_def)
  obtain c t where t: "bread ROOTDEV x s = Inr (c, t)" "fsx p K (Suc k) t (insert x {})" "holds p t c x" "b_data (bf t c) = blk s x"
    "blk t = blk s" "set (logged t) = set (logged s)" "lframe p s t" "\<forall>c m. holds p s c m \<longrightarrow> holds p t c m" "x \<in> set (logged t) \<or> blk t x = disk_block (platter t) x"
    by (rule fs_read [OF f _ x31(2) K(2)]) simp
  note te = lframe_fs(1,7) [OF t(7)] lframe_fields(7) [OF t(7)]
  have fb: "free_block t = free_block s" "bitmap_blocks t = bitmap_blocks s" "map_ok t = map_ok s" using free_block_cong [OF t(5) te(1)] map_ok_cong [OF t(5) te(1,3)] by auto
  have bs: "baddr s ip (NDIRECT + j) = getn 4 (4 * j) (blk s x)" using x by (simp add: baddr_def fmap_def)
  show thesis
  proof (cases "baddr s ip (NDIRECT + j) = 0")
    case False
    obtain u where u: "brelse c t = Inr u" "fsx p K (Suc k) u (insert x {} - {x})" "blk u = blk t" "set (logged u) = set (logged t)" "lframe p t u"
      by (rule fs_release [OF t(2,3,9)])
    have e: "ino u = ino s" "sb u = sb s" "loggable u = loggable s" "itable u = itable s"
      using lframe_fs(1,2,7) [OF u(5)] lframe_fs(2) [OF t(7)] lframe_fields(7) [OF u(5)] te by simp_all
    let ?b = "baddr s ip (NDIRECT + j)"
    have fu: "free_block u = free_block s" "bitmap_blocks u = bitmap_blocks s" "map_ok u = map_ok s" using free_block_cong [of u s] map_ok_cong [of u s] u(3) t(5) e by auto
    have "ext p ip s u"
      using fframe_lframe [OF lframe_trans [OF t(7) u(5)]] s t(5) u(3) e fu
      by (auto simp: ext_def touches_def fs_ok_def file_ok_def baddr_def fcont_def owned_def data_blocks_def inode_blocks_def intro: exI [of _ "i_addrs (ino s ip)"])
    then show thesis
      using that [of ?b u] False t(1,4) u(1,2,3) fsx_insert [of p K k u "{}" ?b] bs dev e t(5) fu by (simp add: bmap_entry_def te baddr_def nfree_def)
  next
    case True
    have "\<exists>b. free_block t b" using n [OF True] by (auto simp: nfree_def card_gt_0_iff fb)
    then obtain b u where u: "balloc ROOTDEV t = Inr (b, u)" "free_block t b" "blk u = alloc_blk b t" "fsx p (insert b K) k u {x}" "lframe p t u"
      "\<forall>c m. holds p t c m \<longrightarrow> holds p u c m"
      by (rule balloc_spec [OF t(2), rotated 3]) (use K s(1) x31(3) xD in \<open>auto simp: fs_ok_def fb data_blocks_def\<close>)
    have ub: "blk u = alloc_blk b s" using u(3) t(5) te(1) by (simp add: alloc_blk_def)
    have hu: "holds p u c x" using u(6) t(3) by blast
    let ?d = "putn 4 (4 * j) b (blk s x)"
    have "length ?d = BSIZE" using l [of x] j by simp
    then obtain v where v: "log_write c (put_data c ?d u) = Inr v" "fsx p (insert b K) k v {x}" "blk v = (blk u)(x := ?d)" "set (logged v) = insert x (set (logged u))"
      "lframe p u v" "\<forall>c m. holds p u c m \<longrightarrow> holds p v c m"
      using fs_change [OF u(4) hu, of ?d] x31(1) lframe_fields(7) [OF u(5)] te(3) by metis
    have hv: "holds p v c x" "x \<in> set (logged v)" using v(4,6) hu by auto
    then obtain w where w: "brelse c v = Inr w" "fsx p (insert b K) k w ({x} - {x})" "blk w = blk v" "lframe p v w"
      using fs_release [OF v(2)] by metis
    note fr = lframe_trans [OF lframe_trans [OF lframe_trans [OF t(7) u(5)] v(5)] w(4)]
    have wb: "blk w = (alloc_blk b s)(x := ?d)" by (simp add: w(3) v(3) ub)
    have bfree: "free_block s b" using u(2) fb by simp
    note d = alloc_data [OF s(1) fframe_fields(1,2) [OF fframe_lframe [OF fr]] l bfree wb insertI2 [OF xD]]
    have ux: "b_data (bf u c) = blk s x" using bt.data [OF fsx_tx [OF u(4)] hu] ub d(7) xD by simp
    have b32: "b < 2 ^ 32" using d(6) by simp
    have j0: "fmap (i_addrs (ino s ip)) (blk s) (NDIRECT + j) = 0" using True by (simp add: baddr_def)
    note st = fstep_entry [OF ok d(7) x l j j0 d(4,5) b32 d(8)]
    have it: "length (itable w) = length (itable s)" "\<forall>j. j \<noteq> ip \<longrightarrow> ino w j = ino s j" "ino w ip = (ino s ip)\<lparr>i_addrs := i_addrs (ino s ip)\<rparr>"
      using lframe_fs [OF fr] by simp_all
    have y: "ext p ip s w" "nfree s = Suc (nfree w)"
      by (rule ext_alloc [OF s bfree l fframe_lframe [OF fr] it wb insertI2 [OF xD]]; use st(1) wb in simp)+
    have "b = baddr w ip (NDIRECT + j)" using st(2) lframe_fs(7) [OF fr] by (simp add: baddr_def wb)
    then show thesis
      using that [of b w] t(1,4) u(1) v(1) w(1,2) y d(5) ux True bs dev lframe_fs(7) [OF u(5)] te by (simp add: bmap_entry_def)
  qed
qed

text \<open>
  \<open>bmap\<close> returns the block of the file, which has one afterwards.
\<close>

lemma bmap_spec:
  assumes f: "fsx p K (Suc (Suc k)) s {}" and s: "fs_ok s" "file_ok s ip" and K: "bitmap_blocks s \<subseteq> K" and bn: "bn < MAXFILE" and n: "baddr s ip bn = 0 \<Longrightarrow> 2 \<le> nfree s"
  obtains b t K' where "bmap ip bn s = Inr (b, t)" "b \<noteq> 0" "b = baddr t ip bn" "fsx p K' k t {}" "K \<subseteq> K'" "b \<in> K'" "ext p ip s t" "nfree s \<le> nfree t + 2"
proof (cases "bn < NDIRECT")
  case True
  obtain b t where "bmap_slot ip bn s = Inr (b, t)" "b \<noteq> 0" "b = i_addrs (ino t ip) ! bn" "fsx p (insert b K) (Suc k) t {}" "ext p ip s t" "nfree s \<le> Suc (nfree t)"
    by (rule bmap_slot_spec [OF f s K, of bn]) (use True n in \<open>auto simp: baddr_def fmap_def\<close>)
  then show thesis using True by (intro that [of b t "insert b K"]) (auto simp: bmap_def baddr_def fmap_def intro: fsx_mono)
next
  case False
  then have bj: "bn = NDIRECT + (bn - NDIRECT)" "bn - NDIRECT < NINDIRECT" using bn by auto
  obtain x t where t: "bmap_slot ip NDIRECT s = Inr (x, t)" "x \<noteq> 0" "x = i_addrs (ino t ip) ! NDIRECT" "fsx p (insert x K) (Suc k) t {}" "ext p ip s t" "nfree s \<le> Suc (nfree t)"
    by (rule bmap_slot_spec [OF f s K, of NDIRECT]) (use False n in \<open>auto simp: baddr_def fmap_def\<close>)
  have "0 < nfree t" if "baddr t ip bn = 0"
    using that t(5,6) n bn unfolding ext_def touches_def by fastforce
  then obtain b u where u: "bmap_entry ip (bn - NDIRECT) x t = Inr (b, u)" "b \<noteq> 0" "b = baddr u ip (NDIRECT + (bn - NDIRECT))" "fsx p (insert b (insert x K)) k u {}" "ext p ip t u" "nfree t \<le> Suc (nfree u)"
    using bmap_entry_spec [OF t(4) ext_fields(1,2) [OF t(5)] _ insertI1 bj(2) t(3,2)] K ext_sb(2) [OF t(5)] bj(1) by (metis subset_insertI2)
  show thesis
    by (rule that [of b u "insert b (insert x K)"])
      (use False bj t u ext_trans [OF t(5) u(5)] in \<open>auto simp: bmap_def simp del: NDIRECT_def NINDIRECT_def\<close>)
qed


subsection \<open>Writing\<close>

lemma fok_write:
  assumes ok: "fok a f D" and b: "b = fmap a f bn" "b \<noteq> 0" "bn < MAXFILE"
  shows "fmap a (f(b := d)) m = fmap a f m" "fok a (f(b := d)) D" "fown a (f(b := d)) = fown a f"
    "i < MAXFILE * BSIZE \<Longrightarrow> fbyte a (f(b := d)) i = (if i div BSIZE = bn then d ! (i mod BSIZE) else fbyte a f i)"
proof -
  have "a ! NDIRECT \<noteq> b" using ok b unfolding fok_def by metis
  then have e: "fmap a (f(b := d)) m = fmap a f m" for m by (intro fmap_cong) simp
  then show "fmap a (f(b := d)) m = fmap a f m" .
  show "fok a (f(b := d)) D" using ok unfolding fok_def e .
  show "fown a (f(b := d)) = fown a f" by (simp add: fown_def e)
  assume "i < MAXFILE * BSIZE"
  then have i: "i div BSIZE < MAXFILE" by (simp add: less_mult_imp_div_less)
  have "fmap a f (i div BSIZE) = b \<longleftrightarrow> i div BSIZE = bn" using ok b i unfolding fok_def by metis
  then show "fbyte a (f(b := d)) i = (if i div BSIZE = bn then d ! (i mod BSIZE) else fbyte a f i)"
    using b(1,2) unfolding fbyte_def e by (auto simp del: BSIZE_def)
qed

lemma touches_write:
  assumes s: "fs_ok s" "file_ok s ip" and b: "b = baddr s ip bn" "b \<noteq> 0" "bn < MAXFILE" and t: "blk t = (blk s)(b := d)" "lframe p s t"
  shows "touches p ip s t" "nfree t = nfree s" "baddr t ip = baddr s ip"
    "i < MAXFILE * BSIZE \<Longrightarrow> fcont t ip i = (if i div BSIZE = bn then d ! (i mod BSIZE) else fcont s ip i)"
proof -
  note e = lframe_fs(1,2,7) [OF t(2)] lframe_fields(7) [OF t(2)]
  have ok: "fok (i_addrs (ino s ip)) (blk s) (data_blocks s)" using s(2) by (simp add: file_ok_def)
  have b': "b = fmap (i_addrs (ino s ip)) (blk s) bn" using b(1) by (simp add: baddr_def)
  note w = fok_write [OF ok b' b(2,3), where d = d]
  have bo: "b \<in> owned s ip" unfolding owned_def fown_def using b(2,3) b' by blast
  then have bD: "b \<in> data_blocks s" using fok_own [OF ok] by (auto simp: owned_def)
  then have bi: "b \<notin> inode_blocks s" by (simp add: data_blocks_def)
  have f: "free_block t = free_block s" using bD by (intro free_block_same) (auto simp: t(1) e data_blocks_def)
  have m: "bitmap_blocks t = bitmap_blocks s" "inode_blocks t = inode_blocks s" by (simp_all add: bitmap_blocks_def inode_blocks_def e)
  have D: "data_blocks t = data_blocks s" by (simp add: data_blocks_def f m e)
  have k: "fs_ok t" using s(1) by (simp add: fs_ok_def map_ok_def f m e)
  have "file_ok t ip" using s(2) w(2) by (simp add: file_ok_def D t(1) e)
  then show "touches p ip s t"
    unfolding touches_def using k bo bi fframe_lframe [OF t(2)] w(1,3)
    by (auto simp: e D baddr_def owned_def t(1) intro: exI [of _ "i_addrs (ino s ip)"])
  show "nfree t = nfree s" "baddr t ip = baddr s ip" by (simp_all add: nfree_def f baddr_def fun_eq_iff e t(1) w(1))
  show "i < MAXFILE * BSIZE \<Longrightarrow> fcont t ip i = (if i div BSIZE = bn then d ! (i mod BSIZE) else fcont s ip i)"
    using w(4) [of i] by (simp add: fcont_def e t(1) del: BSIZE_def MAXFILE_def)
qed


text \<open>Bytes to copy from: in the kernel, or mapped for the current process.\<close>

definition src_bytes :: "nat \<Rightarrow> source \<Rightarrow> uchar list \<Rightarrow> 'a procs_scheme \<Rightarrow> bool" where
  "src_bytes p src bs s = (case src of
       KernelSrc xs \<Rightarrow> take (length bs) xs = bs
     | UserSrc va \<Rightarrow> pt_good (mem s) (p_pagetable (pr s p)) \<and> (\<forall>i < length bs. umem (mem s) (p_pagetable (pr s p)) (va + of_nat i) = Some (bs ! i)))"

lemma src_bytes_copyin:
  assumes "src_bytes p src bs s" "curproc s = Some p" "held s = []" "m \<le> length bs"
  shows "either_copyin src m s = Inr (0, take m bs, s)" "src_bytes p (source_add src m) (drop m bs) s"
proof -
  show "either_copyin src m s = Inr (0, take m bs, s)"
  proof (cases src)
    case (UserSrc va)
    have u: "pt_good (mem s) (p_pagetable (pr s p))" "ubytes (mem s) (p_pagetable (pr s p)) va m = map Some (take m bs)"
      using assms UserSrc by (auto simp: src_bytes_def ubytes_def intro!: nth_equalityI)
    then show ?thesis using copyin_spec [OF u(1), of va m] UserSrc assms by (simp add: either_copyin_def myproc_def mapped_prefix_def takeWhile_eq_all_conv [THEN iffD2])
  next
    case (KernelSrc xs)
    then show ?thesis using assms by (simp add: either_copyin_def src_bytes_def) (metis min.absorb1 take_take)
  qed
  show "src_bytes p (source_add src m) (drop m bs) s"
  proof (cases src)
    case (UserSrc va)
    then show ?thesis using assms by (auto simp: src_bytes_def add.assoc simp flip: of_nat_add)
  next
    case (KernelSrc xs)
    then show ?thesis using assms by (auto simp: src_bytes_def take_drop)
  qed
qed

lemma src_bytes_fframe: "fframe p s t \<Longrightarrow> src_bytes p src bs t = src_bytes p src bs s"
  using fframe_fields(5,10) [of p s t] by (simp add: src_bytes_def split: source.split)

lemma fsx_proc: "fsx p K k s H \<Longrightarrow> curproc s = Some p \<and> held s = []"
  by (drule fsx_in_proc) (simp add: in_proc_def)

text \<open>The number of blocks a range of a file is in, and the part in its first block.\<close>

definition nblk :: "nat \<Rightarrow> nat \<Rightarrow> nat" where
  "nblk off n = (if n = 0 then 0 else (off + n + (BSIZE - 1)) div BSIZE - off div BSIZE)"

lemma nblk_step:
  assumes "0 < n"
  shows "nblk off n > 0" "nblk (off + seg n off) (n - seg n off) \<le> nblk off n - 1"
    "off mod BSIZE + seg n off \<le> BSIZE" "seg n off \<le> n"
    "off \<le> i \<and> i < off + seg n off \<longleftrightarrow> i div BSIZE = off div BSIZE \<and> off mod BSIZE \<le> i mod BSIZE \<and> i mod BSIZE < off mod BSIZE + seg n off"
proof -
  define q r m where "q = off div BSIZE" and "r = off mod BSIZE" and "m = seg n off"
  have o: "off = BSIZE * q + r" "r < BSIZE" by (simp_all add: q_def r_def)
  have m: "m = min n (BSIZE - r)" by (simp add: m_def seg_def r_def)
  have "BSIZE * Suc q \<le> off + n + (BSIZE - 1)" using o assms by simp
  then have q: "q < (off + n + (BSIZE - 1)) div BSIZE" using less_eq_div_iff_mult_less_eq [of BSIZE "Suc q" "off + n + (BSIZE - 1)"] by (simp add: mult.commute)
  then show "nblk off n > 0" by (simp add: nblk_def q_def assms del: BSIZE_def)
  show "nblk (off + seg n off) (n - seg n off) \<le> nblk off n - 1"
  proof (cases "n - m = 0")
    case False
    then have "m = BSIZE - r" "m < n" using m by (auto simp: min_def split: if_splits)
    then have "off + m = BSIZE * Suc q" "off + m + (n - m) = off + n" using o by simp_all
    then have "(off + m) div BSIZE = Suc q" "off + m + (n - m) = off + n" by simp_all
    then show ?thesis using q False by (simp add: nblk_def m_def [symmetric] q_def [symmetric] del: BSIZE_def)
  qed (simp add: nblk_def m_def)
  show "off mod BSIZE + seg n off \<le> BSIZE" "seg n off \<le> n" using o(2) m unfolding m_def [symmetric] r_def [symmetric] by simp_all
  define q' r' where "q' = i div BSIZE" and "r' = i mod BSIZE"
  have i: "i = BSIZE * q' + r'" "r' < BSIZE" by (simp_all add: q'_def r'_def)
  have "off \<le> i \<and> i < off + m \<longleftrightarrow> q' = q \<and> r \<le> r' \<and> r' < r + m"
  proof
    assume a: "off \<le> i \<and> i < off + m"
    then have "BSIZE * q \<le> i" "i < BSIZE * Suc q" using o m by auto
    then have "q' = q" unfolding q'_def by (intro div_nat_eqI) (simp_all add: mult.commute)
    then show "q' = q \<and> r \<le> r' \<and> r' < r + m" using a o i by auto
  qed (use o i in auto)
  then show "off \<le> i \<and> i < off + seg n off \<longleftrightarrow> i div BSIZE = off div BSIZE \<and> off mod BSIZE \<le> i mod BSIZE \<and> i mod BSIZE < off mod BSIZE + seg n off"
    unfolding m_def q_def r_def q'_def r'_def .
qed


text \<open>One block of a write.\<close>

lemma write_seg:
  assumes f: "fsx p K k s {}" and s: "fs_ok s" "file_ok s ip" and b: "b = baddr s ip (off div BSIZE)" "b \<noteq> 0" "b \<in> K"
    and n: "0 < n" "off + n \<le> MAXFILE * BSIZE" "length xs = seg n off"
  obtains c t u v where "bread ROOTDEV b s = Inr (c, t)" "lframe p s t" "fsx p K k t {b}"
    "log_write c (put_data c (put_at (off mod BSIZE) xs (b_data (bf t c))) t) = Inr u"
    "brelse c u = Inr v" "fsx p K k v {}" "touches p ip s v" "nfree v = nfree s"
    "\<forall>i < MAXFILE * BSIZE. fcont v ip i = (if off \<le> i \<and> i < off + seg n off then xs ! (i - off) else fcont s ip i)"
proof -
  have l: "length (blk s m) = BSIZE" for m by (rule bt.size [OF fsx_tx [OF f]])
  have bn: "off div BSIZE < MAXFILE" using n by (intro less_mult_imp_div_less) simp
  let ?d = "put_at (off mod BSIZE) xs (blk s b)"
  note sg = nblk_step [OF n(1), of off]
  have ol: "off mod BSIZE + length xs \<le> length (blk s b)" using sg(3) n(3) l by simp
  have bo: "b \<in> fown (i_addrs (ino s ip)) (blk s)" unfolding fown_def using b(1,2) bn by (auto simp: baddr_def)
  then have bD: "b \<in> data_blocks s" using fok_own s(2) by (auto simp: file_ok_def)
  obtain c t where t: "bread ROOTDEV b s = Inr (c, t)" "fsx p K k t (insert b {})" "holds p t c b" "b_data (bf t c) = blk s b" "blk t = blk s" "set (logged t) = set (logged s)" "lframe p s t"
    by (rule fs_read [OF f _ _ b(3)]) (use bD in \<open>auto simp: data_blocks_def loggable_def\<close>)
  have "loggable t b" using bD lframe_fields(7) [OF t(7)] by (simp add: data_blocks_def)
  moreover have "length ?d = BSIZE" using ol l by simp
  ultimately obtain u where u: "log_write c (put_data c ?d t) = Inr u" "fsx p K k u (insert b {})" "blk u = (blk t)(b := ?d)" "set (logged u) = insert b (set (logged t))"
    "lframe p t u" "\<forall>c m. holds p t c m \<longrightarrow> holds p u c m"
    by (rule fs_change [OF t(2,3)])
  have "holds p u c b" "b \<in> set (logged u) \<or> blk u b = disk_block (platter u) b" using u(4,6) t(3) by auto
  then obtain v where v: "brelse c u = Inr v" "fsx p K k v (insert b {} - {b})" "blk v = blk u" "set (logged v) = set (logged u)" "lframe p u v"
    by (rule fs_release [OF u(2)])
  have vb: "blk v = (blk s)(b := ?d)" by (simp add: v(3) u(3) t(5))
  note w = touches_write [OF s b(1,2) bn vb lframe_trans [OF lframe_trans [OF t(7) u(5)] v(5)]]
  have "fcont v ip i = (if off \<le> i \<and> i < off + seg n off then xs ! (i - off) else fcont s ip i)" if i: "i < MAXFILE * BSIZE" for i
  proof (cases "i div BSIZE = off div BSIZE")
    case True
    then have "fcont s ip i = blk s b ! (i mod BSIZE)" using b(1,2) by (simp add: fcont_def fbyte_def baddr_def del: BSIZE_def)
    moreover have "i - off = i mod BSIZE - off mod BSIZE" using True by (metis add_diff_cancel_left mult_div_mod_eq)
    moreover have "?d ! (i mod BSIZE) = (if off mod BSIZE \<le> i mod BSIZE \<and> i mod BSIZE < off mod BSIZE + length xs then xs ! (i mod BSIZE - off mod BSIZE) else blk s b ! (i mod BSIZE))"
      by (rule put_at_nth) (use ol l in simp_all)
    ultimately show ?thesis using w(4) [OF i] True sg(5) [of i] n(3) by (simp del: BSIZE_def MAXFILE_def)
  next
    case False
    then show ?thesis using w(4) [OF i] sg(5) [of i] by (auto simp del: BSIZE_def MAXFILE_def)
  qed
  then show thesis using that [OF t(1,7) _ _ v(1)] t(2,4) u(1) v(2) w(1,2) by auto
qed


text \<open>A write in two parts.\<close>

lemma splice:
  assumes "m \<le> length bs" "off \<le> i \<and> i < off + m \<longrightarrow> u = take m bs ! (i - off)" "\<not> (off \<le> i \<and> i < off + m) \<longrightarrow> u = s"
    "v = (if off + m \<le> i \<and> i < off + m + (length bs - m) then drop m bs ! (i - (off + m)) else u)"
  shows "v = (if off \<le> i \<and> i < off + length bs then bs ! (i - off) else s)"
  using assms by auto

definition present :: "'a fsst_scheme \<Rightarrow> nat \<Rightarrow> nat \<Rightarrow> nat \<Rightarrow> bool" where
  "present s ip off n \<longleftrightarrow> (\<forall>i. off \<le> i \<and> i < off + n \<longrightarrow> baddr s ip (i div BSIZE) \<noteq> 0)"

lemma present_touches:
  assumes "present s ip off n" "touches p ip s t" "off + n \<le> MAXFILE * BSIZE"
  shows "present t ip off n"
  unfolding present_def
proof (intro allI impI)
  fix i assume i: "off \<le> i \<and> i < off + n"
  then have "i div BSIZE < MAXFILE" using assms(3) by (intro less_mult_imp_div_less) simp
  then show "baddr t ip (i div BSIZE) \<noteq> 0" using assms(1,2) i unfolding present_def touches_def by fastforce
qed

lemma writei_loop_spec:
  assumes "fsx p K (2 * nblk off n + k) s {}" "fs_ok s" "file_ok s ip" "bitmap_blocks s \<subseteq> K" "off + n \<le> MAXFILE * BSIZE" "2 * nblk off n \<le> nfree s"
    "src_bytes p src bs s" "length bs = n"
  shows "returns (writei_loop ip src off n tot s) (\<lambda>(tot', off', t). tot' = tot + n \<and> off' = off + n \<and> (\<exists>K'. K \<subseteq> K' \<and> fsx p K' k t {}) \<and> touches p ip s t \<and>
     (\<forall>i < MAXFILE * BSIZE. fcont t ip i = (if off \<le> i \<and> i < off + n then bs ! (i - off) else fcont s ip i)) \<and>
     present t ip off n)"
  using assms
proof (induction n arbitrary: K off src bs tot s rule: less_induct)
  case (less n)
  show ?case
  proof (cases "n = 0")
    case True
    then show ?thesis using less.prems(1) fsx_mono [of p K "2 * nblk off n + k" s "{}" k] touches_refl [OF less.prems(2,3)]
      by (auto simp: writei_loop.simps [of ip src off 0] nblk_def present_def)
  next
    case False
    then have n: "0 < n" by simp
    note sg = nblk_step [OF n, of off]
    let ?m = "seg n off" and ?bn = "off div BSIZE"
    have bn: "?bn < MAXFILE" using less.prems(5) n by (intro less_mult_imp_div_less) simp
    define j where "j = 2 * (nblk off n - 1) + k"
    have j: "2 * nblk off n + k = Suc (Suc j)" using sg(1) by (simp add: j_def)
    obtain b t K' where t: "bmap ip ?bn s = Inr (b, t)" "b \<noteq> 0" "b = baddr t ip ?bn" "fsx p K' j t {}" "K \<subseteq> K'" "b \<in> K'" "ext p ip s t" "nfree s \<le> nfree t + 2"
      by (rule bmap_spec [OF less.prems(1) [unfolded j] less.prems(2-4) bn]) (use less.prems(6) sg(1) in auto)
    have xs: "length (take ?m bs) = ?m" using sg(4) less.prems(8) by simp
    obtain c u v w where u: "bread ROOTDEV b t = Inr (c, u)" "lframe p t u" "fsx p K' j u {b}"
      "log_write c (put_data c (put_at (off mod BSIZE) (take ?m bs) (b_data (bf u c))) u) = Inr v"
      "brelse c v = Inr w" "fsx p K' j w {}" "touches p ip t w" "nfree w = nfree t"
      "\<forall>i < MAXFILE * BSIZE. fcont w ip i = (if off \<le> i \<and> i < off + ?m then take ?m bs ! (i - off) else fcont t ip i)"
      by (rule write_seg [OF t(4) ext_fields(1,2) [OF t(7)] t(3,2,6) n less.prems(5) xs])
    have tw: "touches p ip s w" by (rule touches_trans [OF ext_touches [OF t(7)] u(7)])
    have fu: "fframe p s u" by (rule fframe_trans [OF ext_fields(3) [OF t(7)] fframe_lframe [OF u(2)]])
    have su: "src_bytes p src bs u" "src_bytes p src bs w" using less.prems(7) src_bytes_fframe [OF fu] src_bytes_fframe [OF touches_fields(3) [OF tw]] by simp_all
    note cp = src_bytes_copyin [OF su(1), of ?m] src_bytes_copyin [OF su(2), of ?m]
    have pr: "curproc u = Some p" "held u = []" "curproc w = Some p" "held w = []" using fsx_proc [OF u(3)] fsx_proc [OF u(6)] by simp_all
    have dev: "i_dev (ino t ip) = ROOTDEV" using ext_fields(2) [OF t(7)] by (simp add: file_ok_def)
    have eq: "writei_loop ip src off n tot s = writei_loop ip (source_add src ?m) (off + ?m) (n - ?m) (tot + ?m) w"
      using n t(1,2) u(1,4,5) dev cp(1) pr sg(4) less.prems(8) by (simp add: writei_loop.simps [of ip src off n] Let_def del: BSIZE_def)
    have fw: "fsx p K' (2 * nblk (off + ?m) (n - ?m) + k) w {}" "2 * nblk (off + ?m) (n - ?m) \<le> nfree w"
      using fsx_mono [OF u(6)] u(8) sg(2) less.prems(6) t(8) by (auto simp: j_def)
    have rest: "n - ?m < n" "off + ?m + (n - ?m) \<le> MAXFILE * BSIZE" "length (drop ?m bs) = n - ?m" "bitmap_blocks w \<subseteq> K'"
      using seg_pos [OF n] sg(4) less.prems(4,5,8) n t(5) touches_sb(2) [OF tw] by auto
    have "returns (writei_loop ip (source_add src ?m) (off + ?m) (n - ?m) (tot + ?m) w) (\<lambda>(tot', off', t). tot' = tot + ?m + (n - ?m) \<and> off' = off + ?m + (n - ?m) \<and>
      (\<exists>L. K' \<subseteq> L \<and> fsx p L k t {}) \<and> touches p ip w t \<and>
      (\<forall>i < MAXFILE * BSIZE. fcont t ip i = (if off + ?m \<le> i \<and> i < off + ?m + (n - ?m) then drop ?m bs ! (i - (off + ?m)) else fcont w ip i)) \<and>
      present t ip (off + ?m) (n - ?m))"
      using cp(4) pr(3,4) sg(4) less.prems(8)
      by (intro less.IH [OF rest(1) fw(1) touches_fields(1,2) [OF tw] rest(4,2) fw(2) _ rest(3)]) simp
    then obtain x L where x: "writei_loop ip src off n tot s = Inr (tot + n, off + n, x)" "K' \<subseteq> L" "fsx p L k x {}" "touches p ip w x"
      "\<forall>i < MAXFILE * BSIZE. fcont x ip i = (if off + ?m \<le> i \<and> i < off + ?m + (n - ?m) then drop ?m bs ! (i - (off + ?m)) else fcont w ip i)"
      "present x ip (off + ?m) (n - ?m)"
      unfolding returns_iff eq using sg(4) by auto
    have c: "\<forall>i < MAXFILE * BSIZE. fcont x ip i = (if off \<le> i \<and> i < off + n then bs ! (i - off) else fcont s ip i)"
    proof (intro allI impI)
      fix i assume i: "i < MAXFILE * BSIZE"
      have "fcont t ip i = fcont s ip i" using t(7) i by (simp add: ext_def)
      then show "fcont x ip i = (if off \<le> i \<and> i < off + n then bs ! (i - off) else fcont s ip i)"
        using splice [of ?m bs off i "fcont w ip i" "fcont s ip i" "fcont x ip i"] x(5) u(9) i sg(4) less.prems(8) by (simp del: MAXFILE_def BSIZE_def)
    qed
    have "present t ip off ?m" using t(2,3) sg(5) by (auto simp: present_def)
    then have "present x ip off ?m" using rest(2) by (intro present_touches [OF _ touches_trans [OF u(7) x(4)]]) auto
    then have "present x ip off n" using x(6) sg(4) by (auto simp: present_def) (metis not_le)
    then show ?thesis using x(1-3) c touches_trans [OF tw x(4)] t(5) by (auto simp del: MAXFILE_def BSIZE_def intro!: exI [of _ L])
  qed
qed


subsection \<open>The file invariant\<close>

text \<open>
  A file has distinct data blocks, at least one for each of its bytes, and its size is within the reach of its block map.
\<close>

definition file_inv :: "'a fsst_scheme \<Rightarrow> nat \<Rightarrow> bool" where
  "file_inv s ip \<longleftrightarrow> fs_ok s \<and> file_ok s ip \<and> present s ip 0 (i_size (ino s ip)) \<and> i_size (ino s ip) \<le> MAXFILE * BSIZE"

text \<open>Writing an inode to the disk does not affect the blocks of data.\<close>

lemma data_same:
  assumes s: "fs_ok s" "file_ok s ip" and n: "n \<in> inode_blocks s" and t: "blk t = (blk s)(n := d)" "sb t = sb s" "loggable t = loggable s" "ino t = ino s" "itable t = itable s"
  shows "fs_ok t" "file_ok t ip" "baddr t ip = baddr s ip" "i < MAXFILE * BSIZE \<Longrightarrow> fcont t ip i = fcont s ip i"
    "b \<in> data_blocks s \<Longrightarrow> blk t b = blk s b" "data_blocks t = data_blocks s" "owned t ip = owned s ip"
proof -
  have nb: "n \<notin> bitmap_blocks s" "n \<notin> data_blocks s" using s(1) n by (auto simp: fs_ok_def data_blocks_def)
  then have f: "free_block t = free_block s" by (intro free_block_same) (auto simp: t)
  have m: "bitmap_blocks t = bitmap_blocks s" "inode_blocks t = inode_blocks s" by (simp_all add: bitmap_blocks_def inode_blocks_def t)
  show D: "data_blocks t = data_blocks s" by (simp add: data_blocks_def f m t)
  show "fs_ok t" using s(1) by (simp add: fs_ok_def map_ok_def f m t)
  have ok: "fok (i_addrs (ino s ip)) (blk s) (data_blocks s)" using s(2) by (simp add: file_ok_def)
  have "\<forall>x \<in> data_blocks s. blk t x = blk s x" using nb by (auto simp: t)
  note c = fok_cong [OF ok this subset_refl]
  show "file_ok t ip" using s(2) c(1) by (simp add: file_ok_def D t(2-))
  show b: "baddr t ip = baddr s ip" using c(2) by (simp add: baddr_def t(2-) fun_eq_iff)
  show "blk t b = blk s b" if "b \<in> data_blocks s" for b using nb that by (auto simp: t)
  show "owned t ip = owned s ip" using c(2) by (simp add: owned_def fown_def t(2-))
  show "fcont t ip i = fcont s ip i" if "i < MAXFILE * BSIZE"
  proof -
    have "i div BSIZE < MAXFILE" using that by (rule less_mult_imp_div_less)
    then have "baddr s ip (i div BSIZE) \<noteq> 0 \<Longrightarrow> baddr s ip (i div BSIZE) \<in> data_blocks s" using ok by (auto simp: fok_def baddr_def simp del: BSIZE_def MAXFILE_def)
    then show ?thesis using nb b by (auto simp: fcont_def fbyte_def baddr_def t simp del: BSIZE_def)
  qed
qed

lemma file_inode:
  assumes "fs_ok s" "file_ok s ip" "i_size (ino s ip) < 2 ^ 32"
  shows "dinode_ok (dinode_of (ino s ip))" "IBLOCK (i_inum (ino s ip)) (sb s) \<in> inode_blocks s" "loggable s (IBLOCK (i_inum (ino s ip)) (sb s))"
proof -
  have "a < 2 ^ 32" if "a \<in> set (i_addrs (ino s ip))" for a
  proof (cases "a = 0")
    case False
    then have "a \<in> data_blocks s" using assms(2) that by (simp add: file_ok_def fok_def)
    then show ?thesis by (simp add: data_blocks_def loggable_def)
  qed simp
  then show "dinode_ok (dinode_of (ino s ip))" using assms by (simp add: dinode_ok_def dinode_of_def file_ok_def fok_def)
  show "IBLOCK (i_inum (ino s ip)) (sb s) \<in> inode_blocks s" using assms(2) by (simp add: file_ok_def inode_blocks_def)
  then show "loggable s (IBLOCK (i_inum (ino s ip)) (sb s))" using assms(1) by (simp add: fs_ok_def)
qed

lemma present_cong: "baddr t ip = baddr s ip \<Longrightarrow> present t ip off n = present s ip off n"
  by (simp add: present_def)

lemma size_irrelevant:
  assumes "ino t ip = (ino s ip)\<lparr>i_size := z\<rparr>" "blk t = blk s" "sb t = sb s" "loggable t = loggable s" "length (itable t) = length (itable s)"
  shows "fs_ok t = fs_ok s" "file_ok t ip = file_ok s ip" "baddr t ip = baddr s ip" "fcont t ip = fcont s ip" "data_blocks t = data_blocks s" "owned t ip = owned s ip"
    "inode_blocks t = inode_blocks s"
proof -
  have f: "free_block t = free_block s" "bitmap_blocks t = bitmap_blocks s" "map_ok t = map_ok s" using free_block_cong [OF assms(2,3)] map_ok_cong [OF assms(2-4)] by auto
  show i: "inode_blocks t = inode_blocks s" by (simp add: inode_blocks_def assms)
  show d: "data_blocks t = data_blocks s" by (simp add: data_blocks_def f i assms)
  show "fs_ok t = fs_ok s" "file_ok t ip = file_ok s ip" "baddr t ip = baddr s ip" "fcont t ip = fcont s ip" "owned t ip = owned s ip"
    by (simp_all add: fs_ok_def file_ok_def baddr_def fcont_def owned_def f i d assms)
qed


text \<open>The end of \<open>writei\<close>: the new size, and the inode on the disk.\<close>

lemma writei_end:
  assumes f: "fsx p K k s {}" and s: "fs_ok s" "file_ok s ip" and K: "IBLOCK (i_inum (ino s ip)) (sb s) \<in> K" and z: "z < 2 ^ 32"
  defines "u \<equiv> upd_ino ip (\<lambda>q. q\<lparr>i_size := z\<rparr>) s"
  obtains t where "iupdate ip u = Inr t" "fsx p K k t {}" "fs_ok t" "file_ok t ip" "baddr t ip = baddr s ip" "\<forall>i < MAXFILE * BSIZE. fcont t ip i = fcont s ip i"
    "ino t = (\<lambda>j. if j = ip then (ino s ip)\<lparr>i_size := z\<rparr> else ino s j)" "\<forall>b \<in> data_blocks s. blk t b = blk s b" "data_blocks t = data_blocks s" "owned t ip = owned s ip"
    "dinode_at t (i_inum (ino s ip)) = dinode_of (ino t ip)" "\<forall>i. i \<noteq> i_inum (ino s ip) \<longrightarrow> dinode_at t i = dinode_at s i" "fframe p s t"
proof -
  let ?i = "i_inum (ino s ip)" and ?n = "IBLOCK (i_inum (ino s ip)) (sb s)"
  have ip: "ip < length (itable s)" using s(2) by (simp add: file_ok_def)
  then have iu: "ino u = (\<lambda>j. if j = ip then (ino s ip)\<lparr>i_size := z\<rparr> else ino s j)" by (auto simp: u_def ino_upd_ino)
  have uu: "ino u ip = (ino s ip)\<lparr>i_size := z\<rparr>" "blk u = blk s" "sb u = sb s" "loggable u = loggable s" "length (itable u) = length (itable s)" by (simp_all add: iu) (simp_all add: u_def)
  note sz = size_irrelevant [OF uu]
  have s': "fs_ok u" "file_ok u ip" using s sz by simp_all
  have zu: "i_size (ino u ip) < 2 ^ 32" using z by (simp add: uu)
  note fi = file_inode [OF s' zu]
  have dv: "i_dev (ino u ip) = ROOTDEV" "?n = IBLOCK (i_inum (ino u ip)) (sb u)" using s(2) by (simp_all add: file_ok_def uu)
  have fu: "fsx p K k u {}" using f by (simp add: u_def)
  obtain t where t: "iupdate ip u = Inr t" "blk t = (blk u)(?n := put_dinode (64 * (i_inum (ino u ip) mod IPB)) (dinode_of (ino u ip)) (blk u ?n))"
    "fsx p K k t {}" "lframe p u t" "set (logged t) = insert ?n (set (logged u))"
    by (rule iupdate_spec [OF fu dv _ _ K fi(1)]) (use fi(3) dv(2) in simp_all)
  note e = lframe_fs(1,2,7) [OF t(4)] lframe_fields(7) [OF t(4)]
  note ds = data_same [OF s' _ t(2) e(1,4,3,2)]
  have nI: "?n \<in> inode_blocks u" using fi(2) dv(2) by simp
  have l: "length (blk u ?n) = BSIZE" by (rule bt.size [OF fsx_tx [OF fu]])
  have at: "dinode_at t j = (if j = ?i then dinode_of (ino u ip) else dinode_at u j)" for j
    by (rule dinode_at_update) (use t(2) e(1) fi(1) l in \<open>simp_all add: uu\<close>)
  have au: "dinode_at u = dinode_at s" by (simp add: dinode_at_def fun_eq_iff uu)
  have "fframe p s u" by (simp add: u_def)
  then have "fframe p s t" by (rule fframe_trans [OF _ fframe_lframe [OF t(4)]])
  then show thesis
    using that [OF t(1,3)] ds [OF nI] sz e(3) at au iu by (simp add: uu del: BSIZE_def MAXFILE_def)
qed

lemma upd_ino_id: "f (ino s ip) = ino s ip \<Longrightarrow> upd_ino ip f s = s"
  by (simp add: upd_ino_def ino_def)

lemma writei_spec:
  assumes f: "fsx p K (2 * nblk off n + k) s {}" and s: "file_inv s ip" and K: "insert (IBLOCK (i_inum (ino s ip)) (sb s)) (bitmap_blocks s) \<subseteq> K"
    and o: "off \<le> i_size (ino s ip)" "off + n \<le> MAXFILE * BSIZE" and fr: "2 * nblk off n \<le> nfree s" and bs: "src_bytes p src bs s" "length bs = n"
  obtains t K' where "writei ip src off n s = Inr (int n, t)" "K \<subseteq> K'" "fsx p K' k t {}" "file_inv t ip" "fframe p s t"
    "i_size (ino t ip) = max (i_size (ino s ip)) (off + n)" "\<forall>j. j \<noteq> ip \<longrightarrow> ino t j = ino s j"
    "\<forall>i < MAXFILE * BSIZE. fcont t ip i = (if off \<le> i \<and> i < off + n then bs ! (i - off) else fcont s ip i)"
    "\<forall>b \<in> data_blocks s - owned s ip. blk t b = blk s b \<and> b \<notin> owned t ip"
    "dinode_at t (i_inum (ino s ip)) = dinode_of (ino t ip)" "\<forall>i < sb_ninodes (sb s). i \<noteq> i_inum (ino s ip) \<longrightarrow> dinode_at t i = dinode_at s i"
    "\<exists>a. ino t ip = (ino s ip)\<lparr>i_addrs := a, i_size := i_size (ino t ip)\<rparr>"
proof -
  have s': "fs_ok s" "file_ok s ip" "present s ip 0 (i_size (ino s ip))" "i_size (ino s ip) \<le> MAXFILE * BSIZE" using s by (simp_all add: file_inv_def)
  have Kb: "bitmap_blocks s \<subseteq> K" using K by blast
  from writei_loop_spec [OF f s'(1,2) Kb o(2) fr bs, of 0]
  obtain t K' where t: "writei_loop ip src off n 0 s = Inr (n, off + n, t)" "K \<subseteq> K'" "fsx p K' k t {}" "touches p ip s t"
    "\<forall>i < MAXFILE * BSIZE. fcont t ip i = (if off \<le> i \<and> i < off + n then bs ! (i - off) else fcont s ip i)" "present t ip off n"
    by (auto simp: returns_iff)
  define z where "z = max (i_size (ino s ip)) (off + n)"
  note te = touches_fields [OF t(4)] touches_sb [OF t(4)]
  have z: "z \<le> MAXFILE * BSIZE" using o s'(4) by (simp add: z_def)
  have IK: "IBLOCK (i_inum (ino t ip)) (sb t) \<in> K'" using K t(2) te(5,6) by auto
  have z32: "z < 2 ^ 32" using z by simp
  let ?u = "upd_ino ip (\<lambda>q. q\<lparr>i_size := z\<rparr>) t"
  obtain v where v: "iupdate ip ?u = Inr v" "fsx p K' k v {}" "fs_ok v" "file_ok v ip" "baddr v ip = baddr t ip" "\<forall>i < MAXFILE * BSIZE. fcont v ip i = fcont t ip i"
    "ino v = (\<lambda>j. if j = ip then (ino t ip)\<lparr>i_size := z\<rparr> else ino t j)" "\<forall>b \<in> data_blocks t. blk v b = blk t b" "data_blocks v = data_blocks t" "owned v ip = owned t ip"
    "dinode_at v (i_inum (ino t ip)) = dinode_of (ino v ip)" "\<forall>i. i \<noteq> i_inum (ino t ip) \<longrightarrow> dinode_at v i = dinode_at t i" "fframe p t v"
    by (rule writei_end [OF t(3) te(1,2) IK z32])
  have uz: "(if off + n > i_size (ino t ip) then upd_ino ip (\<lambda>q. q\<lparr>i_size := off + n\<rparr>) t else t) = ?u"
    using te(4) upd_ino_id [of "\<lambda>q. q\<lparr>i_size := z\<rparr>" t ip] by (auto simp: z_def max_def)
  have m32: "off + n < 2 ^ 32" using o(2) by simp
  have w: "writei ip src off n s = Inr (int n, v)"
    using o t(1) v(1) m32 unfolding writei_def by (simp add: add32_def uz [symmetric])
  have iz: "i_size (ino v ip) = z" "\<exists>a. ino v ip = (ino s ip)\<lparr>i_addrs := a, i_size := i_size (ino v ip)\<rparr>" "\<forall>j. j \<noteq> ip \<longrightarrow> ino v j = ino s j"
    using t(4) by (auto simp: v(7) touches_def)
  have "present t ip 0 (i_size (ino s ip))" by (rule present_touches [OF s'(3) t(4)]) (use s'(4) in simp)
  then have "present t ip 0 z" using t(6) o(1) by (auto simp: present_def z_def max_def) (metis le_less_linear le_trans)
  then have inv: "file_inv v ip" using v(3,4,5) z iz(1) by (simp add: file_inv_def present_def)
  have fr': "fframe p s v" by (rule fframe_trans [OF te(3) v(13)])
  have c: "\<forall>i < MAXFILE * BSIZE. fcont v ip i = (if off \<le> i \<and> i < off + n then bs ! (i - off) else fcont s ip i)" using v(6) t(5) by simp
  have d: "\<forall>b \<in> data_blocks s - owned s ip. blk v b = blk s b \<and> b \<notin> owned v ip" using t(4) v(8,10) by (auto simp: touches_def)
  have "dinode_at t i = dinode_at s i" if "i < sb_ninodes (sb s)" for i
    using t(4) that te(6) by (auto simp: touches_def dinode_at_def inode_blocks_def)
  then have a: "\<forall>i < sb_ninodes (sb s). i \<noteq> i_inum (ino s ip) \<longrightarrow> dinode_at v i = dinode_at s i" using v(12) te(5) by simp
  have a': "dinode_at v (i_inum (ino s ip)) = dinode_of (ino v ip)" using v(11) te(5) by simp
  show thesis by (rule that [OF w t(2) v(2) inv fr' _ iz(3) c d a' a iz(2)]) (simp add: iz(1) z_def)
qed


text \<open>
  C5: writing a file. With enough free blocks and room in the log, \<open>writei\<close> of \<open>n\<close> bytes at offset \<open>off\<close> of a file
  returns \<open>n\<close>. The file then contains the bytes on that range and what it contained elsewhere, its size is
  \<open>max size (off + n)\<close>, its inode is on the disk, it satisfies the file invariant, and no block of another file and no
  other inode has changed. An offset behind the end of the file, and a range too big for a file, are refused with \<open>-1\<close>
  and nothing changes.
\<close>

theorem writei_correct:
  assumes "fsx p K (2 * nblk off n + k) s {}" "file_inv s ip" "insert (IBLOCK (i_inum (ino s ip)) (sb s)) (bitmap_blocks s) \<subseteq> K"
    "off < 2 ^ 32" "n < 2 ^ 32" "2 * nblk off n \<le> nfree s" "src_bytes p src bs s" "length bs = n"
  shows "if off \<le> i_size (ino s ip) \<and> off + n \<le> MAXFILE * BSIZE
     then returns (writei ip src off n s) (\<lambda>(r, t). r = int n \<and> file_inv t ip \<and> i_size (ino t ip) = max (i_size (ino s ip)) (off + n) \<and>
       (\<forall>i < MAXFILE * BSIZE. fcont t ip i = (if off \<le> i \<and> i < off + n then bs ! (i - off) else fcont s ip i)) \<and>
       dinode_at t (i_inum (ino s ip)) = dinode_of (ino t ip) \<and>
       (\<forall>i < sb_ninodes (sb s). i \<noteq> i_inum (ino s ip) \<longrightarrow> dinode_at t i = dinode_at s i) \<and>
       (\<forall>b \<in> data_blocks s - owned s ip. blk t b = blk s b))
     else writei ip src off n s = Inr (- 1, s)"
proof (cases "off \<le> i_size (ino s ip) \<and> off + n \<le> MAXFILE * BSIZE")
  case True
  then have o: "off \<le> i_size (ino s ip)" "off + n \<le> MAXFILE * BSIZE" by simp_all
  obtain t K' where "writei ip src off n s = Inr (int n, t)" "K \<subseteq> K'" "fsx p K' k t {}" "file_inv t ip" "fframe p s t"
    "i_size (ino t ip) = max (i_size (ino s ip)) (off + n)" "\<forall>j. j \<noteq> ip \<longrightarrow> ino t j = ino s j"
    "\<forall>i < MAXFILE * BSIZE. fcont t ip i = (if off \<le> i \<and> i < off + n then bs ! (i - off) else fcont s ip i)"
    "\<forall>b \<in> data_blocks s - owned s ip. blk t b = blk s b \<and> b \<notin> owned t ip"
    "dinode_at t (i_inum (ino s ip)) = dinode_of (ino t ip)" "\<forall>i < sb_ninodes (sb s). i \<noteq> i_inum (ino s ip) \<longrightarrow> dinode_at t i = dinode_at s i"
    by (rule writei_spec [OF assms(1-3) o assms(6-8)])
  then show ?thesis using True by simp
next
  case False
  have "add32 off n = (if off + n < 2 ^ 32 then off + n else off + n - 2 ^ 32)" using assms(4,5) by (simp add: add32_def mod_if)
  then have "writei ip src off n s = Inr (- 1, s)" using False assms(4,5) by (auto simp: writei_def)
  then show ?thesis using False by simp
qed

subsection \<open>Reading\<close>

lemma bmap_present:
  assumes f: "fsx p K k s {}" and s: "fs_ok s" "file_ok s ip" and b: "bn < MAXFILE" "baddr s ip bn \<noteq> 0"
  obtains t where "bmap ip bn s = Inr (baddr s ip bn, t)" "fsx p K k t {}" "blk t = blk s" "lframe p s t"
proof (cases "bn < NDIRECT")
  case True
  then show thesis using that [of s] f b by (simp add: bmap_def bmap_slot_def baddr_def fmap_def lframe_refl)
next
  case False
  let ?x = "i_addrs (ino s ip) ! NDIRECT"
  have bj: "bn - NDIRECT < NINDIRECT" using b by auto
  have x: "?x \<noteq> 0" "getn 4 (4 * (bn - NDIRECT)) (blk s ?x) = baddr s ip bn" using b(2) False by (auto simp: baddr_def fmap_def simp del: NDIRECT_def split: if_splits)
  have "?x \<in> data_blocks s" using fok_ind s(2) x(1) by (auto simp: file_ok_def)
  then have x31: "?x < 2 ^ 31" by (simp add: data_blocks_def loggable_def)
  have dev: "i_dev (ino s ip) = ROOTDEV" using s(2) by (simp add: file_ok_def)
  obtain c t u where t: "bread ROOTDEV ?x s = Inr (c, t)" "b_data (bf t c) = blk s ?x" "blk t = blk s" "lframe p s t" "set (logged t) = set (logged s)"
    "brelse c t = Inr u" "fsx p K k u {}" "blk u = blk s" "set (logged u) = set (logged s)" "lframe p s u"
    by (rule fs_look [OF f _ x31]) simp
  have "bmap ip bn s = Inr (baddr s ip bn, u)"
    using False bj x b(2) t(1,2,6) dev by (simp add: bmap_def bmap_slot_def bmap_entry_def del: NDIRECT_def NINDIRECT_def)
  then show thesis using that t by blast
qed

text \<open>
  Where the bytes go: to the memory of the process with page table \<open>pt\<close>, to an address of
  the kernel, or to an object of the kernel. \<open>dst_room\<close> is the number of bytes in front of the first
  hole, and \<open>delivered\<close> what the memory looks like when \<open>bs\<close> have arrived.
\<close>

definition dst_ok :: "memory \<Rightarrow> uint64 \<Rightarrow> dest \<Rightarrow> bool" where
  "dst_ok m pt dst \<longleftrightarrow> (case dst of UserDst va \<Rightarrow> pt_good m pt \<and> user_inj m pt | _ \<Rightarrow> True)"

definition dst_room :: "memory \<Rightarrow> uint64 \<Rightarrow> dest \<Rightarrow> nat \<Rightarrow> nat" where
  "dst_room m pt dst n =
     (case dst of UserDst va \<Rightarrow> length (takeWhile (\<lambda>i. umem m pt (va + of_nat i) \<noteq> None) [0..<n]) | _ \<Rightarrow> n)"

definition delivered :: "memory \<Rightarrow> uint64 \<Rightarrow> dest \<Rightarrow> uchar list \<Rightarrow> memory \<Rightarrow> bool" where
  "delivered m pt dst bs m' \<longleftrightarrow>
     (case dst of
        UserDst va \<Rightarrow> umem m' pt = upd_bytes (umem m pt) va bs \<and> (\<forall>x. PGROUNDDOWN x \<notin> user_pages m pt \<longrightarrow> m' x = m x)
      | KernelDst pa \<Rightarrow> m' = store_bytes pa bs m
      | ObjectDst \<Rightarrow> m' = m)"

lemma dst_room_user: "dst_room m pt (UserDst va) n = length (mapped_prefix (ubytes m pt va n))"
  by (simp add: dst_room_def mapped_prefix_def ubytes_def takeWhile_map comp_def)

lemma dst_room_le: "dst_room m pt dst n \<le> n"
  using length_takeWhile_le [of _ "[0..<n]"] by (auto simp: dst_room_def split: dest.split intro: order_trans)

lemma room_full: "dst_room m pt (UserDst va) n = n \<longleftrightarrow> None \<notin> set (ubytes m pt va n)"
proof
  assume h: "dst_room m pt (UserDst va) n = n"
  then have "takeWhile (\<lambda>u. u \<noteq> None) (ubytes m pt va n) = ubytes m pt va n"
    unfolding dst_room_user mapped_prefix_def by (intro takeWhile_eq_take [THEN trans]) simp
  then show "None \<notin> set (ubytes m pt va n)" unfolding takeWhile_eq_all_conv by blast
next
  assume "None \<notin> set (ubytes m pt va n)"
  then show "dst_room m pt (UserDst va) n = n" unfolding dst_room_user by (rule length_mapped_prefix)
qed

lemma dst_room_split:
  assumes "k \<le> n"
  shows "dst_room m pt dst n =
    (if dst_room m pt dst k = k then k + dst_room m pt (dest_add dst k) (n - k) else dst_room m pt dst k)"
proof (cases dst)
  case (UserDst va)
  show ?thesis
  proof (cases "None \<in> set (ubytes m pt va k)")
    case True
    then have "takeWhile (\<lambda>u. u \<noteq> None) (ubytes m pt va k @ us) = takeWhile (\<lambda>u. u \<noteq> None) (ubytes m pt va k)" for us
      by (rule takeWhile_append1) simp
    then have "dst_room m pt dst n = dst_room m pt dst k"
      unfolding UserDst dst_room_user mapped_prefix_def ubytes_split [OF assms] by simp
    then show ?thesis using True room_full [of m pt va k] UserDst by simp
  next
    case False
    then have f: "dst_room m pt dst k = k" using room_full [of m pt va k] UserDst by simp
    have "takeWhile (\<lambda>u. u \<noteq> None) (ubytes m pt va k @ us) = ubytes m pt va k @ takeWhile (\<lambda>u. u \<noteq> None) us" for us
      by (rule takeWhile_append2) (use False in metis)
    then have "dst_room m pt dst n = k + dst_room m pt (dest_add dst k) (n - k)"
      unfolding UserDst dest_add.simps dst_room_user mapped_prefix_def ubytes_split [OF assms] by simp
    then show ?thesis using f by simp
  qed
qed (use assms in \<open>simp_all add: dst_room_def\<close>)

lemma store_bytes_append: "store_bytes a (bs @ cs) m = store_bytes (a + of_nat (length bs)) cs (store_bytes a bs m)"
  by (induction bs arbitrary: a m) (simp_all add: add.assoc)

lemma delivered_next:
  assumes ok: "dst_ok m pt dst" and d: "delivered m pt dst bs m'" and k: "k = length bs"
  shows "dst_ok m' pt (dest_add dst k)" "dst_room m' pt (dest_add dst k) n = dst_room m pt (dest_add dst k) n"
    "length bs + length cs \<le> 2 ^ 64 \<Longrightarrow> delivered m' pt (dest_add dst k) cs m'' \<Longrightarrow> delivered m pt dst (bs @ cs) m''"
proof -
  have "dst_ok m' pt (dest_add dst k) \<and> dst_room m' pt (dest_add dst k) n = dst_room m pt (dest_add dst k) n \<and>
    (length bs + length cs \<le> 2 ^ 64 \<longrightarrow> delivered m' pt (dest_add dst k) cs m'' \<longrightarrow> delivered m pt dst (bs @ cs) m'')"
  proof (cases dst)
    case (UserDst va)
    have h: "pt_good m pt" "user_inj m pt" "\<forall>x. PGROUNDDOWN x \<notin> user_pages m pt \<longrightarrow> m' x = m x" "umem m' pt = upd_bytes (umem m pt) va bs"
      using ok d UserDst by (simp_all add: dst_ok_def delivered_def)
    note uc = user_cong [OF h(1-3)]
    have "dst_room m' pt (UserDst (va + of_nat k)) n = dst_room m pt (UserDst (va + of_nat k)) n"
      unfolding dst_room_user by (rule ubytes_shape [OF uc(1)])
    moreover have "upd_bytes (upd_bytes (umem m pt) va bs) (va + of_nat k) cs = upd_bytes (umem m pt) va (bs @ cs)"
      if "length bs + length cs \<le> 2 ^ 64" using that k by (rule upd_bytes_append)
    ultimately show ?thesis using uc h(3,4) UserDst by (auto simp: dst_ok_def delivered_def)
  next
    case (KernelDst a)
    then show ?thesis using d k by (simp add: dst_ok_def dst_room_def delivered_def store_bytes_append)
  next
    case ObjectDst
    then show ?thesis using d by (simp add: dst_ok_def dst_room_def delivered_def)
  qed
  then show "dst_ok m' pt (dest_add dst k)" "dst_room m' pt (dest_add dst k) n = dst_room m pt (dest_add dst k) n"
    "length bs + length cs \<le> 2 ^ 64 \<Longrightarrow> delivered m' pt (dest_add dst k) cs m'' \<Longrightarrow> delivered m pt dst (bs @ cs) m''" by blast+
qed

lemma either_copyout_spec:
  assumes "dst_ok (mem s) (p_pagetable (pr s p)) dst" "curproc s = Some p" "held s = []" "length src < 2 ^ 64"
  defines "k \<equiv> dst_room (mem s) (p_pagetable (pr s p)) dst (length src)"
  shows "\<exists>m. either_copyout dst src s = Inr (if k = length src then 0 else - 1, s\<lparr>mem := m\<rparr>) \<and>
    delivered (mem s) (p_pagetable (pr s p)) dst (take k src) m"
proof (cases dst)
  case (UserDst va)
  let ?pt = "p_pagetable (pr s p)"
  have g: "pt_good (mem s) ?pt" "user_inj (mem s) ?pt" using assms(1) UserDst by (simp_all add: dst_ok_def)
  obtain m where "copyout ?pt va src s = Inr (if None \<in> set (ubytes (mem s) ?pt va (length src)) then - 1 else 0, s\<lparr>mem := m\<rparr>)"
      "\<forall>x. PGROUNDDOWN x \<notin> user_pages (mem s) ?pt \<longrightarrow> m x = mem s x"
      "umem m ?pt = upd_bytes (umem (mem s) ?pt) va (take (length (mapped_prefix (ubytes (mem s) ?pt va (length src)))) src)"
    using copyout_spec [OF g assms(4), of va] by blast
  then show ?thesis
    using assms(2,3) room_full [of "mem s" ?pt va "length src"]
    by (intro exI [of _ m]) (simp add: UserDst k_def either_copyout_def myproc_def delivered_def dst_room_user)
next
  case (KernelDst a)
  then show ?thesis
    by (intro exI [of _ "store_bytes a src (mem s)"]) (simp add: k_def either_copyout_def delivered_def dst_room_def)
next
  case ObjectDst
  then show ?thesis by (intro exI [of _ "mem s"]) (simp add: k_def either_copyout_def delivered_def dst_room_def)
qed

text \<open>The memory is no part of what the file system looks at.\<close>

lemma lframe_mem: "lframe p s t \<Longrightarrow> lframe p (s\<lparr>mem := x\<rparr>) (t\<lparr>mem := x\<rparr>)"
proof -
  assume "lframe p s t"
  then obtain a b tb sl bs v pl out where t: "t = s\<lparr>lh_n := a, lh_block := b\<rparr>\<lparr>ptable := tb, slk := sl, bufs := bs, vd := v, platter := pl, mmio_out := out\<rparr>"
    "tb_le p (ptable s) tb" "\<forall>i. sl (InodeLock i) = slk s (InodeLock i)" "platter t = platter s"
    unfolding lframe_def cframe_def by auto
  then show ?thesis
    unfolding lframe_def cframe_def by (intro conjI exI [of _ a] exI [of _ b] exI [of _ tb] exI [of _ sl] exI [of _ bs] exI [of _ v] exI [of _ pl] exI [of _ out]) simp_all
qed

lemma mem_irrelevant:
  "blk (s\<lparr>mem := m\<rparr>) = blk s" "tx p (s\<lparr>mem := m\<rparr>) H = tx p s H" "holds p (s\<lparr>mem := m\<rparr>) b n = holds p s b n"
  "logged (s\<lparr>mem := m\<rparr>) = logged s"
proof -
  have c: "blk (s\<lparr>mem := m\<rparr>) = blk s" "refs (s\<lparr>mem := m\<rparr>) = refs s" "blk_locked (s\<lparr>mem := m\<rparr>) = blk_locked s" "bcache_ok (s\<lparr>mem := m\<rparr>) = bcache_ok s"
    by (rule cache_cong; simp)+
  then show "blk (s\<lparr>mem := m\<rparr>) = blk s" by simp
  show "tx p (s\<lparr>mem := m\<rparr>) H = tx p s H"
    unfolding tx_def cst_def io_ok_def c by (simp add: log_shape_def logged_def log_area_def in_proc_def pr_def)
  show "holds p (s\<lparr>mem := m\<rparr>) b n = holds p s b n" by (simp add: holds_def cached_def bf_def buf_locked_def pr_def)
  show "logged (s\<lparr>mem := m\<rparr>) = logged s" by (simp add: logged_def)
qed

text \<open>Looking at a block while the memory changes.\<close>

lemma fs_look_mem:
  assumes f: "fsx p K k s {}" and n: "n < 2 ^ 31"
  obtains b t where "bread ROOTDEV n s = Inr (b, t)" "b_data (bf t b) = blk s n" "lframe p s t"
    "\<And>m. \<exists>u. brelse b (t\<lparr>mem := m\<rparr>) = Inr u \<and> fsx p K k u {} \<and> blk u = blk s \<and> lframe p (s\<lparr>mem := m\<rparr>) u"
proof -
  have x: "tx p s {}" using f by (rule fsx_tx)
  obtain b t where t: "bread ROOTDEV n s = Inr (b, t)" "tx p t (insert n {})" "holds p t b n" "blk t = blk s" "set (logged t) = set (logged s)" "lframe p s t"
    "b_data (bf t b) = blk s n"
    by (rule bt.rdE [OF x _ n]) (use fsx_room(2) [OF f] in auto)
  have cl: "n \<in> set (logged t) \<or> blk t n = disk_block (platter t) n"
    using bt.clean [OF x, of n] t(4,5) lframe_fields(8) [OF t(6)] by auto
  have "\<exists>u. brelse b (t\<lparr>mem := m\<rparr>) = Inr u \<and> fsx p K k u {} \<and> blk u = blk s \<and> lframe p (s\<lparr>mem := m\<rparr>) u" for m
  proof -
    let ?t = "t\<lparr>mem := m\<rparr>"
    have "tx p ?t (insert n {})" "holds p ?t b n" "n \<in> set (logged ?t) \<or> blk ?t n = disk_block (platter ?t) n"
      using t cl by (simp_all add: mem_irrelevant)
    from bt.rel [OF this] obtain u where u: "brelse b ?t = Inr u" "tx p u {}" "blk u = blk t" "set (logged u) = set (logged t)" "lframe p ?t u"
      by (auto simp: returns_iff mem_irrelevant)
    have fr: "lframe p (s\<lparr>mem := m\<rparr>) u" using lframe_mem [OF t(6), of m] u(5) by (rule lframe_trans)
    have "l_size u = l_size s" using lframe_fields(2) [OF fr] by simp
    then have "fsx p K k u {}" using f u(2,4) t(5) by (simp add: fsx_def)
    then show ?thesis using u(1,3) t(4) fr by auto
  qed
  then show thesis using that t(1,7,6) by blast
qed

lemma block_bytes:
  assumes n: "0 < n" and b: "baddr s ip (off div BSIZE) \<noteq> 0" and l: "length (blk s (baddr s ip (off div BSIZE))) = BSIZE"
  shows "get_at (off mod BSIZE) (seg n off) (blk s (baddr s ip (off div BSIZE))) = map (fcont s ip) [off..<off + seg n off]"
proof (rule nth_equalityI)
  let ?m = "seg n off" and ?b = "baddr s ip (off div BSIZE)"
  note sg = nblk_step [OF n, of off]
  show "length (get_at (off mod BSIZE) ?m (blk s ?b)) = length (map (fcont s ip) [off..<off + ?m])"
    using sg(3) l by (simp add: get_at_def)
  fix i assume "i < length (get_at (off mod BSIZE) ?m (blk s ?b))"
  then have i: "i < ?m" by (simp add: get_at_def)
  then have d: "(off + i) div BSIZE = off div BSIZE" "(off + i) mod BSIZE = off mod BSIZE + i"
    using sg(5) [of "off + i"] by (simp_all del: BSIZE_def) (metis add_left_cancel add.assoc mult_div_mod_eq)
  show "get_at (off mod BSIZE) ?m (blk s ?b) ! i = map (fcont s ip) [off..<off + ?m] ! i"
    using i b d sg(3) l by (simp add: get_at_def fcont_def fbyte_def baddr_def del: BSIZE_def)
qed

text \<open>What reading the bytes \<open>xs\<close> to a destination gives: the result, the bytes, the memory.\<close>

definition read_post :: "memory \<Rightarrow> uint64 \<Rightarrow> dest \<Rightarrow> nat \<Rightarrow> uchar list \<Rightarrow> int \<Rightarrow> uchar list \<Rightarrow> memory \<Rightarrow> bool" where
  "read_post m pt dst tot xs r bs m' \<longleftrightarrow>
     (if dst_room m pt dst (length xs) = length xs then r = int (tot + length xs) \<and> bs = xs else r = - 1) \<and>
     delivered m pt dst (take (dst_room m pt dst (length xs)) xs) m'"

lemma read_post_stop:
  assumes "dst_room m pt dst (length xs) \<noteq> length xs" "delivered m pt dst (take (dst_room m pt dst (length xs)) xs) m'"
  shows "read_post m pt dst tot (xs @ ys) (- 1) bs m'"
proof -
  have "dst_room m pt dst (length (xs @ ys)) = dst_room m pt dst (length xs)" "dst_room m pt dst (length xs) \<le> length xs"
    using assms(1) dst_room_split [of "length xs" "length (xs @ ys)" m pt dst] dst_room_le [of m pt dst "length xs"] by simp_all
  then show ?thesis using assms by (simp add: read_post_def)
qed

lemma read_post_next:
  assumes ok: "dst_ok m pt dst" and k: "dst_room m pt dst (length xs) = length xs" "delivered m pt dst xs m1" and l: "length (xs @ ys) < 2 ^ 64"
    and n: "read_post m1 pt (dest_add dst (length xs)) (tot + length xs) ys r bs m'"
  shows "read_post m pt dst tot (xs @ ys) r (xs @ bs) m'"
proof -
  note d = delivered_next [OF ok k(2) refl]
  let ?k = "dst_room m pt (dest_add dst (length xs)) (length ys)"
  have "dst_room m pt dst (length (xs @ ys)) = length xs + ?k"
    using k(1) dst_room_split [of "length xs" "length (xs @ ys)" m pt dst] by simp
  moreover have "delivered m pt dst (xs @ take ?k ys) m'"
    using d(3) [of "take ?k ys" m'] n l d(2) [of "length ys"] by (simp add: read_post_def)
  ultimately show ?thesis using n d(2) [of "length ys"] by (auto simp: read_post_def)
qed

lemma readi_loop_spec:
  assumes "fsx p K k s {}" "fs_ok s" "file_ok s ip" "off + n \<le> MAXFILE * BSIZE" "present s ip off n"
    "dst_ok (mem s) (p_pagetable (pr s p)) dst"
  shows "returns (readi_loop ip dst off n tot s) (\<lambda>(r, bs, t). fsx p K k t {} \<and> blk t = blk s \<and> lframe p (s\<lparr>mem := mem t\<rparr>) t \<and>
     read_post (mem s) (p_pagetable (pr s p)) dst tot (map (fcont s ip) [off..<off + n]) r bs (mem t))"
  using assms
proof (induction n arbitrary: off tot s dst rule: less_induct)
  case (less n)
  show ?case
  proof (cases "n = 0")
    case True
    then show ?thesis using less.prems(1)
      by (simp add: readi_loop.simps [of ip dst off 0] lframe_refl read_post_def dst_room_def delivered_def split: dest.split)
  next
    case False
    then have n: "0 < n" by simp
    note sg = nblk_step [OF n, of off]
    let ?m = "seg n off" and ?b = "baddr s ip (off div BSIZE)" and ?pt = "p_pagetable (pr s p)"
    let ?xs = "map (fcont s ip) [off..<off + ?m]" and ?ys = "map (fcont s ip) [off + ?m..<off + n]"
    have sp: "map (fcont s ip) [off..<off + n] = ?xs @ ?ys"
      using sg(4) by (metis map_append upt_add_eq_append le_add1 le_add_diff_inverse add.assoc)
    have bn: "off div BSIZE < MAXFILE" using less.prems(4) n by (intro less_mult_imp_div_less) simp
    have b: "?b \<noteq> 0" using less.prems(5) n by (simp add: present_def del: BSIZE_def)
    obtain t where t: "bmap ip (off div BSIZE) s = Inr (?b, t)" "fsx p K k t {}" "blk t = blk s" "lframe p s t"
      by (rule bmap_present [OF less.prems(1-3) bn b])
    have "?b \<in> data_blocks s" using less.prems(3) b bn by (simp add: file_ok_def fok_def baddr_def del: BSIZE_def MAXFILE_def)
    then have b31: "?b < 2 ^ 31" by (simp add: data_blocks_def loggable_def)
    obtain c u where u: "bread ROOTDEV ?b t = Inr (c, u)" "b_data (bf u c) = blk t ?b" "lframe p t u"
      and rel: "\<And>m. \<exists>v. brelse c (u\<lparr>mem := m\<rparr>) = Inr v \<and> fsx p K k v {} \<and> blk v = blk t \<and> lframe p (t\<lparr>mem := m\<rparr>) v"
      by (rule fs_look_mem [OF t(2) b31]) blast
    have l: "length (blk s ?b) = BSIZE" by (rule bt.size [OF fsx_tx [OF less.prems(1)]])
    have g: "get_at (off mod BSIZE) ?m (blk s ?b) = ?xs" by (rule block_bytes [OF n b l])
    have su: "lframe p s u" by (rule lframe_trans [OF t(4) u(3)])
    have pu: "mem u = mem s" "pr u p = pr s p" "curproc u = Some p" "held u = []"
      using lframe_fs(3) [OF su] lframe_fields(9,10,11) [OF su] fsx_proc [OF less.prems(1)] by simp_all
    have len: "length ?xs < 2 ^ 64" "length (?xs @ ?ys) < 2 ^ 64" using less.prems(4) sg(4) by simp_all
    let ?r = "dst_room (mem s) ?pt dst (length ?xs)"
    obtain m1 where m1: "either_copyout dst ?xs u = Inr (if ?r = length ?xs then 0 else - 1, u\<lparr>mem := m1\<rparr>)" "delivered (mem s) ?pt dst (take ?r ?xs) m1"
      using either_copyout_spec [of u p dst ?xs] less.prems(6) pu len(1) by auto
    obtain v where v: "brelse c (u\<lparr>mem := m1\<rparr>) = Inr v" "fsx p K k v {}" "blk v = blk s" "lframe p (t\<lparr>mem := m1\<rparr>) v"
      using rel [of m1] t(3) by auto
    have fr: "lframe p (s\<lparr>mem := m1\<rparr>) v" by (rule lframe_trans [OF lframe_mem [OF t(4)] v(4)])
    note e = lframe_fs(1,2,3,7) [OF fr] lframe_fields(7,11) [OF fr]
    have mv: "mem v = m1" "pr v p = pr s p" "ino v = ino s" "loggable v = loggable s" "sb v = sb s" "itable v = itable s"
      using e by (simp_all add: pr_def ino_def loggable_def log_area_def fun_eq_iff)
    have dev: "i_dev (ino t ip) = ROOTDEV" using less.prems(3) lframe_fs(7) [OF t(4)] by (simp add: file_ok_def)
    have step: "readi_loop ip dst off n tot s = (if ?r = length ?xs
        then andthen (readi_loop ip (dest_add dst ?m) (off + ?m) (n - ?m) (tot + ?m) v) (\<lambda>(r, bs, w). Inr (r, ?xs @ bs, w))
        else Inr (- 1, [], v))"
      using n b t(1,3) u(1,2) v(1) m1(1) g dev by (simp add: readi_loop.simps [of ip dst off n] Let_def del: BSIZE_def)
    show ?thesis
    proof (cases "?r = length ?xs")
      case False
      have "read_post (mem s) ?pt dst tot (?xs @ ?ys) (- 1) [] (mem v)"
        unfolding mv(1) by (rule read_post_stop [OF False m1(2)])
      then show ?thesis using step False v fr mv(1) unfolding sp by simp
    next
      case True
      then have d1: "delivered (mem s) ?pt dst ?xs m1" using m1(2) by simp
      have lx: "length ?xs = ?m" by simp
      have "ino v ip = (ino s ip)\<lparr>i_size := i_size (ino s ip)\<rparr>" "length (itable v) = length (itable s)" by (simp_all add: mv)
      note sz = size_irrelevant [OF this(1) v(3) mv(5,4) this(2)]
      have pv: "present v ip (off + ?m) (n - ?m)" using less.prems(5) sz(3) by (auto simp: present_def)
      have dv: "dst_ok (mem v) (p_pagetable (pr v p)) (dest_add dst ?m)"
        using delivered_next(1) [OF less.prems(6) d1 lx [symmetric]] by (simp add: mv)
      have "returns (readi_loop ip (dest_add dst ?m) (off + ?m) (n - ?m) (tot + ?m) v) (\<lambda>(r, bs, w). fsx p K k w {} \<and> blk w = blk v \<and>
          lframe p (v\<lparr>mem := mem w\<rparr>) w \<and>
          read_post (mem v) (p_pagetable (pr v p)) (dest_add dst ?m) (tot + ?m) (map (fcont v ip) [off + ?m..<off + ?m + (n - ?m)]) r bs (mem w))"
        by (rule less.IH [OF _ v(2) _ _ _ pv dv]) (use seg_pos [OF n, of off] sg(4) n sz less.prems(2-4) in simp_all)
      then obtain r bs w where w: "readi_loop ip (dest_add dst ?m) (off + ?m) (n - ?m) (tot + ?m) v = Inr (r, bs, w)"
        "fsx p K k w {}" "blk w = blk s" "lframe p (v\<lparr>mem := mem w\<rparr>) w"
        "read_post m1 ?pt (dest_add dst ?m) (tot + ?m) ?ys r bs (mem w)" using sg(4) sz(4) v(3) mv(1,2) by (auto simp: returns_iff)
      have "read_post (mem s) ?pt dst tot (?xs @ ?ys) r (?xs @ bs) (mem w)"
        using w(5) by (intro read_post_next [OF less.prems(6) True d1 len(2)]) (simp only: lx)
      moreover have "lframe p (s\<lparr>mem := mem w\<rparr>) w" using lframe_mem [OF fr, of "mem w"] w(4) by (auto intro: lframe_trans)
      ultimately show ?thesis using step True w(1-3) unfolding sp by simp
    qed
  qed
qed


text \<open>
  C6: reading a file. \<open>readi\<close> reads the bytes of the file from \<open>off\<close> on, up to \<open>n\<close> of them or the end of the file; if \<open>off\<close> is behind
  the end of the file or \<open>off + n\<close> overflows the 32-bit arithmetic of the code, there are none. When the destination can take them all, as
  an address or an object of the kernel always can, they are there afterwards and \<open>readi\<close> returns their number. When the destination
  is a range of user memory with a hole, \<open>readi\<close> returns \<open>-1\<close> and exactly the bytes in front of the hole are there. Nothing
  else of the memory changes, and no block and no inode.
\<close>

theorem readi_correct:
  assumes "fsx p K k s {}" "file_inv s ip" "off < 2 ^ 32" "n < 2 ^ 32" "dst_ok (mem s) (p_pagetable (pr s p)) dst"
    "xs = (if off \<le> i_size (ino s ip) \<and> off + n < 2 ^ 32 then map (fcont s ip) [off..<min (off + n) (i_size (ino s ip))] else [])"
  shows "returns (readi ip dst off n s) (\<lambda>(r, bs, t). blk t = blk s \<and> itable t = itable s \<and>
     (if dst_room (mem s) (p_pagetable (pr s p)) dst (length xs) = length xs then r = int (length xs) \<and> bs = xs else r = - 1) \<and>
     delivered (mem s) (p_pagetable (pr s p)) dst (take (dst_room (mem s) (p_pagetable (pr s p)) dst (length xs)) xs) (mem t))"
proof (cases "off \<le> i_size (ino s ip) \<and> off + n < 2 ^ 32")
  case True
  let ?sz = "i_size (ino s ip)" and ?pt = "p_pagetable (pr s p)"
  define m where "m = (if off + n > ?sz then ?sz - off else n)"
  have inv: "fs_ok s" "file_ok s ip" "present s ip 0 ?sz" "?sz \<le> MAXFILE * BSIZE" using assms(2) by (simp_all add: file_inv_def)
  have om: "off + m = min (off + n) ?sz" using True by (auto simp: m_def)
  then have le: "off + m \<le> MAXFILE * BSIZE" using inv(4) by simp
  have xs: "xs = map (fcont s ip) [off..<off + m]" using True assms(6) om by simp
  have "present s ip off m" using inv(3) om by (auto simp: present_def)
  then have l: "returns (readi_loop ip dst off m 0 s) (\<lambda>(r, bs, t). fsx p K k t {} \<and> blk t = blk s \<and> lframe p (s\<lparr>mem := mem t\<rparr>) t \<and>
     read_post (mem s) ?pt dst 0 xs r bs (mem t))"
    unfolding xs by (rule readi_loop_spec [OF assms(1) inv(1,2) le _ assms(5)])
  have rd: "readi ip dst off n s = readi_loop ip dst off m 0 s" using True by (simp add: readi_def add32_def m_def)
  have it: "itable t = itable s" if "lframe p (s\<lparr>mem := mem t\<rparr>) t" for t using lframe_fs(2) [OF that] by simp
  from l show ?thesis unfolding rd read_post_def split_beta add_0 by (rule returns_mono) (blast intro: it)
next
  case False
  have "add32 off n = (if off + n < 2 ^ 32 then off + n else off + n - 2 ^ 32)" using assms(3,4) by (simp add: add32_def mod_if)
  then have "readi ip dst off n s = Inr (0, [], s)" using False assms(3,4) by (auto simp: readi_def Let_def)
  moreover have xs: "xs = []" using assms(6) unfolding if_not_P [OF False] .
  ultimately show ?thesis by (simp add: dst_room_def delivered_def split: dest.split)
qed

subsection \<open>A small file\<close>

definition demo_bitmap2 :: block where
  "demo_bitmap2 = replicate 5 0xff @ [0x3f] @ replicate 1018 0"

lemma demo_bitmap2_free: "b < 48 \<Longrightarrow> bit_free demo_bitmap2 b \<longleftrightarrow> b \<in> {46, 47}"
proof -
  assume b: "b < 48"
  have n: "demo_bitmap2 ! i = (if i < 5 then 0xff else if i = 5 then 0x3f else 0)" if "i < 6" for i
    using that by (simp add: demo_bitmap2_def nth_append)
  have m: "(0xff :: uchar) = mask 8" "(0x3f :: uchar) = mask 6" by (simp_all add: mask_eq_exp_minus_1)
  have "b div 8 < 6" using b by simp
  then show "bit_free demo_bitmap2 b \<longleftrightarrow> b \<in> {46, 47}"
    unfolding bit_free_iff n [OF \<open>b div 8 < 6\<close>] using b by (auto simp: m bit_mask_iff) presburger+
qed

definition demo_file :: inode where
  "demo_file = demo_inode\<lparr>i_dev := ROOTDEV, i_inum := 3, i_ref := 1, i_valid := True, i_type := T_FILE\<rparr>"

lemma demo_file_fs:
  obtains s :: fsst where "fsx 2 {32, 45} 2 s {}" "file_inv s 0" "bitmap_blocks s = {45}" "nfree s = 2" "IBLOCK 3 (sb s) = 32" "ino s 0 = demo_file"
proof -
  have pl: "\<forall>w \<in> set [(45, demo_bitmap2)]. length (snd w) = BSIZE" "\<forall>w \<in> set [(45 :: nat, demo_bitmap2)]. fst w \<noteq> 2"
    by (simp_all add: demo_bitmap2_def)
  obtain s :: fsst where s: "tx 2 s {}" "logged s = []" "l_start s = 2" "l_size s = 30" "blk s = disk_block [(45, demo_bitmap2)]" "sb s = demo_sb" "itable s = [demo_file]"
    by (rule demo_fs_tx [OF pl])
  have B: "BBLOCK b demo_sb = 45" if "b < 48" for b using that by (simp add: BBLOCK_def demo_sb_def)
  have z: "sb_size demo_sb = 48" "sb_ninodes demo_sb = 200" by (simp_all add: demo_sb_def)
  have m: "blk s 45 = demo_bitmap2" by (simp add: s(5) disk_block_def)
  have bm: "bitmap_blocks s = {45}" using B by (auto simp: bitmap_blocks_def s(6) z intro!: rev_image_eqI [of 0])
  have f: "free_block s b \<longleftrightarrow> b \<in> {46, 47}" for b using B [of b] demo_bitmap2_free [of b] m by (auto simp: free_block_def s(6) z)
  have ib: "inode_blocks s \<subseteq> {32..<45}" by (auto simp: inode_blocks_def IBLOCK_def s(6) z) (auto simp: demo_sb_def)
  have mo: "map_ok s" using s(3,4) by (auto simp: map_ok_def bm f loggable_def log_area_def)
  have fo: "fs_ok s" unfolding fs_ok_def bm using mo ib s(3,4) by (auto simp: f loggable_def log_area_def)
  have i: "ino s 0 = demo_file" by (simp add: ino_def s(7))
  have a: "i_addrs demo_file = replicate 13 0" by (simp add: demo_file_def demo_inode_def del: replicate_Suc)
  have "fmap (replicate 13 0) g m = 0" if "m < MAXFILE" for g m using that by (simp add: fmap_def del: replicate_Suc)
  moreover have "i_dev demo_file = ROOTDEV" "i_inum demo_file < 200" by (simp_all add: demo_file_def)
  ultimately have "file_ok s 0" by (simp add: file_ok_def i a fok_def s(6,7) z del: replicate_Suc)
  then have inv: "file_inv s 0" using fo by (simp add: file_inv_def i demo_file_def demo_inode_def present_def)
  have "{b. free_block s b} = {46, 47}" by (auto simp: f)
  then have nf: "nfree s = 2" by (simp add: nfree_def)
  have "fsx 2 {32, 45} 2 s {}" using s by (simp add: fsx_def)
  then show thesis using that inv bm nf i by (simp add: s(6) demo_sb_def IBLOCK_def)
qed

theorem writei_correct_witness:
  "\<exists>s :: fsst. returns (writei 0 (KernelSrc [7, 8, 9]) 0 3 s) (\<lambda>(r, t). r = 3 \<and> i_size (ino t 0) = 3 \<and> fcont t 0 1 = 8) \<and> i_size (ino s 0) = 0 \<and>
     writei 0 (KernelSrc [7]) 1 1 s = Inr (- 1, s)"
proof -
  obtain s :: fsst where s: "fsx 2 {32, 45} 2 s {}" "file_inv s 0" "bitmap_blocks s = {45}" "nfree s = 2" "IBLOCK 3 (sb s) = 32" "ino s 0 = demo_file"
    by (rule demo_file_fs)
  have n: "nblk 0 3 = 1" "nblk 1 1 = 1" by (simp_all add: nblk_def)
  have d: "i_size demo_file = 0" "i_inum demo_file = 3" by (simp_all add: demo_file_def demo_inode_def)
  have "returns (writei 0 (KernelSrc [7, 8, 9]) 0 3 s) (\<lambda>(r, t). r = 3 \<and> i_size (ino t 0) = 3 \<and> fcont t 0 1 = 8)"
    using writei_correct [of 2 "{32, 45}" 0 3 0 s 0 "KernelSrc [7, 8, 9]" "[7, 8, 9]"] s n d by (auto simp: src_bytes_def elim!: returns_mono)
  moreover have "writei 0 (KernelSrc [7]) 1 1 s = Inr (- 1, s)"
    using writei_correct [of 2 "{32, 45}" 1 1 0 s 0 "KernelSrc [7]" "[7]"] s n d by (simp add: src_bytes_def)
  ultimately show ?thesis using s(6) d by auto
qed

text \<open>The same state with another memory and page table for the process.\<close>

lemma fsx_user:
  assumes f: "fsx p K k s {}" "file_inv s ip"
    and t_def: "t = s\<lparr>mem := m, ptable := (ptable s)[p := (pr s p)\<lparr>p_pagetable := q\<rparr>]\<rparr>"
  shows "fsx p K k t {}" "file_inv t ip" "ino t = ino s" "fcont t ip = fcont s ip" "mem t = m" "p_pagetable (pr t p) = q"
proof -
  have c: "blk t = blk s" "refs t = refs s" "blk_locked t = blk_locked s" "bcache_ok t = bcache_ok s" by (rule cache_cong; simp add: t_def)+
  have i: "in_proc p s" using f(1) by (rule fsx_in_proc)
  then have "in_proc p t" by (simp add: in_proc_def pr_def t_def)
  then have "tx p t {}" using fsx_tx [OF f(1)] unfolding tx_def cst_def io_ok_def c
    by (simp add: t_def log_shape_def logged_def log_area_def)
  then show "fsx p K k t {}" using f(1) by (simp add: fsx_def t_def logged_def)
  have e: "ino t = ino s" "sb t = sb s" "loggable t = loggable s" "length (itable t) = length (itable s)"
    by (simp_all add: t_def ino_def loggable_def log_area_def fun_eq_iff)
  have "ino t ip = (ino s ip)\<lparr>i_size := i_size (ino s ip)\<rparr>" by (simp add: e)
  note sz = size_irrelevant [OF this c(1) e(2-4)]
  show "file_inv t ip" using f(2) sz(1-3) e(1) present_cong [OF sz(3)] by (simp add: file_inv_def)
  show "fcont t ip = fcont s ip" by (rule sz(4))
  show "ino t = ino s" by (rule e)
  show "mem t = m" "p_pagetable (pr t p) = q" using i by (simp_all add: t_def in_proc_def pr_def)
qed

theorem readi_correct_witness:
  "\<exists>s :: fsst. returns (readi 0 ObjectDst 1 100 s) (\<lambda>(r, bs, t). r = 2 \<and> bs = [8, 9]) \<and>
     returns (readi 0 (UserDst 0x10) 1 100 s) (\<lambda>(r, bs, t). r = 2 \<and> umem (mem t) 0x80001000 0x11 = Some 9) \<and>
     returns (readi 0 (UserDst 0xfff) 1 100 s) (\<lambda>(r, bs, t). r = - 1 \<and> umem (mem t) 0x80001000 0xfff = Some 8)"
proof -
  obtain s :: fsst where s: "fsx 2 {32, 45} 2 s {}" "file_inv s 0" "bitmap_blocks s = {45}" "nfree s = 2" "IBLOCK 3 (sb s) = 32" "ino s 0 = demo_file"
    by (rule demo_file_fs)
  have n: "nblk 0 3 = 1" by (simp add: nblk_def)
  have d: "i_size demo_file = 0" "i_inum demo_file = 3" by (simp_all add: demo_file_def demo_inode_def)
  obtain w K' where "writei 0 (KernelSrc [7, 8, 9]) 0 3 s = Inr (int 3, w)" "{32, 45} \<subseteq> K'" and w: "fsx 2 K' 0 w {}" "file_inv w 0"
    and "fframe 2 s w" and w3: "i_size (ino w 0) = max (i_size (ino s 0)) (0 + 3)" and "\<forall>j. j \<noteq> 0 \<longrightarrow> ino w j = ino s j"
    and w4: "\<forall>i < MAXFILE * BSIZE. fcont w 0 i = (if 0 \<le> i \<and> i < 0 + 3 then [7, 8, 9] ! (i - 0) else fcont s 0 i)"
    by (rule writei_spec [of 2 "{32, 45}" 0 3 0 s 0 "KernelSrc [7, 8, 9]" "[7, 8, 9]"]) (use s n d in \<open>simp_all add: src_bytes_def\<close>)
  define t where "t = w\<lparr>mem := demo_mem, ptable := (ptable w)[2 := (pr w 2)\<lparr>p_pagetable := 0x80001000\<rparr>]\<rparr>"
  note t = fsx_user [OF w(1,2) t_def]
  have sz: "i_size (ino t 0) = 3" using w3 s(6) d t(3) by simp
  have "map (fcont w 0) [1..<3] = [8, 9]" using w4 by (simp add: upt_rec)
  then have xs: "[8, 9] = (if 1 \<le> i_size (ino t 0) \<and> 1 + 100 < (2 :: nat) ^ 32
      then map (fcont t 0) [1..<min (1 + 100) (i_size (ino t 0))] else [])" using sz t(4) by simp
  have ok: "dst_ok (mem t) (p_pagetable (pr t 2)) dst" for dst
    using demo_good demo_inj t(5,6) by (simp add: dst_ok_def split: dest.split)
  have u: "umem demo_mem 0x80001000 0x10 \<noteq> None" "umem demo_mem 0x80001000 0x11 \<noteq> None"
      "umem demo_mem 0x80001000 0xfff \<noteq> None" "umem demo_mem 0x80001000 0x1000 = None"
    by (simp_all add: demo_umem)
  have rm: "dst_room (mem t) (p_pagetable (pr t 2)) (UserDst 0x10) (length [8, 9 :: uchar]) = 2"
      "dst_room (mem t) (p_pagetable (pr t 2)) (UserDst 0xfff) (length [8, 9 :: uchar]) = 1"
      "dst_room (mem t) (p_pagetable (pr t 2)) ObjectDst (length [8, 9 :: uchar]) = 2"
    using u t(5,6) by (auto simp: dst_room_def)
  have a: "(1 :: nat) < 2 ^ 32" "(100 :: nat) < 2 ^ 32" by simp_all
  note rd = readi_correct [OF t(1,2) a ok xs]
  have "returns (readi 0 ObjectDst 1 100 t) (\<lambda>(r, bs, t). r = 2 \<and> bs = [8, 9])"
    using rd [of ObjectDst] unfolding rm by (rule returns_mono) (simp add: split_beta)
  moreover have "returns (readi 0 (UserDst 0x10) 1 100 t) (\<lambda>(r, bs, t). r = 2 \<and> umem (mem t) 0x80001000 0x11 = Some 9)"
    using rd [of "UserDst 0x10"] unfolding rm by (rule returns_mono) (simp add: split_beta delivered_def t(5,6) upd_bytes_def)
  moreover have "returns (readi 0 (UserDst 0xfff) 1 100 t) (\<lambda>(r, bs, t). r = - 1 \<and> umem (mem t) 0x80001000 0xfff = Some 8)"
    using rd [of "UserDst 0xfff"] unfolding rm by (rule returns_mono) (simp add: split_beta delivered_def t(5,6) upd_bytes_def)
  ultimately show ?thesis by blast
qed

end
