(* ===== verification/Hart.thy ===== *)
theory Hart
  imports Kstring
begin

section \<open>The assembly code and the start of a hart\<close>

text \<open>
  The code of the kernel that is not C, instruction by instruction, on a model of one hart: \<^verbatim>\<open>swtch.S\<close>,
  \<^verbatim>\<open>trampoline.S\<close>, \<^verbatim>\<open>kernelvec.S\<close> and \<^verbatim>\<open>entry.S\<close>; and \<^verbatim>\<open>start.c\<close> with the accessors of the control and status
  registers of \<^verbatim>\<open>riscv.h\<close>. The C code sees of all this that registers survive: a user program does not notice a trap, a
  kernel thread does not notice that it gave up the CPU, and neither notices a timer interrupt.

  A hart has the 32 registers, the control and status registers, a privilege mode and memory. \<open>tr\<close> is the translation of
  virtual addresses by the page table a value of \<open>satp\<close> stands for; it is a parameter, since the hardware walks the
  table. In machine mode addresses are physical. \<open>hpc\<close> is the target of the last jump, or the interrupted instruction. \<open>take_trap\<close>
  is what the hardware does at a trap into the kernel. Of \<^verbatim>\<open>trap.c\<close> the theory has the part that works on the hart: what
  \<^verbatim>\<open>usertrap\<close>, \<^verbatim>\<open>usertrapret\<close> and \<^verbatim>\<open>kerneltrap\<close> do with the control and status registers and the trapframe. What
  the kernel does in between is arbitrary.
\<close>

subsection \<open>The hart\<close>

datatype reg = ZERO | RA | SP | GP | TP | T0 | T1 | T2 | S0 | S1 | A0 | A1 | A2 | A3 | A4 | A5 | A6 | A7
  | S2 | S3 | S4 | S5 | S6 | S7 | S8 | S9 | S10 | S11 | T3 | T4 | T5 | T6

datatype csr = Mhartid | Mstatus | Mepc | Sstatus | Sip | Sie | Mie | Sepc | Medeleg | Mideleg | Stvec | Mtvec | Pmpcfg0 | Pmpaddr0
  | Satp | Sscratch | Mscratch | Scause | Stval | Mcounteren | Time

datatype priv = User | Supervisor | Machine

record hart =
  regs :: "reg \<Rightarrow> uint64"
  csrs :: "csr \<Rightarrow> uint64"
  hpriv :: priv
  hpc :: uint64
  hmem :: memory

datatype instr =
    LD reg nat reg | SD reg nat reg | LI reg uint64 | ADDI reg reg int | ADD reg reg reg | MUL reg reg reg
  | CSRR reg csr | CSRW csr reg | CSRRW reg csr reg | SFENCE | JR reg | SRET | MRET

definition set_reg :: "reg \<Rightarrow> uint64 \<Rightarrow> hart \<Rightarrow> hart" where
  "set_reg r v h = (if r = ZERO then h else h\<lparr>regs := (regs h)(r := v)\<rparr>)"

definition set_csr :: "csr \<Rightarrow> uint64 \<Rightarrow> hart \<Rightarrow> hart" where
  "set_csr c v h = h\<lparr>csrs := (csrs h)(c := v)\<rparr>"

definition eff :: "(uint64 \<Rightarrow> uint64 \<Rightarrow> uint64) \<Rightarrow> hart \<Rightarrow> uint64 \<Rightarrow> uint64" where
  "eff tr h a = (if hpriv h = Machine then a else tr (csrs h Satp) a)"

text \<open>The previous mode in \<open>mstatus\<close>, and the returns from a trap, which also restore the interrupt enable bit.\<close>

definition MSTATUS_MPP_MASK :: uint64 where [simp, code_unfold]: "MSTATUS_MPP_MASK = push_bit 11 3"
definition MSTATUS_MPP_S :: uint64 where [simp, code_unfold]: "MSTATUS_MPP_S = push_bit 11 1"
definition MSTATUS_MIE :: uint64 where [simp, code_unfold]: "MSTATUS_MIE = push_bit 3 1"

definition mpp :: "uint64 \<Rightarrow> priv" where
  "mpp x = (if bit x 12 then Machine else if bit x 11 then Supervisor else User)"

definition do_mret :: "hart \<Rightarrow> hart" where
  "do_mret h = (let x = csrs h Mstatus; y = (if bit x 7 then set_bit 3 x else unset_bit 3 x) in
     (set_csr Mstatus (unset_bit 11 (unset_bit 12 (set_bit 7 y))) h)\<lparr>hpriv := mpp x, hpc := csrs h Mepc\<rparr>)"

definition do_sret :: "hart \<Rightarrow> hart" where
  "do_sret h = (let x = csrs h Sstatus; y = (if bit x 5 then set_bit 1 x else unset_bit 1 x) in
     (set_csr Sstatus (unset_bit 8 (set_bit 5 y)) h)\<lparr>hpriv := (if bit x 8 then Supervisor else User), hpc := csrs h Sepc\<rparr>)"

text \<open>
  A trap from user or supervisor mode, delegated to supervisor mode: the interrupt enable bit and the mode go to \<open>sstatus\<close>, interrupts
  are off, and the hart continues at \<open>stvec\<close>.
\<close>

definition take_trap :: "uint64 \<Rightarrow> uint64 \<Rightarrow> hart \<Rightarrow> hart" where
  "take_trap cause tval h =
     (let x = csrs h Sstatus;
          y = (if bit x 1 then set_bit 5 x else unset_bit 5 x);
          z = (if hpriv h = Supervisor then set_bit 8 y else unset_bit 8 y)
      in h\<lparr>csrs := (csrs h)(Sstatus := unset_bit 1 z, Sepc := hpc h, Scause := cause, Stval := tval),
           hpriv := Supervisor, hpc := csrs h Stvec\<rparr>)"

fun step :: "(uint64 \<Rightarrow> uint64 \<Rightarrow> uint64) \<Rightarrow> instr \<Rightarrow> hart \<Rightarrow> hart" where
  "step tr (LD r off b) h = set_reg r (load64 (hmem h) (eff tr h (regs h b + of_nat off))) h"
| "step tr (SD r off b) h = h\<lparr>hmem := store64 (eff tr h (regs h b + of_nat off)) (regs h r) (hmem h)\<rparr>"
| "step tr (LI r v) h = set_reg r v h"
| "step tr (ADDI r a i) h = set_reg r (regs h a + of_int i) h"
| "step tr (ADD r a b) h = set_reg r (regs h a + regs h b) h"
| "step tr (MUL r a b) h = set_reg r (regs h a * regs h b) h"
| "step tr (CSRR r c) h = set_reg r (csrs h c) h"
| "step tr (CSRW c r) h = set_csr c (regs h r) h"
| "step tr (CSRRW r c a) h = set_reg r (csrs h c) (set_csr c (regs h a) h)"
| "step tr SFENCE h = h"
| "step tr (JR r) h = h\<lparr>hpc := regs h r\<rparr>"
| "step tr SRET h = do_sret h"
| "step tr MRET h = do_mret h"

definition run :: "(uint64 \<Rightarrow> uint64 \<Rightarrow> uint64) \<Rightarrow> instr list \<Rightarrow> hart \<Rightarrow> hart" where
  "run tr = fold (step tr)"

subsection \<open>The code\<close>

text \<open>\<^verbatim>\<open>swtch(old, new)\<close>.\<close>

definition swtch :: "instr list" where
  "swtch = [
     SD RA 0 A0, SD SP 8 A0, SD S0 16 A0, SD S1 24 A0, SD S2 32 A0, SD S3 40 A0, SD S4 48 A0, SD S5 56 A0,
     SD S6 64 A0, SD S7 72 A0, SD S8 80 A0, SD S9 88 A0, SD S10 96 A0, SD S11 104 A0,
     LD RA 0 A1, LD SP 8 A1, LD S0 16 A1, LD S1 24 A1, LD S2 32 A1, LD S3 40 A1, LD S4 48 A1, LD S5 56 A1,
     LD S6 64 A1, LD S7 72 A1, LD S8 80 A1, LD S9 88 A1, LD S10 96 A1, LD S11 104 A1,
     JR RA]"



text \<open>\<^verbatim>\<open>kernelvec\<close> up to and after its call of \<^verbatim>\<open>kerneltrap\<close>, and \<^verbatim>\<open>timervec\<close>.\<close>

definition kernelvec_save :: "instr list" where
  "kernelvec_save = [
     ADDI SP SP (- 256),
     SD RA 0 SP, SD SP 8 SP, SD GP 16 SP, SD TP 24 SP, SD T0 32 SP, SD T1 40 SP, SD T2 48 SP, SD S0 56 SP, SD S1 64 SP,
     SD A0 72 SP, SD A1 80 SP, SD A2 88 SP, SD A3 96 SP, SD A4 104 SP, SD A5 112 SP, SD A6 120 SP, SD A7 128 SP,
     SD S2 136 SP, SD S3 144 SP, SD S4 152 SP, SD S5 160 SP, SD S6 168 SP, SD S7 176 SP, SD S8 184 SP, SD S9 192 SP,
     SD S10 200 SP, SD S11 208 SP, SD T3 216 SP, SD T4 224 SP, SD T5 232 SP, SD T6 240 SP]"

definition kernelvec_restore :: "instr list" where
  "kernelvec_restore = [
     LD RA 0 SP, LD SP 8 SP, LD GP 16 SP, LD T0 32 SP, LD T1 40 SP, LD T2 48 SP, LD S0 56 SP, LD S1 64 SP,
     LD A0 72 SP, LD A1 80 SP, LD A2 88 SP, LD A3 96 SP, LD A4 104 SP, LD A5 112 SP, LD A6 120 SP, LD A7 128 SP,
     LD S2 136 SP, LD S3 144 SP, LD S4 152 SP, LD S5 160 SP, LD S6 168 SP, LD S7 176 SP, LD S8 184 SP, LD S9 192 SP,
     LD S10 200 SP, LD S11 208 SP, LD T3 216 SP, LD T4 224 SP, LD T5 232 SP, LD T6 240 SP,
     ADDI SP SP 256,
     SRET]"

definition kernelvec :: "(uint64 \<Rightarrow> uint64 \<Rightarrow> uint64) \<Rightarrow> (hart \<Rightarrow> hart) \<Rightarrow> hart \<Rightarrow> hart" where
  "kernelvec tr kerneltrap h = run tr kernelvec_restore (kerneltrap (run tr kernelvec_save h))"



text \<open>\<^verbatim>\<open>kerneltrap\<close> around the work it does for the device or the timer, \<open>body\<close>, in which it may give up the CPU.\<close>

definition kerneltrap_hart :: "(hart \<Rightarrow> hart) \<Rightarrow> hart \<Rightarrow> hart" where
  "kerneltrap_hart body h =
     (let epc = csrs h Sepc;
          status = csrs h Sstatus;
          h = body h;
          h = set_csr Sepc epc h
      in set_csr Sstatus status h)"

definition timervec :: "instr list" where
  "timervec = [
     CSRRW A0 Mscratch A0, SD A1 0 A0, SD A2 8 A0, SD A3 16 A0,
     LD A1 24 A0, LD A2 32 A0, LD A3 0 A1, ADD A3 A3 A2, SD A3 0 A1,
     LI A1 2, CSRW Sip A1,
     LD A3 16 A0, LD A2 8 A0, LD A1 0 A0, CSRRW A0 Mscratch A0,
     MRET]"

text \<open>\<^verbatim>\<open>_entry\<close> with the address of \<^verbatim>\<open>stack0\<close>, up to the call of \<^verbatim>\<open>start\<close>.\<close>

definition entry_code :: "uint64 \<Rightarrow> instr list" where
  "entry_code stack0 = [LI SP stack0, LI A0 (1024 * 4), CSRR A1 Mhartid, ADDI A1 A1 1, MUL A0 A0 A1, ADD SP SP A0]"

subsection \<open>Saving and restoring registers\<close>

lemma load64_apart:
  assumes "8 \<le> unat (b - a)" "8 \<le> unat (a - b)"
  shows "load64 (store64 a v m) b = load64 m b"
proof (rule load64_cong)
  fix k :: nat assume k: "k < 8"
  have "unat (b - a) \<le> 2 ^ 64 - 8" using assms unat_sub_if' [of b a] unat_sub_if' [of a b] by (simp split: if_splits)
  then have "unat ((b - a) + of_nat k) = unat (b - a) + unat (of_nat k :: uint64)"
    using k by (intro unat_add_small) (simp add: unat_of_nat)
  then have "8 \<le> unat (b + of_nat k - a)" using assms(1) by (simp add: algebra_simps)
  then show "store64 a v m (b + of_nat k) = m (b + of_nat k)" by (rule store64_other)
qed

definition aligned_off :: "nat \<Rightarrow> bool" where
  "aligned_off off \<longleftrightarrow> off mod 8 = 0 \<and> off < 4096"

lemma off_apart:
  assumes "aligned_off i" "aligned_off j" "i \<noteq> j"
  shows "8 \<le> unat ((a + of_nat i :: uint64) - (a + of_nat j))"
proof -
  have m: "i mod 8 = 0" "j mod 8 = 0" "i < 4096" "j < 4096" using assms by (simp_all add: aligned_off_def)
  have e: "(a + of_nat i :: uint64) - (a + of_nat j) = of_nat i - of_nat j" by simp
  have u: "unat (of_nat i :: uint64) = i" "unat (of_nat j :: uint64) = j" using m by (simp_all add: unat_of_nat)
  have "8 \<le> i - j \<or> 8 \<le> j - i" using assms(3) m by (auto elim!: dvdE simp: mod_eq_0_iff_dvd)
  then show ?thesis unfolding e unat_sub_if' u using m by auto
qed

lemma load64_off:
  "aligned_off i \<Longrightarrow> aligned_off j \<Longrightarrow> i \<noteq> j \<Longrightarrow> load64 (store64 (a + of_nat j) v m) (a + of_nat i) = load64 m (a + of_nat i)"
  by (intro load64_apart off_apart) auto

type_synonym slots = "(reg \<times> nat) list"

definition slots_ok :: "slots \<Rightarrow> bool" where
  "slots_ok rs \<longleftrightarrow> distinct (map snd rs) \<and> distinct (map fst rs) \<and> (\<forall>off \<in> snd ` set rs. aligned_off off) \<and> ZERO \<notin> fst ` set rs"

definition save_mem :: "uint64 \<Rightarrow> slots \<Rightarrow> (reg \<Rightarrow> uint64) \<Rightarrow> memory \<Rightarrow> memory" where
  "save_mem base rs g = fold (\<lambda>(r, off) m. store64 (base + of_nat off) (g r) m) rs"

lemma save_mem_other:
  assumes "\<forall>off \<in> snd ` set rs. aligned_off off" "aligned_off i" "i \<notin> snd ` set rs"
  shows "load64 (save_mem base rs g m) (base + of_nat i) = load64 m (base + of_nat i)"
  using assms by (induction rs arbitrary: m) (auto simp: save_mem_def load64_off)

lemma save_mem_get:
  assumes "distinct (map snd rs)" "\<forall>off \<in> snd ` set rs. aligned_off off" "(r, i) \<in> set rs"
  shows "load64 (save_mem base rs g m) (base + of_nat i) = g r"
  using assms
proof (induction rs arbitrary: m)
  case (Cons x rs)
  obtain r' j where x: "x = (r', j)" by (cases x)
  show ?case
  proof (cases "x = (r, i)")
    case True
    then have "i \<notin> snd ` set rs" "aligned_off i" using Cons.prems by auto
    then show ?thesis using Cons.prems(2) True save_mem_other [of rs i base g "store64 (base + of_nat i) (g r) m"] by (simp add: save_mem_def)
  next
    case False
    then have "(r, i) \<in> set rs" using Cons.prems(3) by auto
    then show ?thesis using Cons.IH Cons.prems(1,2) by (simp add: save_mem_def x)
  qed
qed simp

lemma run_simps [simp]: "run tr [] h = h" "run tr (i # is) h = run tr is (step tr i h)" "run tr (xs @ ys) h = run tr ys (run tr xs h)"
  by (simp_all add: run_def)

lemma set_reg_fields [simp]:
  "csrs (set_reg r v h) = csrs h" "hpriv (set_reg r v h) = hpriv h" "hmem (set_reg r v h) = hmem h" "hpc (set_reg r v h) = hpc h"
  "regs (set_reg r v h) = (if r = ZERO then regs h else (regs h)(r := v))"
  by (simp_all add: set_reg_def)

lemma set_csr_fields [simp]:
  "csrs (set_csr c v h) = (csrs h)(c := v)" "hpriv (set_csr c v h) = hpriv h" "hmem (set_csr c v h) = hmem h" "hpc (set_csr c v h) = hpc h" "regs (set_csr c v h) = regs h"
  by (simp_all add: set_csr_def)

lemma eff_fields [simp]: "eff tr (h\<lparr>hmem := m\<rparr>) = eff tr h" "eff tr (h\<lparr>regs := g\<rparr>) = eff tr h" "eff tr (set_reg r v h) = eff tr h"
  by (simp_all add: eff_def fun_eq_iff)

lemma run_save:
  assumes "\<forall>off \<in> snd ` set rs. eff tr h (regs h b + of_nat off) = base + of_nat off"
  shows "run tr (map (\<lambda>(r, off). SD r off b) rs) h = h\<lparr>hmem := save_mem base rs (regs h) (hmem h)\<rparr>"
  using assms
proof (induction rs arbitrary: h)
  case (Cons x rs)
  obtain r off where x: "x = (r, off)" by (cases x)
  let ?h = "h\<lparr>hmem := store64 (base + of_nat off) (regs h r) (hmem h)\<rparr>"
  have "\<forall>off \<in> snd ` set rs. eff tr ?h (regs ?h b + of_nat off) = base + of_nat off" using Cons.prems by simp
  from Cons.IH [OF this] show ?case using Cons.prems by (simp add: x save_mem_def)
qed (simp add: save_mem_def)

definition loaded :: "uint64 \<Rightarrow> slots \<Rightarrow> memory \<Rightarrow> (reg \<Rightarrow> uint64) \<Rightarrow> reg \<Rightarrow> uint64" where
  "loaded base rs m g r = (case map_of rs r of Some i \<Rightarrow> load64 m (base + of_nat i) | None \<Rightarrow> g r)"

lemma loaded_slot: "distinct (map fst rs) \<Longrightarrow> (r, i) \<in> set rs \<Longrightarrow> loaded base rs m g r = load64 m (base + of_nat i)"
  by (simp add: loaded_def)

lemma loaded_other: "r \<notin> fst ` set rs \<Longrightarrow> loaded base rs m g r = g r"
  by (simp add: loaded_def map_of_eq_None_iff [THEN iffD2])

lemma run_restore:
  assumes "\<forall>off \<in> snd ` set rs. eff tr h (regs h b + of_nat off) = base + of_nat off" "b \<notin> fst ` set rs" "distinct (map fst rs)" "ZERO \<notin> fst ` set rs"
  shows "run tr (map (\<lambda>(r, off). LD r off b) rs) h = h\<lparr>regs := loaded base rs (hmem h) (regs h)\<rparr>"
  using assms
proof (induction rs arbitrary: h)
  case (Cons x rs)
  obtain r off where x: "x = (r, off)" by (cases x)
  let ?h = "set_reg r (load64 (hmem h) (base + of_nat off)) h"
  have n: "r \<noteq> ZERO" "r \<noteq> b" "map_of rs r = None" using Cons.prems by (auto simp: x map_of_eq_None_iff)
  have "run tr (map (\<lambda>(r, off). LD r off b) rs) ?h = ?h\<lparr>regs := loaded base rs (hmem ?h) (regs ?h)\<rparr>"
    by (rule Cons.IH) (use Cons.prems n in \<open>auto simp: x\<close>)
  moreover have "run tr (map (\<lambda>(r, off). LD r off b) (x # rs)) h = run tr (map (\<lambda>(r, off). LD r off b) rs) ?h" using Cons.prems by (simp add: x)
  ultimately show ?case using n by (auto simp: x set_reg_def loaded_def fun_eq_iff split: option.split)
qed (simp add: loaded_def [abs_def])

subsection \<open>Traps from user space\<close>










lemma take_trap_fields [simp]:
  "regs (take_trap c v h) = regs h" "hmem (take_trap c v h) = hmem h" "hpriv (take_trap c v h) = Supervisor" "hpc (take_trap c v h) = csrs h Stvec"
  "csrs (take_trap c v h) Sepc = hpc h" "csrs (take_trap c v h) Satp = csrs h Satp" "csrs (take_trap c v h) Stvec = csrs h Stvec"
  "bit (csrs (take_trap c v h) Sstatus) 8 \<longleftrightarrow> hpriv h = Supervisor" "bit (csrs (take_trap c v h) Sstatus) 5 \<longleftrightarrow> bit (csrs h Sstatus) (Suc 0)"
  "\<not> bit (csrs (take_trap c v h) Sstatus) (Suc 0)"
  by (simp_all add: take_trap_def Let_def bit_set_bit_iff bit_unset_bit_iff)







subsection \<open>Switching between kernel threads\<close>

text \<open>Where \<^verbatim>\<open>struct context\<close> keeps the registers a function has to preserve.\<close>

definition ctx_slots :: slots where
  "ctx_slots = [(RA, 0), (SP, 8), (S0, 16), (S1, 24), (S2, 32), (S3, 40), (S4, 48), (S5, 56), (S6, 64), (S7, 72), (S8, 80), (S9, 88), (S10, 96), (S11, 104)]"

lemma ctx_slots_ok: "slots_ok ctx_slots" "A1 \<notin> fst ` set ctx_slots" "\<forall>off \<in> snd ` set ctx_slots. off < 112"
  by (simp_all add: slots_ok_def ctx_slots_def aligned_off_def)

lemma swtch_code: "swtch = map (\<lambda>(r, off). SD r off A0) ctx_slots @ map (\<lambda>(r, off). LD r off A1) ctx_slots @ [JR RA]"
  by (simp add: swtch_def ctx_slots_def)

text \<open>Addresses that are mapped to themselves, and ranges that do not overlap.\<close>

definition direct :: "(uint64 \<Rightarrow> uint64 \<Rightarrow> uint64) \<Rightarrow> uint64 \<Rightarrow> uint64 \<Rightarrow> nat \<Rightarrow> bool" where
  "direct tr satp a n \<longleftrightarrow> (\<forall>off < n. tr satp (a + of_nat off) = a + of_nat off)"

definition apart :: "nat \<Rightarrow> uint64 \<Rightarrow> uint64 \<Rightarrow> bool" where
  "apart n a b \<longleftrightarrow> n \<le> unat (b - a) \<and> n \<le> unat (a - b)"

lemma apart_off:
  assumes "apart n a b" "i + 8 \<le> n" "j + 8 \<le> n" "n < 4096"
  shows "8 \<le> unat ((b + of_nat i) - (a + of_nat j))"
proof -
  define d where "d = unat (b - a)"
  have "a \<noteq> b" using assms by (auto simp: apart_def)
  then have d: "n \<le> d" "d + n \<le> 2 ^ 64"
    using assms unat_sub_if' [of b a] unat_sub_if' [of a b] by (auto simp: apart_def d_def split: if_splits)
  have "(b + of_nat i) - (a + of_nat j) = of_nat (d + i - j)" using d assms(2,3) by (simp add: of_nat_diff d_def algebra_simps)
  moreover have "d + i - j < 2 ^ 64" using d assms(2) by simp
  ultimately have "unat ((b + of_nat i) - (a + of_nat j)) = d + i - j" by (simp add: unat_of_nat)
  then show ?thesis using d(1) assms(2,3) by simp
qed

lemma save_mem_apart:
  assumes "apart n a b" "\<forall>off \<in> snd ` set rs. off + 8 \<le> n" "i + 8 \<le> n" "n < 4096"
  shows "load64 (save_mem a rs g m) (b + of_nat i) = load64 m (b + of_nat i)"
  using assms(2)
proof (induction rs arbitrary: m)
  case (Cons x rs)
  obtain r j where x: "x = (r, j)" by (cases x)
  have j: "j + 8 \<le> n" using Cons.prems by (simp add: x)
  have "apart n b a" using assms(1) by (simp add: apart_def)
  then have "load64 (store64 (a + of_nat j) (g r) m) (b + of_nat i) = load64 m (b + of_nat i)"
    by (intro load64_apart apart_off [OF assms(1,3) j assms(4)] apart_off [OF _ j assms(3,4)])
  then show ?case using Cons by (simp add: save_mem_def x)
qed (simp add: save_mem_def)

lemma swtch_spec:
  assumes "hpriv h = Supervisor" "direct tr (csrs h Satp) (regs h A0) 112" "direct tr (csrs h Satp) (regs h A1) 112" "apart 112 (regs h A0) (regs h A1)"
  shows "run tr swtch h = h\<lparr>regs := loaded (regs h A1) ctx_slots (hmem h) (regs h), hpc := load64 (hmem h) (regs h A1),
     hmem := save_mem (regs h A0) ctx_slots (regs h) (hmem h)\<rparr>"
proof -
  let ?h = "h\<lparr>hmem := save_mem (regs h A0) ctx_slots (regs h) (hmem h)\<rparr>"
  have e: "\<forall>off \<in> snd ` set ctx_slots. eff tr h (regs h A0 + of_nat off) = regs h A0 + of_nat off" "\<forall>off \<in> snd ` set ctx_slots. eff tr ?h (regs ?h A1 + of_nat off) = regs h A1 + of_nat off"
    using assms(1-3) ctx_slots_ok(3) by (simp_all add: eff_def direct_def)
  have off: "\<forall>off \<in> snd ` set ctx_slots. off + 8 \<le> 112" by (simp add: ctx_slots_def)
  have d: "distinct (map fst ctx_slots)" "ZERO \<notin> fst ` set ctx_slots" using ctx_slots_ok(1) by (simp_all add: slots_ok_def)
  have "loaded (regs h A1) ctx_slots (hmem ?h) (regs h) = loaded (regs h A1) ctx_slots (hmem h) (regs h)"
  proof (rule ext)
    fix r
    have "load64 (hmem ?h) (regs h A1 + of_nat i) = load64 (hmem h) (regs h A1 + of_nat i)" if "map_of ctx_slots r = Some i" for i
    proof -
      have "i \<in> snd ` set ctx_slots" using map_of_SomeD [OF that] by (auto intro: rev_image_eqI)
      then have "i + 8 \<le> 112" using off by blast
      then show ?thesis using save_mem_apart [OF assms(4) off] by simp
    qed
    then show "loaded (regs h A1) ctx_slots (hmem ?h) (regs h) r = loaded (regs h A1) ctx_slots (hmem h) (regs h) r" by (simp add: loaded_def split: option.split)
  qed
  then have "run tr (map (\<lambda>(r, off). LD r off A1) ctx_slots) ?h = ?h\<lparr>regs := loaded (regs h A1) ctx_slots (hmem h) (regs h)\<rparr>"
    using run_restore [OF e(2) ctx_slots_ok(2) d] by simp
  moreover have "run tr (map (\<lambda>(r, off). SD r off A0) ctx_slots) h = ?h" by (rule run_save [OF e(1)])
  moreover have "loaded (regs h A1) ctx_slots (hmem h) (regs h) RA = load64 (hmem h) (regs h A1)"
    using loaded_slot [OF d(1), of RA 0] by (simp add: ctx_slots_def)
  ultimately show ?thesis by (simp add: swtch_code)
qed

text \<open>
  C13: a kernel thread does not notice that it was switched out. \<^verbatim>\<open>swtch(old, new)\<close> saves the callee-saved registers
  in \<open>old\<close>, loads them from \<open>new\<close> and continues at the return address found there; it changes no other register.
  A later \<^verbatim>\<open>swtch\<close> to \<open>old\<close>, from any thread and on any hart, returns to where the first was called with the same
  callee-saved registers, if nobody wrote to the saved context.
\<close>

theorem swtch_resumes:
  assumes "hpriv h = Supervisor" "direct tr (csrs h Satp) (regs h A0) 112" "direct tr (csrs h Satp) (regs h A1) 112" "apart 112 (regs h A0) (regs h A1)"
    "(r, i) \<in> set ctx_slots"
  shows "(let t = run tr swtch h in
       load64 (hmem t) (regs h A0 + of_nat i) = regs h r \<and> regs t r = load64 (hmem h) (regs h A1 + of_nat i) \<and> hpc t = load64 (hmem h) (regs h A1) \<and>
       (\<forall>q. q \<notin> fst ` set ctx_slots \<longrightarrow> regs t q = regs h q) \<and>
       (\<forall>k. hpriv k = Supervisor \<and> direct tr (csrs k Satp) (regs k A0) 112 \<and> direct tr (csrs k Satp) (regs k A1) 112 \<and> apart 112 (regs k A0) (regs k A1) \<and>
         regs k A1 = regs h A0 \<and> (\<forall>j \<in> snd ` set ctx_slots. load64 (hmem k) (regs h A0 + of_nat j) = load64 (hmem t) (regs h A0 + of_nat j)) \<longrightarrow>
         regs (run tr swtch k) r = regs h r \<and> hpc (run tr swtch k) = regs h RA))"
proof -
  note s = swtch_spec [OF assms(1-4)]
  have d: "distinct (map fst ctx_slots)" "distinct (map snd ctx_slots)" "\<forall>off \<in> snd ` set ctx_slots. aligned_off off" using ctx_slots_ok(1) by (simp_all add: slots_ok_def)
  have ra: "(RA, 0) \<in> set ctx_slots" by (simp add: ctx_slots_def)
  have sv: "load64 (hmem (run tr swtch h)) (regs h A0 + of_nat j) = regs h q" if "(q, j) \<in> set ctx_slots" for q j
    using save_mem_get [OF d(2,3) that] by (simp add: s)
  have "regs (run tr swtch k) r = regs h r \<and> hpc (run tr swtch k) = regs h RA"
    if "hpriv k = Supervisor" "direct tr (csrs k Satp) (regs k A0) 112" "direct tr (csrs k Satp) (regs k A1) 112" "apart 112 (regs k A0) (regs k A1)" "regs k A1 = regs h A0"
      "\<forall>j \<in> snd ` set ctx_slots. load64 (hmem k) (regs h A0 + of_nat j) = load64 (hmem (run tr swtch h)) (regs h A0 + of_nat j)" for k
  proof -
    note same = that(6)
    have "load64 (hmem k) (regs h A0 + of_nat j) = regs h q" if "(q, j) \<in> set ctx_slots" for q j
      using sv [OF that] bspec [OF same, of j] that by (force intro: rev_image_eqI)
    from this [OF assms(5)] this [OF ra] show ?thesis using swtch_spec [OF that(1-4)] loaded_slot [OF d(1) assms(5)] that(5) by simp
  qed
  note bk = this
  have "regs (run tr swtch h) r = load64 (hmem h) (regs h A1 + of_nat i)" "hpc (run tr swtch h) = load64 (hmem h) (regs h A1)"
    using loaded_slot [OF d(1) assms(5)] by (simp_all add: s)
  moreover have "regs (run tr swtch h) q = regs h q" if "q \<notin> fst ` set ctx_slots" for q using loaded_other [OF that] by (simp add: s)
  ultimately show ?thesis unfolding Let_def using sv [OF assms(5)] bk by blast
qed

subsection \<open>Traps from the kernel\<close>

definition kv_slots :: slots where
  "kv_slots = [(GP, 16), (T0, 32), (T1, 40), (T2, 48), (S0, 56), (S1, 64), (A0, 72), (A1, 80), (A2, 88), (A3, 96), (A4, 104), (A5, 112),
     (A6, 120), (A7, 128), (S2, 136), (S3, 144), (S4, 152), (S5, 160), (S6, 168), (S7, 176), (S8, 184), (S9, 192), (S10, 200), (S11, 208),
     (T3, 216), (T4, 224), (T5, 232), (T6, 240)]"

definition kv_saved :: slots where
  "kv_saved = [(RA, 0), (SP, 8), (GP, 16), (TP, 24)] @ tl kv_slots"

lemma kv_slots_ok: "slots_ok kv_slots" "slots_ok kv_saved" "SP \<notin> fst ` set kv_slots" "TP \<notin> fst ` set kv_slots" "RA \<notin> fst ` set kv_slots"
  "set kv_saved = {(RA, 0), (SP, 8), (TP, 24)} \<union> set kv_slots" "\<forall>off \<in> snd ` set kv_saved. off < 256"
proof -
  have "kv_slots = (GP, 16) # tl kv_slots" by (simp add: kv_slots_def)
  then have "set kv_slots = insert (GP, 16) (set (tl kv_slots))" by (metis list.simps(15))
  then show "set kv_saved = {(RA, 0), (SP, 8), (TP, 24)} \<union> set kv_slots" by (auto simp: kv_saved_def)
qed (simp_all add: slots_ok_def kv_slots_def kv_saved_def aligned_off_def)

lemma kernelvec_code:
  "kernelvec_save = [ADDI SP SP (- 256)] @ map (\<lambda>(r, off). SD r off SP) kv_saved"
  "kernelvec_restore = [LD RA 0 SP, LD SP 8 SP] @ map (\<lambda>(r, off). LD r off SP) kv_slots @ [ADDI SP SP 256, SRET]"
  by (simp_all add: kernelvec_save_def kernelvec_restore_def kv_saved_def kv_slots_def)

text \<open>
  What \<^verbatim>\<open>kernelvec\<close> relies on of the compiled C function it calls: it returns, possibly on another hart, with the
  stack pointer it was called with and with the caller's frame intact.
\<close>

definition c_call :: "uint64 \<Rightarrow> hart \<Rightarrow> hart \<Rightarrow> bool" where
  "c_call satp h k \<longleftrightarrow> regs k SP = regs h SP \<and> hpriv k = Supervisor \<and> csrs k Satp = satp \<and>
     (\<forall>off \<in> snd ` set kv_saved. load64 (hmem k) (regs h SP + of_nat off) = load64 (hmem h) (regs h SP + of_nat off))"

lemma kernelvec_spec:
  assumes "hpriv h = Supervisor" "direct tr (csrs h Satp) (regs h SP - 256) 256"
    "c_call (csrs h Satp) (run tr kernelvec_save h) (kerneltrap (run tr kernelvec_save h))" "r \<in> fst ` set kv_saved"
  shows "regs (kernelvec tr kerneltrap h) r = (if r = TP then regs (kerneltrap (run tr kernelvec_save h)) TP else regs h r) \<and>
     hpc (kernelvec tr kerneltrap h) = csrs (kerneltrap (run tr kernelvec_save h)) Sepc \<and>
     hpriv (kernelvec tr kerneltrap h) = (if bit (csrs (kerneltrap (run tr kernelvec_save h)) Sstatus) 8 then Supervisor else User) \<and>
     (bit (csrs (kernelvec tr kerneltrap h) Sstatus) 1 \<longleftrightarrow> bit (csrs (kerneltrap (run tr kernelvec_save h)) Sstatus) 5) \<and>
     csrs (run tr kernelvec_save h) = csrs h"
proof -
  let ?b = "regs h SP - 256"
  let ?h = "h\<lparr>regs := (regs h)(SP := ?b)\<rparr>"
  have s0: "run tr [ADDI SP SP (- 256)] h = ?h" by (simp add: set_reg_def)
  have e: "\<forall>off \<in> snd ` set kv_saved. eff tr ?h (regs ?h SP + of_nat off) = ?b + of_nat off"
    using assms(1,2) kv_slots_ok(7) by (simp add: eff_def direct_def)
  define m where "m = save_mem ?b kv_saved ((regs h)(SP := ?b)) (hmem h)"
  have sv: "run tr kernelvec_save h = ?h\<lparr>hmem := m\<rparr>" unfolding kernelvec_code run_simps(3) s0 using run_save [OF e] by (simp add: m_def)
  define k where "k = kerneltrap (run tr kernelvec_save h)"
  have kc: "c_call (csrs h Satp) (?h\<lparr>hmem := m\<rparr>) k" using assms(3) unfolding k_def sv .
  have k: "regs k SP = ?b" "hpriv k = Supervisor" "csrs k Satp = csrs h Satp" "\<forall>off \<in> snd ` set kv_saved. load64 (hmem k) (?b + of_nat off) = load64 m (?b + of_nat off)"
    using kc by (simp_all add: c_call_def)
  have d: "distinct (map snd kv_saved)" "\<forall>off \<in> snd ` set kv_saved. aligned_off off" using kv_slots_ok(2) by (simp_all add: slots_ok_def)
  have v: "load64 (hmem k) (?b + of_nat i) = ((regs h)(SP := ?b)) q" if "(q, i) \<in> set kv_saved" for q i
  proof -
    have "i \<in> snd ` set kv_saved" using that by (rule rev_image_eqI) simp
    from bspec [OF k(4) this] save_mem_get [OF d that] show ?thesis by (simp add: m_def)
  qed
  have ek: "eff tr k (?b + of_nat i) = ?b + of_nat i" if "i < 256" for i using assms(2) k(2,3) that by (simp add: eff_def direct_def)
  let ?k = "k\<lparr>regs := (regs k)(RA := regs h RA)\<rparr>"
  have "load64 (hmem k) ?b = regs h RA" "load64 (hmem k) (?b + 8) = ?b" using v [of RA 0] v [of SP 8] kv_slots_ok(6) by simp_all
  moreover have "(regs k)(RA := regs h RA, SP := ?b) = (regs k)(RA := regs h RA)" using k(1) by (simp add: fun_eq_iff)
  ultimately have l2: "run tr [LD RA 0 SP, LD SP 8 SP] k = ?k" using ek [of 0] ek [of 8] k(1) by (simp add: set_reg_def)
  have ef: "\<forall>off \<in> snd ` set kv_slots. eff tr ?k (regs ?k SP + of_nat off) = ?b + of_nat off"
    using ek kv_slots_ok(6,7) k(1) by (auto simp: eff_def)
  have dk: "distinct (map fst kv_slots)" "ZERO \<notin> fst ` set kv_slots" using kv_slots_ok(1) by (simp_all add: slots_ok_def)
  define g where "g = loaded ?b kv_slots (hmem k) ((regs k)(RA := regs h RA))"
  have r: "run tr (map (\<lambda>(r, off). LD r off SP) kv_slots) ?k = ?k\<lparr>regs := g\<rparr>" using run_restore [OF ef kv_slots_ok(3) dk] by (simp add: g_def)
  have gs: "g SP = ?b" "g RA = regs h RA" "g TP = regs k TP" using kv_slots_ok(3,4,5) k(1) by (simp_all add: g_def loaded_other)
  have gr: "g q = regs h q \<and> q \<noteq> SP \<and> q \<noteq> TP" if "(q, i) \<in> set kv_slots" for q i
  proof -
    have q: "(q, i) \<in> set kv_saved" using that kv_slots_ok(6) by simp
    have "q \<in> fst ` set kv_slots" using that by (rule rev_image_eqI) simp
    then have "q \<noteq> SP" "q \<noteq> TP" using kv_slots_ok(3,4) by metis+
    then show ?thesis using loaded_slot [OF dk(1) that] v [OF q] by (simp add: g_def)
  qed
  have "kernelvec tr kerneltrap h = run tr kernelvec_restore k" by (simp only: kernelvec_def k_def)
  also have "\<dots> = run tr [ADDI SP SP 256, SRET] (?k\<lparr>regs := g\<rparr>)" unfolding kernelvec_code(2) run_simps(3) l2 r ..
  also have "\<dots> = do_sret (?k\<lparr>regs := g(SP := ?b + 256)\<rparr>)" by (simp add: set_reg_def gs(1))
  finally have f: "kernelvec tr kerneltrap h = do_sret (?k\<lparr>regs := g(SP := ?b + 256)\<rparr>)" .
  have "regs (kernelvec tr kerneltrap h) r = (g(SP := ?b + 256)) r" unfolding f by (simp add: do_sret_def Let_def)
  moreover have "hpc (kernelvec tr kerneltrap h) = csrs k Sepc" "hpriv (kernelvec tr kerneltrap h) = (if bit (csrs k Sstatus) 8 then Supervisor else User)"
    "bit (csrs (kernelvec tr kerneltrap h) Sstatus) 1 \<longleftrightarrow> bit (csrs k Sstatus) 5"
    unfolding f by (simp_all add: do_sret_def Let_def bit_set_bit_iff bit_unset_bit_iff)
  moreover have "csrs (run tr kernelvec_save h) = csrs h" by (simp add: sv)
  moreover obtain i where "(r, i) \<in> set kv_saved" using assms(4) by (metis imageE prod.collapse)
  then have "r = RA \<or> r = SP \<or> r = TP \<or> (r, i) \<in> set kv_slots" unfolding kv_slots_ok(6) by blast
  then have "(g(SP := ?b + 256)) r = (if r = TP then regs k TP else regs h r)" using gs gr [of r i] by (elim disjE) simp_all
  ultimately show ?thesis unfolding k_def [symmetric] by simp
qed

text \<open>
  C14: an interrupt of the kernel is invisible to the interrupted code. When the hardware interrupts code in supervisor mode, \<^verbatim>\<open>kernelvec\<close> and
  \<^verbatim>\<open>kerneltrap\<close> return to the interrupted instruction, in supervisor mode, with interrupts enabled if and only if they were, and with every
  register as it was when the trap occurred, except for \<^verbatim>\<open>tp\<close>, which keeps the value it has on the hart the thread runs on now. That is
  so whatever \<^verbatim>\<open>kerneltrap\<close> does with the trap registers before it restores them, other traps included, as long as it keeps the
  conventions of a C function.
\<close>

theorem kernelvec_transparent:
  assumes "hpriv h = Supervisor" "direct tr (csrs h Satp) (regs h SP - 256) 256"
    "c = run tr kernelvec_save (take_trap cause tval h)" "c_call (csrs h Satp) c (body c)" "r \<in> fst ` set kv_saved"
    "t = kernelvec tr (kerneltrap_hart body) (take_trap cause tval h)"
  shows "hpc (take_trap cause tval h) = csrs h Stvec \<and> \<not> bit (csrs c Sstatus) 1 \<and>
     regs t r = (if r = TP then regs (body c) TP else regs h r) \<and> hpc t = hpc h \<and> hpriv t = Supervisor \<and>
     (bit (csrs t Sstatus) 1 \<longleftrightarrow> bit (csrs h Sstatus) 1)"
proof -
  let ?t = "take_trap cause tval h"
  have d: "hpriv ?t = Supervisor" "direct tr (csrs ?t Satp) (regs ?t SP - 256) 256" using assms(2) by simp_all
  have "c_call (csrs ?t Satp) c (kerneltrap_hart body c)" using assms(4) by (simp add: c_call_def kerneltrap_hart_def Let_def)
  note s = kernelvec_spec [where kerneltrap = "kerneltrap_hart body", OF d this [unfolded assms(3)] assms(5), folded assms(3) assms(6)]
  have c: "csrs c = csrs ?t" using s by blast
  have k: "csrs (kerneltrap_hart body c) Sepc = hpc h" "csrs (kerneltrap_hart body c) Sstatus = csrs ?t Sstatus"
    "regs (kerneltrap_hart body c) = regs (body c)"
    by (simp_all add: kerneltrap_hart_def Let_def c)
  show ?thesis using s unfolding k c by (simp add: assms(1))
qed

subsection \<open>The timer interrupt\<close>

text \<open>
  \<^verbatim>\<open>timervec\<close>, which runs in machine mode on any code, changes no register. With the scratch area that \<^verbatim>\<open>timerinit\<close>
  sets up, it moves the hart's time of the next interrupt on by the interval and raises a supervisor software interrupt.
\<close>

lemma timervec_transparent:
  assumes "hpriv h = Machine" "scratch = csrs h Mscratch" "timecmp = load64 (hmem h) (scratch + of_nat 24)" "apart 40 scratch timecmp"
  shows "(let t = run tr timervec h in
       regs t r = regs h r \<and> csrs t Mscratch = scratch \<and> csrs t Sip = 2 \<and> hpc t = csrs h Mepc \<and> hpriv t = mpp (csrs h Mstatus) \<and>
       load64 (hmem t) timecmp = load64 (hmem h) timecmp + load64 (hmem h) (scratch + of_nat 32) \<and>
       load64 (hmem t) (scratch + of_nat 24) = timecmp \<and> load64 (hmem t) (scratch + of_nat 32) = load64 (hmem h) (scratch + of_nat 32))"
proof -
  define m where "m = save_mem scratch [(A1, 0), (A2, 8), (A3, 16)] (regs h) (hmem h)"
  define v where "v = load64 (hmem h) timecmp + load64 (hmem h) (scratch + of_nat 32)"
  have o: "load64 m (scratch + of_nat i) = load64 (hmem h) (scratch + of_nat i)" if "i \<in> {24, 32}" for i
    unfolding m_def by (rule save_mem_other) (use that in \<open>auto simp: aligned_off_def\<close>)
  have s: "load64 m (scratch + of_nat i) = regs h q" if "(q, i) \<in> {(A1, 0), (A2, 8), (A3, 16)}" for q i
    unfolding m_def by (rule save_mem_get) (use that in \<open>auto simp: aligned_off_def\<close>)
  have c: "load64 m timecmp = load64 (hmem h) timecmp"
    using save_mem_apart [OF assms(4), of "[(A1, 0), (A2, 8), (A3, 16)]" 0] by (simp add: m_def)
  have sw: "apart 40 timecmp scratch" using assms(4) by (simp add: apart_def)
  have k: "load64 (store64 timecmp v m) (scratch + of_nat i) = load64 m (scratch + of_nat i)" if "i \<le> 32" for i
    using that apart_off [OF sw, of i 0] apart_off [OF assms(4), of 0 i] by (intro load64_apart) simp_all
  let ?h = "\<lparr>regs = (regs h)(A0 := scratch), csrs = (csrs h)(Mscratch := regs h A0), hpriv = Machine, hpc = hpc h, hmem = hmem h\<rparr>"
  have code: "timervec = [CSRRW A0 Mscratch A0] @ map (\<lambda>(r, off). SD r off A0) [(A1, 0), (A2, 8), (A3, 16)] @
      [LD A1 24 A0, LD A2 32 A0, LD A3 0 A1, ADD A3 A3 A2, SD A3 0 A1, LI A1 2, CSRW Sip A1] @ [LD A3 16 A0, LD A2 8 A0, LD A1 0 A0, CSRRW A0 Mscratch A0, MRET]"
    by (simp add: timervec_def)
  have "run tr [CSRRW A0 Mscratch A0] h = ?h" using assms(1,2) by (simp add: set_reg_def set_csr_def)
  moreover have "run tr (map (\<lambda>(r, off). SD r off A0) [(A1, 0), (A2, 8), (A3, 16)]) ?h = ?h\<lparr>hmem := m\<rparr>"
    using run_save [of "[(A1, 0), (A2, 8), (A3, 16)]" tr ?h A0 scratch] by (simp add: eff_def m_def save_mem_def)
  moreover obtain g where "run tr [LD A1 24 A0, LD A2 32 A0, LD A3 0 A1, ADD A3 A3 A2, SD A3 0 A1, LI A1 2, CSRW Sip A1] (?h\<lparr>hmem := m\<rparr>) =
      ?h\<lparr>regs := g, csrs := (csrs h)(Mscratch := regs h A0, Sip := 2), hmem := store64 timecmp v m\<rparr>"
      "g A0 = scratch" "\<forall>q. q \<notin> {A0, A1, A2, A3} \<longrightarrow> g q = regs h q"
    using o [of 24] o [of 32] c assms(3) by (simp add: eff_def set_reg_def set_csr_def v_def)
  ultimately have "run tr timervec h = run tr [LD A3 16 A0, LD A2 8 A0, LD A1 0 A0, CSRRW A0 Mscratch A0, MRET]
      (?h\<lparr>regs := g, csrs := (csrs h)(Mscratch := regs h A0, Sip := 2), hmem := store64 timecmp v m\<rparr>)"
    unfolding code run_simps(3) by simp
  moreover have l: "load64 (store64 timecmp v m) scratch = regs h A1" "load64 (store64 timecmp v m) (scratch + 8) = regs h A2" "load64 (store64 timecmp v m) (scratch + 16) = regs h A3"
    using k [of 0] k [of 8] k [of 16] s [of A1 0] s [of A2 8] s [of A3 16] by simp_all
  ultimately have t: "run tr timervec h = do_mret (?h\<lparr>regs := g(A3 := regs h A3, A2 := regs h A2, A1 := regs h A1, A0 := regs h A0),
      csrs := (csrs h)(Mscratch := scratch, Sip := 2), hmem := store64 timecmp v m\<rparr>)"
    using \<open>g A0 = scratch\<close> by (simp add: eff_def set_reg_def set_csr_def fun_upd_twist)
  have "(g(A3 := regs h A3, A2 := regs h A2, A1 := regs h A1, A0 := regs h A0)) r = regs h r"
    using \<open>\<forall>q. q \<notin> {A0, A1, A2, A3} \<longrightarrow> g q = regs h q\<close> by simp
  then show ?thesis
    unfolding t using k [of 24] k [of 32] o [of 24] o [of 32] assms(3) by (simp add: Let_def do_mret_def v_def)
qed

text \<open>Instances of the theorems: a hart in the kernel with all addresses mapped to themselves.\<close>

definition demo_hart :: "priv \<Rightarrow> (reg \<Rightarrow> uint64) \<Rightarrow> (csr \<Rightarrow> uint64) \<Rightarrow> hart" where
  "demo_hart p g c = \<lparr>regs = g, csrs = c, hpriv = p, hpc = 0, hmem = (\<lambda>_. 0)\<rparr>"


theorem swtch_resumes_witness:
  "let h = demo_hart Supervisor ((\<lambda>_. 7)(A0 := 0x1000, A1 := 0x2000, S3 := 99)) (\<lambda>_. 0); t = run (\<lambda>_ a. a) swtch h in
   load64 (hmem t) (0x1000 + of_nat 40) = 99 \<and> regs t S3 = 0"
proof -
  let ?h = "demo_hart Supervisor ((\<lambda>_. 7)(A0 := 0x1000, A1 := 0x2000, S3 := 99)) (\<lambda>_. 0)"
  have "hpriv ?h = Supervisor" "direct (\<lambda>_ a. a) (csrs ?h Satp) (regs ?h A0) 112" "direct (\<lambda>_ a. a) (csrs ?h Satp) (regs ?h A1) 112"
    "apart 112 (regs ?h A0) (regs ?h A1)" "(S3, 40) \<in> set ctx_slots"
    by (simp_all add: demo_hart_def direct_def apart_def ctx_slots_def)
  from swtch_resumes [OF this] show ?thesis by (simp add: demo_hart_def Let_def load64_def)
qed

theorem kernelvec_transparent_witness:
  "let h = (demo_hart Supervisor ((\<lambda>_. 7)(SP := 0x3000, S2 := 99)) ((\<lambda>_. 0)(Sstatus := 2)))\<lparr>hpc := 0x1234\<rparr>;
       t = kernelvec (\<lambda>_ a. a) (kerneltrap_hart (\<lambda>k. k\<lparr>regs := (regs k)(TP := 3, A0 := 5, S2 := 6), csrs := (csrs k)(Sepc := 9, Sstatus := 0)\<rparr>))
         (take_trap 0x8000000000000001 0 h) in
   regs t S2 = 99 \<and> hpc t = 0x1234 \<and> hpriv t = Supervisor \<and> bit (csrs t Sstatus) 1"
proof -
  let ?h = "(demo_hart Supervisor ((\<lambda>_. 7)(SP := 0x3000, S2 := 99)) ((\<lambda>_. 0)(Sstatus := 2)))\<lparr>hpc := 0x1234\<rparr>"
  let ?b = "\<lambda>k :: hart. k\<lparr>regs := (regs k)(TP := 3, A0 := 5, S2 := 6), csrs := (csrs k)(Sepc := 9, Sstatus := 0)\<rparr>"
  let ?t = "take_trap 0x8000000000000001 0 ?h"
  have e: "\<forall>off \<in> snd ` set kv_saved. eff (\<lambda>_ a. a) g (regs g SP + of_nat off) = regs g SP + of_nat off" for g by (simp add: eff_def)
  have s: "run (\<lambda>_ a. a) kernelvec_save ?t = run (\<lambda>_ a. a) (map (\<lambda>(r, off). SD r off SP) kv_saved) (?t\<lparr>regs := (regs ?t)(SP := 0x2f00)\<rparr>)"
    unfolding kernelvec_code run_simps(3) by (simp add: set_reg_def demo_hart_def)
  have c: "c_call (csrs ?h Satp) (run (\<lambda>_ a. a) kernelvec_save ?t) (?b (run (\<lambda>_ a. a) kernelvec_save ?t))"
    unfolding s run_save [OF e] by (simp add: c_call_def demo_hart_def)
  have d: "hpriv ?h = Supervisor" "direct (\<lambda>_ a. a) (csrs ?h Satp) (regs ?h SP - 256) 256" by (simp_all add: demo_hart_def direct_def)
  have "S2 \<in> fst ` set kv_saved" by (simp add: kv_saved_def kv_slots_def)
  from kernelvec_transparent [where body = ?b, OF d refl c this refl] show ?thesis by (simp add: demo_hart_def Let_def bit_numeral_rec)
qed

subsection \<open>Starting a hart\<close>

text \<open>The accessors of \<^verbatim>\<open>riscv.h\<close> that \<^verbatim>\<open>start.c\<close> uses.\<close>

definition r_mhartid :: "hart \<Rightarrow> uint64" where "r_mhartid h = csrs h Mhartid"
definition r_mstatus :: "hart \<Rightarrow> uint64" where "r_mstatus h = csrs h Mstatus"
definition w_mstatus :: "uint64 \<Rightarrow> hart \<Rightarrow> hart" where "w_mstatus = set_csr Mstatus"
definition w_mepc :: "uint64 \<Rightarrow> hart \<Rightarrow> hart" where "w_mepc = set_csr Mepc"
definition w_satp :: "uint64 \<Rightarrow> hart \<Rightarrow> hart" where "w_satp = set_csr Satp"
definition w_medeleg :: "uint64 \<Rightarrow> hart \<Rightarrow> hart" where "w_medeleg = set_csr Medeleg"
definition w_mideleg :: "uint64 \<Rightarrow> hart \<Rightarrow> hart" where "w_mideleg = set_csr Mideleg"
definition r_sie :: "hart \<Rightarrow> uint64" where "r_sie h = csrs h Sie"
definition w_sie :: "uint64 \<Rightarrow> hart \<Rightarrow> hart" where "w_sie = set_csr Sie"
definition r_mie :: "hart \<Rightarrow> uint64" where "r_mie h = csrs h Mie"
definition w_mie :: "uint64 \<Rightarrow> hart \<Rightarrow> hart" where "w_mie = set_csr Mie"
definition w_pmpaddr0 :: "uint64 \<Rightarrow> hart \<Rightarrow> hart" where "w_pmpaddr0 = set_csr Pmpaddr0"
definition w_pmpcfg0 :: "uint64 \<Rightarrow> hart \<Rightarrow> hart" where "w_pmpcfg0 = set_csr Pmpcfg0"
definition w_mscratch :: "uint64 \<Rightarrow> hart \<Rightarrow> hart" where "w_mscratch = set_csr Mscratch"
definition w_mtvec :: "uint64 \<Rightarrow> hart \<Rightarrow> hart" where "w_mtvec = set_csr Mtvec"
definition w_tp :: "uint64 \<Rightarrow> hart \<Rightarrow> hart" where "w_tp = set_reg TP"

definition SIE_SEIE :: uint64 where [simp, code_unfold]: "SIE_SEIE = push_bit 9 1"
definition SIE_STIE :: uint64 where [simp, code_unfold]: "SIE_STIE = push_bit 5 1"
definition SIE_SSIE :: uint64 where [simp, code_unfold]: "SIE_SSIE = push_bit 1 1"
definition MIE_MTIE :: uint64 where [simp, code_unfold]: "MIE_MTIE = push_bit 7 1"

definition CLINT :: uint64 where [simp, code_unfold]: "CLINT = 0x2000000"
definition CLINT_MTIME :: uint64 where [simp, code_unfold]: "CLINT_MTIME = CLINT + 0xBFF8"
definition CLINT_MTIMECMP :: "uint64 \<Rightarrow> uint64" where "CLINT_MTIMECMP hartid = CLINT + 0x4000 + 8 * hartid"

text \<open>\<^verbatim>\<open>int id = r_mhartid()\<close> keeps the low 32 bits. \<open>ts\<close> and \<open>tv\<close> are the addresses of \<^verbatim>\<open>timer_scratch\<close> and \<^verbatim>\<open>timervec\<close>.\<close>

definition hart_id :: "hart \<Rightarrow> uint64" where
  "hart_id h = scast (ucast (r_mhartid h) :: uint)"

definition timerinit :: "uint64 \<Rightarrow> uint64 \<Rightarrow> hart \<Rightarrow> hart" where
  "timerinit ts tv h =
     (let id = hart_id h;
          interval = 1000000;
          h = h\<lparr>hmem := store64 (CLINT_MTIMECMP id) (load64 (hmem h) CLINT_MTIME + interval) (hmem h)\<rparr>;
          scratch = ts + 40 * id;
          h = h\<lparr>hmem := store64 (scratch + 8 * 3) (CLINT_MTIMECMP id) (hmem h)\<rparr>;
          h = h\<lparr>hmem := store64 (scratch + 8 * 4) interval (hmem h)\<rparr>;
          h = w_mscratch scratch h;
          h = w_mtvec tv h;
          h = w_mstatus (r_mstatus h OR MSTATUS_MIE) h
      in w_mie (r_mie h OR MIE_MTIE) h)"

definition start :: "uint64 \<Rightarrow> uint64 \<Rightarrow> uint64 \<Rightarrow> hart \<Rightarrow> hart" where
  "start main ts tv h =
     (let x = r_mstatus h;
          x = x AND NOT MSTATUS_MPP_MASK;
          x = x OR MSTATUS_MPP_S;
          h = w_mstatus x h;
          h = w_mepc main h;
          h = w_satp 0 h;
          h = w_medeleg 0xffff h;
          h = w_mideleg 0xffff h;
          h = w_sie (r_sie h OR SIE_SEIE OR SIE_STIE OR SIE_SSIE) h;
          h = w_pmpaddr0 0x3fffffffffffff h;
          h = w_pmpcfg0 0xf h;
          h = timerinit ts tv h;
          h = w_tp (hart_id h) h
      in do_mret h)"

lemma mpp_start: "mpp ((x AND NOT MSTATUS_MPP_MASK OR MSTATUS_MPP_S) OR MSTATUS_MIE) = Supervisor"
proof -
  have "bit (3 :: uint64) 1" "\<not> bit (1 :: uint64) 1" by (simp_all add: bit_numeral_rec)
  then show ?thesis by (simp add: mpp_def bit_simps)
qed

lemma hart_id_small:
  assumes "unat (csrs h Mhartid) < NCPU"
  shows "hart_id h = csrs h Mhartid"
proof -
  define u where "u = csrs h Mhartid"
  have "unat u \<in> {0, 1, 2, 3, 4, 5, 6, 7}" using assms by (auto simp: u_def)
  then have "u \<in> {0, 1, 2, 3, 4, 5, 6, 7}" by (auto simp: word_unat_eq_iff)
  then have "scast (ucast u :: uint) = u" by auto
  then show ?thesis by (simp add: hart_id_def r_mhartid_def u_def)
qed

lemma do_mret_fields:
  "hpriv (do_mret h) = mpp (csrs h Mstatus)" "hpc (do_mret h) = csrs h Mepc" "regs (do_mret h) = regs h" "hmem (do_mret h) = hmem h" "c \<noteq> Mstatus \<Longrightarrow> csrs (do_mret h) c = csrs h c"
  by (simp_all add: do_mret_def Let_def)

lemma timerinit_fields:
  "csrs (timerinit ts tv h) = (csrs h)(Mscratch := ts + 40 * hart_id h, Mtvec := tv, Mstatus := csrs h Mstatus OR MSTATUS_MIE, Mie := csrs h Mie OR MIE_MTIE)"
  "hpriv (timerinit ts tv h) = hpriv h" "regs (timerinit ts tv h) = regs h"
  "hmem (timerinit ts tv h) = store64 (ts + 40 * hart_id h + of_nat 32) 1000000 (store64 (ts + 40 * hart_id h + of_nat 24) (CLINT_MTIMECMP (hart_id h))
     (store64 (CLINT_MTIMECMP (hart_id h)) (load64 (hmem h) CLINT_MTIME + 1000000) (hmem h)))"
  by (simp_all add: timerinit_def Let_def w_mscratch_def w_mtvec_def w_mstatus_def w_mie_def r_mstatus_def r_mie_def
      del: MSTATUS_MIE_def MIE_MTIE_def CLINT_MTIME_def)

definition start_csrs :: "uint64 \<Rightarrow> hart \<Rightarrow> hart" where
  "start_csrs main h = set_csr Pmpcfg0 0xf (set_csr Pmpaddr0 0x3fffffffffffff (set_csr Sie (csrs h Sie OR SIE_SEIE OR SIE_STIE OR SIE_SSIE)
     (set_csr Mideleg 0xffff (set_csr Medeleg 0xffff (set_csr Satp 0 (set_csr Mepc main (set_csr Mstatus (csrs h Mstatus AND NOT MSTATUS_MPP_MASK OR MSTATUS_MPP_S) h)))))))"

lemma start_eq: "start main ts tv h = do_mret (set_reg TP (hart_id (timerinit ts tv (start_csrs main h))) (timerinit ts tv (start_csrs main h)))"
  by (simp add: start_def start_csrs_def Let_def w_mstatus_def w_mepc_def w_satp_def w_medeleg_def w_mideleg_def w_sie_def w_pmpaddr0_def w_pmpcfg0_def w_tp_def r_mstatus_def r_sie_def
      del: MSTATUS_MPP_MASK_def MSTATUS_MPP_S_def SIE_SEIE_def SIE_STIE_def SIE_SSIE_def)

text \<open>
  \<^verbatim>\<open>start\<close> leaves machine mode for \<^verbatim>\<open>main\<close> in supervisor mode, without paging, with all traps delegated, with the
  hart's number in \<^verbatim>\<open>tp\<close>, and with the timer programmed: the scratch area that \<^verbatim>\<open>timervec\<close> will find holds the address of
  the hart's own compare register and the interval, and the timer interrupt is enabled.
\<close>

lemma start_enters_main:
  assumes "unat (csrs h Mhartid) < NCPU" "t = start main ts tv h" "hid = csrs h Mhartid" "apart 40 (ts + 40 * hid) (CLINT_MTIMECMP hid)"
  shows "hpriv t = Supervisor \<and> hpc t = main \<and> csrs t Satp = 0 \<and> csrs t Medeleg = 0xffff \<and> csrs t Mideleg = 0xffff \<and> regs t TP = hid \<and>
     (bit (csrs t Sie) 9 \<and> bit (csrs t Sie) 5 \<and> bit (csrs t Sie) 1) \<and> bit (csrs t Mie) 7 \<and> csrs t Mtvec = tv \<and> csrs t Mscratch = ts + 40 * hid \<and>
     load64 (hmem t) (ts + 40 * hid + of_nat 24) = CLINT_MTIMECMP hid \<and> load64 (hmem t) (ts + 40 * hid + of_nat 32) = 1000000 \<and>
     load64 (hmem t) (CLINT_MTIMECMP hid) = load64 (hmem h) CLINT_MTIME + 1000000"
proof -
  define sc tc where "sc = ts + 40 * hid" and "tc = CLINT_MTIMECMP hid"
  define m where "m = store64 tc (load64 (hmem h) CLINT_MTIME + 1000000) (hmem h)"
  have i: "hart_id k = hid" if "csrs k Mhartid = csrs h Mhartid" for k using hart_id_small [of k] assms(1,3) that by simp
  define s2 where "s2 = store64 (sc + of_nat 32) 1000000 (store64 (sc + of_nat 24) tc m)"
  have ap: "apart 40 sc tc" "apart 40 tc sc" using assms(4) by (simp_all add: sc_def tc_def apart_def)
  have a: "8 \<le> unat (tc - (sc + of_nat j))" "8 \<le> unat ((sc + of_nat j) - tc)" if "j \<le> 32" for j
    using that apart_off [OF ap(1), of 0 j] apart_off [OF ap(2), of j 0] by simp_all
  have al: "aligned_off 24" "aligned_off 32" by (simp_all add: aligned_off_def)
  have "load64 s2 (sc + of_nat 24) = load64 (store64 (sc + of_nat 24) tc m) (sc + of_nat 24)" unfolding s2_def by (rule load64_off [OF al]) simp
  then have l: "load64 s2 (sc + of_nat 24) = tc" "load64 s2 (sc + of_nat 32) = 1000000" by (simp_all only: load64_store64 s2_def)
  have "load64 s2 tc = load64 (store64 (sc + of_nat 24) tc m) tc" unfolding s2_def by (rule load64_apart [OF a [of 32]]) simp_all
  also have "\<dots> = load64 m tc" by (rule load64_apart [OF a [of 24]]) simp_all
  finally have l3: "load64 s2 tc = load64 (hmem h) CLINT_MTIME + 1000000" by (simp only: m_def load64_store64)
  let ?x = "(r_mstatus h AND NOT MSTATUS_MPP_MASK OR MSTATUS_MPP_S) OR MSTATUS_MIE"
  let ?k = "start_csrs main h"
  have k: "hart_id ?k = hid" "hart_id (timerinit ts tv ?k) = hid" by (rule i; simp add: start_csrs_def timerinit_fields)+
  have kc: "csrs ?k = (csrs h)(Mstatus := csrs h Mstatus AND NOT MSTATUS_MPP_MASK OR MSTATUS_MPP_S, Mepc := main, Satp := 0, Medeleg := 0xffff, Mideleg := 0xffff,
      Sie := csrs h Sie OR SIE_SEIE OR SIE_STIE OR SIE_SSIE, Pmpaddr0 := 0x3fffffffffffff, Pmpcfg0 := 0xf)"
    by (simp add: start_csrs_def del: MSTATUS_MPP_MASK_def MSTATUS_MPP_S_def SIE_SEIE_def SIE_STIE_def SIE_SSIE_def)
  have "hmem ?k = hmem h" by (simp add: start_csrs_def)
  then have "hmem t = s2" unfolding assms(2) start_eq do_mret_fields set_reg_fields timerinit_fields k s2_def m_def sc_def tc_def by simp
  moreover have "hpriv t = mpp ?x" "hpc t = main" "csrs t Satp = 0" "csrs t Medeleg = 0xffff" "csrs t Mideleg = 0xffff" "regs t TP = hid"
    "csrs t Sie = (r_sie h OR SIE_SEIE OR SIE_STIE OR SIE_SSIE)" "csrs t Mie = (r_mie h OR MIE_MTIE)" "csrs t Mtvec = tv" "csrs t Mscratch = sc"
    unfolding assms(2) start_eq do_mret_fields(1-4) set_reg_fields timerinit_fields k sc_def r_mstatus_def r_sie_def r_mie_def
    by (simp_all add: do_mret_fields(5) timerinit_fields k kc del: MSTATUS_MPP_MASK_def MSTATUS_MPP_S_def MSTATUS_MIE_def SIE_SEIE_def SIE_STIE_def SIE_SSIE_def MIE_MTIE_def)
  ultimately show ?thesis using l l3 mpp_start [of "r_mstatus h"] by (simp add: sc_def tc_def bit_simps)
qed

end
