(* ===== verification/Ulib.thy ===== *)
theory Ulib
  imports Fs
begin

section \<open>The user library\<close>

text \<open>
  \<^verbatim>\<open>user/ulib.c\<close> and \<^verbatim>\<open>user/printf.c\<close>, and the system calls user programs are written against.

  A user program sees the kernel as a record of functions on a state \<open>'s\<close>, one field per system call it uses: the
  call returns its result, the bytes it stores in the memory of the program, and the new state. The record is a
  parameter of every program. Block operations work on memory, strings are byte lists as in the kernel's
  \<^verbatim>\<open>string.c\<close>: the bytes from the pointer to the end of the array, with a NUL at the end of the list.
\<close>

record 's sysc =
  sc_read :: "int \<Rightarrow> nat \<Rightarrow> 's \<Rightarrow> int \<times> uchar list \<times> 's"
  sc_write :: "int \<Rightarrow> uchar list \<Rightarrow> 's \<Rightarrow> int \<times> 's"
  sc_open :: "uchar list \<Rightarrow> uint \<Rightarrow> 's \<Rightarrow> int \<times> 's"
  sc_close :: "int \<Rightarrow> 's \<Rightarrow> int \<times> 's"
  sc_fstat :: "int \<Rightarrow> stat \<Rightarrow> 's \<Rightarrow> int \<times> stat \<times> 's"
  sc_kill :: "int \<Rightarrow> 's \<Rightarrow> int \<times> 's"
  sc_link :: "uchar list \<Rightarrow> uchar list \<Rightarrow> 's \<Rightarrow> int \<times> 's"
  sc_unlink :: "uchar list \<Rightarrow> 's \<Rightarrow> int \<times> 's"
  sc_mkdir :: "uchar list \<Rightarrow> 's \<Rightarrow> int \<times> 's"

subsection \<open>Strings\<close>

function ustrlen :: "uchar list \<Rightarrow> nat" where
  "ustrlen s = (if deref s \<noteq> 0 then Suc (ustrlen (tl s)) else 0)"
  by pat_completeness auto
termination
  by (relation "measure length") (auto simp: deref_def split: list.splits)

function strcmp :: "uchar list \<Rightarrow> uchar list \<Rightarrow> int" where
  "strcmp p q = (if deref p \<noteq> 0 \<and> deref p = deref q then strcmp (tl p) (tl q) else uint (deref p) - uint (deref q))"
  by pat_completeness auto
termination
  by (relation "measure (\<lambda>(p, q). length p)") (auto simp: deref_def split: list.splits)

text \<open>The array at the destination after \<^verbatim>\<open>strcpy\<close>; \<open>None\<close> when the string does not fit.\<close>

function strcpy :: "uchar list \<Rightarrow> uchar list \<Rightarrow> uchar list option" where
  "strcpy s t =
     (case s of
        [] \<Rightarrow> None
      | _ # s' \<Rightarrow> if deref t \<noteq> 0 then map_option ((#) (deref t)) (strcpy s' (tl t)) else Some (0 # s'))"
  by pat_completeness auto
termination
  by (relation "measure (\<lambda>(s, t). length s)") auto

text \<open>The string from the place found on.\<close>

function strchr :: "uchar list \<Rightarrow> uchar \<Rightarrow> uchar list option" where
  "strchr s c = (if deref s \<noteq> 0 then if deref s = c then Some s else strchr (tl s) c else None)"
  by pat_completeness auto
termination
  by (relation "measure (\<lambda>(s, c). length s)") (auto simp: deref_def split: list.splits)

declare ustrlen.simps [simp del] strcmp.simps [simp del] strcpy.simps [simp del] strchr.simps [simp del]

text \<open>\<^verbatim>\<open>atoi\<close> computes in 32 bits.\<close>

definition isdigit :: "uchar \<Rightarrow> bool" where
  "isdigit c \<longleftrightarrow> of_char CHR ''0'' \<le> c \<and> c \<le> of_char CHR ''9''"

function atoi_loop :: "uint \<Rightarrow> uchar list \<Rightarrow> uint" where
  "atoi_loop n s = (if isdigit (deref s) then atoi_loop (n * 10 + ucast (deref s) - ucast (of_char CHR ''0'' :: uchar)) (tl s) else n)"
  by pat_completeness auto
termination
  by (relation "measure (\<lambda>(n, s). length s)") (auto simp: deref_def isdigit_def split: list.splits)

declare atoi_loop.simps [simp del]

definition atoi :: "uchar list \<Rightarrow> int" where
  "atoi s = sint (atoi_loop 0 s)"

subsection \<open>Block operations\<close>

fun umemset :: "uint64 \<Rightarrow> uchar \<Rightarrow> nat \<Rightarrow> memory \<Rightarrow> memory" where
  "umemset dst c 0 m = m"
| "umemset dst c (Suc n) m = umemset (dst + 1) c n (m(dst := c))"

definition umemmove :: "uint64 \<Rightarrow> uint64 \<Rightarrow> int \<Rightarrow> memory \<Rightarrow> memory" where
  "umemmove dst src n m =
     (if src > dst then copy_up dst src (nat n) m
      else copy_down (dst + of_int n) (src + of_int n) (nat n) m)"

fun umemcmp :: "uchar list \<Rightarrow> uchar list \<Rightarrow> nat \<Rightarrow> int" where
  "umemcmp p1 p2 0 = 0"
| "umemcmp p1 p2 (Suc n) =
     (if deref p1 \<noteq> deref p2 then uint (deref p1) - uint (deref p2) else umemcmp (tl p1) (tl p2) n)"

definition umemcpy :: "uint64 \<Rightarrow> uint64 \<Rightarrow> int \<Rightarrow> memory \<Rightarrow> memory" where
  "umemcpy dst src n m = umemmove dst src n m"

subsection \<open>Input and files\<close>

fun gets_loop :: "'s sysc \<Rightarrow> nat \<Rightarrow> 's \<Rightarrow> uchar list \<times> 's" where
  "gets_loop S 0 s = ([], s)"
| "gets_loop S (Suc k) s =
     (case sc_read S 0 1 s of
        (cc, bs, s) \<Rightarrow>
          if cc < 1 then ([], s)
          else
            let c = deref bs in
            if c = 10 \<or> c = 13 then ([c], s)
            else case gets_loop S k s of (cs, s) \<Rightarrow> (c # cs, s))"

definition gets :: "'s sysc \<Rightarrow> uchar list \<Rightarrow> nat \<Rightarrow> 's \<Rightarrow> uchar list \<times> 's" where
  "gets S buf n s = (case gets_loop S (n - 1) s of (cs, s) \<Rightarrow> (put_at 0 (cs @ [0]) buf, s))"

definition ustat :: "'s sysc \<Rightarrow> uchar list \<Rightarrow> stat \<Rightarrow> 's \<Rightarrow> int \<times> stat \<times> 's" where
  "ustat S n st s =
     (case sc_open S n O_RDONLY s of
        (fd, s) \<Rightarrow>
          if fd < 0 then (- 1, st, s)
          else case sc_fstat S fd st s of (r, st, s) \<Rightarrow> case sc_close S fd s of (_, s) \<Rightarrow> (r, st, s))"

subsection \<open>Formatted output\<close>

definition putc :: "'s sysc \<Rightarrow> int \<Rightarrow> uchar \<Rightarrow> 's \<Rightarrow> 's" where
  "putc S fd c s = snd (sc_write S fd [c] s)"

definition uputs :: "'s sysc \<Rightarrow> int \<Rightarrow> uchar list \<Rightarrow> 's \<Rightarrow> 's" where
  "uputs S fd cs s = fold (putc S fd) cs s"

definition uprintint :: "'s sysc \<Rightarrow> int \<Rightarrow> uint \<Rightarrow> nat \<Rightarrow> bool \<Rightarrow> 's \<Rightarrow> 's" where
  "uprintint S fd xx base sg s =
     (let neg = (sg \<and> sint xx < 0);
          x = (if neg then - xx else xx);
          buf = map digit (digits_rev base (unat x)) @ (if neg then bytes ''-'' else [])
      in uputs S fd (rev buf) s)"

definition uprintptr :: "'s sysc \<Rightarrow> int \<Rightarrow> uint64 \<Rightarrow> 's \<Rightarrow> 's" where
  "uprintptr S fd x s =
     (let s = putc S fd (of_char CHR ''0'') s;
          s = putc S fd (of_char CHR ''x'') s
      in uputs S fd (map (\<lambda>i. digit (unat (drop_bit 60 (push_bit (4 * i) x)))) [0..<16]) s)"

text \<open>The conversion after a \<^verbatim>\<open>%\<close>. An argument of the wrong type or a missing one is undefined behaviour.\<close>

definition convert :: "'s sysc \<Rightarrow> int \<Rightarrow> uchar \<Rightarrow> varg list \<Rightarrow> 's \<Rightarrow> (varg list \<times> 's) option" where
  "convert S fd c ap s =
     (if c = of_char CHR ''d'' then
        (case ap of ArgInt x # ap \<Rightarrow> Some (ap, uprintint S fd x 10 True s) | _ \<Rightarrow> None)
      else if c = of_char CHR ''l'' then
        (case ap of ArgPtr x # ap \<Rightarrow> Some (ap, uprintint S fd (ucast x) 10 False s) | _ \<Rightarrow> None)
      else if c = of_char CHR ''x'' then
        (case ap of ArgInt x # ap \<Rightarrow> Some (ap, uprintint S fd x 16 False s) | _ \<Rightarrow> None)
      else if c = of_char CHR ''p'' then
        (case ap of ArgPtr x # ap \<Rightarrow> Some (ap, uprintptr S fd x s) | _ \<Rightarrow> None)
      else if c = of_char CHR ''s'' then
        (case ap of
           ArgStr x # ap \<Rightarrow> Some (ap, uputs S fd (case x of None \<Rightarrow> bytes ''(null)'' | Some cs \<Rightarrow> takeWhile (\<lambda>c. c \<noteq> 0) cs) s)
         | _ \<Rightarrow> None)
      else if c = of_char CHR ''c'' then
        (case ap of ArgInt x # ap \<Rightarrow> Some (ap, putc S fd (ucast x) s) | _ \<Rightarrow> None)
      else if c = of_char CHR ''%'' then Some (ap, putc S fd c s)
      else Some (ap, putc S fd c (putc S fd (of_char CHR ''%'') s)))"

text \<open>The loop; \<open>pct\<close> is its state, whether the last byte was a \<^verbatim>\<open>%\<close>.\<close>

fun vprintf :: "'s sysc \<Rightarrow> int \<Rightarrow> bool \<Rightarrow> uchar list \<Rightarrow> varg list \<Rightarrow> 's \<Rightarrow> 's option" where
  "vprintf S fd pct [] ap s = Some s"
| "vprintf S fd pct (c # fmt) ap s =
     (if c = 0 then Some s
      else if \<not> pct then
        if c = of_char CHR ''%'' then vprintf S fd True fmt ap s
        else vprintf S fd False fmt ap (putc S fd c s)
      else case convert S fd c ap s of None \<Rightarrow> None | Some (ap, s) \<Rightarrow> vprintf S fd False fmt ap s)"

definition fprintf :: "'s sysc \<Rightarrow> int \<Rightarrow> string \<Rightarrow> varg list \<Rightarrow> 's \<Rightarrow> 's option" where
  "fprintf S fd fmt ap s = vprintf S fd False (bytes fmt) ap s"

definition uprintf :: "'s sysc \<Rightarrow> string \<Rightarrow> varg list \<Rightarrow> 's \<Rightarrow> 's option" where
  "uprintf S fmt ap s = vprintf S 1 False (bytes fmt) ap s"

subsection \<open>What the routines compute\<close>

text \<open>The string at a pointer: the bytes before the first NUL.\<close>

definition zstr :: "uchar list \<Rightarrow> uchar list" where
  "zstr s = takeWhile (\<lambda>c. c \<noteq> 0) s"

lemma zstr_simps [simp]: "zstr [] = []" "zstr (c # s) = (if c = 0 then [] else c # zstr s)" "0 \<notin> set (zstr s)"
  by (auto simp: zstr_def dest: set_takeWhileD)

lemma deref_simps [simp]: "deref [] = 0" "deref (c # s) = c"
  by (simp_all add: deref_def)

lemma ustrlen_zstr: "ustrlen s = length (zstr s)"
  by (induction s) (simp_all add: ustrlen.simps)

lemma strchr_zstr:
  "strchr s c = (if c \<in> set (zstr s) then Some (dropWhile (\<lambda>d. d \<noteq> c) s) else None)"
  by (induction s) (auto simp: strchr.simps)

lemma uint_diff_0: "uint a - uint b = 0 \<longleftrightarrow> a = b" for a b :: uchar
  by (simp add: word_uint_eq_iff)

lemma strcmp_zstr: "strcmp p q = 0 \<longleftrightarrow> zstr p = zstr q"
proof (induction p arbitrary: q)
  case Nil
  then show ?case by (cases q) (simp_all add: strcmp.simps uint_0_iff)
next
  case (Cons c p)
  then show ?case by (cases q) (auto simp: strcmp.simps [of "c # p"] uint_diff_0 uint_0_iff simp del: right_minus_eq)
qed

lemma strcpy_zstr:
  "strcpy s t = (if length (zstr t) < length s then Some (zstr t @ 0 # drop (Suc (length (zstr t))) s) else None)"
proof (induction s arbitrary: t)
  case (Cons c s)
  then show ?case by (cases t) (simp_all add: strcpy.simps [of "c # s"])
qed (simp add: strcpy.simps)

lemma umemmove_correct:
  assumes "0 \<le> n" "unat src + nat n < 2 ^ 64" "unat dst + nat n < 2 ^ 64"
  shows "umemmove dst src n m = (\<lambda>a. if unat (a - dst) < nat n then m (src + (a - dst)) else m a)"
proof (cases "src > dst")
  case True
  have "unat (dst - src) = 2 ^ 64 + unat dst - unat src" using True by (simp add: unat_sub_if' word_less_nat_alt)
  then have "nat n \<le> unat (dst - src)" using assms by linarith
  with copy_up_eq [of dst src "nat n" m] True show ?thesis by (simp add: umemmove_def)
next
  case False
  have w: "(of_int n :: uint64) = of_nat (nat n)" using assms(1) by simp
  have "dst = src \<or> nat n \<le> unat (src - dst)"
  proof (cases "dst = src")
    case False
    with \<open>\<not> src > dst\<close> have "src < dst" by (simp add: not_less order.order_iff_strict)
    then have "unat src < unat dst" by (simp add: word_less_nat_alt)
    then have "unat (src - dst) = 2 ^ 64 + unat src - unat dst" by (simp add: unat_sub_if')
    with assms show ?thesis by linarith
  qed simp
  with copy_down_eq [of "nat n" dst src m] assms False show ?thesis unfolding umemmove_def w by simp
qed

subsection \<open>Numbers as text\<close>

lemma digit_step:
  assumes "d < 10"
  shows "isdigit (digit d) \<and> (ucast (digit d) - 48 :: uint) = of_nat d"
proof -
  from assms have "d \<in> {0, 1, 2, 3, 4, 5, 6, 7, 8, 9}" by auto
  then show ?thesis by (auto simp: digit_def bytes_def isdigit_def)
qed

lemma atoi_loop_digits:
  "\<forall>d \<in> set ds. d < 10 \<Longrightarrow> \<not> isdigit (deref r) \<Longrightarrow>
   atoi_loop (of_nat n) (map digit ds @ r) = of_nat (foldl (\<lambda>a d. a * 10 + d) n ds)"
proof (induction ds arbitrary: n)
  case (Cons d ds)
  have d: "d < 10" using Cons.prems by simp
  have e: "(of_nat n * 10 + ucast (digit d) - 48 :: uint) = of_nat (n * 10 + d)"
    by (simp add: add_diff_eq [symmetric] digit_step [OF d])
  have "atoi_loop (of_nat n) (map digit (d # ds) @ r) = atoi_loop (of_nat (n * 10 + d)) (map digit ds @ r)"
    using digit_step [OF d] by (simp add: atoi_loop.simps [of _ "_ # _"] e del: of_nat_add of_nat_mult)
  also have "\<dots> = of_nat (foldl (\<lambda>a d. a * 10 + d) (n * 10 + d) ds)" using Cons.prems by (intro Cons.IH) simp_all
  finally show ?case by simp
qed (simp add: atoi_loop.simps)

text \<open>
  \<^verbatim>\<open>atoi\<close> reads back what \<^verbatim>\<open>printf\<close> prints with \<^verbatim>\<open>%d\<close>: the digits of every non-negative 32-bit number, followed by
  anything but a digit, denote the number.
\<close>

lemma atoi_printint:
  assumes "0 \<le> sint x" "\<not> isdigit (deref r)"
  shows "atoi (int_bytes x 10 True @ r) = sint x"
proof -
  let ?ds = "rev (digits_rev 10 (unat x))"
  have "int_bytes x 10 True = map digit ?ds" using assms(1) by (simp add: int_bytes_def Let_def rev_map)
  moreover have "atoi_loop 0 (map digit ?ds @ r) = of_nat (foldl (\<lambda>a d. a * 10 + d) 0 ?ds)"
    using atoi_loop_digits [of ?ds r 0] digits_rev_digits [of 10 "unat x"] assms(2) by simp
  moreover have "foldl (\<lambda>a d. a * 10 + d) 0 ?ds = unat x"
    using digits_rev_val [of 10 "unat x"] by (simp add: num_val_def)
  ultimately show ?thesis by (simp add: atoi_def)
qed

end
