(* ===== verification/Regmatch.thy ===== *)
theory Regmatch
  imports Ulib
begin

section \<open>The pattern matcher of \<open>grep\<close>\<close>

text \<open>
  \<^verbatim>\<open>match\<close>, \<^verbatim>\<open>matchhere\<close> and \<^verbatim>\<open>matchstar\<close> of \<^verbatim>\<open>user/grep.c\<close>, with \<open>deref p\<close> for \<^verbatim>\<open>p[0]\<close>, \<open>deref (tl p)\<close> for
  \<^verbatim>\<open>p[1]\<close> and \<open>tl p\<close> for \<^verbatim>\<open>p+1\<close>; and the language a pattern stands for, against which they are proved.
\<close>

subsection \<open>The code\<close>

function matchhere :: "uchar list \<Rightarrow> uchar list \<Rightarrow> bool"
  and matchstar :: "uchar \<Rightarrow> uchar list \<Rightarrow> uchar list \<Rightarrow> bool" where
  "matchhere re ln =
     (if deref re = 0 then True
      else if deref (tl re) = of_char CHR ''*'' then matchstar (deref re) (tl (tl re)) ln
      else if deref re = of_char CHR ''$'' \<and> deref (tl re) = 0 then deref ln = 0
      else if deref ln \<noteq> 0 \<and> (deref re = of_char CHR ''.'' \<or> deref re = deref ln) then matchhere (tl re) (tl ln)
      else False)"
| "matchstar c re ln =
     (if matchhere re ln then True
      else if deref ln \<noteq> 0 \<and> (deref ln = c \<or> c = of_char CHR ''.'') then matchstar c re (tl ln)
      else False)"
  by pat_completeness auto
termination
proof (relation "measures [\<lambda>x. case x of Inl (re, ln) \<Rightarrow> length re | Inr (c, re, ln) \<Rightarrow> Suc (length re),
                           \<lambda>x. case x of Inl (re, ln) \<Rightarrow> length ln | Inr (c, re, ln) \<Rightarrow> length ln]")
  fix re :: "uchar list" and ln :: "uchar list"
  assume "deref re \<noteq> 0" "deref (tl re) = of_char CHR ''*''"
  then obtain c d r where "re = c # d # r" by (cases re; cases "tl re") auto
  then show "(Inr (deref re, tl (tl re), ln), Inl (re, ln)) \<in> measures
    [\<lambda>x. case x of Inl (re, ln) \<Rightarrow> length re | Inr (c, re, ln) \<Rightarrow> Suc (length re),
     \<lambda>x. case x of Inl (re, ln) \<Rightarrow> length ln | Inr (c, re, ln) \<Rightarrow> length ln]" by simp
qed (auto simp: deref_def split: list.splits)

declare matchhere.simps [simp del] matchstar.simps [simp del]

function match_from :: "uchar list \<Rightarrow> uchar list \<Rightarrow> bool" where
  "match_from re ln = (if matchhere re ln then True else if deref ln \<noteq> 0 then match_from re (tl ln) else False)"
  by pat_completeness auto
termination
  by (relation "measure (\<lambda>(re, ln). length ln)") (auto simp: deref_def split: list.splits)

declare match_from.simps [simp del]

definition match :: "uchar list \<Rightarrow> uchar list \<Rightarrow> bool" where
  "match re ln = (if deref re = of_char CHR ''^'' then matchhere (tl re) ln else match_from re ln)"

subsection \<open>The language of a pattern\<close>

text \<open>
  A pattern is a sequence of items, a byte or any byte, once or any number of times, and possibly the anchor \<^verbatim>\<open>$\<close> at
  its end. \<open>items\<close> reads a pattern; a \<^verbatim>\<open>*\<close> applies to the byte before it, whatever that is.
\<close>

datatype item = One uchar | Star uchar

fun items :: "uchar list \<Rightarrow> item list \<times> bool" where
  "items [] = ([], False)"
| "items [c] = (if c = of_char CHR ''$'' then ([], True) else ([One c], False))"
| "items (c # d # re) =
     (if d = of_char CHR ''*'' then case items re of (is, a) \<Rightarrow> (Star c # is, a)
      else case items (d # re) of (is, a) \<Rightarrow> (One c # is, a))"

definition fits :: "uchar \<Rightarrow> uchar \<Rightarrow> bool" where
  "fits c b \<longleftrightarrow> c = of_char CHR ''.'' \<or> c = b"

fun lang :: "item list \<Rightarrow> uchar list set" where
  "lang [] = {[]}"
| "lang (One c # is) = {b # u | b u. fits c b \<and> u \<in> lang is}"
| "lang (Star c # is) = {u @ v | u v. (\<forall>b \<in> set u. fits c b) \<and> v \<in> lang is}"

text \<open>The pattern matches the string from its beginning, up to anywhere or, with the anchor, up to its end.\<close>

definition matches_prefix :: "item list \<times> bool \<Rightarrow> uchar list \<Rightarrow> bool" where
  "matches_prefix p ln \<longleftrightarrow> (\<exists>u v. ln = u @ v \<and> u \<in> lang (fst p) \<and> (snd p \<longrightarrow> v = []))"

lemma matches_prefix_Nil: "matches_prefix ([], a) ln \<longleftrightarrow> (a \<longrightarrow> ln = [])"
  by (auto simp: matches_prefix_def)

lemma matches_prefix_One:
  "matches_prefix (One c # is, a) ln \<longleftrightarrow> (\<exists>b t. ln = b # t \<and> fits c b \<and> matches_prefix (is, a) t)"
proof
  assume "matches_prefix (One c # is, a) ln"
  then obtain x v where x: "ln = x @ v" "x \<in> lang (One c # is)" and "a \<longrightarrow> v = []"
    unfolding matches_prefix_def fst_conv snd_conv by blast
  moreover from x(2) obtain b u where "x = b # u" "fits c b" "u \<in> lang is" by auto
  ultimately have "ln = b # u @ v" "fits c b" "u \<in> lang is" "a \<longrightarrow> v = []" by simp_all
  then show "\<exists>b t. ln = b # t \<and> fits c b \<and> matches_prefix (is, a) t"
    by (intro exI [of _ b] exI [of _ "u @ v"]) (auto simp: matches_prefix_def)
next
  assume "\<exists>b t. ln = b # t \<and> fits c b \<and> matches_prefix (is, a) t"
  then obtain b u v where "ln = b # u @ v" "fits c b" "u \<in> lang is" "a \<longrightarrow> v = []"
    unfolding matches_prefix_def fst_conv snd_conv by blast
  then show "matches_prefix (One c # is, a) ln"
    unfolding matches_prefix_def by (intro exI [of _ "b # u"] exI [of _ v]) auto
qed

lemma matches_prefix_Star:
  "matches_prefix (Star c # is, a) ln \<longleftrightarrow> (\<exists>u t. ln = u @ t \<and> (\<forall>b \<in> set u. fits c b) \<and> matches_prefix (is, a) t)"
proof
  assume "matches_prefix (Star c # is, a) ln"
  then obtain x w where x: "ln = x @ w" "x \<in> lang (Star c # is)" and "a \<longrightarrow> w = []"
    unfolding matches_prefix_def fst_conv snd_conv by blast
  moreover from x(2) obtain u v where "x = u @ v" "\<forall>b \<in> set u. fits c b" "v \<in> lang is" by auto
  ultimately have "ln = u @ v @ w" "\<forall>b \<in> set u. fits c b" "v \<in> lang is" "a \<longrightarrow> w = []" by simp_all
  then show "\<exists>u t. ln = u @ t \<and> (\<forall>b \<in> set u. fits c b) \<and> matches_prefix (is, a) t"
    by (intro exI [of _ u] exI [of _ "v @ w"]) (auto simp: matches_prefix_def)
next
  assume "\<exists>u t. ln = u @ t \<and> (\<forall>b \<in> set u. fits c b) \<and> matches_prefix (is, a) t"
  then obtain u v w where "ln = u @ v @ w" "\<forall>b \<in> set u. fits c b" "v \<in> lang is" "a \<longrightarrow> w = []"
    unfolding matches_prefix_def fst_conv snd_conv by blast
  then show "matches_prefix (Star c # is, a) ln"
    unfolding matches_prefix_def by (intro exI [of _ "u @ v"] exI [of _ w]) auto
qed

lemma matches_prefix_Star_step:
  "matches_prefix (Star c # is, a) ln \<longleftrightarrow>
     matches_prefix (is, a) ln \<or> (\<exists>b t. ln = b # t \<and> fits c b \<and> matches_prefix (Star c # is, a) t)"
proof
  assume "matches_prefix (Star c # is, a) ln"
  then obtain u t where u: "ln = u @ t" "\<forall>b \<in> set u. fits c b" "matches_prefix (is, a) t"
    unfolding matches_prefix_Star by blast
  then show "matches_prefix (is, a) ln \<or> (\<exists>b t. ln = b # t \<and> fits c b \<and> matches_prefix (Star c # is, a) t)"
    by (cases u) (auto simp: matches_prefix_Star)
next
  assume "matches_prefix (is, a) ln \<or> (\<exists>b t. ln = b # t \<and> fits c b \<and> matches_prefix (Star c # is, a) t)"
  then show "matches_prefix (Star c # is, a) ln"
  proof
    assume "matches_prefix (is, a) ln"
    then show ?thesis unfolding matches_prefix_Star by (intro exI [of _ "[]"] exI [of _ ln]) simp
  next
    assume "\<exists>b t. ln = b # t \<and> fits c b \<and> matches_prefix (Star c # is, a) t"
    then obtain b u t where "ln = b # u @ t" "fits c b" "\<forall>b \<in> set u. fits c b" "matches_prefix (is, a) t"
      unfolding matches_prefix_Star by blast
    then show ?thesis unfolding matches_prefix_Star by (intro exI [of _ "b # u"] exI [of _ t]) simp
  qed
qed

subsection \<open>The matcher decides the language\<close>

lemma items_step:
  assumes "0 \<notin> set re" "deref re \<noteq> 0" "deref (tl re) \<noteq> of_char CHR ''*''" "\<not> (deref re = of_char CHR ''$'' \<and> deref (tl re) = 0)"
  shows "items re = (One (deref re) # fst (items (tl re)), snd (items (tl re)))"
  using assms by (cases re rule: items.cases) (auto split: prod.splits)

lemma items_star:
  "deref re \<noteq> 0 \<Longrightarrow> deref (tl re) = of_char CHR ''*'' \<Longrightarrow>
   items re = (Star (deref re) # fst (items (tl (tl re))), snd (items (tl (tl re))))"
  by (cases re rule: items.cases) (auto split: prod.splits)

lemma items_dollar:
  "0 \<notin> set re \<Longrightarrow> deref re = of_char CHR ''$'' \<Longrightarrow> deref (tl re) = 0 \<Longrightarrow> items re = ([], True)"
  by (cases re rule: items.cases) auto

lemma set_tl: "0 \<notin> set xs \<Longrightarrow> 0 \<notin> set (tl xs)"
  by (cases xs) auto

lemma deref_0: "0 \<notin> set xs \<Longrightarrow> deref xs = 0 \<longleftrightarrow> xs = []"
  by (cases xs) auto

lemma matchhere_matches:
  "0 \<notin> set re \<Longrightarrow> 0 \<notin> set ln \<Longrightarrow> matchhere re ln \<longleftrightarrow> matches_prefix (items re) ln"
  "0 \<notin> set re \<Longrightarrow> 0 \<notin> set ln \<Longrightarrow> matchstar c re ln \<longleftrightarrow> matches_prefix (Star c # fst (items re), snd (items re)) ln"
proof (induction re ln and c re ln rule: matchhere_matchstar.induct)
  case (1 re ln)
  note prems = "1.prems" "1.prems" [THEN set_tl]
  consider "re = []" | "deref re \<noteq> 0" "deref (tl re) = of_char CHR ''*''"
    | "deref re = of_char CHR ''$''" "deref (tl re) = 0"
    | "deref re \<noteq> 0" "deref (tl re) \<noteq> of_char CHR ''*''" "\<not> (deref re = of_char CHR ''$'' \<and> deref (tl re) = 0)"
    using deref_0 [of re] prems(1) by blast
  then show ?case
  proof cases
    case 1
    then show ?thesis by (simp add: matchhere.simps matches_prefix_Nil)
  next
    case 2
    then have "matchhere re ln = matchstar (deref re) (tl (tl re)) ln" by (simp add: matchhere.simps [of re])
    also have "\<dots> = matches_prefix (items re) ln" using "1.IH"(1) 2 prems set_tl [OF prems(3)] by (simp add: items_star)
    finally show ?thesis .
  next
    case 3
    then show ?thesis using prems by (simp add: matchhere.simps [of re] items_dollar matches_prefix_Nil deref_0)
  next
    case 4
    show ?thesis
    proof (cases "deref ln \<noteq> 0 \<and> fits (deref re) (deref ln)")
      case True
      then have "matchhere re ln = matchhere (tl re) (tl ln)" using 4 by (auto simp: matchhere.simps [of re] fits_def)
      also have "\<dots> = matches_prefix (items (tl re)) (tl ln)" using "1.IH"(2) 4 True prems by (simp add: fits_def)
      finally show ?thesis using True 4 prems by (cases ln) (simp_all add: items_step matches_prefix_One)
    next
      case False
      then have "\<not> matchhere re ln" using 4 by (auto simp: matchhere.simps [of re] fits_def)
      then show ?thesis using False 4 prems by (cases ln) (auto simp: items_step matches_prefix_One)
    qed
  qed
next
  case (2 c re ln)
  note prems = "2.prems" "2.prems" [THEN set_tl]
  have m: "matchhere re ln = matches_prefix (items re) ln" using "2.IH"(1) prems by simp
  show ?case
  proof (cases "matchhere re ln")
    case True
    then show ?thesis using m by (subst matches_prefix_Star_step) (simp add: matchstar.simps [of c])
  next
    case False
    show ?thesis
    proof (cases "deref ln \<noteq> 0 \<and> (deref ln = c \<or> c = of_char CHR ''.'')")
      case True
      then have "matchstar c re ln = matches_prefix (Star c # fst (items re), snd (items re)) (tl ln)"
        using "2.IH"(2) False prems by (simp add: matchstar.simps [of c re ln])
      then show ?thesis using True False m prems
        by (subst matches_prefix_Star_step) (cases ln; auto simp: fits_def)
    next
      case no: False
      then have "\<not> matchstar c re ln" using False by (auto simp: matchstar.simps [of c re ln])
      then show ?thesis using no False m prems
        by (subst matches_prefix_Star_step) (cases ln; auto simp: fits_def)
    qed
  qed
qed

lemma match_from_matches:
  "0 \<notin> set re \<Longrightarrow> 0 \<notin> set ln \<Longrightarrow> match_from re ln \<longleftrightarrow> (\<exists>x t. ln = x @ t \<and> matches_prefix (items re) t)"
proof (induction ln)
  case Nil
  then show ?case by (simp add: match_from.simps matchhere_matches)
next
  case (Cons b ln)
  have "match_from re (b # ln) \<longleftrightarrow> matches_prefix (items re) (b # ln) \<or> match_from re ln"
    using Cons.prems by (simp add: match_from.simps [of re "b # ln"] matchhere_matches)
  also have "\<dots> \<longleftrightarrow> (\<exists>x t. b # ln = x @ t \<and> matches_prefix (items re) t)"
    using Cons by (auto simp: Cons_eq_append_conv)
  finally show ?case .
qed

text \<open>
  C31: \<^verbatim>\<open>match\<close> decides the language of the pattern. A pattern that starts with \<^verbatim>\<open>^\<close> matches a line iff a prefix of the line is in
  the language of the rest of the pattern, any other pattern iff some substring of the line is in its language; with
  \<^verbatim>\<open>$\<close> at the end the prefix or substring extends to the end of the line. The search always ends.
\<close>

theorem match_correct:
  assumes "0 \<notin> set re" "0 \<notin> set ln"
  shows "match re ln \<longleftrightarrow>
    (if deref re = of_char CHR ''^'' then matches_prefix (items (tl re)) ln
     else \<exists>x t. ln = x @ t \<and> matches_prefix (items re) t)"
  using assms set_tl [OF assms(1)] by (simp add: match_def matchhere_matches match_from_matches)

theorem match_correct_witness:
  "\<exists>x t. bytes ''xabbc'' = x @ t \<and> matches_prefix (items (bytes ''a.*c$'')) t"
proof -
  have "match (bytes ''a.*c$'') (bytes ''xabbc'')" by code_simp
  then show ?thesis
    using match_correct [of "bytes ''a.*c$''" "bytes ''xabbc''"] by (simp add: bytes_def)
qed

end
