(* ===== verification/Userprogs.thy ===== *)
theory Userprogs
  imports Regmatch
begin

section \<open>User programs\<close>

text \<open>
  \<^verbatim>\<open>cat\<close>, \<^verbatim>\<open>wc\<close>, \<^verbatim>\<open>grep\<close>, \<^verbatim>\<open>echo\<close>, \<^verbatim>\<open>ls\<close>, \<^verbatim>\<open>kill\<close>, \<^verbatim>\<open>ln\<close>, \<^verbatim>\<open>mkdir\<close> and \<^verbatim>\<open>rm\<close> over the system calls of \<open>sysc\<close>. The
  arguments of a program are the strings after its name. \<open>Inl (Some (n, s))\<close> is \<^verbatim>\<open>exit(n)\<close> in state \<open>s\<close>; \<open>Inl None\<close> ends a
  loop that reads when the bound it is given is used up, and stands for undefined behaviour.
\<close>

type_synonym ('s, 'a) uprog = "(int \<times> 's) option + 'a"

definition uexit :: "int \<Rightarrow> 's \<Rightarrow> ('s, 'a) uprog" where
  "uexit n s = Inl (Some (n, s))"

definition say :: "'s sysc \<Rightarrow> int \<Rightarrow> string \<Rightarrow> varg list \<Rightarrow> 's \<Rightarrow> ('s, 's) uprog" where
  "say S fd fmt ap s = (case fprintf S fd fmt ap s of None \<Rightarrow> Inl None | Some s \<Rightarrow> Inr s)"

subsection \<open>\<open>cat\<close>\<close>

fun cat :: "nat \<Rightarrow> 's sysc \<Rightarrow> int \<Rightarrow> 's \<Rightarrow> ('s, 's) uprog" where
  "cat 0 S fd s = Inl None"
| "cat (Suc k) S fd s =
     (case sc_read S fd 512 s of
        (n, buf, s) \<Rightarrow>
          if n > 0 then
            (case sc_write S 1 (take (nat n) buf) s of
               (r, s) \<Rightarrow>
                 if r \<noteq> n then andthen (say S 2 (''cat: write error'' @ [CHR 10]) [] s) (uexit 1)
                 else cat k S fd s)
          else if n < 0 then andthen (say S 2 (''cat: read error'' @ [CHR 10]) [] s) (uexit 1)
          else Inr s)"

definition cat_main :: "nat \<Rightarrow> 's sysc \<Rightarrow> uchar list list \<Rightarrow> 's \<Rightarrow> ('s, 's) uprog" where
  "cat_main k S args s =
     (if args = [] then andthen (cat k S 0 s) (uexit 0)
      else
        andthen (for_each args (\<lambda>a s.
          case sc_open S a O_RDONLY s of
            (fd, s) \<Rightarrow>
              if fd < 0 then andthen (say S 2 (''cat: cannot open %s'' @ [CHR 10]) [ArgStr (Some a)] s) (uexit 1)
              else andthen (cat k S fd s) (\<lambda>s. Inr (snd (sc_close S fd s)))) s)
        (uexit 0))"

subsection \<open>\<open>wc\<close>\<close>

record wcount =
  wc_l :: uint
  wc_w :: uint
  wc_c :: uint
  wc_inword :: bool

definition wc_space :: "uchar list" where
  "wc_space = [32, 13, 9, 10, 11]"

definition wc_byte :: "uchar \<Rightarrow> wcount \<Rightarrow> wcount" where
  "wc_byte b q =
     (let q = q\<lparr>wc_c := wc_c q + 1\<rparr>;
          q = (if b = 10 then q\<lparr>wc_l := wc_l q + 1\<rparr> else q)
      in if strchr wc_space b \<noteq> None then q\<lparr>wc_inword := False\<rparr>
         else if \<not> wc_inword q then q\<lparr>wc_w := wc_w q + 1, wc_inword := True\<rparr>
         else q)"

fun wc_loop :: "nat \<Rightarrow> 's sysc \<Rightarrow> int \<Rightarrow> wcount \<Rightarrow> 's \<Rightarrow> ('s, wcount \<times> 's) uprog" where
  "wc_loop 0 S fd q s = Inl None"
| "wc_loop (Suc k) S fd q s =
     (case sc_read S fd 512 s of
        (n, buf, s) \<Rightarrow>
          if n > 0 then wc_loop k S fd (fold wc_byte (take (nat n) buf) q) s
          else if n < 0 then andthen (say S 1 (''wc: read error'' @ [CHR 10]) [] s) (uexit 1)
          else Inr (q, s))"

definition wc :: "nat \<Rightarrow> 's sysc \<Rightarrow> int \<Rightarrow> uchar list \<Rightarrow> 's \<Rightarrow> ('s, 's) uprog" where
  "wc k S fd name s =
     andthen (wc_loop k S fd \<lparr>wc_l = 0, wc_w = 0, wc_c = 0, wc_inword = False\<rparr> s) (\<lambda>(q, s).
     say S 1 (''%d %d %d %s'' @ [CHR 10]) [ArgInt (wc_l q), ArgInt (wc_w q), ArgInt (wc_c q), ArgStr (Some name)] s)"

definition wc_main :: "nat \<Rightarrow> 's sysc \<Rightarrow> uchar list list \<Rightarrow> 's \<Rightarrow> ('s, 's) uprog" where
  "wc_main k S args s =
     (if args = [] then andthen (wc k S 0 [] s) (uexit 0)
      else
        andthen (for_each args (\<lambda>a s.
          case sc_open S a O_RDONLY s of
            (fd, s) \<Rightarrow>
              if fd < 0 then andthen (say S 1 (''wc: cannot open %s'' @ [CHR 10]) [ArgStr (Some a)] s) (uexit 1)
              else andthen (wc k S fd a s) (\<lambda>s. Inr (snd (sc_close S fd s)))) s)
        (uexit 0))"

subsection \<open>\<open>grep\<close>\<close>

text \<open>
  The lines in \<open>buf[p..m)\<close>, with a NUL at \<open>m\<close>: the part of the buffer that is left, and the state after the lines
  that match are written.
\<close>

function grep_lines :: "'s sysc \<Rightarrow> uchar list \<Rightarrow> uchar list \<Rightarrow> 's \<Rightarrow> uchar list \<times> 's" where
  "grep_lines S pattern p s =
     (case strchr p 10 of
        None \<Rightarrow> (p, s)
      | Some q \<Rightarrow>
          let line = take (length p - length q) p;
              s = (if match pattern line then snd (sc_write S 1 (line @ [10]) s) else s)
          in grep_lines S pattern (tl q) s)"
  by pat_completeness auto
termination
proof (relation "measure (\<lambda>(S, pattern, p, s). length p)")
  fix S :: "'s sysc" and pattern p :: "uchar list" and s s' :: 's and q line :: "uchar list"
  assume "strchr p 10 = Some q"
  then have "q = dropWhile (\<lambda>d. d \<noteq> 10) p" "10 \<in> set p"
    by (auto simp: strchr_zstr zstr_def dest: set_takeWhileD split: if_splits)
  then have "length q \<le> length p" "q \<noteq> []" by (simp_all add: length_dropWhile_le)
  then show "((S, pattern, tl q, s'), (S, pattern, p, s)) \<in> measure (\<lambda>(S, pattern, p, s). length p)"
    by (cases q) auto
qed simp

declare grep_lines.simps [simp del]

text \<open>\<open>left\<close> is what the buffer of 1024 bytes holds before the next read: \<open>m\<close> is its length.\<close>

fun grep_loop :: "nat \<Rightarrow> 's sysc \<Rightarrow> uchar list \<Rightarrow> int \<Rightarrow> uchar list \<Rightarrow> 's \<Rightarrow> ('s, 's) uprog" where
  "grep_loop 0 S pattern fd left s = Inl None"
| "grep_loop (Suc k) S pattern fd left s =
     (case sc_read S fd (1024 - length left - 1) s of
        (n, bs, s) \<Rightarrow>
          if n > 0 then
            case grep_lines S pattern (left @ take (nat n) bs) s of (p, s) \<Rightarrow> grep_loop k S pattern fd p s
          else Inr s)"

definition grep :: "nat \<Rightarrow> 's sysc \<Rightarrow> uchar list \<Rightarrow> int \<Rightarrow> 's \<Rightarrow> ('s, 's) uprog" where
  "grep k S pattern fd s = grep_loop k S pattern fd [] s"

definition grep_main :: "nat \<Rightarrow> 's sysc \<Rightarrow> uchar list list \<Rightarrow> 's \<Rightarrow> ('s, 's) uprog" where
  "grep_main k S args s =
     (case args of
        [] \<Rightarrow> andthen (say S 2 (''usage: grep pattern [file ...]'' @ [CHR 10]) [] s) (uexit 1)
      | [pattern] \<Rightarrow> andthen (grep k S pattern 0 s) (uexit 0)
      | pattern # files \<Rightarrow>
          andthen (for_each files (\<lambda>a s.
            case sc_open S a O_RDONLY s of
              (fd, s) \<Rightarrow>
                if fd < 0 then andthen (say S 1 (''grep: cannot open %s'' @ [CHR 10]) [ArgStr (Some a)] s) (uexit 1)
                else andthen (grep k S pattern fd s) (\<lambda>s. Inr (snd (sc_close S fd s)))) s)
          (uexit 0))"

subsection \<open>The small programs\<close>

definition echo_main :: "'s sysc \<Rightarrow> uchar list list \<Rightarrow> 's \<Rightarrow> ('s, 's) uprog" where
  "echo_main S args s =
     andthen (for_each [0..<length args] (\<lambda>i s.
       let s = snd (sc_write S 1 (take (ustrlen (args ! i)) (args ! i)) s)
       in Inr (if i + 1 < length args then snd (sc_write S 1 [32] s) else snd (sc_write S 1 [10] s))) s)
     (uexit 0)"

definition kill_main :: "'s sysc \<Rightarrow> uchar list list \<Rightarrow> 's \<Rightarrow> ('s, 's) uprog" where
  "kill_main S args s =
     (if args = [] then andthen (say S 2 (''usage: kill pid...'' @ [CHR 10]) [] s) (uexit 1)
      else andthen (for_each args (\<lambda>a s. Inr (snd (sc_kill S (atoi a) s))) s) (uexit 0))"

definition ln_main :: "'s sysc \<Rightarrow> uchar list list \<Rightarrow> 's \<Rightarrow> ('s, 's) uprog" where
  "ln_main S args s =
     (case args of
        [old, new] \<Rightarrow>
          (case sc_link S old new s of
             (r, s) \<Rightarrow>
               andthen (if r < 0 then say S 2 (''link %s %s: failed'' @ [CHR 10]) [ArgStr (Some old), ArgStr (Some new)] s else Inr s)
               (uexit 0))
      | _ \<Rightarrow> andthen (say S 2 (''Usage: ln old new'' @ [CHR 10]) [] s) (uexit 1))"

text \<open>The loops of \<^verbatim>\<open>mkdir\<close> and \<^verbatim>\<open>rm\<close>, which stop at the first call that fails.\<close>

fun mkdir_loop :: "'s sysc \<Rightarrow> uchar list list \<Rightarrow> 's \<Rightarrow> ('s, 's) uprog" where
  "mkdir_loop S [] s = Inr s"
| "mkdir_loop S (a # args) s =
     (case sc_mkdir S a s of
        (r, s) \<Rightarrow>
          if r < 0 then say S 2 (''mkdir: %s failed to create'' @ [CHR 10]) [ArgStr (Some a)] s
          else mkdir_loop S args s)"

definition mkdir_main :: "'s sysc \<Rightarrow> uchar list list \<Rightarrow> 's \<Rightarrow> ('s, 's) uprog" where
  "mkdir_main S args s =
     (if args = [] then andthen (say S 2 (''Usage: mkdir files...'' @ [CHR 10]) [] s) (uexit 1)
      else andthen (mkdir_loop S args s) (uexit 0))"

fun rm_loop :: "'s sysc \<Rightarrow> uchar list list \<Rightarrow> 's \<Rightarrow> ('s, 's) uprog" where
  "rm_loop S [] s = Inr s"
| "rm_loop S (a # args) s =
     (case sc_unlink S a s of
        (r, s) \<Rightarrow>
          if r < 0 then say S 2 (''rm: %s failed to delete'' @ [CHR 10]) [ArgStr (Some a)] s
          else rm_loop S args s)"

definition rm_main :: "'s sysc \<Rightarrow> uchar list list \<Rightarrow> 's \<Rightarrow> ('s, 's) uprog" where
  "rm_main S args s =
     (if args = [] then andthen (say S 2 (''Usage: rm files...'' @ [CHR 10]) [] s) (uexit 1)
      else andthen (rm_loop S args s) (uexit 0))"

subsection \<open>\<open>ls\<close>\<close>

definition fmtname :: "uchar list \<Rightarrow> uchar list" where
  "fmtname path =
     (let p = rev (takeWhile (\<lambda>c. c \<noteq> of_char CHR ''/'') (rev (zstr path)))
      in if length p \<ge> DIRSIZ then p else p @ replicate (DIRSIZ - length p) 32)"

text \<open>The entries of a directory; \<open>path\<close> is the name of the directory with a slash.\<close>

fun ls_loop :: "nat \<Rightarrow> 's sysc \<Rightarrow> int \<Rightarrow> uchar list \<Rightarrow> stat \<Rightarrow> 's \<Rightarrow> ('s, 's) uprog" where
  "ls_loop 0 S fd path st s = Inl None"
| "ls_loop (Suc k) S fd path st s =
     (case sc_read S fd 16 s of
        (n, bs, s) \<Rightarrow>
          if n = 16 then
            let de = get_dirent bs in
            if de_inum de = 0 then ls_loop k S fd path st s
            else
              let name = path @ zstr (de_name de) in
              case ustat S name st s of
                (r, st, s) \<Rightarrow>
                  if r < 0 then
                    andthen (say S 1 (''ls: cannot stat %s'' @ [CHR 10]) [ArgStr (Some name)] s) (ls_loop k S fd path st)
                  else
                    andthen (say S 1 (''%s %d %d %d'' @ [CHR 10])
                      [ArgStr (Some (fmtname name)), ArgInt (ucast (st_type st)), ArgInt (of_nat (st_ino st)), ArgInt (of_nat (st_size st))] s)
                    (ls_loop k S fd path st)
          else Inr s)"

definition ls :: "nat \<Rightarrow> 's sysc \<Rightarrow> uchar list \<Rightarrow> stat \<Rightarrow> 's \<Rightarrow> ('s, 's) uprog" where
  "ls k S path st s =
     (case sc_open S path O_RDONLY s of
        (fd, s) \<Rightarrow>
          if fd < 0 then say S 2 (''ls: cannot open %s'' @ [CHR 10]) [ArgStr (Some path)] s
          else
            case sc_fstat S fd st s of
              (r, st, s) \<Rightarrow>
                if r < 0 then
                  andthen (say S 2 (''ls: cannot stat %s'' @ [CHR 10]) [ArgStr (Some path)] s) (\<lambda>s.
                  Inr (snd (sc_close S fd s)))
                else
                  andthen
                    (if st_type st = T_DEVICE \<or> st_type st = T_FILE then
                       say S 1 (''%s %d %d %l'' @ [CHR 10])
                         [ArgStr (Some (fmtname path)), ArgInt (ucast (st_type st)), ArgInt (of_nat (st_ino st)), ArgPtr (of_nat (st_size st))] s
                     else if st_type st = T_DIR then
                       if ustrlen path + 1 + DIRSIZ + 1 > 512 then say S 1 (''ls: path too long'' @ [CHR 10]) [] s
                       else ls_loop k S fd (zstr path @ bytes ''/'') st s
                     else Inr s)
                    (\<lambda>s. Inr (snd (sc_close S fd s))))"

definition ls_main :: "nat \<Rightarrow> 's sysc \<Rightarrow> uchar list list \<Rightarrow> stat \<Rightarrow> 's \<Rightarrow> ('s, 's) uprog" where
  "ls_main k S args st s =
     (if args = [] then andthen (ls k S (bytes ''.'') st s) (uexit 0)
      else andthen (for_each args (\<lambda>a s. ls k S a st s) s) (uexit 0))"

subsection \<open>What the programs rely on\<close>

text \<open>
  The descriptor \<open>fd\<close> delivers the bytes \<open>rest\<close> in pieces of any size, at least one byte as long as there is one; standard
  output takes all the bytes it is given, and \<open>out\<close> is what it has taken.
\<close>

definition stream_io :: "'s sysc \<Rightarrow> int \<Rightarrow> ('s \<Rightarrow> uchar list) \<Rightarrow> ('s \<Rightarrow> uchar list) \<Rightarrow> bool" where
  "stream_io S fd rest out \<longleftrightarrow>
     (\<forall>n s. case sc_read S fd n s of
        (r, bs, t) \<Rightarrow> r = int (length bs) \<and> length bs \<le> n \<and> rest s = bs @ rest t \<and> out t = out s \<and> (0 < n \<and> rest s \<noteq> [] \<longrightarrow> bs \<noteq> [])) \<and>
     (\<forall>bs s. case sc_write S 1 bs s of (r, t) \<Rightarrow> r = int (length bs) \<and> out t = out s @ bs \<and> rest t = rest s)"

lemma stream_read:
  assumes "stream_io S fd rest out"
  obtains bs t where "sc_read S fd n s = (int (length bs), bs, t)" "length bs \<le> n" "rest s = bs @ rest t" "out t = out s"
    "n = 0 \<or> rest s = [] \<or> bs \<noteq> []"
proof -
  obtain r bs t where e: "sc_read S fd n s = (r, bs, t)" by (cases "sc_read S fd n s") auto
  from assms [unfolded stream_io_def, THEN conjunct1, rule_format, of n s, unfolded e prod.case]
  have r: "r = int (length bs)" and g: "length bs \<le> n" "rest s = bs @ rest t" "out t = out s" "0 < n \<and> rest s \<noteq> [] \<longrightarrow> bs \<noteq> []"
    by - (elim conjE, assumption)+
  show thesis by (rule that [of bs t, OF e [unfolded r] g(1-3)]) (use g(4) in \<open>cases n; auto\<close>)
qed

lemma stream_write:
  assumes "stream_io S fd rest out"
  obtains t where "sc_write S 1 bs s = (int (length bs), t)" "out t = out s @ bs" "rest t = rest s"
proof -
  obtain r t where e: "sc_write S 1 bs s = (r, t)" by (cases "sc_write S 1 bs s")
  from assms [unfolded stream_io_def, THEN conjunct2, rule_format, of bs s, unfolded e prod.case]
  have r: "r = int (length bs)" and g: "out t = out s @ bs" "rest t = rest s"
    by - (elim conjE, assumption)+
  show thesis by (rule that [of t, OF e [unfolded r] g])
qed

text \<open>
  \<^verbatim>\<open>cat\<close> copies: for every way in which the reads cut the file, it returns, with all of the file appended to the
  output, after at most one read per byte and one at the end.
\<close>

lemma cat_copies:
  assumes "stream_io S fd rest out" "length (rest s) < k"
  shows "\<exists>t. cat k S fd s = Inr t \<and> out t = out s @ rest s \<and> rest t = []"
  using assms(2)
proof (induction k arbitrary: s)
  case (Suc k)
  obtain bs t where r: "sc_read S fd 512 s = (int (length bs), bs, t)" "length bs \<le> 512" "rest s = bs @ rest t" "out t = out s"
      "(512::nat) = 0 \<or> rest s = [] \<or> bs \<noteq> []"
    by (rule stream_read [OF assms(1)])
  show ?case
  proof (cases "bs = []")
    case True
    with r(3,5) have "rest s = []" "rest t = []" by auto
    with True r(1,4) show ?thesis by (intro exI [of _ t]) simp
  next
    case False
    obtain u where w: "sc_write S 1 bs t = (int (length bs), u)" "out u = out t @ bs" "rest u = rest t"
      by (rule stream_write [OF assms(1)])
    have "length (rest u) < k" using Suc.prems r(3) w(3) False by (cases bs) auto
    from Suc.IH [OF this] obtain v where "cat k S fd u = Inr v" "out v = out u @ rest u" "rest v = []" by blast
    with r w False show ?thesis by simp
  qed
qed simp

subsection \<open>Counting\<close>

text \<open>A word starts where a byte that is no space is the first one or follows a space.\<close>

definition is_space :: "uchar \<Rightarrow> bool" where
  "is_space b \<longleftrightarrow> b \<in> {32, 13, 9, 10, 11}"

definition word_starts :: "uchar list \<Rightarrow> nat set" where
  "word_starts xs = {i. i < length xs \<and> \<not> is_space (xs ! i) \<and> (i = 0 \<or> is_space (xs ! (i - 1)))}"

lemma wc_space_iff: "strchr wc_space b \<noteq> None \<longleftrightarrow> is_space b"
  by (auto simp: strchr_zstr wc_space_def is_space_def)

lemma finite_word_starts [simp]: "finite (word_starts xs)"
  by (simp add: word_starts_def)

lemma word_starts_snoc:
  "word_starts (xs @ [b]) = word_starts xs \<union> (if \<not> is_space b \<and> (xs = [] \<or> is_space (last xs)) then {length xs} else {})"
  by (cases "xs = []") (auto simp: word_starts_def nth_append last_conv_nth less_Suc_eq split: if_splits)

lemma wc_fold:
  "fold wc_byte xs \<lparr>wc_l = 0, wc_w = 0, wc_c = 0, wc_inword = False\<rparr> =
     \<lparr>wc_l = of_nat (length (filter (\<lambda>b. b = 10) xs)), wc_w = of_nat (card (word_starts xs)), wc_c = of_nat (length xs),
      wc_inword = (xs \<noteq> [] \<and> \<not> is_space (last xs))\<rparr>"
proof (induction xs rule: rev_induct)
  case Nil
  show ?case by (simp add: word_starts_def)
next
  case (snoc b xs)
  have "length xs \<notin> word_starts xs" by (simp add: word_starts_def)
  then have c: "card (word_starts (xs @ [b])) =
      card (word_starts xs) + (if \<not> is_space b \<and> (xs = [] \<or> is_space (last xs)) then 1 else 0)"
    by (simp add: word_starts_snoc)
  have n: "is_space 10" by (simp add: is_space_def)
  show ?case
    unfolding fold_append comp_def snoc c fold_Cons fold_Nil id_apply
    unfolding wc_byte_def wc_space_iff Let_def
    by (cases "b = 10"; cases "is_space b"; cases "xs = []"; cases "is_space (last xs)") (simp_all add: n word_starts_def)
qed

lemma wc_loop_fold:
  assumes "stream_io S fd rest out" "length (rest s) < k"
  shows "\<exists>t. wc_loop k S fd q s = Inr (fold wc_byte (rest s) q, t) \<and> out t = out s \<and> rest t = []"
  using assms(2)
proof (induction k arbitrary: s q)
  case (Suc k)
  obtain bs t where r: "sc_read S fd 512 s = (int (length bs), bs, t)" "length bs \<le> 512" "rest s = bs @ rest t" "out t = out s"
      "(512::nat) = 0 \<or> rest s = [] \<or> bs \<noteq> []"
    by (rule stream_read [OF assms(1)])
  show ?case
  proof (cases "bs = []")
    case True
    with r(3,5) have "rest s = []" "rest t = []" by auto
    with True r(1,4) show ?thesis by (intro exI [of _ t]) simp
  next
    case False
    have "length (rest t) < k" using Suc.prems r(3) False by (cases bs) auto
    from Suc.IH [OF this] obtain u where "wc_loop k S fd (fold wc_byte bs q) t = Inr (fold wc_byte (rest t) (fold wc_byte bs q), u)"
      "out u = out t" "rest u = []" by blast
    with r False show ?thesis by (intro exI [of _ u]) simp
  qed
qed simp

lemma putc_out: "stream_io S fd rest out \<Longrightarrow> out (putc S 1 c s) = out s @ [c] \<and> rest (putc S 1 c s) = rest s"
  by (rule stream_write [of S fd rest out "[c]" s]) (simp_all add: putc_def)

lemma uputs_out: "stream_io S fd rest out \<Longrightarrow> out (uputs S 1 cs s) = out s @ cs \<and> rest (uputs S 1 cs s) = rest s"
  by (induction cs arbitrary: s) (simp_all add: uputs_def putc_out)

lemma uprintint_bytes: "uprintint S fd x base sg s = uputs S fd (int_bytes x base sg) s"
  by (simp add: uprintint_def int_bytes_def Let_def)

text \<open>
  \<^verbatim>\<open>wc\<close> prints the number of lines, words and bytes of the file and its name, however the reads cut the file; words are
  the maximal runs of bytes that are no space.
\<close>

lemma wc_counts:
  assumes "stream_io S fd rest out" "length (rest s) < k"
  shows "\<exists>t. wc k S fd name s = Inr t \<and> rest t = [] \<and>
    out t = out s @ int_bytes (of_nat (length (filter (\<lambda>b. b = 10) (rest s)))) 10 True @ [32]
      @ int_bytes (of_nat (card (word_starts (rest s)))) 10 True @ [32]
      @ int_bytes (of_nat (length (rest s))) 10 True @ [32] @ zstr name @ [10]"
proof -
  from wc_loop_fold [OF assms, unfolded wc_fold] obtain t where t:
    "wc_loop k S fd \<lparr>wc_l = 0, wc_w = 0, wc_c = 0, wc_inword = False\<rparr> s =
       Inr (fold wc_byte (rest s) \<lparr>wc_l = 0, wc_w = 0, wc_c = 0, wc_inword = False\<rparr>, t)" "out t = out s" "rest t = []"
    by blast
  show ?thesis
    by (simp add: wc_def t wc_fold say_def fprintf_def bytes_def convert_def uprintint_bytes uputs_out [OF assms(1)] putc_out [OF assms(1)]
        zstr_def)
qed

subsection \<open>Searching\<close>

text \<open>The complete lines of a file, without their newlines, and what follows the last newline.\<close>

function lines_of :: "uchar list \<Rightarrow> uchar list list" where
  "lines_of xs = (if 10 \<in> set xs then takeWhile (\<lambda>b. b \<noteq> 10) xs # lines_of (tl (dropWhile (\<lambda>b. b \<noteq> 10) xs)) else [])"
  by pat_completeness auto
termination
proof (relation "measure length")
  fix xs :: "uchar list"
  assume "10 \<in> set xs"
  then have "dropWhile (\<lambda>b. b \<noteq> 10) xs \<noteq> []" by simp
  then show "(tl (dropWhile (\<lambda>b. b \<noteq> 10) xs), xs) \<in> measure length"
    using length_dropWhile_le [of "\<lambda>b. b \<noteq> 10" xs] by (cases "dropWhile (\<lambda>b. b \<noteq> 10) xs") auto
qed simp

declare lines_of.simps [simp del]

definition last_part :: "uchar list \<Rightarrow> uchar list" where
  "last_part xs = rev (takeWhile (\<lambda>b. b \<noteq> 10) (rev xs))"

definition matching :: "uchar list \<Rightarrow> uchar list list \<Rightarrow> uchar list" where
  "matching pattern ks = concat (map (\<lambda>l. l @ [10]) (filter (match pattern) ks))"

lemma matching_append [simp]: "matching pattern (ks @ ms) = matching pattern ks @ matching pattern ms"
  by (simp add: matching_def)

lemma lines_of_none [simp]: "10 \<notin> set xs \<Longrightarrow> lines_of xs = []" "10 \<notin> set xs \<Longrightarrow> last_part xs = xs"
proof -
  assume "10 \<notin> set xs"
  then show "lines_of xs = []" by (simp add: lines_of.simps)
  have e: "takeWhile (\<lambda>b. b \<noteq> 10) (rev xs) = rev xs" using \<open>10 \<notin> set xs\<close> by (subst takeWhile_eq_all_conv) auto
  show "last_part xs = xs" unfolding last_part_def e by simp
qed

lemma cut_line:
  "10 \<notin> set l \<Longrightarrow> takeWhile (\<lambda>b. b \<noteq> 10) (l @ 10 # xs) = l" "10 \<notin> set l \<Longrightarrow> dropWhile (\<lambda>b. b \<noteq> 10) (l @ 10 # xs) = 10 # xs"
  for l :: "uchar list"
  by (induction l) auto

lemma lines_of_line [simp]: "10 \<notin> set l \<Longrightarrow> lines_of (l @ 10 # xs) = l # lines_of xs"
  by (subst lines_of.simps) (simp add: cut_line)

lemma last_part_line [simp]: "last_part (l @ 10 # xs) = last_part xs"
proof -
  have "takeWhile (\<lambda>b. b \<noteq> 10) (ys @ 10 # zs) = takeWhile (\<lambda>b. b \<noteq> 10) ys" for ys zs :: "uchar list" by (induction ys) auto
  then show ?thesis by (simp add: last_part_def)
qed

lemma first_line:
  assumes "10 \<in> set xs"
  obtains l ys where "xs = l @ 10 # ys" "10 \<notin> set l"
  using split_list_first [OF assms] by blast

text \<open>Cutting the file anywhere: the lines of the first piece, then those of its last part followed by the rest.\<close>

lemma lines_of_append:
  "lines_of (xs @ ys) = lines_of xs @ lines_of (last_part xs @ ys) \<and> last_part (xs @ ys) = last_part (last_part xs @ ys) \<and> 10 \<notin> set (last_part xs)"
proof (induction "length xs" arbitrary: xs rule: less_induct)
  case less
  show ?case
  proof (cases "10 \<in> set xs")
    case True
    then obtain l zs where "xs = l @ 10 # zs" "10 \<notin> set l" by (rule first_line)
    with less [of zs] show ?thesis by simp
  qed simp
qed

lemma set_last_part: "set (last_part xs) \<subseteq> set xs"
  by (auto simp: last_part_def dest: set_takeWhileD)

lemma grep_lines_spec:
  assumes io: "stream_io S fd rest out" and "0 \<notin> set p"
  shows "\<exists>t. grep_lines S pattern p s = (last_part p, t) \<and> out t = out s @ matching pattern (lines_of p) \<and> rest t = rest s"
  using assms(2)
proof (induction "length p" arbitrary: p s rule: less_induct)
  case less
  have z: "zstr p = p" using less.prems by (auto simp: zstr_def takeWhile_eq_all_conv)
  show ?case
  proof (cases "10 \<in> set p")
    case True
    then obtain l q where p: "p = l @ 10 # q" "10 \<notin> set l" by (rule first_line)
    have q: "strchr p 10 = Some (10 # q)" using p z by (simp add: strchr_zstr cut_line)
    define u where "u = (if match pattern l then snd (sc_write S 1 (l @ [10]) s) else s)"
    obtain w where w: "sc_write S 1 (l @ [10]) s = (int (length (l @ [10])), w)" "out w = out s @ l @ [10]" "rest w = rest s"
      by (rule stream_write [OF io])
    have u: "out u = out s @ matching pattern [l]" "rest u = rest s" using w by (simp_all add: u_def matching_def)
    have "length q < length p" "0 \<notin> set q" using less.prems p by auto
    from less.hyps [OF this] obtain t where t: "grep_lines S pattern q u = (last_part q, t)"
      "out t = out u @ matching pattern (lines_of q)" "rest t = rest u" by blast
    have "grep_lines S pattern p s = grep_lines S pattern q u"
      unfolding grep_lines.simps [of S pattern p] q using p(1) by (simp add: u_def)
    moreover have "matching pattern (lines_of p) = matching pattern [l] @ matching pattern (lines_of q)"
      using p matching_append [of pattern "[l]" "lines_of q"] by simp
    ultimately show ?thesis using t u p by simp
  next
    case False
    then show ?thesis using z by (simp add: grep_lines.simps strchr_zstr matching_def)
  qed
qed

text \<open>Every line, and what follows the last one, fits into the buffer with its newline and the NUL.\<close>

definition lines_fit :: "uchar list \<Rightarrow> bool" where
  "lines_fit xs \<longleftrightarrow> (\<forall>l \<in> set (lines_of xs @ [last_part xs]). length l \<le> 1022)"

lemma lines_fit_append: "lines_fit (xs @ ys) \<Longrightarrow> lines_fit (last_part xs @ ys)"
  using lines_of_append [of xs ys] by (simp add: lines_fit_def)

lemma lines_fit_first:
  assumes "lines_fit (xs @ ys)" "10 \<notin> set xs"
  shows "length xs \<le> 1022"
proof (cases "10 \<in> set ys")
  case True
  then obtain l zs where "ys = l @ 10 # zs" "10 \<notin> set l" by (rule first_line)
  then have "xs @ l \<in> set (lines_of (xs @ ys))" using assms(2) lines_of_line [of "xs @ l" zs] by simp
  then have "length (xs @ l) \<le> 1022" using assms(1) unfolding lines_fit_def set_append by blast
  then show ?thesis by simp
next
  case False
  then have "last_part (xs @ ys) = xs @ ys" using assms(2) by simp
  then show ?thesis using assms(1) by (simp add: lines_fit_def)
qed

lemma grep_loop_spec:
  assumes "stream_io S fd rest out" "length (rest s) < k" "0 \<notin> set (left @ rest s)" "10 \<notin> set left" "lines_fit (left @ rest s)"
  shows "\<exists>t. grep_loop k S pattern fd left s = Inr t \<and> out t = out s @ matching pattern (lines_of (left @ rest s)) \<and> rest t = []"
  using assms(2-)
proof (induction k arbitrary: s left)
  case (Suc k)
  have n: "1024 - length left - 1 \<noteq> 0" using lines_fit_first [OF Suc.prems(4,3)] by simp
  obtain bs t where r: "sc_read S fd (1024 - length left - 1) s = (int (length bs), bs, t)" "length bs \<le> 1024 - length left - 1"
      "rest s = bs @ rest t" "out t = out s" "1024 - length left - 1 = 0 \<or> rest s = [] \<or> bs \<noteq> []"
    by (rule stream_read [OF assms(1)])
  show ?case
  proof (cases "bs = []")
    case True
    with r(3,5) n have "rest s = []" "rest t = []" by auto
    with True r(1,4) Suc.prems(3) show ?thesis by (intro exI [of _ t]) (simp add: matching_def)
  next
    case False
    let ?b = "left @ bs"
    have z: "0 \<notin> set ?b" "0 \<notin> set (rest t)" using Suc.prems(2) r(3) by auto
    obtain u where u: "grep_lines S pattern ?b t = (last_part ?b, u)" "out u = out t @ matching pattern (lines_of ?b)" "rest u = rest t"
      using grep_lines_spec [OF assms(1) z(1)] by blast
    have l: "left @ rest s = ?b @ rest u" using r(3) u(3) by simp
    have "length (rest u) < k" using Suc.prems(1) r(3) u(3) False by (cases bs) auto
    moreover have "0 \<notin> set (last_part ?b @ rest u)" using z u(3) set_last_part [of ?b] by auto
    moreover have "lines_fit (last_part ?b @ rest u)" using Suc.prems(4) lines_fit_append unfolding l by blast
    ultimately obtain v where v: "grep_loop k S pattern fd (last_part ?b) u = Inr v"
      "out v = out u @ matching pattern (lines_of (last_part ?b @ rest u))" "rest v = []"
      using Suc.IH [of u "last_part ?b"] lines_of_append [of ?b] by blast
    have "grep_loop (Suc k) S pattern fd left s = Inr v" using r(1) u(1) v(1) False by simp
    moreover have "out v = out s @ matching pattern (lines_of (left @ rest s))"
      using v(2) u(2) r(4) lines_of_append [of ?b "rest u"] unfolding l by simp
    ultimately show ?thesis using v(3) by blast
  qed
qed simp

text \<open>
  C32: \<^verbatim>\<open>grep\<close> prints exactly the lines of the file that match, in their order, however the reads cut the file, if the file
  has no NUL and no line is longer than the buffer. It returns after at most one read per byte and one at the end.
\<close>

theorem grep_prints_matching_lines:
  assumes "stream_io S fd rest out" "length (rest s) < k" "0 \<notin> set (rest s)" "lines_fit (rest s)"
  shows "\<exists>t. grep k S pattern fd s = Inr t \<and> out t = out s @ matching pattern (lines_of (rest s)) \<and> rest t = []"
  using grep_loop_spec [OF assms(1,2), of "[]"] assms(3,4) by (simp add: grep_def)

subsection \<open>A file read three bytes at a time\<close>

definition demo_sysc :: "(uchar list \<times> uchar list) sysc" where
  "demo_sysc = \<lparr>sc_read = (\<lambda>fd n (d, o'). (int (length (take (min n 3) d)), take (min n 3) d, (drop (min n 3) d, o'))),
     sc_write = (\<lambda>fd bs (d, o'). (int (length bs), (d, o' @ bs))),
     sc_open = (\<lambda>p m s. (3, s)), sc_close = (\<lambda>fd s. (0, s)), sc_fstat = (\<lambda>fd st s. (0, st, s)), sc_kill = (\<lambda>p s. (0, s)),
     sc_link = (\<lambda>a b s. (0, s)), sc_unlink = (\<lambda>a s. (0, s)), sc_mkdir = (\<lambda>a s. (0, s))\<rparr>"

lemma demo_stream_io: "stream_io demo_sysc 3 fst snd"
  by (auto simp: stream_io_def demo_sysc_def)

theorem grep_prints_matching_lines_witness:
  "\<exists>t. grep 30 demo_sysc (bytes ''^ab*c'') 3 (bytes ''ac'' @ [10] @ bytes ''bc'' @ [10] @ bytes ''abbcd'' @ [10], []) = Inr t \<and>
    snd t = bytes ''ac'' @ [10] @ bytes ''abbcd'' @ [10]"
proof -
  let ?d = "bytes ''ac'' @ [10] @ bytes ''bc'' @ [10] @ bytes ''abbcd'' @ [10]"
  have l: "lines_of ?d = [bytes ''ac'', bytes ''bc'', bytes ''abbcd'']" by code_simp
  have "last_part ?d = []" by code_simp
  with l have "lines_fit ?d" by (simp add: lines_fit_def bytes_def)
  moreover have "matching (bytes ''^ab*c'') [bytes ''ac'', bytes ''bc'', bytes ''abbcd''] = bytes ''ac'' @ [10] @ bytes ''abbcd'' @ [10]"
    by code_simp
  ultimately show ?thesis
    using grep_prints_matching_lines [OF demo_stream_io, of "(?d, [])" 30 "bytes ''^ab*c''"] l by (simp add: bytes_def)
qed

end
