(* ===== verification/Shell.thy ===== *)
theory Shell
  imports Ulib "HOL-Library.Sublist"
begin

section \<open>The parser of the shell\<close>

text \<open>
  The second half of \<^verbatim>\<open>user/sh.c\<close>. A pointer into the line is the list of the bytes from there to the end of the line (\<^verbatim>\<open>es\<close>),
  as for the strings of the library; \<open>deref\<close> gives the NUL at the end. A token is a pair of pointers, to its first
  byte and past its last. The commands are allocated with \<^verbatim>\<open>malloc\<close>, which is taken to succeed. The recursion of the
  parser is bounded by fuel, which is shown to suffice.
\<close>

type_synonym tok = "uchar list \<times> uchar list"

datatype cmd = EXEC "tok list" | REDIR cmd tok uint nat | PIPE cmd cmd | LIST cmd cmd | BACK cmd

text \<open>The constructors of the code.\<close>

definition execcmd :: cmd where [simp]: "execcmd = EXEC []"
definition redircmd :: "cmd \<Rightarrow> tok \<Rightarrow> uint \<Rightarrow> nat \<Rightarrow> cmd" where [simp]: "redircmd subcmd file mode fd = REDIR subcmd file mode fd"
definition pipecmd :: "cmd \<Rightarrow> cmd \<Rightarrow> cmd" where [simp]: "pipecmd left right = PIPE left right"
definition listcmd :: "cmd \<Rightarrow> cmd \<Rightarrow> cmd" where [simp]: "listcmd left right = LIST left right"
definition backcmd :: "cmd \<Rightarrow> cmd" where [simp]: "backcmd subcmd = BACK subcmd"

text \<open>\<open>ShPanic out msg\<close>: the shell printed \<open>out\<close>, then panicked with \<open>msg\<close>.\<close>

datatype sherr = ShPanic "uchar list" string | ShFuel

definition MAXARGS :: nat where [simp, code_unfold]: "MAXARGS = 10"

definition sh_whitespace :: "uchar list" where
  "sh_whitespace = [32, 9, 13, 10, 11]"

definition sh_symbols :: "uchar list" where
  "sh_symbols = bytes ''<|>&;()''"

definition is_ws :: "uchar \<Rightarrow> bool" where
  "is_ws c \<longleftrightarrow> strchr sh_whitespace c \<noteq> None"

definition is_sym :: "uchar \<Rightarrow> bool" where
  "is_sym c \<longleftrightarrow> strchr sh_symbols c \<noteq> None"

subsection \<open>Tokens\<close>

definition skip_ws :: "uchar list \<Rightarrow> uchar list" where
  "skip_ws s = dropWhile is_ws s"

text \<open>The kind of the token, the token, and the pointer after it.\<close>

definition gettoken :: "uchar list \<Rightarrow> uchar \<times> tok \<times> uchar list" where
  "gettoken ps =
     (let s = skip_ws ps;
          q = s;
          c = deref s;
          (ret, s) =
            (if c = 0 then (0, s)
             else if c \<in> set (bytes ''|();&<'') then (c, tl s)
             else if c = of_char CHR ''>'' then
               (if deref (tl s) = of_char CHR ''>'' then (of_char CHR ''+'', tl (tl s)) else (c, tl s))
             else (of_char CHR ''a'', dropWhile (\<lambda>c. \<not> is_ws c \<and> \<not> is_sym c) s))
      in (ret, (q, s), skip_ws s))"

definition peek :: "uchar list \<Rightarrow> string \<Rightarrow> bool \<times> uchar list" where
  "peek ps toks = (let s = skip_ws ps in (deref s \<noteq> 0 \<and> strchr (bytes toks) (deref s) \<noteq> None, s))"

lemma length_skip_ws: "length (skip_ws s) \<le> length s"
  by (simp add: skip_ws_def length_dropWhile_le)

lemma is_ws_iff: "is_ws c \<longleftrightarrow> c \<in> {32, 9, 13, 10, 11}"
  by (auto simp: is_ws_def sh_whitespace_def strchr_zstr)

lemma is_sym_iff: "is_sym c \<longleftrightarrow> c \<in> set (bytes ''<|>&;()'')"
  by (auto simp: is_sym_def sh_symbols_def strchr_zstr bytes_def)

lemma skip_ws_deref: "deref (skip_ws s) \<noteq> 0 \<Longrightarrow> \<not> is_ws (deref (skip_ws s))"
  by (induction s) (auto simp: skip_ws_def)

text \<open>A token that is not the end of the line takes at least one byte.\<close>

lemma gettoken_shorter:
  assumes "gettoken ps = (ret, t, ps')" "ret \<noteq> 0"
  shows "length ps' < length ps"
proof -
  let ?s = "skip_ws ps"
  have s: "deref ?s \<noteq> 0" using assms by (auto simp: gettoken_def Let_def split: if_splits)
  then have ne: "?s \<noteq> []" by auto
  have ws: "\<not> is_ws (deref ?s)" using skip_ws_deref s .
  have "length (tl ?s) < length ?s" "length (tl (tl ?s)) < length ?s" using ne by (cases ?s; simp)+
  moreover have "length (dropWhile (\<lambda>c. \<not> is_ws c \<and> \<not> is_sym c) ?s) < length ?s"
    if "deref ?s \<notin> set (bytes ''|();&<'')" "deref ?s \<noteq> of_char CHR ''>''"
  proof -
    have "\<not> is_sym (deref ?s)" using that by (auto simp: is_sym_iff bytes_def)
    then show ?thesis using ws ne length_dropWhile_le [of "\<lambda>c. \<not> is_ws c \<and> \<not> is_sym c" "tl ?s"] by (cases ?s) auto
  qed
  ultimately obtain u where "ps' = skip_ws u" "length u < length ?s"
    using assms s by (auto simp: gettoken_def Let_def split: if_splits)
  then show ?thesis using length_skip_ws [of u] length_skip_ws [of ps] by simp
qed

lemma peek_length: "peek ps toks = (b, ps') \<Longrightarrow> length ps' \<le> length ps"
  using length_skip_ws by (auto simp: peek_def Let_def)

lemma peek_gettoken: "peek ps toks = (True, ps') \<Longrightarrow> fst (gettoken ps') \<noteq> 0"
  by (auto simp: peek_def gettoken_def Let_def skip_ws_def split: if_splits)

lemma peek_take: "peek ps toks = (True, ps1) \<Longrightarrow> gettoken ps1 = (tok, t, ps2) \<Longrightarrow> length ps2 < length ps"
  using peek_length [of ps toks True ps1] peek_gettoken [of ps toks ps1] gettoken_shorter [of ps1 tok t ps2] by simp

subsection \<open>Commands\<close>

text \<open>One round of the loop of \<^verbatim>\<open>parseredirs\<close>, after \<^verbatim>\<open>peek\<close> has seen a \<^verbatim>\<open><\<close> or \<^verbatim>\<open>>\<close>.\<close>

definition redir_one :: "cmd \<Rightarrow> uchar list \<Rightarrow> sherr + (cmd \<times> uchar list)" where
  "redir_one cmd ps =
     (case gettoken ps of
        (tok, _, ps) \<Rightarrow>
          (case gettoken ps of
             (k, file, ps) \<Rightarrow>
               if k \<noteq> of_char CHR ''a'' then Inl (ShPanic [] ''missing file for redirection'')
               else if tok = of_char CHR ''<'' then Inr (redircmd cmd file O_RDONLY 0, ps)
               else if tok = of_char CHR ''>'' then Inr (redircmd cmd file (O_WRONLY OR O_CREATE OR O_TRUNC) 1, ps)
               else if tok = of_char CHR ''+'' then Inr (redircmd cmd file (O_WRONLY OR O_CREATE) 1, ps)
               else Inr (cmd, ps)))"

lemma gettoken_length: "length (snd (snd (gettoken ps))) \<le> length ps"
proof (cases "fst (gettoken ps) = 0")
  case True
  then have "deref (skip_ws ps) = 0" by (auto simp: gettoken_def Let_def split: if_splits)
  then have "snd (snd (gettoken ps)) = skip_ws (skip_ws ps)" by (simp add: gettoken_def Let_def)
  then show ?thesis using length_skip_ws [of ps] length_skip_ws [of "skip_ws ps"] by simp
next
  case False
  then show ?thesis using gettoken_shorter [of ps] by (cases "gettoken ps") auto
qed

lemma redir_one_length: "redir_one cmd ps = Inr (cmd', ps') \<Longrightarrow> length ps' < length ps"
  using gettoken_length [of ps] gettoken_shorter [of "snd (snd (gettoken ps))"]
  by (auto simp: redir_one_def split: prod.splits if_splits)

function parseredirs :: "cmd \<Rightarrow> uchar list \<Rightarrow> sherr + (cmd \<times> uchar list)" where
  "parseredirs cmd ps =
     (case peek ps ''<>'' of
        (b, ps) \<Rightarrow> if b then andthen (redir_one cmd ps) (\<lambda>(cmd, ps). parseredirs cmd ps) else Inr (cmd, ps))"
  by pat_completeness auto
termination
  by (relation "measure (\<lambda>(cmd, ps). length ps)") (auto dest!: redir_one_length peek_length [OF sym])

declare parseredirs.simps [simp del]

lemma parseredirs_length: "parseredirs cmd ps = Inr (cmd', ps') \<Longrightarrow> length ps' \<le> length ps"
proof (induction cmd ps rule: parseredirs.induct)
  case (1 cmd ps)
  obtain b ps1 where p: "peek ps ''<>'' = (b, ps1)" by (cases "peek ps ''<>''")
  show ?case
  proof (cases b)
    case True
    then obtain c ps2 where r: "redir_one cmd ps1 = Inr (c, ps2)" "parseredirs c ps2 = Inr (cmd', ps')"
      using "1.prems" p by (auto simp: parseredirs.simps [of cmd ps] andthen_eq_Inr)
    have "length ps' \<le> length ps2" using "1.IH" [OF p [symmetric] True r(1) refl r(2)] .
    then show ?thesis using redir_one_length [OF r(1)] peek_length [OF p] by simp
  next
    case False
    then show ?thesis using "1.prems" p peek_length [OF p] by (simp add: parseredirs.simps [of cmd ps])
  qed
qed

text \<open>
  \<^verbatim>\<open>cmd\<close> points to the command of \<^verbatim>\<open>execcmd\<close>, of which \<^verbatim>\<open>ret\<close> is the list of redirections around it: the argument is stored
  in the innermost command.
\<close>

fun add_arg :: "tok \<Rightarrow> cmd \<Rightarrow> cmd" where
  "add_arg t (EXEC args) = EXEC (args @ [t])"
| "add_arg t (REDIR c file mode fd) = REDIR (add_arg t c) file mode fd"
| "add_arg t c = c"

function parseargs :: "nat \<Rightarrow> cmd \<Rightarrow> uchar list \<Rightarrow> sherr + (cmd \<times> uchar list)" where
  "parseargs argc ret ps =
     (case peek ps ''|)&;'' of
        (b, ps) \<Rightarrow>
          if b then Inr (ret, ps)
          else
            case gettoken ps of
              (tok, t, ps) \<Rightarrow>
                if tok = 0 then Inr (ret, ps)
                else if tok \<noteq> of_char CHR ''a'' then Inl (ShPanic [] ''syntax'')
                else if argc + 1 \<ge> MAXARGS then Inl (ShPanic [] ''too many args'')
                else andthen (parseredirs (add_arg t ret) ps) (\<lambda>(ret, ps). parseargs (argc + 1) ret ps))"
  by pat_completeness auto
termination
  by (relation "measure (\<lambda>(argc, ret, ps). length ps)") (auto dest!: parseredirs_length gettoken_shorter [OF sym] peek_length [OF sym])

declare parseargs.simps [simp del]

text \<open>The loop of \<^verbatim>\<open>parseline\<close> over \<^verbatim>\<open>&\<close>.\<close>

function parseback :: "cmd \<Rightarrow> uchar list \<Rightarrow> cmd \<times> uchar list" where
  "parseback cmd ps =
     (case peek ps ''&'' of
        (b, ps) \<Rightarrow> if b then (case gettoken ps of (_, _, ps) \<Rightarrow> parseback (backcmd cmd) ps) else (cmd, ps))"
  by pat_completeness auto
termination
  by (relation "measure (\<lambda>(cmd, ps). length ps)") (auto dest: peek_take [OF sym sym])

declare parseback.simps [simp del]

fun parseline :: "nat \<Rightarrow> uchar list \<Rightarrow> sherr + (cmd \<times> uchar list)"
  and parsepipe :: "nat \<Rightarrow> uchar list \<Rightarrow> sherr + (cmd \<times> uchar list)"
  and parseblock :: "nat \<Rightarrow> uchar list \<Rightarrow> sherr + (cmd \<times> uchar list)"
  and parseexec :: "nat \<Rightarrow> uchar list \<Rightarrow> sherr + (cmd \<times> uchar list)" where
  "parseline 0 ps = Inl ShFuel"
| "parseline (Suc n) ps =
     andthen (parsepipe n ps) (\<lambda>(cmd, ps).
     case parseback cmd ps of
       (cmd, ps) \<Rightarrow>
         case peek ps '';'' of
           (b, ps) \<Rightarrow>
             if b then
               (case gettoken ps of (_, _, ps) \<Rightarrow>
                 andthen (parseline n ps) (\<lambda>(right, ps). Inr (listcmd cmd right, ps)))
             else Inr (cmd, ps))"
| "parsepipe 0 ps = Inl ShFuel"
| "parsepipe (Suc n) ps =
     andthen (parseexec n ps) (\<lambda>(cmd, ps).
     case peek ps ''|'' of
       (b, ps) \<Rightarrow>
         if b then
           (case gettoken ps of (_, _, ps) \<Rightarrow>
             andthen (parsepipe n ps) (\<lambda>(right, ps). Inr (pipecmd cmd right, ps)))
         else Inr (cmd, ps))"
| "parseblock 0 ps = Inl ShFuel"
| "parseblock (Suc n) ps =
     (case peek ps ''('' of
        (b, ps) \<Rightarrow>
          if \<not> b then Inl (ShPanic [] ''parseblock'')
          else
            case gettoken ps of
              (_, _, ps) \<Rightarrow>
                andthen (parseline n ps) (\<lambda>(cmd, ps).
                case peek ps '')'' of
                  (b, ps) \<Rightarrow>
                    if \<not> b then Inl (ShPanic [] ''syntax - missing )'')
                    else case gettoken ps of (_, _, ps) \<Rightarrow> parseredirs cmd ps))"
| "parseexec 0 ps = Inl ShFuel"
| "parseexec (Suc n) ps =
     (case peek ps ''('' of
        (b, ps) \<Rightarrow>
          if b then parseblock n ps
          else andthen (parseredirs execcmd ps) (\<lambda>(ret, ps). parseargs 0 ret ps))"

text \<open>A NUL past the end of every token, in the array that holds the line.\<close>

definition nul_at :: "uchar list \<Rightarrow> tok \<Rightarrow> uchar list \<Rightarrow> uchar list" where
  "nul_at line t buf = buf[length line - length (snd t) := 0]"

fun nulterminate :: "uchar list \<Rightarrow> cmd \<Rightarrow> uchar list \<Rightarrow> uchar list" where
  "nulterminate line (EXEC args) buf = fold (nul_at line) args buf"
| "nulterminate line (REDIR c file mode fd) buf = nul_at line file (nulterminate line c buf)"
| "nulterminate line (PIPE left right) buf = nulterminate line right (nulterminate line left buf)"
| "nulterminate line (LIST left right) buf = nulterminate line right (nulterminate line left buf)"
| "nulterminate line (BACK c) buf = nulterminate line c buf"

definition parsecmd :: "uchar list \<Rightarrow> sherr + (cmd \<times> uchar list)" where
  "parsecmd buf =
     (let s = zstr buf in
      andthen (parseline (4 * length s + 4) s) (\<lambda>(cmd, ps).
      case peek ps [] of
        (_, ps) \<Rightarrow> if ps \<noteq> [] then Inl (ShPanic (bytes ''leftovers: '' @ ps @ [10]) ''syntax'') else Inr (cmd, nulterminate s cmd buf)))"

subsection \<open>The parser ends\<close>

lemma parseargs_length: "parseargs argc ret ps = Inr (ret', ps') \<Longrightarrow> length ps' \<le> length ps"
proof (induction argc ret ps rule: parseargs.induct)
  case (1 argc ret ps)
  obtain b ps1 where p: "peek ps ''|)&;'' = (b, ps1)" by (cases "peek ps ''|)&;''")
  obtain tok t ps2 where g: "gettoken ps1 = (tok, t, ps2)" by (cases "gettoken ps1") auto
  have l: "length ps1 \<le> length ps" "length ps2 \<le> length ps1" using peek_length [OF p] gettoken_length [of ps1] g by simp_all
  show ?case
  proof (cases "b \<or> tok = 0")
    case True
    then show ?thesis using "1.prems" l unfolding parseargs.simps [of argc ret ps] p prod.case g by (cases b) simp_all
  next
    case False
    then obtain c ps3 where r: "tok = of_char CHR ''a''" "\<not> argc + 1 \<ge> MAXARGS"
        "parseredirs (add_arg t ret) ps2 = Inr (c, ps3)" "parseargs (argc + 1) c ps3 = Inr (ret', ps')"
      using "1.prems" unfolding parseargs.simps [of argc ret ps] p prod.case g by (auto simp: andthen_eq_Inr split: if_splits)
    have "length ps' \<le> length ps3"
      using "1.IH" [OF p [symmetric] _ g [symmetric] refl _ _ r(2,3) refl r(4)] False r(1) by simp
    then show ?thesis using parseredirs_length [OF r(3)] l by simp
  qed
qed

lemma parseback_length: "parseback cmd ps = (cmd', ps') \<Longrightarrow> length ps' \<le> length ps"
proof (induction cmd ps rule: parseback.induct)
  case (1 cmd ps)
  obtain b ps1 where p: "peek ps ''&'' = (b, ps1)" by (cases "peek ps ''&''")
  obtain tok t ps2 where g: "gettoken ps1 = (tok, t, ps2)" by (cases "gettoken ps1") auto
  show ?case
  proof (cases b)
    case True
    have "length ps' \<le> length ps2"
      using "1.IH" [OF p [symmetric] True g [symmetric] refl] "1.prems" True unfolding parseback.simps [of cmd ps] p prod.case g by simp
    then show ?thesis using peek_take [OF _ g, of ps "''&''"] p True by simp
  next
    case False
    then show ?thesis using "1.prems" p peek_length [OF p] by (simp add: parseback.simps [of cmd ps])
  qed
qed

lemma parseredirs_no_fuel: "parseredirs cmd ps \<noteq> Inl ShFuel"
proof (induction cmd ps rule: parseredirs.induct)
  case (1 cmd ps)
  obtain b ps1 where p: "peek ps ''<>'' = (b, ps1)" by (cases "peek ps ''<>''")
  have "redir_one cmd ps1 \<noteq> Inl ShFuel" by (simp add: redir_one_def split: prod.splits)
  then show ?case using "1.IH" [OF p [symmetric]] p
    by (auto simp: parseredirs.simps [of cmd ps] andthen_eq_Inl)
qed

lemma parseargs_no_fuel: "parseargs argc ret ps \<noteq> Inl ShFuel"
proof (induction argc ret ps rule: parseargs.induct)
  case (1 argc ret ps)
  obtain b ps1 where p: "peek ps ''|)&;'' = (b, ps1)" by (cases "peek ps ''|)&;''")
  obtain tok t ps2 where g: "gettoken ps1 = (tok, t, ps2)" by (cases "gettoken ps1") auto
  show ?case using "1.IH" [OF p [symmetric] _ g [symmetric] refl] parseredirs_no_fuel [of "add_arg t ret" ps2]
    unfolding parseargs.simps [of argc ret ps] p prod.case g by (auto simp: andthen_eq_Inl)
qed

text \<open>How a successful parse was put together.\<close>

lemma parseline_SucE:
  assumes "parseline (Suc n) ps = Inr (c, ps')"
  obtains (single) cmd ps1 ps2 where "parsepipe n ps = Inr (cmd, ps1)" "parseback cmd ps1 = (c, ps2)" "peek ps2 '';'' = (False, ps')"
  | (more) cmd ps1 left ps2 ps3 tok t ps4 right where "parsepipe n ps = Inr (cmd, ps1)" "parseback cmd ps1 = (left, ps2)"
      "peek ps2 '';'' = (True, ps3)" "gettoken ps3 = (tok, t, ps4)" "parseline n ps4 = Inr (right, ps')" "c = LIST left right"
proof -
  from assms obtain cmd ps1 where 1: "parsepipe n ps = Inr (cmd, ps1)" by (auto simp: andthen_eq_Inr)
  obtain left ps2 where 2: "parseback cmd ps1 = (left, ps2)" by (cases "parseback cmd ps1")
  obtain b ps3 where 3: "peek ps2 '';'' = (b, ps3)" by (cases "peek ps2 '';''")
  obtain tok t ps4 where 4: "gettoken ps3 = (tok, t, ps4)" by (cases "gettoken ps3") auto
  show thesis
  proof (cases b)
    case True
    then show thesis using assms 1 2 3 4 by (auto simp: andthen_eq_Inr intro: more)
  next
    case False
    then show thesis using assms 1 2 3 by (auto intro: single)
  qed
qed

lemma parsepipe_SucE:
  assumes "parsepipe (Suc n) ps = Inr (c, ps')"
  obtains (single) ps1 where "parseexec n ps = Inr (c, ps1)" "peek ps1 ''|'' = (False, ps')"
  | (more) left ps1 ps2 tok t ps3 right where "parseexec n ps = Inr (left, ps1)" "peek ps1 ''|'' = (True, ps2)"
      "gettoken ps2 = (tok, t, ps3)" "parsepipe n ps3 = Inr (right, ps')" "c = PIPE left right"
proof -
  from assms obtain left ps1 where 1: "parseexec n ps = Inr (left, ps1)" by (auto simp: andthen_eq_Inr)
  obtain b ps2 where 2: "peek ps1 ''|'' = (b, ps2)" by (cases "peek ps1 ''|''")
  obtain tok t ps3 where 3: "gettoken ps2 = (tok, t, ps3)" by (cases "gettoken ps2") auto
  show thesis
  proof (cases b)
    case True
    then show thesis using assms 1 2 3 by (auto simp: andthen_eq_Inr intro: more)
  next
    case False
    then show thesis using assms 1 2 by (auto intro: single)
  qed
qed

lemma parseblock_SucE:
  assumes "parseblock (Suc n) ps = Inr (c, ps')"
  obtains ps1 tok t ps2 cmd ps3 ps4 tok' t' ps5 where "peek ps ''('' = (True, ps1)" "gettoken ps1 = (tok, t, ps2)"
    "parseline n ps2 = Inr (cmd, ps3)" "peek ps3 '')'' = (True, ps4)" "gettoken ps4 = (tok', t', ps5)" "parseredirs cmd ps5 = Inr (c, ps')"
proof -
  obtain b ps1 where 1: "peek ps ''('' = (b, ps1)" by (cases "peek ps ''(''")
  obtain tok t ps2 where 2: "gettoken ps1 = (tok, t, ps2)" by (cases "gettoken ps1") auto
  from assms 1 have b by (auto split: if_splits)
  with assms 1 2 obtain cmd ps3 where 3: "parseline n ps2 = Inr (cmd, ps3)" by (auto simp: andthen_eq_Inr)
  obtain b' ps4 where 4: "peek ps3 '')'' = (b', ps4)" by (cases "peek ps3 '')''")
  obtain tok' t' ps5 where 5: "gettoken ps4 = (tok', t', ps5)" by (cases "gettoken ps4") auto
  show thesis using assms 1 2 3 4 5 \<open>b\<close> by (intro that) (auto split: if_splits)
qed

lemma parseexec_SucE:
  assumes "parseexec (Suc n) ps = Inr (c, ps')"
  obtains (block) ps1 where "peek ps ''('' = (True, ps1)" "parseblock n ps1 = Inr (c, ps')"
  | (args) ps1 ret ps2 where "peek ps ''('' = (False, ps1)" "parseredirs (EXEC []) ps1 = Inr (ret, ps2)" "parseargs 0 ret ps2 = Inr (c, ps')"
proof -
  obtain b ps1 where 1: "peek ps ''('' = (b, ps1)" by (cases "peek ps ''(''")
  show thesis
  proof (cases b)
    case True
    then show thesis using assms 1 block by simp
  next
    case False
    then show thesis using assms 1 args by (auto simp: andthen_eq_Inr)
  qed
qed

text \<open>Every routine of the parser returns a pointer that is not before the one it was given.\<close>

definition advances :: "(uchar list \<Rightarrow> sherr + (cmd \<times> uchar list)) \<Rightarrow> bool" where
  "advances f \<longleftrightarrow> (\<forall>ps c ps'. f ps = Inr (c, ps') \<longrightarrow> length ps' \<le> length ps)"

lemma advancesD: "advances f \<Longrightarrow> f ps = Inr (c, ps') \<Longrightarrow> length ps' \<le> length ps"
  unfolding advances_def by blast

lemma parseline_advances:
  assumes "advances (parsepipe n)" "advances (parseline n)"
  shows "advances (parseline (Suc n))"
  unfolding advances_def
proof (intro allI impI)
  fix ps c ps'
  assume "parseline (Suc n) ps = Inr (c, ps')"
  then show "length ps' \<le> length ps"
  proof (cases rule: parseline_SucE)
    case (single cmd ps1 ps2)
    then show ?thesis using advancesD [OF assms(1) single(1)] parseback_length [OF single(2)] peek_length [OF single(3)] by simp
  next
    case (more cmd ps1 left ps2 ps3 tok t ps4 right)
    then show ?thesis
      using advancesD [OF assms(1) more(1)] parseback_length [OF more(2)] peek_take [OF more(3,4)] advancesD [OF assms(2) more(5)] by simp
  qed
qed

lemma parsepipe_advances:
  assumes "advances (parseexec n)" "advances (parsepipe n)"
  shows "advances (parsepipe (Suc n))"
  unfolding advances_def
proof (intro allI impI)
  fix ps c ps'
  assume "parsepipe (Suc n) ps = Inr (c, ps')"
  then show "length ps' \<le> length ps"
  proof (cases rule: parsepipe_SucE)
    case (single ps1)
    then show ?thesis using advancesD [OF assms(1) single(1)] peek_length [OF single(2)] by simp
  next
    case (more left ps1 ps2 tok t ps3 right)
    then show ?thesis using advancesD [OF assms(1) more(1)] peek_take [OF more(2,3)] advancesD [OF assms(2) more(4)] by simp
  qed
qed

lemma parseblock_advances:
  assumes "advances (parseline n)"
  shows "advances (parseblock (Suc n))"
  unfolding advances_def
proof (intro allI impI)
  fix ps c ps'
  assume "parseblock (Suc n) ps = Inr (c, ps')"
  then obtain ps1 tok t ps2 cmd ps3 ps4 tok' t' ps5 where b: "peek ps ''('' = (True, ps1)" "gettoken ps1 = (tok, t, ps2)"
    "parseline n ps2 = Inr (cmd, ps3)" "peek ps3 '')'' = (True, ps4)" "gettoken ps4 = (tok', t', ps5)" "parseredirs cmd ps5 = Inr (c, ps')"
    by (rule parseblock_SucE)
  then show "length ps' \<le> length ps"
    using peek_take [OF b(1,2)] advancesD [OF assms b(3)] peek_take [OF b(4,5)] parseredirs_length [OF b(6)] by simp
qed

lemma parseexec_advances:
  assumes "advances (parseblock n)"
  shows "advances (parseexec (Suc n))"
  unfolding advances_def
proof (intro allI impI)
  fix ps c ps'
  assume "parseexec (Suc n) ps = Inr (c, ps')"
  then show "length ps' \<le> length ps"
  proof (cases rule: parseexec_SucE)
    case (block ps1)
    then show ?thesis using peek_length [OF block(1)] advancesD [OF assms block(2)] by simp
  next
    case (args ps1 ret ps2)
    then show ?thesis using peek_length [OF args(1)] parseredirs_length [OF args(2)] parseargs_length [OF args(3)] by simp
  qed
qed

lemma parse_advances: "advances (parseline n) \<and> advances (parsepipe n) \<and> advances (parseblock n) \<and> advances (parseexec n)"
proof (induction n)
  case (Suc n)
  then show ?case
    using parseline_advances [of n] parsepipe_advances [of n] parseblock_advances [of n] parseexec_advances [of n] by blast
qed (simp add: advances_def)

lemma parse_fuel:
  "(4 * length ps + 4 \<le> n \<longrightarrow> parseline n ps \<noteq> Inl ShFuel) \<and> (4 * length ps + 3 \<le> n \<longrightarrow> parsepipe n ps \<noteq> Inl ShFuel) \<and>
   (4 * length ps + 1 \<le> n \<longrightarrow> parseblock n ps \<noteq> Inl ShFuel) \<and> (4 * length ps + 2 \<le> n \<longrightarrow> parseexec n ps \<noteq> Inl ShFuel)"
proof (induction n arbitrary: ps)
  case (Suc n)
  have L: "4 * length qs + 4 \<le> n \<Longrightarrow> parseline n qs \<noteq> Inl ShFuel"
    and P: "4 * length qs + 3 \<le> n \<Longrightarrow> parsepipe n qs \<noteq> Inl ShFuel"
    and B: "4 * length qs + 1 \<le> n \<Longrightarrow> parseblock n qs \<noteq> Inl ShFuel"
    and E: "4 * length qs + 2 \<le> n \<Longrightarrow> parseexec n qs \<noteq> Inl ShFuel" for qs
    using Suc.IH [of qs] by blast+
  have adv: "advances (parsepipe n)" "advances (parseexec n)" using parse_advances [of n] by blast+
  show ?case
  proof (intro conjI impI)
    assume f: "4 * length ps + 4 \<le> Suc n"
    have "parsepipe n ps \<noteq> Inl ShFuel" using P [of ps] f by simp
    moreover have "parseline n ps4 \<noteq> Inl ShFuel" if "parsepipe n ps = Inr (cmd, ps1)" "parseback cmd ps1 = (left, ps2)"
      "peek ps2 '';'' = (True, ps3)" "gettoken ps3 = (tok, t, ps4)" for cmd ps1 left ps2 ps3 tok t ps4
      using L [of ps4] f peek_take [OF that(3,4)] parseback_length [OF that(2)] advancesD [OF adv(1) that(1)] by simp
    ultimately show "parseline (Suc n) ps \<noteq> Inl ShFuel"
      by (auto simp: andthen_eq_Inl andthen_eq_Inr split: prod.splits)
  next
    assume f: "4 * length ps + 3 \<le> Suc n"
    have "parseexec n ps \<noteq> Inl ShFuel" using E [of ps] f by simp
    moreover have "parsepipe n ps3 \<noteq> Inl ShFuel" if "parseexec n ps = Inr (cmd, ps1)" "peek ps1 ''|'' = (True, ps2)"
      "gettoken ps2 = (tok, t, ps3)" for cmd ps1 ps2 tok t ps3
      using P [of ps3] f peek_take [OF that(2,3)] advancesD [OF adv(2) that(1)] by simp
    ultimately show "parsepipe (Suc n) ps \<noteq> Inl ShFuel"
      by (auto simp: andthen_eq_Inl andthen_eq_Inr split: prod.splits)
  next
    assume f: "4 * length ps + 1 \<le> Suc n"
    have "parseline n ps2 \<noteq> Inl ShFuel" if "peek ps ''('' = (True, ps1)" "gettoken ps1 = (tok, t, ps2)" for ps1 tok t ps2
      using L [of ps2] f peek_take [OF that] by simp
    then show "parseblock (Suc n) ps \<noteq> Inl ShFuel"
      using parseredirs_no_fuel by (auto simp: andthen_eq_Inl andthen_eq_Inr split: prod.splits)
  next
    assume f: "4 * length ps + 2 \<le> Suc n"
    have "parseblock n ps1 \<noteq> Inl ShFuel" if "peek ps ''('' = (b, ps1)" for b ps1
      using B [of ps1] f peek_length [OF that] by simp
    then show "parseexec (Suc n) ps \<noteq> Inl ShFuel"
      using parseredirs_no_fuel parseargs_no_fuel by (auto simp: andthen_eq_Inl andthen_eq_Inr split: prod.splits)
  qed
qed simp

text \<open>
  C28: the parser of the shell ends on every line: it returns a command or panics with a message, and a recursion of
  four times the length of the line is deep enough.
\<close>

theorem parsecmd_terminates:
  "(\<exists>cmd buf'. parsecmd buf = Inr (cmd, buf')) \<or> (\<exists>out msg. parsecmd buf = Inl (ShPanic out msg))"
proof (cases "parseline (4 * length (zstr buf) + 4) (zstr buf)")
  case (Inl e)
  moreover have "e \<noteq> ShFuel" using Inl parse_fuel [of "zstr buf" "4 * length (zstr buf) + 4"] by auto
  ultimately show ?thesis by (cases e) (simp_all add: parsecmd_def)
next
  case (Inr r)
  obtain cmd ps where "r = (cmd, ps)" by (cases r)
  moreover obtain b ps' where "peek ps [] = (b, ps')" by (cases "peek ps []")
  ultimately show ?thesis using Inr by (cases "ps' = []") (simp_all add: parsecmd_def)
qed

subsection \<open>The commands the parser returns\<close>

text \<open>
  A word of the line: a piece of it of bytes that are neither spaces nor symbols, which ends at a space, a symbol or the
  end of the line. A command is well formed if its tokens are words of the line, it has fewer than \<open>MAXARGS\<close> arguments,
  and a redirection is one of the three kinds the shell knows.
\<close>

definition word_byte :: "uchar \<Rightarrow> bool" where
  "word_byte c \<longleftrightarrow> \<not> is_ws c \<and> \<not> is_sym c"

definition word_tok :: "uchar list \<Rightarrow> tok \<Rightarrow> bool" where
  "word_tok line t \<longleftrightarrow>
     (\<exists>u w v. line = u @ w @ v \<and> t = (w @ v, v) \<and> w \<noteq> [] \<and> (\<forall>c \<in> set w. word_byte c) \<and> (v = [] \<or> \<not> word_byte (hd v)))"

definition redir_mode :: "uint \<Rightarrow> nat \<Rightarrow> bool" where
  "redir_mode mode fd \<longleftrightarrow> (mode, fd) \<in> {(O_RDONLY, 0), (O_WRONLY OR O_CREATE OR O_TRUNC, 1), (O_WRONLY OR O_CREATE, 1)}"

fun wf_cmd :: "uchar list \<Rightarrow> cmd \<Rightarrow> bool" where
  "wf_cmd line (EXEC args) \<longleftrightarrow> length args < MAXARGS \<and> (\<forall>t \<in> set args. word_tok line t)"
| "wf_cmd line (REDIR c file mode fd) \<longleftrightarrow> wf_cmd line c \<and> word_tok line file \<and> redir_mode mode fd"
| "wf_cmd line (PIPE left right) \<longleftrightarrow> wf_cmd line left \<and> wf_cmd line right"
| "wf_cmd line (LIST left right) \<longleftrightarrow> wf_cmd line left \<and> wf_cmd line right"
| "wf_cmd line (BACK c) \<longleftrightarrow> wf_cmd line c"

text \<open>The number of arguments of the command inside of redirections.\<close>

fun nargs :: "cmd \<Rightarrow> nat" where
  "nargs (EXEC args) = length args"
| "nargs (REDIR c file mode fd) = nargs c"
| "nargs c = 0"

lemma add_arg_wf: "wf_cmd line c \<Longrightarrow> word_tok line t \<Longrightarrow> nargs c + 1 < MAXARGS \<Longrightarrow> wf_cmd line (add_arg t c)"
  by (induction c) auto

lemma add_arg_nargs: "nargs (add_arg t c) \<le> nargs c + 1"
  by (induction c) auto

lemma suffix_skip_ws: "suffix (skip_ws s) s"
  by (simp add: skip_ws_def suffix_dropWhile)

lemma suffix_tl: "suffix (tl s) s"
  by (cases s) (auto simp: suffix_def)

lemma peek_suffix: "peek ps toks = (b, ps') \<Longrightarrow> suffix ps' ps"
  using suffix_skip_ws by (auto simp: peek_def Let_def)

lemma gettoken_suffix:
  assumes "gettoken ps = (k, t, ps')"
  shows "suffix ps' ps"
proof -
  let ?s = "skip_ws ps"
  obtain u where "ps' = skip_ws u" "u = ?s \<or> u = tl ?s \<or> u = tl (tl ?s) \<or> u = dropWhile (\<lambda>c. \<not> is_ws c \<and> \<not> is_sym c) ?s"
    using assms by (auto simp: gettoken_def Let_def split: if_splits)
  moreover have "suffix (tl (tl ?s)) ?s" using suffix_tl suffix_order.trans by blast
  ultimately have "suffix ps' u" "suffix u ?s" using suffix_skip_ws suffix_tl suffix_dropWhile by auto
  then show ?thesis using suffix_skip_ws suffix_order.trans by blast
qed

lemma gettoken_word:
  assumes "gettoken ps = (of_char CHR ''a'', t, ps')" "suffix ps line"
  shows "word_tok line t"
proof -
  let ?s = "skip_ws ps"
  have c: "deref ?s \<noteq> 0" "deref ?s \<notin> set (bytes ''|();&<'')" "deref ?s \<noteq> of_char CHR ''>''" and
    t: "t = (?s, dropWhile word_byte ?s)"
    using assms(1) by (auto simp: gettoken_def Let_def bytes_def word_byte_def [abs_def] split: if_splits)
  have "word_byte (deref ?s)" using c skip_ws_deref [of ps] by (auto simp: word_byte_def is_sym_iff bytes_def)
  moreover have "?s \<noteq> []" using c(1) by auto
  ultimately have "takeWhile word_byte ?s \<noteq> []" by (cases ?s) auto
  moreover obtain u where "line = u @ ?s" using assms(2) suffix_skip_ws suffix_order.trans unfolding suffix_def by (metis append.assoc)
  moreover have "dropWhile word_byte ?s = [] \<or> \<not> word_byte (hd (dropWhile word_byte ?s))" using hd_dropWhile by blast
  ultimately show ?thesis
    unfolding word_tok_def t
    by (intro exI [of _ u] exI [of _ "takeWhile word_byte ?s"] exI [of _ "dropWhile word_byte ?s"]) (auto dest: set_takeWhileD)
qed

lemma redir_one_wf:
  assumes "redir_one cmd ps = Inr (cmd', ps')" "wf_cmd line cmd" "suffix ps line"
  shows "wf_cmd line cmd' \<and> nargs cmd' = nargs cmd \<and> suffix ps' ps"
proof -
  obtain tok t ps1 where 1: "gettoken ps = (tok, t, ps1)" by (cases "gettoken ps") auto
  obtain k f ps2 where 2: "gettoken ps1 = (k, f, ps2)" by (cases "gettoken ps1") auto
  have k: "k = of_char CHR ''a''" using assms(1) 1 2 by (auto simp: redir_one_def split: if_splits)
  have s: "suffix ps1 ps" "suffix ps2 ps1" using gettoken_suffix 1 2 by blast+
  have "suffix ps1 line" using s(1) assms(3) suffix_order.trans by blast
  from gettoken_word [OF 2 [unfolded k] this] show ?thesis
    using assms(1,2) 1 2 k s suffix_order.trans [OF s(2,1)] by (auto simp: redir_one_def redir_mode_def split: if_splits)
qed

lemma parseredirs_wf:
  "parseredirs cmd ps = Inr (cmd', ps') \<Longrightarrow> wf_cmd line cmd \<Longrightarrow> suffix ps line \<Longrightarrow> wf_cmd line cmd' \<and> nargs cmd' = nargs cmd \<and> suffix ps' ps"
proof (induction cmd ps rule: parseredirs.induct)
  case (1 cmd ps)
  obtain b ps1 where p: "peek ps ''<>'' = (b, ps1)" by (cases "peek ps ''<>''")
  have s: "suffix ps1 ps" "suffix ps1 line" using peek_suffix [OF p] "1.prems"(3) suffix_order.trans by blast+
  show ?case
  proof (cases b)
    case True
    then obtain c ps2 where r: "redir_one cmd ps1 = Inr (c, ps2)" "parseredirs c ps2 = Inr (cmd', ps')"
      using "1.prems"(1) p by (auto simp: parseredirs.simps [of cmd ps] andthen_eq_Inr)
    have w: "wf_cmd line c \<and> nargs c = nargs cmd \<and> suffix ps2 ps1" using redir_one_wf [OF r(1) "1.prems"(2) s(2)] .
    moreover have "suffix ps2 line" using w s(2) suffix_order.trans by blast
    ultimately have "wf_cmd line cmd' \<and> nargs cmd' = nargs c \<and> suffix ps' ps2"
      using "1.IH" [OF p [symmetric] True r(1) refl r(2)] by blast
    then show ?thesis using w s(1) suffix_order.trans by metis
  next
    case False
    then show ?thesis using "1.prems" p s(1) by (simp add: parseredirs.simps [of cmd ps])
  qed
qed

lemma parseargs_wf:
  "parseargs argc ret ps = Inr (ret', ps') \<Longrightarrow> wf_cmd line ret \<Longrightarrow> nargs ret \<le> argc \<Longrightarrow> suffix ps line \<Longrightarrow> wf_cmd line ret' \<and> suffix ps' ps"
proof (induction argc ret ps rule: parseargs.induct)
  case (1 argc ret ps)
  obtain b ps1 where p: "peek ps ''|)&;'' = (b, ps1)" by (cases "peek ps ''|)&;''")
  obtain tok t ps2 where g: "gettoken ps1 = (tok, t, ps2)" by (cases "gettoken ps1") auto
  have s: "suffix ps1 ps" "suffix ps2 ps1" using peek_suffix [OF p] gettoken_suffix [OF g] .
  have l: "suffix ps1 line" "suffix ps2 ps" using s "1.prems"(4) suffix_order.trans by blast+
  show ?case
  proof (cases "b \<or> tok = 0")
    case True
    then show ?thesis using "1.prems" s l unfolding parseargs.simps [of argc ret ps] p prod.case g by (cases b) simp_all
  next
    case False
    then obtain c ps3 where r: "tok = of_char CHR ''a''" "\<not> argc + 1 \<ge> MAXARGS"
        "parseredirs (add_arg t ret) ps2 = Inr (c, ps3)" "parseargs (argc + 1) c ps3 = Inr (ret', ps')"
      using "1.prems"(1) unfolding parseargs.simps [of argc ret ps] p prod.case g by (auto simp: andthen_eq_Inr split: if_splits)
    have a: "wf_cmd line (add_arg t ret)" "nargs (add_arg t ret) \<le> argc + 1"
      using add_arg_wf [OF "1.prems"(2) gettoken_word [OF g [unfolded r(1)] l(1)]] add_arg_nargs [of t ret] "1.prems"(3) r(2) by simp_all
    have "suffix ps2 line" using l(2) "1.prems"(4) suffix_order.trans by blast
    from parseredirs_wf [OF r(3) a(1) this] have w: "wf_cmd line c" "nargs c \<le> argc + 1" "suffix ps3 ps2" using a(2) by simp_all
    have "suffix ps3 line" using w(3) \<open>suffix ps2 line\<close> suffix_order.trans by blast
    then have "wf_cmd line ret' \<and> suffix ps' ps3"
      using "1.IH" [OF p [symmetric] _ g [symmetric] refl _ _ r(2,3) refl r(4) w(1,2)] False r(1) by simp
    then show ?thesis using w(3) l(2) suffix_order.trans by metis
  qed
qed

lemma parseback_wf: "parseback cmd ps = (cmd', ps') \<Longrightarrow> wf_cmd line cmd \<Longrightarrow> wf_cmd line cmd' \<and> suffix ps' ps"
proof (induction cmd ps rule: parseback.induct)
  case (1 cmd ps)
  obtain b ps1 where p: "peek ps ''&'' = (b, ps1)" by (cases "peek ps ''&''")
  obtain tok t ps2 where g: "gettoken ps1 = (tok, t, ps2)" by (cases "gettoken ps1") auto
  have s: "suffix ps1 ps" "suffix ps2 ps" using peek_suffix [OF p] gettoken_suffix [OF g] suffix_order.trans by blast+
  show ?case
  proof (cases b)
    case True
    have "wf_cmd line cmd' \<and> suffix ps' ps2"
      using "1.IH" [OF p [symmetric] True g [symmetric] refl] "1.prems" True unfolding parseback.simps [of cmd ps] p prod.case g by simp
    then show ?thesis using s(2) suffix_order.trans by blast
  next
    case False
    then show ?thesis using "1.prems" p s(1) by (simp add: parseback.simps [of cmd ps])
  qed
qed

definition yields_wf :: "uchar list \<Rightarrow> (uchar list \<Rightarrow> sherr + (cmd \<times> uchar list)) \<Rightarrow> bool" where
  "yields_wf line f \<longleftrightarrow> (\<forall>ps c ps'. f ps = Inr (c, ps') \<longrightarrow> suffix ps line \<longrightarrow> wf_cmd line c \<and> suffix ps' line)"

lemma yields_wfD: "yields_wf line f \<Longrightarrow> f ps = Inr (c, ps') \<Longrightarrow> suffix ps line \<Longrightarrow> wf_cmd line c \<and> suffix ps' line"
  unfolding yields_wf_def by blast

lemma suffix_line:
  "suffix ps line \<Longrightarrow> peek ps toks = (b, ps') \<Longrightarrow> suffix ps' line"
  "suffix ps line \<Longrightarrow> gettoken ps = (k, t, ps') \<Longrightarrow> suffix ps' line"
  using peek_suffix gettoken_suffix suffix_order.trans by blast+

lemma parseline_yields_wf:
  assumes "yields_wf line (parsepipe n)" "yields_wf line (parseline n)"
  shows "yields_wf line (parseline (Suc n))"
  unfolding yields_wf_def
proof (intro allI impI)
  fix ps c ps'
  assume "parseline (Suc n) ps = Inr (c, ps')" and l: "suffix ps line"
  then show "wf_cmd line c \<and> suffix ps' line"
  proof (cases rule: parseline_SucE)
    case (single cmd ps1 ps2)
    note p = yields_wfD [OF assms(1) single(1) l]
    have "wf_cmd line c" "suffix ps2 ps1" using parseback_wf [OF single(2)] p by blast+
    moreover then have "suffix ps2 line" using p suffix_order.trans by blast
    ultimately show ?thesis using suffix_line(1) [OF _ single(3)] by blast
  next
    case (more cmd ps1 left ps2 ps3 tok t ps4 right)
    note p = yields_wfD [OF assms(1) more(1) l]
    have b: "wf_cmd line left" "suffix ps2 ps1" using parseback_wf [OF more(2)] p by blast+
    then have "suffix ps2 line" using p suffix_order.trans by blast
    then have "suffix ps4 line" using suffix_line more(3,4) by blast
    from yields_wfD [OF assms(2) more(5) this] b(1) more(6) show ?thesis by simp
  qed
qed

lemma parsepipe_yields_wf:
  assumes "yields_wf line (parseexec n)" "yields_wf line (parsepipe n)"
  shows "yields_wf line (parsepipe (Suc n))"
  unfolding yields_wf_def
proof (intro allI impI)
  fix ps c ps'
  assume "parsepipe (Suc n) ps = Inr (c, ps')" and l: "suffix ps line"
  then show "wf_cmd line c \<and> suffix ps' line"
  proof (cases rule: parsepipe_SucE)
    case (single ps1)
    then show ?thesis using yields_wfD [OF assms(1) single(1) l] suffix_line(1) [OF _ single(2)] by blast
  next
    case (more left ps1 ps2 tok t ps3 right)
    note p = yields_wfD [OF assms(1) more(1) l]
    then have "suffix ps3 line" using suffix_line more(2,3) by blast
    from yields_wfD [OF assms(2) more(4) this] p more(5) show ?thesis by simp
  qed
qed

lemma parseblock_yields_wf:
  assumes "yields_wf line (parseline n)"
  shows "yields_wf line (parseblock (Suc n))"
  unfolding yields_wf_def
proof (intro allI impI)
  fix ps c ps'
  assume l: "suffix ps line" and "parseblock (Suc n) ps = Inr (c, ps')"
  then obtain ps1 tok t ps2 cmd ps3 ps4 tok' t' ps5 where b: "peek ps ''('' = (True, ps1)" "gettoken ps1 = (tok, t, ps2)"
    "parseline n ps2 = Inr (cmd, ps3)" "peek ps3 '')'' = (True, ps4)" "gettoken ps4 = (tok', t', ps5)" "parseredirs cmd ps5 = Inr (c, ps')"
    by (elim parseblock_SucE)
  have "suffix ps2 line" using suffix_line l b(1,2) by blast
  note p = yields_wfD [OF assms b(3) this]
  then have s: "suffix ps5 line" using suffix_line b(4,5) by blast
  show "wf_cmd line c \<and> suffix ps' line"
    using parseredirs_wf [OF b(6) _ s] p s suffix_order.trans by blast
qed

lemma parseexec_yields_wf:
  assumes "yields_wf line (parseblock n)"
  shows "yields_wf line (parseexec (Suc n))"
  unfolding yields_wf_def
proof (intro allI impI)
  fix ps c ps'
  assume "parseexec (Suc n) ps = Inr (c, ps')" and l: "suffix ps line"
  then show "wf_cmd line c \<and> suffix ps' line"
  proof (cases rule: parseexec_SucE)
    case (block ps1)
    then show ?thesis using yields_wfD [OF assms block(2)] suffix_line(1) [OF l block(1)] by blast
  next
    case (args ps1 ret ps2)
    have s: "suffix ps1 line" using suffix_line(1) [OF l args(1)] .
    have r: "wf_cmd line ret" "nargs ret \<le> 0" "suffix ps2 ps1" using parseredirs_wf [OF args(2) _ s] by simp_all
    then have s2: "suffix ps2 line" using s suffix_order.trans by blast
    show ?thesis using parseargs_wf [OF args(3) r(1,2) s2] s2 suffix_order.trans by blast
  qed
qed

lemma parse_yields_wf:
  "yields_wf line (parseline n) \<and> yields_wf line (parsepipe n) \<and> yields_wf line (parseblock n) \<and> yields_wf line (parseexec n)"
proof (induction n)
  case (Suc n)
  then show ?case
    using parseline_yields_wf [of line n] parsepipe_yields_wf [of line n] parseblock_yields_wf [of line n] parseexec_yields_wf [of line n]
    by blast
qed (simp add: yields_wf_def)

lemma parsecmd_Inr:
  assumes "parsecmd buf = Inr (cmd, buf')"
  obtains ps where "parseline (4 * length (zstr buf) + 4) (zstr buf) = Inr (cmd, ps)" "buf' = nulterminate (zstr buf) cmd buf" "skip_ws ps = []"
proof -
  from assms obtain c ps where p: "parseline (4 * length (zstr buf) + 4) (zstr buf) = Inr (c, ps)"
    by (auto simp: parsecmd_def Let_def andthen_eq_Inr)
  then have "skip_ws ps = []" "c = cmd" "buf' = nulterminate (zstr buf) cmd buf"
    using assms by (auto simp: parsecmd_def Let_def peek_def split: if_splits)
  then show thesis using that p by simp
qed

lemma parsecmd_wf: "parsecmd buf = Inr (cmd, buf') \<Longrightarrow> wf_cmd (zstr buf) cmd"
  by (erule parsecmd_Inr) (use parse_yields_wf yields_wfD suffix_order.refl in blast)

text \<open>
  C29: every command the parser returns is well formed: each of its arguments and file names is a whole word of the line,
  no command has \<open>MAXARGS\<close> arguments or more, so that the arguments and the null pointer after them fit into \<^verbatim>\<open>argv\<close>, and
  every redirection opens descriptor 0 for reading or descriptor 1 for writing.
\<close>

theorem parsecmd_well_formed:
  assumes "parsecmd buf = Inr (cmd, buf')"
  shows "wf_cmd (zstr buf) cmd"
  using assms by (rule parsecmd_wf)

subsection \<open>The strings of a command\<close>

fun toks :: "cmd \<Rightarrow> tok set" where
  "toks (EXEC args) = set args"
| "toks (REDIR c file mode fd) = insert file (toks c)"
| "toks (PIPE left right) = toks left \<union> toks right"
| "toks (LIST left right) = toks left \<union> toks right"
| "toks (BACK c) = toks c"

lemma wf_cmd_toks: "wf_cmd line c \<Longrightarrow> t \<in> toks c \<Longrightarrow> word_tok line t"
  by (induction c) auto

definition nul_set :: "nat set \<Rightarrow> uchar list \<Rightarrow> uchar list" where
  "nul_set E buf = map (\<lambda>i. if i \<in> E then 0 else buf ! i) [0..<length buf]"

lemma nul_set_empty: "nul_set {} buf = buf"
  by (simp add: nul_set_def map_nth)

lemma nul_set_nul_set: "nul_set E (nul_set F buf) = nul_set (E \<union> F) buf"
  by (auto simp: nul_set_def intro!: nth_equalityI)

lemma nul_at_set: "nul_at line t buf = nul_set {length line - length (snd t)} buf"
  by (auto simp: nul_at_def nul_set_def nth_list_update intro!: nth_equalityI)

lemma nul_args_set: "fold (nul_at line) ts buf = nul_set ((\<lambda>t. length line - length (snd t)) ` set ts) buf"
  by (induction ts arbitrary: buf) (simp_all add: nul_set_empty nul_at_set nul_set_nul_set Un_commute)

lemma nulterminate_set: "nulterminate line c buf = nul_set ((\<lambda>t. length line - length (snd t)) ` toks c) buf"
  by (induction c arbitrary: buf) (simp_all add: nul_args_set nul_at_set nul_set_nul_set image_Un Un_commute)

lemma word_end:
  assumes "word_tok line t"
  shows "length line - length (snd t) = length line \<or> \<not> word_byte (line ! (length line - length (snd t)))"
proof -
  from assms obtain u w v where t: "line = u @ w @ v" "snd t = v" "v = [] \<or> \<not> word_byte (hd v)"
    unfolding word_tok_def by auto
  then show ?thesis by (cases v) (simp_all add: nth_append)
qed

lemma nulterminate_string:
  assumes line: "line = zstr buf" "length line < length buf" and wf: "wf_cmd line c" and t: "t \<in> toks c"
  shows "zstr (drop (length line - length (fst t)) (nulterminate line c buf)) = take (length (fst t) - length (snd t)) (fst t)"
proof -
  define E where "E = (\<lambda>t. length line - length (snd t)) ` toks c"
  have E: "i = length line \<or> \<not> word_byte (line ! i)" if "i \<in> E" for i
  proof -
    from that obtain t where "t \<in> toks c" and i: "i = length line - length (snd t)" unfolding E_def by blast
    then show ?thesis using word_end [OF wf_cmd_toks [OF wf]] by simp
  qed
  from wf_cmd_toks [OF wf t] obtain u w v where w: "line = u @ w @ v" "t = (w @ v, v)" "\<forall>c \<in> set w. word_byte c"
    unfolding word_tok_def by blast
  have p: "length line - length (fst t) = length u" using w by simp
  have pre: "line ! i = buf ! i" if "i < length line" for i
    using that unfolding line(1) zstr_def by (simp add: takeWhile_nth)
  have e: "length u + length w \<in> E" unfolding E_def using w t by (intro image_eqI [of _ _ t]) simp_all
  have l: "length u + length w < length buf" using w(1) line(2) by simp
  let ?b = "nul_set E buf"
  have "take (length w) (drop (length u) ?b) = w"
  proof (rule nth_equalityI)
    show "length (take (length w) (drop (length u) ?b)) = length w" using l by (simp add: nul_set_def)
  next
    fix i
    assume "i < length (take (length w) (drop (length u) ?b))"
    then have i: "i < length w" by simp
    have n: "line ! (length u + i) = w ! i" using w(1) i by (simp add: nth_append)
    have "length u + i \<notin> E" using E [of "length u + i"] w(3) i n w(1) by auto
    then show "take (length w) (drop (length u) ?b) ! i = w ! i"
      using i l n pre [of "length u + i"] w(1) by (simp add: nul_set_def)
  qed
  moreover have "drop (length w) (drop (length u) ?b) = 0 # drop (Suc (length u + length w)) ?b"
  proof -
    have "?b ! (length u + length w) = 0" "length u + length w < length ?b" using e l by (simp_all add: nul_set_def)
    then show ?thesis using Cons_nth_drop_Suc [of "length u + length w" ?b] by (simp add: add.commute)
  qed
  ultimately have "drop (length u) ?b = w @ 0 # drop (Suc (length u + length w)) ?b" by (metis append_take_drop_id)
  moreover have "0 \<notin> set w" using w(1) line(1) zstr_simps(3) [of buf] by auto
  then have "zstr (w @ 0 # x) = w" for x by (induction w) auto
  ultimately show ?thesis unfolding p nulterminate_set E_def [symmetric] using w(2) by simp
qed

text \<open>
  C30: after the parse, the string that an argument or file name of the command points to in the buffer is the word it was
  parsed from: the NUL bytes \<^verbatim>\<open>nulterminate\<close> stores end each word and touch no other one.
\<close>

theorem parsecmd_strings:
  assumes "parsecmd buf = Inr (cmd, buf')" "length (zstr buf) < length buf" "t \<in> toks cmd"
  shows "zstr (drop (length (zstr buf) - length (fst t)) buf') = take (length (fst t) - length (snd t)) (fst t)"
proof -
  from assms(1) have "buf' = nulterminate (zstr buf) cmd buf" by (rule parsecmd_Inr)
  then show ?thesis using nulterminate_string [OF refl assms(2) parsecmd_wf [OF assms(1)] assms(3)] by simp
qed

subsection \<open>A line\<close>

definition demo_line :: "uchar list" where
  "demo_line = bytes ''ls -l|wc>out'' @ [10, 0]"

lemma demo_line_parses: "\<exists>cmd buf' t. parsecmd demo_line = Inr (cmd, buf') \<and> t \<in> toks cmd"
proof -
  have "case parsecmd demo_line of Inr (PIPE (EXEC ts) c, b) \<Rightarrow> ts \<noteq> [] | _ \<Rightarrow> False" by code_simp
  then obtain ts c b where p: "parsecmd demo_line = Inr (PIPE (EXEC ts) c, b)" "ts \<noteq> []"
    by (auto split: sum.splits cmd.splits)
  then show ?thesis by (intro exI [of _ "PIPE (EXEC ts) c"] exI [of _ b] exI [of _ "hd ts"]) simp
qed

theorem parsecmd_well_formed_witness: "\<exists>cmd buf'. parsecmd demo_line = Inr (cmd, buf') \<and> wf_cmd (zstr demo_line) cmd"
  using demo_line_parses parsecmd_well_formed by blast

theorem parsecmd_strings_witness:
  "\<exists>cmd buf' t. parsecmd demo_line = Inr (cmd, buf') \<and> t \<in> toks cmd \<and>
     zstr (drop (length (zstr demo_line) - length (fst t)) buf') = take (length (fst t) - length (snd t)) (fst t)"
proof -
  from demo_line_parses obtain cmd buf' t where p: "parsecmd demo_line = Inr (cmd, buf')" "t \<in> toks cmd" by blast
  have "length (zstr demo_line) < length demo_line" by code_simp
  from p parsecmd_strings [OF p(1) this p(2)] show ?thesis by blast
qed

end
