(* ===== verification/Shellprint.thy ===== *)
theory Shellprint
  imports Shell
begin

section \<open>Parsing what is printed\<close>

text \<open>
  Commands by their words, a printer for them, and the proof that the parser of the shell reads every printed command back:
  the grammar of the shell is unambiguous on printed lines, with parentheses where a command stands in a place that binds
  tighter than its own connective.
\<close>

subsection \<open>Commands and their text\<close>

datatype scmd = SExec "uchar list list" | SRedir scmd "uchar list" uint nat | SPipe scmd scmd | SList scmd scmd | SBack scmd

definition tok_word :: "tok \<Rightarrow> uchar list" where
  "tok_word t = take (length (fst t) - length (snd t)) (fst t)"

fun cmd_words :: "cmd \<Rightarrow> scmd" where
  "cmd_words (EXEC args) = SExec (map tok_word args)"
| "cmd_words (REDIR c file mode fd) = SRedir (cmd_words c) (tok_word file) mode fd"
| "cmd_words (PIPE left right) = SPipe (cmd_words left) (cmd_words right)"
| "cmd_words (LIST left right) = SList (cmd_words left) (cmd_words right)"
| "cmd_words (BACK c) = SBack (cmd_words c)"

definition a_word :: "uchar list \<Rightarrow> bool" where
  "a_word w \<longleftrightarrow> w \<noteq> [] \<and> 0 \<notin> set w \<and> (\<forall>c \<in> set w. word_byte c)"

fun printable :: "scmd \<Rightarrow> bool" where
  "printable (SExec ws) \<longleftrightarrow> length ws < MAXARGS \<and> (\<forall>w \<in> set ws. a_word w)"
| "printable (SRedir c f mode fd) \<longleftrightarrow> printable c \<and> a_word f \<and> redir_mode mode fd"
| "printable (SPipe l r) \<longleftrightarrow> printable l \<and> printable r"
| "printable (SList l r) \<longleftrightarrow> printable l \<and> printable r"
| "printable (SBack c) \<longleftrightarrow> printable c"

definition redir_sym :: "uint \<Rightarrow> nat \<Rightarrow> uchar list" where
  "redir_sym mode fd =
     (if fd = 0 then bytes ''<'' else if mode = O_WRONLY OR O_CREATE then bytes ''>>'' else bytes ''>'')"

text \<open>
  The places of a command: 0 inside of a redirection or on the left of a \<^verbatim>\<open>|\<close>, 1 on its right, 2 before \<^verbatim>\<open>&\<close> or \<^verbatim>\<open>;\<close>, 3 anywhere.
\<close>

definition paren :: "bool \<Rightarrow> uchar list \<Rightarrow> uchar list" where
  "paren b s = (if b then bytes ''('' @ s @ bytes '')'' else s)"

fun show_cmd :: "nat \<Rightarrow> scmd \<Rightarrow> uchar list" where
  "show_cmd p (SExec ws) = concat (map (\<lambda>w. w @ bytes '' '') ws)"
| "show_cmd p (SRedir c f mode fd) = show_cmd 0 c @ redir_sym mode fd @ f @ bytes '' ''"
| "show_cmd p (SPipe l r) = paren (p < 1) (show_cmd 0 l @ bytes ''|'' @ show_cmd 1 r)"
| "show_cmd p (SBack c) = paren (p < 2) (show_cmd 2 c @ bytes ''&'')"
| "show_cmd p (SList l r) = paren (p < 3) (show_cmd 2 l @ bytes '';'' @ show_cmd 3 r)"

subsection \<open>More fuel changes nothing\<close>

definition settled :: "sherr + 'a \<Rightarrow> bool" where
  "settled r \<longleftrightarrow> r \<noteq> Inl ShFuel"

lemma settled_andthen: "settled (andthen x f) \<longleftrightarrow> settled x \<and> (\<forall>a. x = Inr a \<longrightarrow> settled (f a))"
  by (cases x) (auto simp: settled_def)

lemma andthen_more:
  assumes "settled (andthen x f)" "settled x \<Longrightarrow> x' = x" "\<And>a. x = Inr a \<Longrightarrow> settled (f a) \<Longrightarrow> f' a = f a"
  shows "andthen x' f' = andthen x f"
  using assms by (cases x) (auto simp: settled_andthen settled_def)

lemma parse_more:
  "(settled (parseline n ps) \<longrightarrow> parseline (Suc n) ps = parseline n ps) \<and> (settled (parsepipe n ps) \<longrightarrow> parsepipe (Suc n) ps = parsepipe n ps) \<and>
   (settled (parseblock n ps) \<longrightarrow> parseblock (Suc n) ps = parseblock n ps) \<and> (settled (parseexec n ps) \<longrightarrow> parseexec (Suc n) ps = parseexec n ps)"
proof (induction n arbitrary: ps)
  case 0
  then show ?case by (simp add: settled_def)
next
  case (Suc n)
  have L: "settled (parseline n qs) \<Longrightarrow> parseline (Suc n) qs = parseline n qs"
    and P: "settled (parsepipe n qs) \<Longrightarrow> parsepipe (Suc n) qs = parsepipe n qs"
    and B: "settled (parseblock n qs) \<Longrightarrow> parseblock (Suc n) qs = parseblock n qs"
    and E: "settled (parseexec n qs) \<Longrightarrow> parseexec (Suc n) qs = parseexec n qs" for qs
    using Suc.IH [of qs] by blast+
  show ?case
  proof (intro conjI impI)
    assume "settled (parseline (Suc n) ps)"
    then show "parseline (Suc (Suc n)) ps = parseline (Suc n) ps"
      unfolding parseline.simps(2)
      by (rule andthen_more) (use L P in \<open>auto split: prod.splits if_splits intro!: andthen_more\<close>)
  next
    assume "settled (parsepipe (Suc n) ps)"
    then show "parsepipe (Suc (Suc n)) ps = parsepipe (Suc n) ps"
      unfolding parsepipe.simps(2)
      by (rule andthen_more) (use E P in \<open>auto split: prod.splits if_splits intro!: andthen_more\<close>)
  next
    assume "settled (parseblock (Suc n) ps)"
    then show "parseblock (Suc (Suc n)) ps = parseblock (Suc n) ps"
      unfolding parseblock.simps(2)
      by (auto simp del: parseline.simps split: prod.splits if_splits intro!: andthen_more L)
  next
    assume "settled (parseexec (Suc n) ps)"
    then show "parseexec (Suc (Suc n)) ps = parseexec (Suc n) ps"
      unfolding parseexec.simps(2) by (auto simp del: parseblock.simps split: prod.splits if_splits intro!: B)
  qed
qed

text \<open>The result of a routine of the parser for all large amounts of fuel.\<close>

definition parses :: "(nat \<Rightarrow> uchar list \<Rightarrow> 'r) \<Rightarrow> uchar list \<Rightarrow> 'r \<Rightarrow> bool" where
  "parses f ps r \<longleftrightarrow> (\<exists>N. \<forall>n \<ge> N. f n ps = r)"

lemma parses_Suc:
  assumes "\<And>n. n \<ge> N \<Longrightarrow> f (Suc n) ps = r"
  shows "parses f ps r"
  unfolding parses_def
proof (intro exI allI impI)
  fix n
  assume "Suc N \<le> n"
  then show "f n ps = r" using assms [of "n - 1"] by (cases n) simp_all
qed

lemma parseline_result:
  assumes "parses parseline ps r" "settled r" "4 * length ps + 4 \<le> n"
  shows "parseline n ps = r"
proof -
  have s: "settled (parseline n ps)" using parse_fuel [of ps n] assms(3) by (simp add: settled_def)
  have "parseline (n + k) ps = parseline n ps" for k
  proof (induction k)
    case (Suc k)
    then have "settled (parseline (n + k) ps)" using s by simp
    then show ?case using parse_more [of "n + k" ps] Suc by simp
  qed simp
  moreover obtain N where "\<forall>m \<ge> N. parseline m ps = r" using assms(1) unfolding parses_def by blast
  ultimately show ?thesis by (metis le_add2)
qed

subsection \<open>Tokens of printed text\<close>

text \<open>The byte the parser sees next.\<close>

definition nxt :: "uchar list \<Rightarrow> uchar" where
  "nxt k = deref (skip_ws k)"

lemma skip_ws_simps [simp]:
  "skip_ws (skip_ws s) = skip_ws s" "\<not> is_ws c \<Longrightarrow> skip_ws (c # s) = c # s" "skip_ws (32 # s) = skip_ws s" "skip_ws [] = []"
  by (simp_all add: skip_ws_def is_ws_iff)

lemma nxt_simps [simp]: "nxt (skip_ws k) = nxt k" "\<not> is_ws c \<Longrightarrow> nxt (c # s) = c"
  by (simp_all add: nxt_def)

lemma peek_eq: "0 \<notin> set (bytes ts) \<Longrightarrow> peek ps ts = (nxt ps \<in> set (bytes ts), skip_ws ps)"
proof -
  assume "0 \<notin> set (bytes ts)"
  moreover then have "zstr (bytes ts) = bytes ts" unfolding zstr_def takeWhile_eq_all_conv by metis
  ultimately show ?thesis by (auto simp: peek_def nxt_def Let_def strchr_zstr)
qed

lemma peek_skip [simp]: "peek (skip_ws ps) ts = peek ps ts"
  by (simp add: peek_def)

lemma not_ws [simp]: "c \<in> {124, 40, 41, 59, 38, 60, 62} \<Longrightarrow> \<not> is_ws c"
  by (auto simp: is_ws_iff)

lemma gettoken_sym: "c \<in> {124, 40, 41, 59, 38, 60} \<Longrightarrow> gettoken (c # s) = (c, (c # s, s), skip_ws s)"
  by (auto simp: gettoken_def bytes_def)

lemma gettoken_gt: "deref s \<noteq> 62 \<Longrightarrow> gettoken (62 # s) = (62, (62 # s, s), skip_ws s)"
  by (simp add: gettoken_def bytes_def)

lemma gettoken_gtgt: "gettoken (62 # 62 # s) = (43, (62 # 62 # s, s), skip_ws s)"
  by (simp add: gettoken_def bytes_def)

lemma a_word_hd:
  assumes "a_word w"
  shows "skip_ws (w @ s) = w @ s" "nxt (w @ s) = hd w" "hd w \<noteq> 0" "word_byte (hd w)" "hd w \<notin> {124, 40, 41, 59, 38, 60, 62}"
proof -
  obtain c v where w: "w = c # v" "c \<noteq> 0" "word_byte c" using assms by (cases w) (auto simp: a_word_def)
  show "hd w \<noteq> 0" "word_byte (hd w)" using w by simp_all
  have "\<not> is_ws c" using w(3) by (simp add: word_byte_def)
  then show "skip_ws (w @ s) = w @ s" "nxt (w @ s) = hd w" using w(1) by simp_all
  show "hd w \<notin> {124, 40, 41, 59, 38, 60, 62}" using w(3) by (auto simp: w(1) word_byte_def is_sym_iff bytes_def)
qed

lemma gettoken_a_word:
  assumes "a_word w"
  shows "gettoken (w @ 32 # s) = (97, (w @ 32 # s, 32 # s), skip_ws s)" "tok_word (w @ 32 # s, 32 # s) = w"
proof -
  have h: "deref (w @ 32 # s) = hd w" using assms by (cases w) (simp_all add: a_word_def)
  have d: "dropWhile (\<lambda>c. \<not> is_ws c \<and> \<not> is_sym c) (w @ 32 # s) = 32 # s"
    using assms by (subst dropWhile_append2) (auto simp: a_word_def word_byte_def is_ws_iff)
  show "gettoken (w @ 32 # s) = (97, (w @ 32 # s, 32 # s), skip_ws s)"
    using a_word_hd(1,2) [OF assms, of "32 # s"] a_word_hd(3-5) [OF assms] by (simp add: gettoken_def h d bytes_def)
  show "tok_word (w @ 32 # s, 32 # s) = w" by (simp add: tok_word_def)
qed

subsection \<open>Redirections and arguments\<close>

lemma parse_skip [simp]:
  "parseredirs c (skip_ws ps) = parseredirs c ps" "parseback c (skip_ws ps) = parseback c ps" "parseargs m c (skip_ws ps) = parseargs m c ps"
  by (simp_all add: parseredirs.simps [of c "skip_ws ps"] parseredirs.simps [of c ps] parseback.simps [of c "skip_ws ps"]
      parseback.simps [of c ps] parseargs.simps [of m c "skip_ws ps"] parseargs.simps [of m c ps])

lemma parseexec_skip [simp]: "parseexec n (skip_ws ps) = parseexec n ps"
  by (cases n) simp_all

lemma parsepipe_skip [simp]: "parsepipe n (skip_ws ps) = parsepipe n ps"
  by (cases n) simp_all

lemma parseline_skip [simp]: "parseline n (skip_ws ps) = parseline n ps"
  by (cases n) simp_all

lemma parseredirs_none: "nxt k \<notin> {60, 62} \<Longrightarrow> parseredirs c k = Inr (c, skip_ws k)"
  by (subst parseredirs.simps) (simp add: peek_eq bytes_def)

lemma parseredirs_one:
  assumes "redir_mode mode fd" "a_word f"
  shows "\<exists>t. tok_word t = f \<and> parseredirs c (redir_sym mode fd @ f @ 32 # k) = parseredirs (REDIR c t mode fd) k"
proof (intro exI conjI)
  let ?t = "(f @ 32 # k, 32 # k)"
  show "tok_word ?t = f" by (rule gettoken_a_word(2) [OF assms(2)])
  note g = gettoken_a_word(1) [OF assms(2), of k]
  note h = a_word_hd(1,2) [OF assms(2), of "32 # k"] a_word_hd(3-5) [OF assms(2)]
  have d: "deref (f @ 32 # k) \<noteq> 62" using h(5) assms(2) by (cases f) (auto simp: a_word_def)
  consider "mode = O_RDONLY" "fd = 0" | "mode = O_WRONLY OR O_CREATE OR O_TRUNC" "fd = 1" | "mode = O_WRONLY OR O_CREATE" "fd = 1"
    using assms(1) by (auto simp: redir_mode_def)
  then show "parseredirs c (redir_sym mode fd @ f @ 32 # k) = parseredirs (REDIR c ?t mode fd) k"
    by cases (simp_all add: redir_sym_def bytes_def parseredirs.simps [of c "_ # _"] peek_eq redir_one_def gettoken_sym gettoken_gt [OF d]
        gettoken_gtgt h(1) g)
qed

lemma parseargs_one:
  assumes "a_word w" "argc + 1 < MAXARGS"
  shows "\<exists>t. tok_word t = w \<and> parseargs argc c (w @ 32 # k) = andthen (parseredirs (add_arg t c) k) (\<lambda>(ret, ps). parseargs (argc + 1) ret ps)"
proof (intro exI conjI)
  let ?t = "(w @ 32 # k, 32 # k)"
  show "tok_word ?t = w" by (rule gettoken_a_word(2) [OF assms(1)])
  note h = a_word_hd(1,2) [OF assms(1), of "32 # k"] a_word_hd(3-5) [OF assms(1)]
  show "parseargs argc c (w @ 32 # k) = andthen (parseredirs (add_arg ?t c) k) (\<lambda>(ret, ps). parseargs (argc + 1) ret ps)"
    using assms(2) h(5) by (simp add: parseargs.simps [of argc c "w @ _"] peek_eq bytes_def h(1,2) gettoken_a_word(1) [OF assms(1)])
qed

lemma parseargs_none:
  assumes "nxt k \<in> {0, 124, 41, 38, 59}"
  shows "parseargs argc c k = Inr (c, skip_ws k)"
proof (cases "nxt k = 0")
  case True
  then have "gettoken (skip_ws k) = (0, (skip_ws k, skip_ws k), skip_ws k)" by (simp add: gettoken_def nxt_def Let_def)
  with True show ?thesis by (subst parseargs.simps) (simp add: peek_eq bytes_def)
next
  case False
  with assms show ?thesis by (subst parseargs.simps) (auto simp: peek_eq bytes_def)
qed

subsection \<open>The levels of the grammar\<close>

text \<open>
  What is left to do when \<^verbatim>\<open>parseexec\<close> has read the text of a command in place 0 and \<open>k\<close> follows: more redirections, and more
  arguments if the command is a simple one.
\<close>

fun simple :: "scmd \<Rightarrow> bool" where
  "simple (SExec ws) = True"
| "simple (SRedir c f mode fd) = simple c"
| "simple c = False"

fun argn :: "scmd \<Rightarrow> nat" where
  "argn (SExec ws) = length ws"
| "argn (SRedir c f mode fd) = argn c"
| "argn c = 0"

definition after :: "scmd \<Rightarrow> cmd \<Rightarrow> uchar list \<Rightarrow> sherr + (cmd \<times> uchar list)" where
  "after c c' k = (if simple c then andthen (parseredirs c' k) (\<lambda>(ret, ps). parseargs (argn c) ret ps) else parseredirs c' k)"

definition reads_atom :: "scmd \<Rightarrow> bool" where
  "reads_atom c \<longleftrightarrow> (\<forall>k. nxt k \<noteq> 40 \<longrightarrow> (\<exists>c'. cmd_words c' = c \<and> parses parseexec (show_cmd 0 c @ k) (after c c' k)))"

definition reads_pipe :: "scmd \<Rightarrow> bool" where
  "reads_pipe c \<longleftrightarrow>
     (\<forall>k. nxt k \<in> {0, 41, 38, 59} \<longrightarrow> (\<exists>c'. cmd_words c' = c \<and> parses parsepipe (show_cmd 1 c @ k) (Inr (c', skip_ws k))))"

definition reads_back :: "scmd \<Rightarrow> bool" where
  "reads_back c \<longleftrightarrow>
     (\<forall>k. nxt k \<in> {0, 41, 38, 59} \<longrightarrow>
        (\<exists>c' c1 ps1. cmd_words c' = c \<and> parses parsepipe (show_cmd 2 c @ k) (Inr (c1, ps1)) \<and> parseback c1 ps1 = parseback c' k))"

definition reads_line :: "scmd \<Rightarrow> bool" where
  "reads_line c \<longleftrightarrow> (\<forall>k. nxt k \<in> {0, 41} \<longrightarrow> (\<exists>c'. cmd_words c' = c \<and> parses parseline (show_cmd 3 c @ k) (Inr (c', skip_ws k))))"

lemma after_stop:
  assumes "nxt k \<in> {0, 124, 41, 38, 59}"
  shows "after c c' k = Inr (c', skip_ws k)"
proof -
  have "nxt k \<notin> {60, 62}" using assms by auto
  then show ?thesis using parseargs_none [OF assms] by (simp add: after_def parseredirs_none)
qed

lemma reads_atomD:
  assumes "reads_atom c" "nxt k \<in> {0, 124, 41, 38, 59}"
  obtains c' where "cmd_words c' = c" "parses parseexec (show_cmd 0 c @ k) (Inr (c', skip_ws k))"
proof -
  have "nxt k \<noteq> 40" using assms(2) by auto
  then show thesis using assms(1) after_stop [OF assms(2)] that unfolding reads_atom_def by metis
qed

lemma atom_pipe:
  assumes "reads_atom c" "show_cmd 1 c = show_cmd 0 c"
  shows "reads_pipe c"
  unfolding reads_pipe_def
proof (intro allI impI)
  fix k
  assume k: "nxt k \<in> {0, 41, 38, 59}"
  then obtain c' where c: "cmd_words c' = c" "parses parseexec (show_cmd 0 c @ k) (Inr (c', skip_ws k))"
    by (elim reads_atomD [OF assms(1), of k, rotated]) auto
  then obtain N where N: "\<forall>n \<ge> N. parseexec n (show_cmd 0 c @ k) = Inr (c', skip_ws k)" unfolding parses_def by blast
  have "parses parsepipe (show_cmd 1 c @ k) (Inr (c', skip_ws k))"
    by (rule parses_Suc [of N]) (use N k assms(2) in \<open>auto simp: peek_eq bytes_def\<close>)
  then show "\<exists>c'. cmd_words c' = c \<and> parses parsepipe (show_cmd 1 c @ k) (Inr (c', skip_ws k))" using c(1) by blast
qed

lemma pipe_back:
  assumes "reads_pipe c" "show_cmd 2 c = show_cmd 1 c"
  shows "reads_back c"
  using assms unfolding reads_pipe_def reads_back_def by (metis parse_skip(2))

lemma parseback_none: "nxt k \<noteq> 38 \<Longrightarrow> parseback c k = (c, skip_ws k)"
  by (subst parseback.simps) (simp add: peek_eq bytes_def)

lemma back_line:
  assumes "reads_back c" "show_cmd 3 c = show_cmd 2 c"
  shows "reads_line c"
  unfolding reads_line_def
proof (intro allI impI)
  fix k
  assume k: "nxt k \<in> {0, 41}"
  then have "nxt k \<in> {0, 41, 38, 59}" "nxt k \<noteq> 38" by auto
  with assms(1) obtain c' c1 ps1 where c: "cmd_words c' = c" "parses parsepipe (show_cmd 2 c @ k) (Inr (c1, ps1))"
      "parseback c1 ps1 = (c', skip_ws k)"
    unfolding reads_back_def using parseback_none by metis
  then obtain N where N: "\<forall>n \<ge> N. parsepipe n (show_cmd 2 c @ k) = Inr (c1, ps1)" unfolding parses_def by blast
  have "parses parseline (show_cmd 3 c @ k) (Inr (c', skip_ws k))"
    by (rule parses_Suc [of N]) (use N k c(3) assms(2) in \<open>auto simp: peek_eq bytes_def\<close>)
  then show "\<exists>c'. cmd_words c' = c \<and> parses parseline (show_cmd 3 c @ k) (Inr (c', skip_ws k))" using c(1) by blast
qed

lemma line_atom:
  assumes "reads_line c" "show_cmd 0 c = bytes ''('' @ show_cmd 3 c @ bytes '')''" "\<not> simple c"
  shows "reads_atom c"
  unfolding reads_atom_def
proof (intro allI impI)
  fix k :: "uchar list"
  obtain c' where c: "cmd_words c' = c" "parses parseline (show_cmd 3 c @ 41 # k) (Inr (c', skip_ws (41 # k)))"
    using assms(1) unfolding reads_line_def by (metis insertCI nxt_simps(2) not_ws)
  then obtain N where N: "\<forall>n \<ge> N. parseline n (show_cmd 3 c @ 41 # k) = Inr (c', 41 # k)" unfolding parses_def by auto
  have "parses parseexec (show_cmd 0 c @ k) (after c c' k)"
  proof (rule parses_Suc [of "Suc N"])
    fix n
    assume "n \<ge> Suc N"
    then obtain m where m: "n = Suc m" "m \<ge> N" by (cases n) auto
    then show "parseexec (Suc n) (show_cmd 0 c @ k) = after c c' k"
      using N assms(2,3) by (simp add: bytes_def peek_eq gettoken_sym after_def)
  qed
  then show "\<exists>c'. cmd_words c' = c \<and> parses parseexec (show_cmd 0 c @ k) (after c c' k)" using c(1) by blast
qed

lemma exec_reads_atom: "printable (SExec ws) \<Longrightarrow> reads_atom (SExec ws)"
proof (induction ws rule: rev_induct)
  case Nil
  show ?case
    unfolding reads_atom_def
  proof (intro allI impI)
    fix k
    assume k: "nxt k \<noteq> 40"
    have "parses parseexec (show_cmd 0 (SExec []) @ k) (after (SExec []) (EXEC []) k)"
      by (rule parses_Suc [of 0]) (use k in \<open>simp add: peek_eq bytes_def after_def\<close>)
    then show "\<exists>c'. cmd_words c' = SExec [] \<and> parses parseexec (show_cmd 0 (SExec []) @ k) (after (SExec []) c' k)"
      by (intro exI [of _ "EXEC []"]) simp
  qed
next
  case (snoc w ws)
  have w: "a_word w" "length ws + 1 < MAXARGS" using snoc.prems by simp_all
  show ?case
    unfolding reads_atom_def
  proof (intro allI impI)
    fix k :: "uchar list"
    let ?k = "w @ 32 # k"
    have n: "nxt ?k \<noteq> 40" "nxt ?k \<notin> {60, 62}" using a_word_hd(2,5) [OF w(1)] by auto
    then obtain c' where c: "cmd_words c' = SExec ws" "parses parseexec (show_cmd 0 (SExec ws) @ ?k) (after (SExec ws) c' ?k)"
      using snoc.IH snoc.prems unfolding reads_atom_def by (metis Suc_lessD UnI1 length_append_singleton printable.simps(1) set_append)
    obtain t where t: "tok_word t = w"
      "parseargs (length ws) c' ?k = andthen (parseredirs (add_arg t c') k) (\<lambda>(ret, ps). parseargs (length ws + 1) ret ps)"
      using parseargs_one [OF w, of c' k] by blast
    have "after (SExec ws) c' ?k = after (SExec (ws @ [w])) (add_arg t c') k"
      using t(2) by (simp add: after_def parseredirs_none [OF n(2)])
    moreover have "cmd_words (add_arg t c') = SExec (ws @ [w])" using c(1) t(1) by (cases c') auto
    ultimately show "\<exists>c'. cmd_words c' = SExec (ws @ [w]) \<and> parses parseexec (show_cmd 0 (SExec (ws @ [w])) @ k) (after (SExec (ws @ [w])) c' k)"
      using c(2) by (intro exI [of _ "add_arg t c'"]) (simp add: bytes_def)
  qed
qed

lemma redir_reads_atom:
  assumes "reads_atom c" "redir_mode mode fd" "a_word f"
  shows "reads_atom (SRedir c f mode fd)"
  unfolding reads_atom_def
proof (intro allI impI)
  fix k :: "uchar list"
  let ?k = "redir_sym mode fd @ f @ 32 # k"
  have "nxt ?k \<noteq> 40" by (simp add: redir_sym_def bytes_def)
  then obtain c' where c: "cmd_words c' = c" "parses parseexec (show_cmd 0 c @ ?k) (after c c' ?k)"
    using assms(1) unfolding reads_atom_def by blast
  obtain t where t: "tok_word t = f" "parseredirs c' ?k = parseredirs (REDIR c' t mode fd) k" using parseredirs_one [OF assms(2,3)] by blast
  have "after c c' ?k = after (SRedir c f mode fd) (REDIR c' t mode fd) k" using t(2) by (simp add: after_def)
  then show "\<exists>c'. cmd_words c' = SRedir c f mode fd \<and> parses parseexec (show_cmd 0 (SRedir c f mode fd) @ k) (after (SRedir c f mode fd) c' k)"
    using c t(1) by (intro exI [of _ "REDIR c' t mode fd"]) (simp add: bytes_def)
qed

lemma pipe_reads_pipe:
  assumes "reads_atom l" "reads_pipe r"
  shows "reads_pipe (SPipe l r)"
  unfolding reads_pipe_def
proof (intro allI impI)
  fix k
  assume k: "nxt k \<in> {0, 41, 38, 59}"
  let ?k = "124 # show_cmd 1 r @ k"
  obtain l' where l: "cmd_words l' = l" "parses parseexec (show_cmd 0 l @ ?k) (Inr (l', skip_ws ?k))"
    by (rule reads_atomD [OF assms(1), of ?k]) simp_all
  obtain r' where r: "cmd_words r' = r" "parses parsepipe (show_cmd 1 r @ k) (Inr (r', skip_ws k))"
    using assms(2) k unfolding reads_pipe_def by blast
  obtain N M where N: "\<forall>n \<ge> N. parseexec n (show_cmd 0 l @ ?k) = Inr (l', ?k)" "\<forall>n \<ge> M. parsepipe n (show_cmd 1 r @ k) = Inr (r', skip_ws k)"
    using l(2) r(2) unfolding parses_def by auto
  have "parses parsepipe (show_cmd 0 l @ ?k) (Inr (PIPE l' r', skip_ws k))"
    by (rule parses_Suc [of "max N M"]) (use N in \<open>simp add: peek_eq bytes_def gettoken_sym\<close>)
  then show "\<exists>c'. cmd_words c' = SPipe l r \<and> parses parsepipe (show_cmd 1 (SPipe l r) @ k) (Inr (c', skip_ws k))"
    using l(1) r(1) by (intro exI [of _ "PIPE l' r'"]) (simp add: paren_def bytes_def)
qed

lemma back_reads_back:
  assumes "reads_back c"
  shows "reads_back (SBack c)"
  unfolding reads_back_def
proof (intro allI impI)
  fix k :: "uchar list"
  let ?k = "38 # k"
  have "nxt ?k \<in> {0, 41, 38, 59}" by simp
  then obtain c' c1 ps1 where c: "cmd_words c' = c" "parses parsepipe (show_cmd 2 c @ ?k) (Inr (c1, ps1))" "parseback c1 ps1 = parseback c' ?k"
    using assms unfolding reads_back_def by blast
  have "parseback c' ?k = parseback (BACK c') k"
    by (simp add: parseback.simps [of c' ?k] peek_eq bytes_def gettoken_sym)
  then show "\<exists>c' c1 ps1. cmd_words c' = SBack c \<and> parses parsepipe (show_cmd 2 (SBack c) @ k) (Inr (c1, ps1)) \<and> parseback c1 ps1 = parseback c' k"
    using c by (intro exI [of _ "BACK c'"] exI [of _ c1] exI [of _ ps1]) (simp add: paren_def bytes_def)
qed

lemma list_reads_line:
  assumes "reads_back l" "reads_line r"
  shows "reads_line (SList l r)"
  unfolding reads_line_def
proof (intro allI impI)
  fix k
  assume k: "nxt k \<in> {0, 41}"
  let ?k = "59 # show_cmd 3 r @ k"
  have n: "nxt ?k \<in> {0, 41, 38, 59}" "nxt ?k \<noteq> 38" by simp_all
  then obtain l' c1 ps1 where l: "cmd_words l' = l" "parses parsepipe (show_cmd 2 l @ ?k) (Inr (c1, ps1))" "parseback c1 ps1 = (l', ?k)"
    using assms(1) parseback_none [OF n(2)] unfolding reads_back_def by fastforce
  obtain r' where r: "cmd_words r' = r" "parses parseline (show_cmd 3 r @ k) (Inr (r', skip_ws k))"
    using assms(2) k unfolding reads_line_def by blast
  obtain N M where N: "\<forall>n \<ge> N. parsepipe n (show_cmd 2 l @ ?k) = Inr (c1, ps1)" "\<forall>n \<ge> M. parseline n (show_cmd 3 r @ k) = Inr (r', skip_ws k)"
    using l(2) r(2) unfolding parses_def by auto
  have "parses parseline (show_cmd 2 l @ ?k) (Inr (LIST l' r', skip_ws k))"
    by (rule parses_Suc [of "max N M"]) (use N l(3) in \<open>simp add: peek_eq bytes_def gettoken_sym\<close>)
  then show "\<exists>c'. cmd_words c' = SList l r \<and> parses parseline (show_cmd 3 (SList l r) @ k) (Inr (c', skip_ws k))"
    using l(1) r(1) by (intro exI [of _ "LIST l' r'"]) (simp add: paren_def bytes_def)
qed

lemma printable_reads: "printable c \<Longrightarrow> reads_atom c \<and> reads_pipe c \<and> reads_back c \<and> reads_line c"
proof (induction c)
  case (SExec ws)
  have a: "reads_atom (SExec ws)" using SExec by (rule exec_reads_atom)
  then show ?case using back_line pipe_back atom_pipe by (metis show_cmd.simps(1))
next
  case (SRedir c f mode fd)
  then have a: "reads_atom (SRedir c f mode fd)" by (simp add: redir_reads_atom)
  then show ?case using back_line pipe_back atom_pipe by (metis show_cmd.simps(2))
next
  case (SPipe l r)
  then have p: "reads_pipe (SPipe l r)" by (simp add: pipe_reads_pipe)
  then have b: "reads_back (SPipe l r)" by (rule pipe_back) (simp add: paren_def)
  then have n: "reads_line (SPipe l r)" by (rule back_line) (simp add: paren_def)
  then have "reads_atom (SPipe l r)" by (rule line_atom) (simp_all add: paren_def)
  then show ?case using p b n by blast
next
  case (SList l r)
  then have n: "reads_line (SList l r)" by (simp add: list_reads_line)
  then have a: "reads_atom (SList l r)" by (rule line_atom) (simp_all add: paren_def)
  then have p: "reads_pipe (SList l r)" by (rule atom_pipe) (simp add: paren_def)
  then have "reads_back (SList l r)" by (rule pipe_back) (simp add: paren_def)
  then show ?case using p a n by blast
next
  case (SBack c)
  then have b: "reads_back (SBack c)" by (simp add: back_reads_back)
  then have n: "reads_line (SBack c)" by (rule back_line) (simp add: paren_def)
  then have a: "reads_atom (SBack c)" by (rule line_atom) (simp_all add: paren_def)
  then have "reads_pipe (SBack c)" by (rule atom_pipe) (simp add: paren_def)
  then show ?case using b a n by blast
qed

lemma show_cmd_nul: "printable c \<Longrightarrow> 0 \<notin> set (show_cmd p c)"
  by (induction c arbitrary: p) (auto simp: a_word_def bytes_def paren_def redir_sym_def)

text \<open>
  C27: the parser reads back what is printed: for every command of words, redirections, pipelines, lists, background
  commands and parentheses, nested in any way, the line that shows it is parsed without an error into a command with
  exactly that structure and those words.
\<close>

theorem parse_show_cmd:
  assumes "printable c"
  shows "\<exists>cmd buf'. parsecmd (show_cmd 3 c @ 0 # rest) = Inr (cmd, buf') \<and> cmd_words cmd = c"
proof -
  let ?s = "show_cmd 3 c"
  have z: "zstr (?s @ 0 # rest) = ?s" using show_cmd_nul [OF assms, of 3]
    by (simp add: zstr_def takeWhile_append takeWhile_eq_all_conv)
  have "nxt [] \<in> {0, 41}" by (simp add: nxt_def)
  then obtain c' where c: "cmd_words c' = c" "parses parseline (?s @ []) (Inr (c', skip_ws []))"
    using printable_reads [OF assms] unfolding reads_line_def by blast
  then have "parseline (4 * length ?s + 4) ?s = Inr (c', [])" using parseline_result [of ?s "Inr (c', [])"] by (simp add: settled_def)
  then show ?thesis using c(1) z by (simp add: parsecmd_def peek_eq bytes_def Let_def)
qed

theorem parse_show_cmd_witness:
  "\<exists>cmd buf'. parsecmd (bytes ''a b |c ;d <e &'' @ [0]) = Inr (cmd, buf') \<and>
     cmd_words cmd = SList (SPipe (SExec [bytes ''a'', bytes ''b'']) (SExec [bytes ''c''])) (SBack (SRedir (SExec [bytes ''d'']) (bytes ''e'') O_RDONLY 0))"
proof -
  let ?c = "SList (SPipe (SExec [bytes ''a'', bytes ''b'']) (SExec [bytes ''c''])) (SBack (SRedir (SExec [bytes ''d'']) (bytes ''e'') O_RDONLY 0))"
  have "show_cmd 3 ?c = bytes ''a b |c ;d <e &''" by (simp add: paren_def redir_sym_def bytes_def)
  moreover have "printable ?c" by (simp add: a_word_def word_byte_def is_ws_iff is_sym_iff bytes_def redir_mode_def)
  ultimately show ?thesis using parse_show_cmd [of ?c "[]"] by simp
qed

end
