(* ===== verification/Spec2Isabelle.thy ===== *)
theory Spec2Isabelle
  imports Trap Filedata Hart Userprogs Shellprint
begin

text \<open>
  A verification library for xv6 for RISC-V: the kernel under \<^verbatim>\<open>src/kernel\<close> and the user library and programs under
  \<^verbatim>\<open>src/user\<close>.

  \<^bold>\<open>The program and its model.\<close> The kernel is a set of components that share one state: spin locks protect the tables of
  processes, buffers, inodes and files; processes sleep on channels; the file system writes through a log, the log
  through a cache of disk blocks, the cache through a virtio disk; system calls enter by a trap, take their arguments
  from the trapframe and user memory, and work on files and processes. The model has one theory per component, in that order. The
  state of each component is a record that extends the record of the component below it (\<open>kthread\<close>, \<open>machine\<close>, \<open>kmem\<close>,
  \<open>kvm\<close>, \<open>procs\<close>, \<open>slocks\<close>, \<open>storage\<close>, \<open>logst\<close>, \<open>uartst\<close>, \<open>consst\<close>, \<open>fsst\<close>, \<open>pipest\<close>, \<open>filest\<close>, \<open>tickst\<close>, \<open>trapst\<close>), so that a
  routine is a function on any state that has the fields it uses. A routine that can fail, wait or be cut off returns
  \<open>exn + 'a\<close>, with every panic, early return and sleep of the source as a branch. Definitions have the names of the C
  functions; loops whose end the code does not bound carry fuel.

  \<^bold>\<open>The theories.\<close>
  \<^item> \<open>Xv6_Prelude\<close>: the integer types, outcomes, sequencing, loops, and the lemmas all components share. \<open>Ring\<close>: ring
    buffers with free-running indices and the contract of a bounded queue (locale \<open>bounded_fifo\<close>, interpreted in \<open>Uart\<close> and \<open>Pipe\<close>).
  \<^item> \<open>Riscv\<close>: \<^verbatim>\<open>riscv.h\<close>, \<^verbatim>\<open>memlayout.h\<close>, \<^verbatim>\<open>param.h\<close>. \<open>Hart\<close>: \<^verbatim>\<open>swtch.S\<close>, \<^verbatim>\<open>trampoline.S\<close>, \<^verbatim>\<open>kernelvec.S\<close>, \<^verbatim>\<open>entry.S\<close>, \<^verbatim>\<open>start.c\<close> and the part
    of \<^verbatim>\<open>trap.c\<close> that works on the trap registers, on a model of a hart. User programs and kernel code continue after a trap at the interrupted instruction, in
    their mode, with their registers; registers survive timer interrupts and context switches.
  \<^item> \<open>Spinlock\<close>: \<^verbatim>\<open>spinlock.c\<close>, with mutual exclusion for all interleavings of the atomic steps and the refinement to a list of
    locks held. \<open>Kstring\<close>: \<^verbatim>\<open>string.c\<close> and physical memory. \<open>Kalloc\<close>: \<^verbatim>\<open>kalloc.c\<close>, with the free list in the free pages and the
    contract of the allocator (locale \<open>page_allocator\<close>).
  \<^item> \<open>Vm\<close>, \<open>Pagetable\<close>, \<open>Usercopy\<close>, \<open>Vmframe\<close>: \<^verbatim>\<open>vm.c\<close>, the map a page table stands for, what \<^verbatim>\<open>mappages\<close>, \<^verbatim>\<open>copyin\<close>, \<^verbatim>\<open>copyout\<close> and
    \<^verbatim>\<open>copyinstr\<close> do to user memory, and isolation of address spaces.
  \<^item> \<open>Proc\<close>, \<open>Lifecycle\<close>: \<^verbatim>\<open>proc.c\<close>. \<open>Sleeplock\<close>: \<^verbatim>\<open>sleeplock.c\<close>. A routine that calls \<^verbatim>\<open>swtch\<close> is split there.
  \<^item> \<open>Virtio\<close>: \<^verbatim>\<open>virtio_disk.c\<close>. \<open>Bio\<close>, \<open>Blockcache\<close>: \<^verbatim>\<open>bio.c\<close> and the contract of the block cache. \<open>Layout\<close>: \<^verbatim>\<open>fs.h\<close>.
    \<open>Log\<close>, \<open>Transaction\<close>: \<^verbatim>\<open>log.c\<close>, crash safety, durability and the reservation of log space, and the contract of the log (locale \<open>block_tx\<close>).
  \<^item> \<open>Uart\<close>, \<open>Console\<close>: \<^verbatim>\<open>uart.c\<close>, \<^verbatim>\<open>printf.c\<close>, \<^verbatim>\<open>console.c\<close>. The line discipline refines a line editor on two lists.
  \<^item> \<open>Fs\<close>, \<open>Fsblocks\<close>, \<open>Fsinode\<close>, \<open>Filedata\<close>: \<^verbatim>\<open>fs.c\<close>, with the block allocator, the inode table, write-back of inodes, and
    \<^verbatim>\<open>readi\<close> and \<^verbatim>\<open>writei\<close> against a file as a function from positions to bytes.
  \<^item> \<open>Pipe\<close>, \<open>File\<close>: \<^verbatim>\<open>pipe.c\<close>, \<^verbatim>\<open>file.c\<close>. \<open>Exec\<close>: \<^verbatim>\<open>exec.c\<close>. \<open>Sysargs\<close>, \<open>Sysfile\<close>, \<open>Syscall\<close>: \<^verbatim>\<open>syscall.c\<close>, \<^verbatim>\<open>sysfile.c\<close>, \<^verbatim>\<open>sysproc.c\<close>.
    \<open>Trap\<close>: \<^verbatim>\<open>trap.c\<close>, \<^verbatim>\<open>plic.c\<close>, \<^verbatim>\<open>main.c\<close>.
  \<^item> \<open>Ulib\<close>: \<^verbatim>\<open>ulib.c\<close> and \<^verbatim>\<open>printf.c\<close> of \<^verbatim>\<open>src/user\<close>, over the system calls as a parameter. \<open>Regmatch\<close>: the matcher of \<^verbatim>\<open>grep.c\<close>, proved
    to decide the language of its pattern. \<open>Userprogs\<close>: \<^verbatim>\<open>cat\<close>, \<^verbatim>\<open>wc\<close>, \<^verbatim>\<open>grep\<close>, \<^verbatim>\<open>echo\<close>, \<^verbatim>\<open>ls\<close>, \<^verbatim>\<open>kill\<close>, \<^verbatim>\<open>ln\<close>, \<^verbatim>\<open>mkdir\<close>, \<^verbatim>\<open>rm\<close>.
    \<open>Shell\<close>, \<open>Shellprint\<close>: the parser of \<^verbatim>\<open>sh.c\<close>, which ends on every line, returns well-formed commands and reads back
    every printed command.

  \<^bold>\<open>What is a parameter.\<close> The disk device (\<open>vdev\<close>, with \<open>device_ok\<close> as what the virtio specification promises), the values of
  device registers, the interrupt controller, the translation of addresses in \<open>Hart\<close>, and the system calls of user programs
  (\<open>sysc\<close>, with \<open>stream_io\<close> as what \<^verbatim>\<open>read\<close> and \<^verbatim>\<open>write\<close> promise). Each theorem with such a hypothesis has a witness with a
  concrete instance.

  \<^bold>\<open>Fuel and bounds.\<close> The walks of \<^verbatim>\<open>bget\<close> have fuel \<open>NBUF + 1\<close>, which a well-formed ring of \<open>NBUF\<close> buffers does not use up. The
  parser of the shell has fuel four times the length of the line and four, which \<open>parsecmd_terminates\<close> shows to be enough. The
  loops of \<^verbatim>\<open>cat\<close>, \<^verbatim>\<open>wc\<close> and \<^verbatim>\<open>grep\<close> take one unit per read, and the number of bytes of the file and one is enough.
  Counters that wrap around in C are words, or have the wrap-around written out (\<open>ticks\<close>, the indices of the ring buffers, \<open>nextpid\<close>, the file
  offsets and sizes). Block numbers and the reference counts of inodes and files are numbers without a bound: a count is at most the number of
  pointers to the entry, and block numbers are below \<open>2 ^ 31\<close> in the theorems.

  \<^bold>\<open>Concurrency.\<close> Routines are modelled as run by one thread from lock to lock; waiting ends the routine with \<open>Sleeping\<close>,
  \<open>Spinning\<close>, \<open>Yielded\<close> or \<open>Exited\<close>. Where a routine has done work before it waits, its run ends with the state in which it waits, and what it does
  afterwards is a definition of its own (\<open>pipewrite_run\<close> and \<open>pipewrite_resume\<close>, \<open>usertrap_run\<close> and \<open>usertrap_resume\<close>, \<open>kerneltrap_run\<close> and
  \<open>kerneltrap_resume\<close>, \<open>sleep_enter\<close> and \<open>sleep_return\<close>). Interleavings of CPUs are modelled for spin locks. Crashes are modelled as any prefix of
  the writes that reached the disk.

  \<^bold>\<open>Not modelled.\<close> The execution of commands by the shell, and \<^verbatim>\<open>init\<close> and \<^verbatim>\<open>zombie\<close>: sequences of \<^verbatim>\<open>fork\<close>, \<^verbatim>\<open>exec\<close> and \<^verbatim>\<open>wait\<close> of
  several processes, whose calls the kernel theories model one by one. \<^verbatim>\<open>umalloc.c\<close>: the commands of the shell are taken to be
  allocated. \<^verbatim>\<open>mkfs.c\<close>: a program of the host; the model starts from any image in the on-disk format. \<^verbatim>\<open>ramdisk.c\<close> is
  not linked. \<^verbatim>\<open>usertests.c\<close>, \<^verbatim>\<open>grind.c\<close>, \<^verbatim>\<open>forktest.c\<close> and \<^verbatim>\<open>stressfs.c\<close> are tests. Directories, path names, files, \<^verbatim>\<open>exec\<close>, the
  system calls and traps are modelled in full as definitions, with fewer theorems than the layers below them.
\<close>

end
